(* ===== verification/SeBase.thy ===== *)
theory SeBase
  imports "HOL-Library.Word"
begin

text \<open>
  Prelude of the development: the machine types of the C sources, the status
  codes of \<^verbatim>\<open>se_internal.h\<close>, the result type that every fallible operation
  returns, checked array reads, and the generic list and word lemmas that the
  component theories share.

  A C function that reports through \<^verbatim>\<open>se_status_t\<close> returns a value of
  \<open>'a se_result\<close>: \<open>Inl (SeError code message)\<close> for an error return and \<open>Inr x\<close>
  for \<^verbatim>\<open>SE_OK\<close>.  \<open>Inl OutOfBounds\<close> is no value the code can return: it stands
  for the undefined behaviour of a read outside an array, so that memory safety
  is a property of the model (\<open>OutOfBounds\<close> is never the result) and is never
  assumed.  The message is the format string of the source, its arguments left out.
\<close>

unbundle bit_operations_syntax

type_synonym u8 = "8 word"
type_synonym u16 = "16 word"
type_synonym u32 = "32 word"
type_synonym u64 = "64 word"
type_synonym size_t = "64 word"

datatype se_status =
    SE_OK
  | SE_ERR_INVALID_FORMAT
  | SE_ERR_UNSUPPORTED_VERSION
  | SE_ERR_UNSUPPORTED_TOKENIZER
  | SE_ERR_INVALID_UTF8
  | SE_ERR_OOM
  | SE_ERR_IO
  | SE_ERR_EMPTY_INPUT
  | SE_ERR_INTERNAL

datatype se_fault = SeError se_status string | OutOfBounds

type_synonym 'a se_result = "se_fault + 'a"

named_theorems read_simps \<open>evaluation of checked array reads\<close>
named_theorems word_nat \<open>transfer of word facts to natural numbers\<close>

subsection \<open>Results\<close>

definition bindR :: "'a se_result \<Rightarrow> ('a \<Rightarrow> 'b se_result) \<Rightarrow> 'b se_result" where
  "bindR r f = (case r of Inl e \<Rightarrow> Inl e | Inr x \<Rightarrow> f x)"

lemma bindR_Inl [simp]: "bindR (Inl e) f = Inl e"
  and bindR_Inr [simp]: "bindR (Inr x) f = f x"
  by (simp_all add: bindR_def)

lemma bindR_cong [fundef_cong]:
  "r = r' \<Longrightarrow> (\<And>x. r' = Inr x \<Longrightarrow> f x = g x) \<Longrightarrow> bindR r f = bindR r' g"
  by (cases r') auto

lemma bindR_eq_Inr: "bindR r f = Inr y \<longleftrightarrow> (\<exists>x. r = Inr x \<and> f x = Inr y)"
  by (cases r) auto

lemma bindR_eq_Inl:
  "bindR r f = Inl e \<longleftrightarrow> r = Inl e \<or> (\<exists>x. r = Inr x \<and> f x = Inl e)"
  by (cases r) auto

lemma bindR_assoc: "bindR (bindR r f) g = bindR r (\<lambda>x. bindR (f x) g)"
  by (cases r) auto

text \<open>Running a fallible operation on every element of a list, up to the first error.\<close>

fun mapR :: "('a \<Rightarrow> 'b se_result) \<Rightarrow> 'a list \<Rightarrow> 'b list se_result" where
  "mapR f [] = Inr []"
| "mapR f (x # xs) = bindR (f x) (\<lambda>y. bindR (mapR f xs) (\<lambda>ys. Inr (y # ys)))"

lemma mapR_Inr_length: "mapR f xs = Inr ys \<Longrightarrow> length ys = length xs"
  by (induction xs arbitrary: ys) (auto simp: bindR_eq_Inr)

lemma mapR_total: "(\<And>x. x \<in> set xs \<Longrightarrow> \<exists>y. f x = Inr y) \<Longrightarrow> \<exists>ys. mapR f xs = Inr ys"
proof (induction xs)
  case (Cons x xs)
  then obtain y ys where "f x = Inr y" "mapR f xs = Inr ys" by fastforce
  then show ?case by simp
qed simp

lemma mapR_upt_total:
  assumes "\<And>i. i < n \<Longrightarrow> \<exists>y. f i = Inr y"
  shows "\<exists>ys. mapR f [0..<n] = Inr ys \<and> length ys = n"
proof -
  obtain ys where "mapR f [0..<n] = Inr ys"
    using mapR_total [of "[0..<n]" f] assms by auto
  with mapR_Inr_length [OF this] show ?thesis by simp
qed

lemma mapR_set: "mapR f xs = Inr ys \<Longrightarrow> y \<in> set ys \<Longrightarrow> \<exists>x\<in>set xs. f x = Inr y"
  by (induction xs arbitrary: ys) (auto simp: bindR_eq_Inr)

subsection \<open>Checked array reads\<close>

definition rd :: "'a list \<Rightarrow> nat \<Rightarrow> 'a option" where
  "rd xs i = (if i < length xs then Some (xs ! i) else None)"

definition rdR :: "'a list \<Rightarrow> nat \<Rightarrow> 'a se_result" where
  "rdR xs i = (if i < length xs then Inr (xs ! i) else Inl OutOfBounds)"

lemma rd_Some [read_simps]: "i < length xs \<Longrightarrow> rd xs i = Some (xs ! i)"
  by (simp add: rd_def)

lemma rd_eq_Some: "rd xs i = Some x \<longleftrightarrow> i < length xs \<and> xs ! i = x"
  by (auto simp: rd_def)

lemma rd_eq_None: "rd xs i = None \<longleftrightarrow> length xs \<le> i"
  by (auto simp: rd_def)

lemma rdR_Inr [read_simps]: "i < length xs \<Longrightarrow> rdR xs i = Inr (xs ! i)"
  by (simp add: rdR_def)

lemma rdR_eq_Inr: "rdR xs i = Inr x \<longleftrightarrow> i < length xs \<and> xs ! i = x"
  by (auto simp: rdR_def)

lemma rdR_eq_Inl: "rdR xs i = Inl e \<longleftrightarrow> length xs \<le> i \<and> e = OutOfBounds"
  by (auto simp: rdR_def)

lemma find_append:
  "find P (xs @ ys) = (case find P xs of None \<Rightarrow> find P ys | Some x \<Rightarrow> Some x)"
  by (induction xs) auto

text \<open>Checked stores, and a loop that runs a fallible operation on a state for every element of a list.\<close>

definition wrR :: "'a list \<Rightarrow> nat \<Rightarrow> 'a \<Rightarrow> 'a list se_result" where
  "wrR xs i x = (if i < length xs then Inr (xs[i := x]) else Inl OutOfBounds)"

lemma wrR_Inr [read_simps]: "i < length xs \<Longrightarrow> wrR xs i x = Inr (xs[i := x])"
  by (simp add: wrR_def)

fun foldR :: "('s \<Rightarrow> 'a \<Rightarrow> 's se_result) \<Rightarrow> 's \<Rightarrow> 'a list \<Rightarrow> 's se_result" where
  "foldR f s [] = Inr s"
| "foldR f s (x # xs) = bindR (f s x) (\<lambda>s. foldR f s xs)"

lemma foldR_append: "foldR f s (xs @ ys) = bindR (foldR f s xs) (\<lambda>s. foldR f s ys)"
  by (induction xs arbitrary: s) (simp_all add: bindR_assoc)

lemma mapR_Inr: "(\<And>x. x \<in> set xs \<Longrightarrow> f x = Inr (g x)) \<Longrightarrow> mapR f xs = Inr (map g xs)"
  by (induction xs) simp_all

subsection \<open>Words read as natural numbers\<close>

lemmas word_order_nat [word_nat] = word_less_nat_alt word_le_nat_alt

lemma u32_bound: "unat (x :: u32) < 2 ^ 32"
  using unsigned_less [of x] by simp

lemma unat_small_u32: "n < 2 ^ 32 \<Longrightarrow> unat (word_of_nat n :: u32) = n"
  by (simp add: unat_of_nat take_bit_nat_eq_self)

lemma unat_Suc_less:
  fixes x y :: "'a::len word"
  assumes "x < y"
  shows "unat (x + 1) = Suc (unat x)"
proof -
  have "unat x < unat y" using assms by (simp add: word_less_nat_alt)
  moreover have "unat y < 2 ^ LENGTH('a)" by (rule unsigned_less)
  ultimately have "Suc (unat x) < 2 ^ LENGTH('a)" by linarith
  then show ?thesis by (simp add: unat_word_ariths)
qed

lemma unat_sub_le:
  fixes x y :: "'a::len word"
  shows "x \<le> y \<Longrightarrow> unat (y - x) = unat y - unat x"
  by (simp add: unat_sub word_le_nat_alt)

lemma unat_ucast_up:
  fixes w :: "'a::len word"
  assumes "LENGTH('a) \<le> LENGTH('b::len)"
  shows "unat (ucast w :: 'b word) = unat w"
proof -
  have "unat w < 2 ^ LENGTH('a)" by (rule unsigned_less)
  also have "(2::nat) ^ LENGTH('a) \<le> 2 ^ LENGTH('b)" using assms by simp
  finally show ?thesis by (simp add: unsigned_ucast_eq take_bit_nat_eq_self)
qed

lemma unat_ucast_mod:
  "unat (ucast (w :: 'a::len word) :: 'b::len word) = unat w mod 2 ^ LENGTH('b)"
  by (simp add: unsigned_ucast_eq take_bit_eq_mod)

lemma unat_and_mask: "unat (x AND mask n) = unat x mod 2 ^ n"
  unfolding take_bit_eq_mask [symmetric] unsigned_take_bit_eq by (simp add: take_bit_eq_mod)

lemma unat_and_low [word_nat]:
  "unat (x AND 1) = unat x mod 2"
  "unat (x AND 7) = unat x mod 8"
  "unat (x AND 15) = unat x mod 16"
  "unat (x AND 31) = unat x mod 32"
  "unat (x AND 63) = unat x mod 64"
  "unat (x AND 255) = unat x mod 256"
  "unat (x AND 1023) = unat x mod 1024"
  using unat_and_mask [of x 1] unat_and_mask [of x 3] unat_and_mask [of x 4]
    unat_and_mask [of x 5] unat_and_mask [of x 6] unat_and_mask [of x 8] unat_and_mask [of x 10]
  by (simp_all add: mask_eq_exp_minus_1)

lemma unat_drop_bit [word_nat]: "unat (drop_bit n x) = unat x div 2 ^ n"
  unfolding unat_drop_bit_eq by (simp add: drop_bit_eq_div)

lemma unat_push_bit:
  fixes x :: "'a::len word"
  assumes "unat x * 2 ^ n < 2 ^ LENGTH('a)"
  shows "unat (push_bit n x) = unat x * 2 ^ n"
  using assms unfolding unsigned_push_bit_eq
  by (simp add: push_bit_eq_mult take_bit_nat_eq_self)

text \<open>A shifted high part joined with a low part by \<open>OR\<close> is their sum.\<close>

lemma nat_or_shift:
  fixes a b :: nat
  assumes "b < 2 ^ n"
  shows "a * 2 ^ n OR b = a * 2 ^ n + b"
proof -
  have "push_bit n a AND take_bit n b = 0"
    by (simp add: bit_eq_iff bit_simps)
  moreover have "take_bit n b = b" using assms by (simp add: take_bit_nat_eq_self)
  ultimately have "a * 2 ^ n AND b = 0" by (simp add: push_bit_eq_mult)
  then show ?thesis by (rule disjunctive_add_eq_or [symmetric])
qed

lemma unat_shift_or:
  fixes x y :: "'a::len word"
  assumes "unat x * 2 ^ n < 2 ^ LENGTH('a)" and "unat y < 2 ^ n"
  shows "unat (push_bit n x OR y) = unat x * 2 ^ n + unat y"
  using assms by (simp add: unsigned_or_eq unat_push_bit nat_or_shift)

lemma unat_and_not_mask:
  fixes x :: "'a::len word"
  shows "unat (x AND NOT (mask n)) = unat x div 2 ^ n * 2 ^ n"
proof -
  have "x AND NOT (mask n) = push_bit n (drop_bit n x)"
    by (auto simp: bit_eq_iff bit_simps)
  moreover have "unat x div 2 ^ n * 2 ^ n < 2 ^ LENGTH('a)"
    using unsigned_less [of x] by (rule le_less_trans [OF div_times_less_eq_dividend])
  ultimately show ?thesis
    by (simp add: unat_push_bit unat_drop_bit)
qed

end
