(* ===== verification/SizeArith.thy ===== *)
theory SizeArith
  imports SeBase
begin

text \<open>
  The checked size arithmetic of \<^verbatim>\<open>se_internal.h\<close> on 64-bit \<^verbatim>\<open>size_t\<close> values.
  A function that returns 0 and leaves \<^verbatim>\<open>*out\<close> alone is \<open>None\<close> here, a function
  that stores a result and returns 1 is \<open>Some\<close> of it.  The lemmas say that the
  guards, themselves computed with wrapping arithmetic, are exact: a result is
  returned when and only when the mathematical sum, product or capacity fits.
\<close>

subsection \<open>Checked addition and multiplication\<close>

definition SE_SIZE_MAX :: size_t where
  "SE_SIZE_MAX = - 1"

definition LONG_MAX :: size_t where
  "LONG_MAX = 0x7FFFFFFFFFFFFFFF"

definition se_checked_add_size :: "size_t \<Rightarrow> size_t \<Rightarrow> size_t option" where
  "se_checked_add_size a b = (if a > SE_SIZE_MAX - b then None else Some (a + b))"

definition se_checked_mul_size :: "size_t \<Rightarrow> size_t \<Rightarrow> size_t option" where
  "se_checked_mul_size a b = (if a \<noteq> 0 \<and> b > SE_SIZE_MAX div a then None else Some (a * b))"

definition se_array_bytes :: "size_t \<Rightarrow> size_t \<Rightarrow> size_t option" where
  "se_array_bytes count elem_size = se_checked_mul_size count elem_size"

definition se_alloc_count :: "size_t \<Rightarrow> size_t" where
  "se_alloc_count count = (if count \<noteq> 0 then count else 1)"

definition se_alloc_bytes :: "size_t \<Rightarrow> size_t \<Rightarrow> size_t option" where
  "se_alloc_bytes count elem_size = se_checked_mul_size (se_alloc_count count) elem_size"

definition se_size_fits_long :: "size_t \<Rightarrow> bool" where
  "se_size_fits_long n = (n \<le> LONG_MAX)"

lemma unat_SE_SIZE_MAX: "unat SE_SIZE_MAX = 2 ^ 64 - 1"
  by (simp add: SE_SIZE_MAX_def unsigned_minus_1_eq_mask mask_eq_exp_minus_1)

lemma size_t_bound: "unat (x :: size_t) < 2 ^ 64"
  using unsigned_less [of x] by simp

lemma checked_add_size_eq:
  "se_checked_add_size a b = (if unat a + unat b < 2 ^ 64 then Some (a + b) else None)"
proof -
  have "b \<le> SE_SIZE_MAX" by (simp add: SE_SIZE_MAX_def)
  then have "unat (SE_SIZE_MAX - b) = 2 ^ 64 - 1 - unat b"
    by (simp add: unat_sub_le unat_SE_SIZE_MAX)
  then have "a > SE_SIZE_MAX - b \<longleftrightarrow> \<not> unat a + unat b < 2 ^ 64"
    using size_t_bound [of b] by (auto simp: word_less_nat_alt)
  then show ?thesis by (simp add: se_checked_add_size_def)
qed

lemma checked_add_size_Some:
  "se_checked_add_size a b = Some c \<longleftrightarrow> unat c = unat a + unat b"
proof
  assume "se_checked_add_size a b = Some c"
  then show "unat c = unat a + unat b"
    by (auto simp: checked_add_size_eq unat_word_ariths split: if_splits)
next
  assume c: "unat c = unat a + unat b"
  with size_t_bound [of c] have "unat a + unat b < 2 ^ 64" by simp
  moreover from this c have "c = a + b"
    by (simp add: word_unat_eq_iff unat_word_ariths)
  ultimately show "se_checked_add_size a b = Some c" by (simp add: checked_add_size_eq)
qed

lemma checked_mul_size_eq:
  "se_checked_mul_size a b = (if unat a * unat b < 2 ^ 64 then Some (a * b) else None)"
proof (cases "a = 0")
  case True
  then show ?thesis by (simp add: se_checked_mul_size_def)
next
  case False
  then have a: "0 < unat a" by (simp add: unat_gt_0)
  have "unat (SE_SIZE_MAX div a) = (2 ^ 64 - 1) div unat a"
    by (simp add: unat_div unat_SE_SIZE_MAX)
  then have "b > SE_SIZE_MAX div a \<longleftrightarrow> (2 ^ 64 - 1) div unat a < unat b"
    by (simp add: word_less_nat_alt)
  also have "\<dots> \<longleftrightarrow> \<not> unat a * unat b < 2 ^ 64"
    using div_less_iff_less_mult [OF a, of "2 ^ 64 - 1" "unat b"]
    by (simp add: mult.commute [of "unat a"]) linarith
  finally show ?thesis using False by (simp add: se_checked_mul_size_def)
qed

lemma checked_mul_size_Some:
  "se_checked_mul_size a b = Some c \<longleftrightarrow> unat c = unat a * unat b"
proof
  assume "se_checked_mul_size a b = Some c"
  then show "unat c = unat a * unat b"
    by (auto simp: checked_mul_size_eq unat_word_ariths split: if_splits)
next
  assume c: "unat c = unat a * unat b"
  with size_t_bound [of c] have "unat a * unat b < 2 ^ 64" by simp
  moreover from this c have "c = a * b"
    by (simp add: word_unat_eq_iff unat_word_ariths)
  ultimately show "se_checked_mul_size a b = Some c" by (simp add: checked_mul_size_eq)
qed

subsection \<open>Capacity growth\<close>

lemma double_size_t:
  assumes "\<not> next > SE_SIZE_MAX div 2"
  shows "unat (next * 2) = 2 * unat next"
proof -
  have "unat next \<le> (2 ^ 64 - 1) div 2"
    using assms by (simp add: word_less_nat_alt unat_div unat_SE_SIZE_MAX)
  then have "unat next * 2 < 2 ^ 64" by simp
  then show ?thesis by (simp add: unat_word_ariths)
qed

text \<open>
  The doubling loop.  It is entered with \<open>next \<ge> 1\<close>, and a doubling below
  \<^verbatim>\<open>SE_SIZE_MAX / 2\<close> keeps \<open>next\<close> positive, so the conjunct \<open>next \<noteq> 0\<close> is
  never what ends it; the definition needs it because from 0 the loop would spin.
\<close>

function capacity_loop :: "size_t \<Rightarrow> size_t \<Rightarrow> size_t option" where
  "capacity_loop next need =
     (if next < need \<and> next \<noteq> 0
      then (if next > SE_SIZE_MAX div 2 then None else capacity_loop (next * 2) need)
      else Some next)"
  by pat_completeness auto

termination
proof (relation "measure (\<lambda>(next, need). unat need - unat next)", goal_cases)
  case 1
  show ?case by simp
next
  case (2 "next" need)
  then have "0 < unat next" and "unat next < unat need"
    by (simp_all add: word_less_nat_alt unat_gt_0)
  with double_size_t [of "next"] 2 show ?case by simp
qed

declare capacity_loop.simps [simp del]

definition se_next_capacity :: "size_t \<Rightarrow> size_t \<Rightarrow> size_t \<Rightarrow> size_t option" where
  "se_next_capacity current need min_capacity =
     (let next = (if current \<noteq> 0 then current else min_capacity);
          next = (if next = 0 then 1 else next)
      in capacity_loop next need)"

lemma capacity_loop_result:
  "next \<noteq> 0 \<Longrightarrow> capacity_loop next need = Some c \<Longrightarrow>
   \<exists>k. unat c = unat next * 2 ^ k \<and> unat need \<le> unat c \<and> (k = 0 \<or> unat c < 2 * unat need)"
proof (induction "next" need rule: capacity_loop.induct)
  case (1 "next" need)
  show ?case
  proof (cases "next < need")
    case False
    with "1.prems" have "c = next" by (simp add: capacity_loop.simps [of "next"])
    with False show ?thesis by (intro exI [of _ 0]) (simp add: word_less_nat_alt)
  next
    case True
    with "1.prems" have small: "\<not> next > SE_SIZE_MAX div 2"
      and rec: "capacity_loop (next * 2) need = Some c"
      by (auto simp: capacity_loop.simps [of "next"] split: if_splits)
    note dbl = double_size_t [OF small]
    have nz: "next * 2 \<noteq> 0"
      using dbl "1.prems"(1) by (metis mult_eq_0_iff unat_eq_0 zero_neq_numeral)
    have "\<exists>k. unat c = unat (next * 2) * 2 ^ k \<and> unat need \<le> unat c
        \<and> (k = 0 \<or> unat c < 2 * unat need)"
      using True "1.prems"(1) by (intro "1.IH" [OF _ small nz rec]) simp
    then obtain k where k: "unat c = unat (next * 2) * 2 ^ k" "unat need \<le> unat c"
      "k = 0 \<or> unat c < 2 * unat need" by blast
    show ?thesis
      using k dbl True by (intro exI [of _ "Suc k"]) (auto simp: word_less_nat_alt)
  qed
qed

lemma capacity_loop_None:
  "next \<noteq> 0 \<Longrightarrow> capacity_loop next need = None \<Longrightarrow>
   \<exists>k. unat next * 2 ^ k < unat need \<and> 2 ^ 64 \<le> unat next * 2 ^ Suc k"
proof (induction "next" need rule: capacity_loop.induct)
  case (1 "next" need)
  then have lt: "next < need" by (auto simp: capacity_loop.simps [of "next"] split: if_splits)
  show ?case
  proof (cases "next > SE_SIZE_MAX div 2")
    case True
    then have "(2 ^ 64 - 1) div 2 < unat next"
      by (simp add: word_less_nat_alt unat_div unat_SE_SIZE_MAX)
    with lt show ?thesis by (intro exI [of _ 0]) (simp add: word_less_nat_alt)
  next
    case False
    note dbl = double_size_t [OF False]
    have nz: "next * 2 \<noteq> 0"
      using dbl "1.prems"(1) by (metis mult_eq_0_iff unat_eq_0 zero_neq_numeral)
    from False lt "1.prems" have "capacity_loop (next * 2) need = None"
      by (simp add: capacity_loop.simps [of "next"])
    from "1.IH" [OF _ False nz this] lt "1.prems"(1) obtain k
      where "unat (next * 2) * 2 ^ k < unat need" "2 ^ 64 \<le> unat (next * 2) * 2 ^ Suc k" by auto
    with dbl show ?thesis by (intro exI [of _ "Suc k"]) simp
  qed
qed

lemma next_capacity_ge:
  assumes "se_next_capacity current need mn = Some c"
  shows "need \<le> c" and "c \<noteq> 0"
proof -
  define start where
    "start = (let n = (if current \<noteq> 0 then current else mn) in if n = 0 then 1 else n)"
  have start: "start \<noteq> 0" "capacity_loop start need = Some c"
    using assms by (simp_all add: se_next_capacity_def start_def Let_def)
  from capacity_loop_result [OF this] obtain k
    where "unat c = unat start * 2 ^ k" "unat need \<le> unat c" by blast
  with start(1) show "need \<le> c" "c \<noteq> 0" by (auto simp: word_le_nat_alt unat_eq_0)
qed

subsection \<open>Exactness\<close>

text \<open>
  The overflow guards are exact.  \<^verbatim>\<open>se_checked_add_size\<close> and
  \<^verbatim>\<open>se_checked_mul_size\<close> return a result exactly when the sum or the product of the two
  numbers is representable, and then the result is that number.
\<close>

lemma checked_arithmetic_exact:
  "(se_checked_add_size a b = Some c \<longleftrightarrow> unat c = unat a + unat b) \<and>
   (se_checked_mul_size a b = Some c \<longleftrightarrow> unat c = unat a * unat b) \<and>
   (se_checked_add_size a b = None \<longleftrightarrow> 2 ^ 64 \<le> unat a + unat b) \<and>
   (se_checked_mul_size a b = None \<longleftrightarrow> 2 ^ 64 \<le> unat a * unat b)"
  by (simp add: checked_add_size_Some checked_mul_size_Some)
    (simp add: checked_add_size_eq checked_mul_size_eq)

text \<open>
  The growth policy of every buffer.  From the current capacity, or the minimum when there
  is none, \<^verbatim>\<open>se_next_capacity\<close> returns the first doubling that holds \<open>need\<close> elements; it
  overshoots \<open>need\<close> by less than a factor of two unless no doubling was needed, and gives up only when
  the first sufficient doubling would not fit a \<^verbatim>\<open>size_t\<close>.
\<close>

lemma next_capacity_exact:
  "\<exists>start. unat start = (let n = (if current \<noteq> 0 then unat current else unat min_capacity)
                          in if n = 0 then 1 else n) \<and>
    (case se_next_capacity current need min_capacity of
       Some c \<Rightarrow> \<exists>k. unat c = unat (start :: size_t) * 2 ^ k \<and> unat need \<le> unat c \<and>
                   (k = 0 \<or> unat c < 2 * unat need)
     | None \<Rightarrow> \<exists>k. unat start * 2 ^ k < unat need \<and> 2 ^ 64 \<le> unat start * 2 ^ Suc k)"
proof -
  define start where
    "start = (let n = (if current \<noteq> 0 then current else min_capacity) in if n = 0 then 1 else n)"
  have nz: "start \<noteq> 0" by (simp add: start_def Let_def)
  have eq: "se_next_capacity current need min_capacity = capacity_loop start need"
    by (simp add: se_next_capacity_def start_def Let_def)
  have val: "unat start = (let n = (if current \<noteq> 0 then unat current else unat min_capacity)
      in if n = 0 then 1 else n)"
    by (simp add: start_def Let_def unat_eq_0)
  show ?thesis
  proof (cases "capacity_loop start need")
    case None
    then show ?thesis using capacity_loop_None [OF nz None] val eq by (intro exI [of _ start]) simp
  next
    case (Some c)
    then show ?thesis using capacity_loop_result [OF nz Some] val eq by (intro exI [of _ start]) simp
  qed
qed

end
