(* ===== verification/Unicode.thy ===== *)
theory Unicode
  imports SeBase
begin

text \<open>
  UTF-8 as \<^verbatim>\<open>se_unicode.c\<close> and \<^verbatim>\<open>se_tokenizer.c\<close> read and write it, and the fixed
  code point classes.  A byte buffer with its length is a list of bytes; a
  position is a natural number below its length.  \<^verbatim>\<open>decode_one\<close> returns the code
  point and the position after it, \<open>None\<close> where the C function returns 0.
  The lemmas show that the decoder accepts exactly the shortest-form encodings of
  Unicode scalar values, which is what \<^verbatim>\<open>se_utf8_encode\<close> produces.
\<close>

subsection \<open>Code point classes\<close>

definition valid_unicode_codepoint :: "u32 \<Rightarrow> bool" where
  "valid_unicode_codepoint cp = (cp \<le> 0x10FFFF \<and> \<not> (cp \<ge> 0xD800 \<and> cp \<le> 0xDFFF))"

definition se_is_ascii_punct :: "u32 \<Rightarrow> bool" where
  "se_is_ascii_punct cp =
     ((cp \<ge> 33 \<and> cp \<le> 47) \<or> (cp \<ge> 58 \<and> cp \<le> 64) \<or> (cp \<ge> 91 \<and> cp \<le> 96) \<or>
      (cp \<ge> 123 \<and> cp \<le> 126))"

definition se_is_ascii_whitespace :: "u32 \<Rightarrow> bool" where
  "se_is_ascii_whitespace cp = (cp = 32 \<or> cp = 9 \<or> cp = 10 \<or> cp = 13)"

definition se_is_ascii_boundary :: "u32 \<Rightarrow> bool" where
  "se_is_ascii_boundary cp = (cp < 0x80 \<and> (se_is_ascii_whitespace cp \<or> se_is_ascii_punct cp))"

definition se_is_cjk :: "u32 \<Rightarrow> bool" where
  "se_is_cjk cp =
     ((cp \<ge> 0x4E00 \<and> cp \<le> 0x9FFF) \<or> (cp \<ge> 0x3400 \<and> cp \<le> 0x4DBF) \<or>
      (cp \<ge> 0x20000 \<and> cp \<le> 0x2A6DF) \<or> (cp \<ge> 0x2A700 \<and> cp \<le> 0x2B73F) \<or>
      (cp \<ge> 0x2B740 \<and> cp \<le> 0x2B81F) \<or> (cp \<ge> 0x2B920 \<and> cp \<le> 0x2CEAF) \<or>
      (cp \<ge> 0xF900 \<and> cp \<le> 0xFAFF) \<or> (cp \<ge> 0x2F800 \<and> cp \<le> 0x2FA1F))"

subsection \<open>Encoding\<close>

definition se_utf8_encode :: "u32 \<Rightarrow> u8 list" where
  "se_utf8_encode cp =
     (if cp < 0x80 then [ucast cp]
      else if cp < 0x800 then
        [ucast (0xC0 OR drop_bit 6 cp), ucast (0x80 OR (cp AND 0x3F))]
      else if cp < 0x10000 then
        [ucast (0xE0 OR drop_bit 12 cp), ucast (0x80 OR (drop_bit 6 cp AND 0x3F)),
         ucast (0x80 OR (cp AND 0x3F))]
      else
        [ucast (0xF0 OR drop_bit 18 cp), ucast (0x80 OR (drop_bit 12 cp AND 0x3F)),
         ucast (0x80 OR (drop_bit 6 cp AND 0x3F)), ucast (0x80 OR (cp AND 0x3F))])"

subsection \<open>Decoding\<close>

text \<open>The loop over the continuation bytes \<open>k = 1, \<dots>, need\<close>.\<close>

function decode_tail :: "u8 list \<Rightarrow> nat \<Rightarrow> nat \<Rightarrow> nat \<Rightarrow> u32 \<Rightarrow> (u32 option) se_result" where
  "decode_tail src i k need cp =
     (if k \<le> need
      then bindR (rdR src (i + k)) (\<lambda>bk.
             if (bk AND 0xC0) \<noteq> 0x80 then Inr None
             else decode_tail src i (k + 1) need (push_bit 6 cp OR ucast (bk AND 0x3F)))
      else Inr (Some cp))"
  by pat_completeness auto
termination by (relation "measure (\<lambda>(src, i, k, need, cp). Suc need - k)") auto

declare decode_tail.simps [simp del]

definition overlong :: "nat \<Rightarrow> u32 \<Rightarrow> bool" where
  "overlong need cp =
     ((need = 1 \<and> cp < 0x80) \<or> (need = 2 \<and> cp < 0x800) \<or> (need = 3 \<and> cp < 0x10000))"

definition decode_lead :: "u8 \<Rightarrow> (u32 \<times> nat) option" where
  "decode_lead b0 =
     (if (b0 AND 0xE0) = 0xC0 then Some (ucast b0 AND 0x1F, 1)
      else if (b0 AND 0xF0) = 0xE0 then Some (ucast b0 AND 0x0F, 2)
      else if (b0 AND 0xF8) = 0xF0 then Some (ucast b0 AND 0x07, 3)
      else None)"

definition decode_one :: "u8 list \<Rightarrow> nat \<Rightarrow> ((u32 \<times> nat) option) se_result" where
  "decode_one src i =
     bindR (rdR src i) (\<lambda>b0.
       if b0 < 0x80 then Inr (Some (ucast b0, i + 1))
       else case decode_lead b0 of
         None \<Rightarrow> Inr None
       | Some (cp0, need) \<Rightarrow>
           if i + need \<ge> length src then Inr None
           else bindR (decode_tail src i 1 need cp0) (\<lambda>r.
             case r of
               None \<Rightarrow> Inr None
             | Some cp \<Rightarrow>
                 if overlong need cp then Inr None
                 else if cp > 0x10FFFF \<or> (cp \<ge> 0xD800 \<and> cp \<le> 0xDFFF) then Inr None
                 else Inr (Some (cp, i + (need + 1)))))"

text \<open>
  \<^verbatim>\<open>se_utf8_decode\<close> writes at most \<open>out_cap\<close> code points and reports in \<^verbatim>\<open>*ok\<close>
  whether the whole buffer was decoded.  The result is the list of code points
  written, whose length is the value returned, and the flag.
\<close>

function utf8_decode_loop :: "u8 list \<Rightarrow> nat \<Rightarrow> u32 list \<Rightarrow> nat \<Rightarrow> (u32 list \<times> bool) se_result" where
  "utf8_decode_loop src i out out_cap =
     (if i < length src then
        (if length out \<ge> out_cap then Inr (out, False)
         else bindR (rdR src i) (\<lambda>b0.
           case (if b0 < 0x80 then Some (ucast b0, 0) else decode_lead b0) of
             None \<Rightarrow> Inr (out, False)
           | Some (cp0, need) \<Rightarrow>
               if i + need \<ge> length src \<and> need > 0 then Inr (out, False)
               else bindR (decode_tail src i 1 need cp0) (\<lambda>r.
                 case r of
                   None \<Rightarrow> Inr (out, False)
                 | Some cp \<Rightarrow>
                     if overlong need cp then Inr (out, False)
                     else if cp > 0x10FFFF \<or> (cp \<ge> 0xD800 \<and> cp \<le> 0xDFFF) then Inr (out, False)
                     else utf8_decode_loop src (i + (need + 1)) (out @ [cp]) out_cap)))
      else Inr (out, True))"
  by pat_completeness auto
termination by (relation "measure (\<lambda>(src, i, out, out_cap). length src - i)") auto

declare utf8_decode_loop.simps [simp del]

definition se_utf8_decode :: "u8 list \<Rightarrow> nat \<Rightarrow> (u32 list \<times> bool) se_result" where
  "se_utf8_decode src out_cap = utf8_decode_loop src 0 [] out_cap"

subsection \<open>Bytes and code points as numbers\<close>

lemma high_bits_eq:
  fixes b c :: u8 and n :: nat
  shows "b AND NOT (mask n) = c \<longleftrightarrow> unat b div 2 ^ n * 2 ^ n = unat c"
  using unat_and_not_mask [of b n] by (simp add: word_unat_eq_iff)

lemma lead2_iff: "(b :: u8) AND 0xE0 = 0xC0 \<longleftrightarrow> 192 \<le> unat b \<and> unat b < 224"
proof -
  have e: "(0xE0 :: u8) = NOT (mask 5)" by (simp add: mask_eq_exp_minus_1)
  show ?thesis unfolding e high_bits_eq by (simp, arith)
qed

lemma lead3_iff: "(b :: u8) AND 0xF0 = 0xE0 \<longleftrightarrow> 224 \<le> unat b \<and> unat b < 240"
proof -
  have e: "(0xF0 :: u8) = NOT (mask 4)" by (simp add: mask_eq_exp_minus_1)
  show ?thesis unfolding e high_bits_eq by (simp, arith)
qed

lemma lead4_iff: "(b :: u8) AND 0xF8 = 0xF0 \<longleftrightarrow> 240 \<le> unat b \<and> unat b < 248"
proof -
  have e: "(0xF8 :: u8) = NOT (mask 3)" by (simp add: mask_eq_exp_minus_1)
  show ?thesis unfolding e high_bits_eq by (simp, arith)
qed

lemma tail_iff: "(b :: u8) AND 0xC0 = 0x80 \<longleftrightarrow> 128 \<le> unat b \<and> unat b < 192"
proof -
  have e: "(0xC0 :: u8) = NOT (mask 6)" by (simp add: mask_eq_exp_minus_1)
  show ?thesis unfolding e high_bits_eq by (simp, arith)
qed

lemma ascii_iff: "(b :: u8) < 0x80 \<longleftrightarrow> unat b < 128"
  by (simp add: word_less_nat_alt)

lemmas byte_class = ascii_iff lead2_iff lead3_iff lead4_iff tail_iff

lemma or_tag:
  fixes x :: u32
  shows "unat x < 32 \<Longrightarrow> unat (ucast (0xC0 OR x) :: u8) = 192 + unat x"
    and "unat x < 16 \<Longrightarrow> unat (ucast (0xE0 OR x) :: u8) = 224 + unat x"
    and "unat x < 8 \<Longrightarrow> unat (ucast (0xF0 OR x) :: u8) = 240 + unat x"
    and "unat x < 64 \<Longrightarrow> unat (ucast (0x80 OR x) :: u8) = 128 + unat x"
  using nat_or_shift [of "unat x" 5 6] nat_or_shift [of "unat x" 4 14]
    nat_or_shift [of "unat x" 3 30] nat_or_shift [of "unat x" 6 2]
  by (simp_all add: unat_ucast_mod unsigned_or_eq)

fun nat_utf8 :: "nat \<Rightarrow> nat list" where
  "nat_utf8 n =
     (if n < 128 then [n]
      else if n < 2048 then [192 + n div 64, 128 + n mod 64]
      else if n < 65536 then [224 + n div 4096, 128 + n div 64 mod 64, 128 + n mod 64]
      else [240 + n div 262144, 128 + n div 4096 mod 64, 128 + n div 64 mod 64, 128 + n mod 64])"

lemma utf8_encode_nat:
  assumes "unat cp < 0x200000"
  shows "map unat (se_utf8_encode cp) = nat_utf8 (unat cp)"
proof -
  have tail: "unat (ucast (0x80 OR (x AND 0x3F)) :: u8) = 128 + unat x mod 64" for x :: u32
    by (subst or_tag(4)) (simp_all add: word_nat)
  have low: "unat (ucast cp :: u8) = unat cp" if "unat cp < 128"
    using that by (simp add: unat_ucast_mod)
  show ?thesis
    using assms
    by (auto simp: se_utf8_encode_def word_less_nat_alt tail unat_drop_bit or_tag
        less_mult_imp_div_less low)
qed

lemma valid_nat:
  "valid_unicode_codepoint cp \<longleftrightarrow>
     unat cp < 0x110000 \<and> \<not> (0xD800 \<le> unat cp \<and> unat cp < 0xE000)"
  by (auto simp: valid_unicode_codepoint_def word_le_nat_alt)

lemma u8_list_eqI: "map unat (xs :: u8 list) = map unat ys \<Longrightarrow> xs = ys"
  by (rule map_injective [of unat]) (auto simp: inj_def word_unat_eq_iff)

lemma utf8_encode_length: "length (se_utf8_encode cp) \<in> {1, 2, 3, 4}"
  by (simp add: se_utf8_encode_def)

lemma utf8_encode_nonempty: "se_utf8_encode cp \<noteq> []"
  by (simp add: se_utf8_encode_def)

lemma unat_join:
  "unat cp < 0x4000000 \<Longrightarrow>
   unat (push_bit 6 (cp :: u32) OR ucast (b AND 0x3F :: u8)) = unat cp * 64 + unat b mod 64"
  using unat_shift_or [of cp 6 "ucast (b AND 0x3F)"] by (simp add: unat_ucast_up word_nat)

definition tail_join :: "u32 \<Rightarrow> u8 \<Rightarrow> u32" where
  "tail_join cp bk = push_bit 6 cp OR ucast (bk AND 0x3F)"

definition tail_byte :: "u8 \<Rightarrow> bool" where
  "tail_byte b = (b AND 0xC0 = 0x80)"

lemma decode_tail_eq:
  "i + need < length src \<Longrightarrow>
   decode_tail src i k need cp =
     Inr (if list_all tail_byte (map (\<lambda>j. src ! (i + j)) [k..<Suc need])
          then Some (foldl tail_join cp (map (\<lambda>j. src ! (i + j)) [k..<Suc need])) else None)"
proof (induction src i k need cp rule: decode_tail.induct)
  case (1 src i k need cp)
  show ?case
  proof (cases "k \<le> need")
    case True
    then have "[k..<Suc need] = k # [Suc k..<Suc need]" by (simp add: upt_conv_Cons)
    moreover have "rdR src (i + k) = Inr (src ! (i + k))"
      using True "1.prems" by (simp add: rdR_def)
    ultimately show ?thesis
      using True 1 by (auto simp: decode_tail.simps [of src i k] tail_byte_def tail_join_def)
  next
    case False
    then show ?thesis by (simp add: decode_tail.simps)
  qed
qed

lemma unat_tail_join:
  "unat cp < 0x4000000 \<Longrightarrow> unat (tail_join cp b) = unat cp * 64 + unat b mod 64"
  unfolding tail_join_def by (rule unat_join)

lemma decode_lead_eq:
  "decode_lead b =
     (if 192 \<le> unat b \<and> unat b < 224 then Some (ucast b AND 0x1F, 1)
      else if 224 \<le> unat b \<and> unat b < 240 then Some (ucast b AND 0x0F, 2)
      else if 240 \<le> unat b \<and> unat b < 248 then Some (ucast b AND 0x07, 3)
      else None)"
  by (simp add: decode_lead_def byte_class cong: if_cong)

lemma tail_byte_nat: "tail_byte b \<longleftrightarrow> 128 \<le> unat b \<and> unat b < 192"
  by (simp add: tail_byte_def tail_iff)

text \<open>The decoder on the bytes at position \<open>i\<close>, every read made explicit.\<close>

lemma decode_one_eq:
  assumes "i < length src"
  shows "decode_one src i = Inr
    (if unat (src ! i) < 128 then Some (ucast (src ! i), i + 1)
     else case decode_lead (src ! i) of
       None \<Rightarrow> None
     | Some (cp0, need) \<Rightarrow>
         (let tl = map (\<lambda>j. src ! (i + j)) [1..<Suc need]; cp = foldl tail_join cp0 tl
          in if i + need < length src \<and> list_all tail_byte tl \<and> \<not> overlong need cp
                \<and> valid_unicode_codepoint cp
             then Some (cp, i + (need + 1)) else None))"
  using assms
  by (auto simp: decode_one_def rdR_def ascii_iff decode_tail_eq not_le not_less Let_def
      valid_unicode_codepoint_def split: option.splits prod.splits)

lemma upt_needs: "[Suc 0..<2] = [1]" "[Suc 0..<3] = [1, 2]"
  by (simp_all add: upt_rec)

lemma sextet_split:
  "n = q * 64 + r \<Longrightarrow> r < 64 \<Longrightarrow> n div 64 = q \<and> n mod 64 = (r :: nat)"
  by simp

lemma nat_utf8_2:
  assumes "n = x * 64 + y" "y < 64" "128 \<le> n" "x < 32"
  shows "nat_utf8 n = [192 + x, 128 + y]"
proof -
  have "n div 64 = x \<and> n mod 64 = y" using assms by (intro sextet_split)
  moreover have "n < 2048" using assms by linarith
  ultimately show ?thesis using assms(3) by simp
qed

lemma nat_utf8_3:
  assumes "n = m * 64 + z" "m = x * 64 + y" "y < 64" "z < 64" "2048 \<le> n" "x < 16"
  shows "nat_utf8 n = [224 + x, 128 + y, 128 + z]"
proof -
  have n: "n div 64 = m \<and> n mod 64 = z" using assms by (intro sextet_split)
  have m: "m div 64 = x \<and> m mod 64 = y" using assms by (intro sextet_split)
  have "n div 4096 = n div 64 div 64" by (simp flip: div_mult2_eq)
  moreover have "n < 65536" using assms by linarith
  ultimately show ?thesis using assms(5) n m by simp
qed

lemma nat_utf8_4:
  assumes "n = l * 64 + w" "l = m * 64 + z" "m = x * 64 + y" "y < 64" "z < 64" "w < 64" "65536 \<le> n"
  shows "nat_utf8 n = [240 + x, 128 + y, 128 + z, 128 + w]"
proof -
  have n: "n div 64 = l \<and> n mod 64 = w" using assms by (intro sextet_split)
  have l: "l div 64 = m \<and> l mod 64 = z" using assms by (intro sextet_split)
  have m: "m div 64 = x \<and> m mod 64 = y" using assms by (intro sextet_split)
  have "n div 4096 = n div 64 div 64" "n div 262144 = n div 64 div 64 div 64"
    by (simp_all flip: div_mult2_eq)
  then show ?thesis using assms(7) n l m by simp
qed

text \<open>The decoder inverts the encoder.\<close>

text \<open>What the decoder returns on a lead byte and its tail bytes, read as numbers.\<close>

definition accept :: "nat \<Rightarrow> nat \<Rightarrow> nat \<Rightarrow> (u32 \<times> nat) option" where
  "accept lowest n j =
     (if lowest \<le> n \<and> valid_unicode_codepoint (word_of_nat n) then Some (word_of_nat n, j) else None)"

lemma mod_shifted: "(x :: nat) < m \<Longrightarrow> (x + k * m) mod m = x"
  by simp

lemma tag_mod:
  fixes x :: nat
  shows "x < 32 \<Longrightarrow> (192 + x) mod 32 = x" "x < 16 \<Longrightarrow> (224 + x) mod 16 = x"
    "x < 8 \<Longrightarrow> (240 + x) mod 8 = x" "x < 64 \<Longrightarrow> (128 + x) mod 64 = x"
  using mod_shifted [of x 32 6] mod_shifted [of x 16 14] mod_shifted [of x 8 30] mod_shifted [of x 64 2]
  by (simp_all add: add.commute)

lemma u32_eqI: "unat (x :: u32) = n \<Longrightarrow> x = word_of_nat n"
  by auto

lemma decode_two:
  assumes "i + 1 < length src" "unat (src ! i) = 192 + x" "x < 32"
    "unat (src ! (i + 1)) = 128 + y" "y < 64"
  shows "decode_one src i = Inr (accept 128 (x * 64 + y) (i + 2))"
proof -
  let ?c = "tail_join (ucast (src ! i) AND 0x1F) (src ! (i + 1))"
  have c: "unat ?c = x * 64 + y"
    using assms by (simp add: unat_tail_join word_nat unat_ucast_up tag_mod)
  show ?thesis
    using assms c u32_eqI [OF c] decode_one_eq [of i src]
    by (auto simp: decode_lead_eq tail_byte_nat overlong_def accept_def word_less_nat_alt Let_def upt_needs)
qed

lemma decode_three:
  assumes "i + 2 < length src" "unat (src ! i) = 224 + x" "x < 16"
    "unat (src ! (i + 1)) = 128 + y" "y < 64" "unat (src ! (i + 2)) = 128 + z" "z < 64"
  shows "decode_one src i = Inr (accept 2048 ((x * 64 + y) * 64 + z) (i + 3))"
proof -
  let ?b = "tail_join (ucast (src ! i) AND 0x0F) (src ! (i + 1))"
  let ?c = "tail_join ?b (src ! (i + 2))"
  have b: "unat ?b = x * 64 + y"
    using assms by (simp add: unat_tail_join word_nat unat_ucast_up tag_mod)
  then have c: "unat ?c = (x * 64 + y) * 64 + z"
    using assms by (subst unat_tail_join) (simp_all add: tag_mod)
  show ?thesis
    using assms c u32_eqI [OF c] decode_one_eq [of i src]
    by (auto simp: decode_lead_eq tail_byte_nat overlong_def accept_def word_less_nat_alt Let_def upt_needs)
qed


lemma decode_four:
  assumes "i + 3 < length src" "unat (src ! i) = 240 + x" "x < 8"
    "unat (src ! (i + 1)) = 128 + y" "y < 64" "unat (src ! (i + 2)) = 128 + z" "z < 64"
    "unat (src ! (i + 3)) = 128 + w" "w < 64"
  shows "decode_one src i = Inr (accept 65536 (((x * 64 + y) * 64 + z) * 64 + w) (i + 4))"
proof -
  let ?a = "tail_join (ucast (src ! i) AND 0x07) (src ! (i + 1))"
  let ?b = "tail_join ?a (src ! (i + 2))"
  let ?c = "tail_join ?b (src ! (i + 3))"
  have a: "unat ?a = x * 64 + y"
    using assms by (simp add: unat_tail_join word_nat unat_ucast_up tag_mod)
  then have b: "unat ?b = (x * 64 + y) * 64 + z"
    using assms by (subst unat_tail_join) (simp_all add: tag_mod)
  then have c: "unat ?c = ((x * 64 + y) * 64 + z) * 64 + w"
    using assms by (subst unat_tail_join) (simp_all add: tag_mod)
  show ?thesis
    using assms c u32_eqI [OF c] decode_one_eq [of i src]
    by (auto simp: decode_lead_eq tail_byte_nat overlong_def accept_def word_less_nat_alt Let_def upt_needs)
qed

lemma drop_length:
  assumes "drop i xs = ys @ zs" and "ys \<noteq> []"
  shows "i + length ys \<le> length xs"
proof -
  have "length xs - i = length ys + length zs" using assms(1) by (metis length_drop length_append)
  moreover have "0 < length ys" using assms(2) by simp
  ultimately show ?thesis by linarith
qed

lemma drop_nth:
  assumes "drop i xs = ys @ zs" and "j < length ys"
  shows "xs ! (i + j) = ys ! j"
proof -
  have "ys \<noteq> []" using assms(2) by auto
  from drop_length [OF assms(1) this] have "i \<le> length xs" by simp
  then have "xs ! (i + j) = drop i xs ! j" by simp
  then show ?thesis using assms by (simp add: nth_append)
qed

lemma decode_one_encode:
  assumes valid: "valid_unicode_codepoint cp" and src: "drop i src = se_utf8_encode cp @ rest"
  shows "decode_one src i = Inr (Some (cp, i + length (se_utf8_encode cp)))"
proof -
  let ?e = "se_utf8_encode cp" and ?n = "unat cp"
  have cp: "?n < 0x110000" using valid by (simp add: valid_nat)
  have enc: "map unat ?e = nat_utf8 ?n"
    using cp by (intro utf8_encode_nat) simp
  then have elen: "length ?e = length (nat_utf8 ?n)" by (metis length_map)
  have len: "i + length ?e \<le> length src"
    using src utf8_encode_nonempty by (rule drop_length)
  have nth: "unat (src ! (i + j)) = nat_utf8 ?n ! j" if "j < length ?e" for j
    using drop_nth [OF src that] that enc by (metis nth_map)
  have parts: "?n div 64 * 64 + ?n mod 64 = ?n"
    "?n div 4096 * 64 + ?n div 64 mod 64 = ?n div 64"
    "?n div 262144 * 64 + ?n div 4096 mod 64 = ?n div 4096"
    by (simp_all add: div_mult2_eq [of ?n 64 64, simplified] div_mult2_eq [of ?n 4096 64, simplified])
  note acc = accept_def valid
  consider (one) "?n < 128" | (two) "128 \<le> ?n" "?n < 2048"
    | (three) "2048 \<le> ?n" "?n < 65536" | (four) "65536 \<le> ?n" by linarith
  then show ?thesis
  proof cases
    case one
    then have "unat (src ! i) = ?n" using nth [of 0] elen by simp
    then show ?thesis
      using one decode_one_eq [of i src] len elen by (simp add: word_unat_eq_iff unat_ucast_up)
  next
    case two
    then have "unat (src ! i) = 192 + ?n div 64" "unat (src ! (i + 1)) = 128 + ?n mod 64"
      using nth [of 0] nth [of 1] elen by simp_all
    then show ?thesis
      using decode_two [of i src "?n div 64" "?n mod 64"] two len elen by (simp add: acc parts)
  next
    case three
    then have "unat (src ! i) = 224 + ?n div 4096" "unat (src ! (i + 1)) = 128 + ?n div 64 mod 64"
      "unat (src ! (i + 2)) = 128 + ?n mod 64"
      using nth [of 0] nth [of 1] nth [of 2] elen by simp_all
    then show ?thesis
      using decode_three [of i src "?n div 4096" "?n div 64 mod 64" "?n mod 64"] three len elen
      by (simp add: acc parts)
  next
    case four
    then have "unat (src ! i) = 240 + ?n div 262144" "unat (src ! (i + 1)) = 128 + ?n div 4096 mod 64"
      "unat (src ! (i + 2)) = 128 + ?n div 64 mod 64" "unat (src ! (i + 3)) = 128 + ?n mod 64"
      using nth [of 0] nth [of 1] nth [of 2] nth [of 3] elen by simp_all
    then show ?thesis
      using decode_four [of i src "?n div 262144" "?n div 4096 mod 64" "?n div 64 mod 64" "?n mod 64"]
        four len elen cp by (simp add: acc parts)
  qed
qed

lemma accept_Some:
  assumes "accept lowest n j = Some (cp, j')"
  shows "cp = word_of_nat n" "j' = j" "lowest \<le> n" "valid_unicode_codepoint cp"
  using assms by (auto simp: accept_def split: if_splits)

lemma split_at:
  assumes "j = i + length ys" "j \<le> length xs" "\<And>k. k < length ys \<Longrightarrow> xs ! (i + k) = ys ! k"
  shows "drop i xs = ys @ drop j xs"
proof -
  have "take (length ys) (drop i xs) = ys"
    using assms by (intro nth_equalityI) auto
  then show ?thesis
    using append_take_drop_id [of "length ys" "drop i xs"] assms(1) by (simp add: add.commute)
qed

lemma split_at_encode:
  assumes "j = i + length ns" "j \<le> length src" "unat cp < 0x110000" "nat_utf8 (unat cp) = ns"
    "\<And>k. k < length ns \<Longrightarrow> unat (src ! (i + k)) = ns ! k"
  shows "j = i + length (se_utf8_encode cp) \<and> drop i src = se_utf8_encode cp @ drop j src"
proof -
  have enc: "map unat (se_utf8_encode cp) = ns" using assms(3,4) utf8_encode_nat [of cp] by simp
  then have len: "length (se_utf8_encode cp) = length ns" by (metis length_map)
  have "src ! (i + k) = se_utf8_encode cp ! k" if "k < length (se_utf8_encode cp)" for k
    using assms(5) [of k] that enc len by (metis nth_map word_unat_eq_iff)
  with assms(1,2) len show ?thesis by (simp add: split_at)
qed

declare nat_utf8.simps [simp del]

lemma decode_one_sound:
  assumes dec: "decode_one src i = Inr (Some (cp, j))"
  shows "valid_unicode_codepoint cp \<and> j = i + length (se_utf8_encode cp) \<and>
         drop i src = se_utf8_encode cp @ drop j src"
proof -
  have i: "i < length src" using dec by (auto simp: decode_one_def rdR_def split: if_splits)
  note eq = decode_one_eq [OF i] and tb = tail_byte_nat
  define b where "b = (\<lambda>k. unat (src ! (i + k)))"
  have tails: "\<exists>y. b k = 128 + y \<and> y < 64" if "tail_byte (src ! (i + k))" for k
    using that by (intro exI [of _ "b k - 128"]) (auto simp: tb b_def)
  consider (one) "b 0 < 128" | (two) "192 \<le> b 0" "b 0 < 224" | (three) "224 \<le> b 0" "b 0 < 240"
    | (four) "240 \<le> b 0" "b 0 < 248"
    using dec eq by (auto simp: decode_lead_eq b_def split: if_splits)
  then show ?thesis
  proof cases
    case one
    then have c: "cp = ucast (src ! i)" "j = i + 1" using dec eq by (simp_all add: b_def)
    then have u: "unat cp = b 0" by (simp add: b_def unat_ucast_up)
    from one i c u have "j = i + length (se_utf8_encode cp) \<and> drop i src = se_utf8_encode cp @ drop j src"
      by (intro split_at_encode [of j i "[b 0]"]) (simp_all add: b_def nat_utf8.simps)
    moreover have "valid_unicode_codepoint cp" using one u by (simp add: valid_nat)
    ultimately show ?thesis by blast
  next
    case two
    then have t: "i + 1 < length src" "tail_byte (src ! (i + 1))"
      using dec eq by (auto simp: decode_lead_eq b_def Let_def split: if_splits)
    obtain x where x: "b 0 = 192 + x" "x < 32" using two by (intro that [of "b 0 - 192"]) auto
    obtain y where y: "b 1 = 128 + y" "y < 64" using tails [OF t(2)] by auto
    from decode_two [of i src x y] dec t(1) x y
    have acc: "accept 128 (x * 64 + y) (i + 2) = Some (cp, j)" by (simp add: b_def)
    note a = accept_Some [OF acc]
    have u: "unat cp = x * 64 + y" unfolding a(1) using x y by (intro unat_small_u32) simp
    have code: "nat_utf8 (unat cp) = [192 + x, 128 + y]"
      using nat_utf8_2 [of "unat cp" x y] u x y a(3) by simp
    have lt: "unat cp < 0x110000" using a(4) by (simp only: valid_nat)
    have nth: "unat (src ! (i + k)) = [b 0, b 1] ! k" if "k < length [b 0, b 1]" for k
      using that by (auto simp: b_def less_Suc_eq nth_Cons' numeral_3_eq_3)
    have "j = i + length [b 0, b 1]" "j \<le> length src" using a(2) t(1) by simp_all
    note split_at_encode [OF this lt _ nth]
    moreover note code
    ultimately have "j = i + length (se_utf8_encode cp) \<and> drop i src = se_utf8_encode cp @ drop j src"
      using x y by simp
    with a(4) show ?thesis by blast
  next
    case three
    then have t: "i + 2 < length src" "tail_byte (src ! (i + 1))" "tail_byte (src ! (i + 2))"
      using dec eq by (auto simp: decode_lead_eq b_def Let_def upt_needs split: if_splits)
    obtain x where x: "b 0 = 224 + x" "x < 16"
      using three by (intro that [of "b 0 - 224"]) auto
    obtain y where y: "b 1 = 128 + y" "y < 64" using tails [OF t(2)] by auto
    obtain z where z: "b 2 = 128 + z" "z < 64" using tails [OF t(3)] by auto
    from decode_three [of i src x y z] dec t(1) x y z
    have acc: "accept 2048 ((x * 64 + y) * 64 + z) (i + 3) = Some (cp, j)" by (simp add: b_def)
    note a = accept_Some [OF acc]
    have u: "unat cp = (x * 64 + y) * 64 + z" unfolding a(1) using x y z by (intro unat_small_u32) simp
    have code: "nat_utf8 (unat cp) = [224 + x, 128 + y, 128 + z]"
      using a(3) x y z by (intro nat_utf8_3 [OF u refl]) (simp_all only: u)
    have lt: "unat cp < 0x110000" using a(4) by (simp only: valid_nat)
    have nth: "unat (src ! (i + k)) = [b 0, b 1, b 2] ! k" if "k < length [b 0, b 1, b 2]" for k
      using that by (auto simp: b_def less_Suc_eq nth_Cons' numeral_3_eq_3)
    have "j = i + length [b 0, b 1, b 2]" "j \<le> length src" using a(2) t(1) by simp_all
    note split_at_encode [OF this lt _ nth]
    moreover note code
    ultimately have "j = i + length (se_utf8_encode cp) \<and> drop i src = se_utf8_encode cp @ drop j src"
      using x y z by simp
    with a(4) show ?thesis by blast
  next
    case four
    then have t: "i + 3 < length src" "tail_byte (src ! (i + 1))" "tail_byte (src ! (i + 2))"
      "tail_byte (src ! (i + 3))"
      using dec eq by (auto simp: decode_lead_eq b_def Let_def upt_needs split: if_splits)
    obtain x where x: "b 0 = 240 + x" "x < 8"
      using four by (intro that [of "b 0 - 240"]) auto
    obtain y where y: "b 1 = 128 + y" "y < 64" using tails [OF t(2)] by auto
    obtain z where z: "b 2 = 128 + z" "z < 64" using tails [OF t(3)] by auto
    obtain w where w: "b 3 = 128 + w" "w < 64" using tails [OF t(4)] by auto
    from decode_four [of i src x y z w] dec t(1) x y z w
    have acc: "accept 65536 (((x * 64 + y) * 64 + z) * 64 + w) (i + 4) = Some (cp, j)"
      by (simp add: b_def)
    note a = accept_Some [OF acc]
    have u: "unat cp = ((x * 64 + y) * 64 + z) * 64 + w"
      unfolding a(1) using x y z w by (intro unat_small_u32) simp
    have code: "nat_utf8 (unat cp) = [240 + x, 128 + y, 128 + z, 128 + w]"
      using a(3) x y z w by (intro nat_utf8_4 [OF u refl refl]) (simp_all only: u)
    have lt: "unat cp < 0x110000" using a(4) by (simp only: valid_nat)
    have nth: "unat (src ! (i + k)) = [b 0, b 1, b 2, b 3] ! k" if "k < length [b 0, b 1, b 2, b 3]" for k
      using that by (auto simp: b_def less_Suc_eq nth_Cons' numeral_3_eq_3)
    have "j = i + length [b 0, b 1, b 2, b 3]" "j \<le> length src" using a(2) t(1) by simp_all
    note split_at_encode [OF this lt _ nth]
    moreover note code
    ultimately have "j = i + length (se_utf8_encode cp) \<and> drop i src = se_utf8_encode cp @ drop j src"
      using x y z w by simp
    with a(4) show ?thesis by blast
  qed
qed


text \<open>
  The decoder accepts exactly the encodings of scalar values.  It reads only inside
  the buffer, and the position moves forward by one to four bytes.
\<close>

lemma decode_one_iff:
  "decode_one src i = Inr (Some (cp, j)) \<longleftrightarrow>
     valid_unicode_codepoint cp \<and> j = i + length (se_utf8_encode cp) \<and>
     drop i src = se_utf8_encode cp @ drop j src"
  using decode_one_sound decode_one_encode by blast

lemma decode_one_in_bounds: "i < length src \<Longrightarrow> \<exists>r. decode_one src i = Inr r"
  using decode_one_eq [of i src] by blast

lemma decode_one_Inl: "decode_one src i = Inl e \<longleftrightarrow> length src \<le> i \<and> e = OutOfBounds"
proof (cases "i < length src")
  case True
  then obtain r where "decode_one src i = Inr r" using decode_one_in_bounds by blast
  with True show ?thesis by simp
next
  case False
  then show ?thesis by (auto simp: decode_one_def rdR_def)
qed

lemma decode_one_progress:
  assumes "decode_one src i = Inr (Some (cp, j))"
  shows "i < j" and "j \<le> length src"
proof -
  note d = decode_one_sound [OF assms]
  then have "i + length (se_utf8_encode cp) \<le> length src"
    using drop_length [of i src "se_utf8_encode cp"] utf8_encode_nonempty by blast
  with d utf8_encode_nonempty [of cp] show "i < j" "j \<le> length src" by auto
qed

subsection \<open>The whole-buffer decoder\<close>

lemma utf8_decode_loop_step:
  "utf8_decode_loop src i out out_cap =
     (if i < length src then
        (if length out \<ge> out_cap then Inr (out, False)
         else bindR (decode_one src i) (\<lambda>r. case r of
             None \<Rightarrow> Inr (out, False)
           | Some (cp, j) \<Rightarrow> utf8_decode_loop src j (out @ [cp]) out_cap))
      else Inr (out, True))"
proof (cases "i < length src \<and> length out < out_cap")
  case False
  then show ?thesis by (auto simp: utf8_decode_loop.simps [of src i])
next
  case True
  then have i: "i < length src" by simp
  show ?thesis
  proof (cases "src ! i < 0x80")
    case True
    have "decode_tail src i 1 0 c = Inr (Some c)" for c by (simp add: decode_tail.simps)
    moreover have "unat (ucast (src ! i) :: u32) < 128"
      using True by (simp add: unat_ucast_up word_less_nat_alt)
    then have "\<not> overlong 0 (ucast (src ! i))" "\<not> ucast (src ! i) > (0x10FFFF :: u32)"
      "\<not> (ucast (src ! i) \<ge> (0xD800 :: u32))"
      by (simp_all add: overlong_def word_less_nat_alt word_le_nat_alt)
    ultimately show ?thesis
      using True \<open>i < length src \<and> length out < out_cap\<close>
      by (subst utf8_decode_loop.simps) (simp add: decode_one_def rdR_def)
  next
    case False
    have pos: "0 < need" if "decode_lead (src ! i) = Some (cp0, need)" for cp0 need
      using that by (auto simp: decode_lead_eq split: if_splits)
    show ?thesis
    proof (cases "decode_lead (src ! i)")
      case None
      then show ?thesis
        using False \<open>i < length src \<and> length out < out_cap\<close>
        by (subst utf8_decode_loop.simps) (simp add: decode_one_def rdR_def)
    next
      case (Some p)
      obtain cp0 need where p: "p = (cp0, need)" by (cases p)
      with Some pos have "0 < need" by simp
      with p Some show ?thesis
        using False \<open>i < length src \<and> length out < out_cap\<close>
        by (subst utf8_decode_loop.simps)
          (auto simp: decode_one_def rdR_def bindR_assoc decode_tail_eq)
    qed
  qed
qed

lemma utf8_decode_loop_encode:
  "list_all valid_unicode_codepoint cps \<Longrightarrow> length out + length cps \<le> out_cap \<Longrightarrow>
   drop i src = concat (map se_utf8_encode cps) \<Longrightarrow> i \<le> length src \<Longrightarrow>
   utf8_decode_loop src i out out_cap = Inr (out @ cps, True)"
proof (induction cps arbitrary: i out)
  case Nil
  then show ?case by (subst utf8_decode_loop_step) simp
next
  case (Cons cp cps)
  then have src: "drop i src = se_utf8_encode cp @ concat (map se_utf8_encode cps)" by simp
  from Cons.prems(1) have "valid_unicode_codepoint cp" by simp
  note dec = decode_one_encode [OF this src]
  note snd = decode_one_sound [OF dec] and adv = decode_one_progress [OF dec]
  let ?j = "i + length (se_utf8_encode cp)"
  from snd src have "drop ?j src = concat (map se_utf8_encode cps)" by simp
  then have "utf8_decode_loop src ?j (out @ [cp]) out_cap = Inr ((out @ [cp]) @ cps, True)"
    using Cons.prems adv by (intro Cons.IH) auto
  moreover have "i < length src" using adv(1) adv(2) by (rule less_le_trans)
  moreover have "length out < out_cap" using Cons.prems by simp
  ultimately show ?case
    using dec by (subst utf8_decode_loop_step) simp
qed

lemma utf8_decode_loop_sound:
  "utf8_decode_loop src i out out_cap = Inr (cps, ok) \<Longrightarrow> i \<le> length src \<Longrightarrow>
   \<exists>new. cps = out @ new \<and> list_all valid_unicode_codepoint new \<and>
     (ok \<longrightarrow> drop i src = concat (map se_utf8_encode new))"
proof (induction "length src - i" arbitrary: i out rule: less_induct)
  case less
  show ?case
  proof (cases "i < length src \<and> length out < out_cap")
    case False
    with less.prems show ?thesis
      by (subst (asm) utf8_decode_loop_step) (auto split: if_splits)
  next
    case True
    then obtain r where r: "decode_one src i = Inr r" using decode_one_in_bounds by blast
    show ?thesis
    proof (cases r)
      case None
      with less.prems r True show ?thesis
        by (subst (asm) utf8_decode_loop_step) auto
    next
      case (Some q)
      then obtain cp j where q: "decode_one src i = Inr (Some (cp, j))" using r by (cases q) auto
      note adv = decode_one_progress [OF q] and snd = decode_one_sound [OF q]
      have rec: "utf8_decode_loop src j (out @ [cp]) out_cap = Inr (cps, ok)"
        using less.prems True q by (subst (asm) utf8_decode_loop_step) simp
      have "length src - j < length src - i" using adv True by linarith
      from less.hyps [OF this rec] adv obtain new where
        "cps = (out @ [cp]) @ new" "list_all valid_unicode_codepoint new"
        "ok \<longrightarrow> drop j src = concat (map se_utf8_encode new)" by auto
      then show ?thesis using snd by (intro exI [of _ "cp # new"]) auto
    qed
  qed
qed

lemma utf8_decode_loop_cap:
  "utf8_decode_loop src i out out_cap = Inr (cps, ok) \<Longrightarrow> length out \<le> out_cap \<Longrightarrow> length cps \<le> out_cap"
proof (induction "length src - i" arbitrary: i out rule: less_induct)
  case less
  show ?case
  proof (cases "i < length src \<and> length out < out_cap")
    case False
    with less.prems show ?thesis by (subst (asm) utf8_decode_loop_step) (auto split: if_splits)
  next
    case True
    then obtain r where r: "decode_one src i = Inr r" using decode_one_in_bounds by blast
    show ?thesis
    proof (cases r)
      case None
      with less.prems r True show ?thesis by (subst (asm) utf8_decode_loop_step) auto
    next
      case (Some q)
      then obtain cp j where q: "decode_one src i = Inr (Some (cp, j))" using r by (cases q) auto
      note adv = decode_one_progress [OF q]
      have rec: "utf8_decode_loop src j (out @ [cp]) out_cap = Inr (cps, ok)"
        using less.prems True q by (subst (asm) utf8_decode_loop_step) simp
      have "length src - j < length src - i" using adv True by linarith
      from less.hyps [OF this rec] True show ?thesis by simp
    qed
  qed
qed

subsection \<open>Properties\<close>

text \<open>
  Property C26: the decoder of the tokenizer accepts exactly the shortest-form UTF-8 encodings of
  Unicode scalar values.  It returns the code point \<open>cp\<close> and the position \<open>j\<close> when and only
  when the bytes from \<open>i\<close> on start with what \<^verbatim>\<open>se_utf8_encode\<close> writes for \<open>cp\<close> and \<open>j\<close> is the
  position after it; surrogates, overlong forms, truncated sequences and values above 0x10FFFF are refused.
\<close>

theorem decode_one_exact:
  "decode_one src i = Inr (Some (cp, j)) \<longleftrightarrow>
     valid_unicode_codepoint cp \<and> j = i + length (se_utf8_encode cp) \<and>
     drop i src = se_utf8_encode cp @ drop j src"
  by (rule decode_one_iff)

text \<open>
  Property C27: decoding a whole buffer succeeds exactly on the encodings of code point sequences
  that fit the output, and returns that sequence: \<^verbatim>\<open>se_utf8_decode\<close> inverts \<^verbatim>\<open>se_utf8_encode\<close>.
\<close>

theorem utf8_decode_exact:
  "se_utf8_decode src out_cap = Inr (cps, True) \<longleftrightarrow>
     list_all valid_unicode_codepoint cps \<and> length cps \<le> out_cap \<and>
     src = concat (map se_utf8_encode cps)"
proof
  assume dec: "se_utf8_decode src out_cap = Inr (cps, True)"
  then have loop: "utf8_decode_loop src 0 [] out_cap = Inr (cps, True)"
    by (simp add: se_utf8_decode_def)
  from utf8_decode_loop_sound [OF loop] have "list_all valid_unicode_codepoint cps"
    and "src = concat (map se_utf8_encode cps)" by auto
  then show "list_all valid_unicode_codepoint cps \<and> length cps \<le> out_cap \<and>
      src = concat (map se_utf8_encode cps)"
    using utf8_decode_loop_cap [OF loop] by simp
next
  assume "list_all valid_unicode_codepoint cps \<and> length cps \<le> out_cap \<and>
      src = concat (map se_utf8_encode cps)"
  then show "se_utf8_decode src out_cap = Inr (cps, True)"
    using utf8_decode_loop_encode [of cps "[]" out_cap 0 src] by (simp add: se_utf8_decode_def)
qed

end
