(* ===== verification/Model.thy ===== *)
theory Model
  imports SeBase
begin

text \<open>
  The data of a loaded model, as the structs of \<^verbatim>\<open>se_internal.h\<close> declare it.  A
  pointer with its element count is a list.  A field of a struct keeps its name
  behind a prefix for the struct, because a record field is a constant in HOL.
  The bytes of a \<^verbatim>\<open>float\<close> are its 32-bit pattern.
\<close>

subsection \<open>Constants of the file format\<close>

abbreviation (input) SE_MAGIC :: "u8 list" where "SE_MAGIC \<equiv> [0x53, 0x45, 0x4D, 0x42, 0x76, 0x31, 0, 0]"
abbreviation (input) SE_FORMAT_VERSION :: u32 where "SE_FORMAT_VERSION \<equiv> 3"
abbreviation (input) SE_HEADER_SIZE :: nat where "SE_HEADER_SIZE \<equiv> 320"
abbreviation (input) SE_ALIGNMENT :: nat where "SE_ALIGNMENT \<equiv> 64"

abbreviation (input) SE_TOKENIZER_BERT_WORDPIECE_V1 :: u32 where "SE_TOKENIZER_BERT_WORDPIECE_V1 \<equiv> 1"
abbreviation (input) SE_DTYPE_F32 :: u32 where "SE_DTYPE_F32 \<equiv> 1"
abbreviation (input) SE_POOLING_MEAN :: u32 where "SE_POOLING_MEAN \<equiv> 1"
abbreviation (input) SE_NORMALIZATION_NONE :: u32 where "SE_NORMALIZATION_NONE \<equiv> 0"
abbreviation (input) SE_NORMALIZATION_L2 :: u32 where "SE_NORMALIZATION_L2 \<equiv> 1"
abbreviation (input) SE_TRUNCATE_USABLE_IDS_BEFORE_POOLING :: u32
  where "SE_TRUNCATE_USABLE_IDS_BEFORE_POOLING \<equiv> 2"
abbreviation (input) SE_TRUNCATE_RAW_IDS_BEFORE_UNK_DROP :: u32
  where "SE_TRUNCATE_RAW_IDS_BEFORE_UNK_DROP \<equiv> 3"
abbreviation (input) SE_UNK_INCLUDE :: u32 where "SE_UNK_INCLUDE \<equiv> 0"
abbreviation (input) SE_UNK_DROP :: u32 where "SE_UNK_DROP \<equiv> 1"
abbreviation (input) SE_EMPTY_ZERO_VECTOR :: u32 where "SE_EMPTY_ZERO_VECTOR \<equiv> 0"
abbreviation (input) SE_EMPTY_RAISE :: u32 where "SE_EMPTY_RAISE \<equiv> 1"
abbreviation (input) SE_ADDED_PAD :: u32 where "SE_ADDED_PAD \<equiv> 1"
abbreviation (input) SE_ADDED_UNK :: u32 where "SE_ADDED_UNK \<equiv> 2"
abbreviation (input) SE_ADDED_CLS :: u32 where "SE_ADDED_CLS \<equiv> 4"
abbreviation (input) SE_ADDED_SEP :: u32 where "SE_ADDED_SEP \<equiv> 8"
abbreviation (input) SE_ADDED_MASK :: u32 where "SE_ADDED_MASK \<equiv> 16"
abbreviation (input) SE_ADDED_TOKEN_MASK_ALL :: u32 where "SE_ADDED_TOKEN_MASK_ALL \<equiv> 31"
abbreviation (input) SE_SLOT_EMPTY :: u32 where "SE_SLOT_EMPTY \<equiv> 0xFFFFFFFF"

subsection \<open>Structs\<close>

record se_vocab_slot =
  sl_hash :: u32
  sl_str_off :: u32
  sl_str_len :: u32
  sl_token_id :: u32

record se_trie_node =
  tn_edge_start :: u32
  tn_edge_count :: u32
  tn_token_id :: u32
  tn_reserved :: u32

record se_trie_edge =
  te_byte :: u32
  te_child :: u32

record se_trie =
  tr_nodes :: "se_trie_node list"
  tr_edges :: "se_trie_edge list"
  tr_node_count :: u32
  tr_edge_count :: u32

record se_map_entry =
  me_cp :: u32
  me_len :: u32
  me_out :: "u32 list"

record se_range =
  rg_lo :: u32
  rg_hi :: u32

text \<open>
  The count of a table is the length of its list.  An entry of a
  \<^verbatim>\<open>lower256\<close> or \<^verbatim>\<open>nfd256\<close> array is a pointer, \<open>None\<close> for the null pointer.
\<close>

record se_norm_tables =
  nt_lower :: "se_map_entry list"
  nt_nfd :: "se_map_entry list"
  nt_mn :: "se_range list"
  nt_punct :: "se_range list"
  nt_control :: "se_range list"
  nt_whitespace :: "se_range list"
  nt_lower256 :: "se_map_entry option list"
  nt_nfd256 :: "se_map_entry option list"
  nt_mn256 :: "u8 list"
  nt_punct256 :: "u8 list"
  nt_control256 :: "u8 list"
  nt_whitespace256 :: "u8 list"

record se_meta =
  mt_dim :: u32
  mt_vocab_size :: u32
  mt_tokenizer_type :: u32
  mt_embedding_dtype :: u32
  mt_pooling_type :: u32
  mt_normalization_type :: u32
  mt_max_tokens_default :: u32
  mt_truncation_policy :: u32
  mt_add_special_tokens :: u32
  mt_unk_policy :: u32
  mt_empty_policy :: u32
  mt_do_lower_case :: u32
  mt_strip_accents :: u32
  mt_handle_chinese_chars :: u32
  mt_clean_text :: u32
  mt_max_input_chars_per_word :: u32
  mt_max_token_chars :: u32
  mt_max_probe :: u32
  mt_added_token_mask :: u32
  mt_pad_id :: u32
  mt_unk_id :: u32
  mt_cls_id :: u32
  mt_sep_id :: u32
  mt_mask_id :: u32
  mt_hash_table_size :: u32
  mt_hash_seed :: u32
  mt_subword_prefix_len :: u32
  mt_subword_prefix :: "u8 list"

record se_model =
  md_meta :: se_meta
  md_norm :: se_norm_tables
  md_vocab_strings :: "u8 list"
  md_vocab_hash :: "se_vocab_slot list"
  md_root_trie :: se_trie
  md_cont_trie :: se_trie
  md_embeddings :: "u32 list"
  md_provenance :: "u8 list"

end
