(* ===== verification/Tables.thy ===== *)
theory Tables
  imports Model Unicode
begin

text \<open>
  The normalization tables: the binary searches of \<^verbatim>\<open>se_unicode.c\<close>, the validation
  and the 256-entry fast tables of \<^verbatim>\<open>se_format.c\<close>, and the class predicates of
  \<^verbatim>\<open>se_tokenizer.c\<close> that read both.  The two searches share one contract, the locale
  \<open>binary_search\<close>; on a table that validation accepts each of them is a linear
  lookup and never reads outside the table.
\<close>

subsection \<open>Binary search\<close>

lemma mid_nat:
  fixes lo hi :: u32
  assumes "lo < hi"
  shows "unat (lo + (hi - lo) div 2) = unat lo + (unat hi - unat lo) div 2"
proof -
  have lt: "unat lo < unat hi" using assms by (simp add: word_less_nat_alt)
  have d: "unat ((hi - lo) div 2) = (unat hi - unat lo) div 2"
    using assms by (simp add: unat_div unat_sub_le)
  have "unat hi < 2 ^ 32" using unsigned_less [of hi] by simp
  then have "unat lo + (unat hi - unat lo) div 2 < 2 ^ 32" using lt by linarith
  with d show ?thesis by (simp add: unat_word_ariths)
qed

lemma mid_bounds:
  fixes lo hi :: u32
  assumes "lo < hi"
  shows "unat lo \<le> unat (lo + (hi - lo) div 2)" and "unat (lo + (hi - lo) div 2) < unat hi"
    and "unat (lo + (hi - lo) div 2 + 1) = Suc (unat (lo + (hi - lo) div 2))"
proof -
  let ?mid = "lo + (hi - lo) div 2"
  have lt: "unat lo < unat hi" using assms by (simp add: word_less_nat_alt)
  show "unat lo \<le> unat ?mid" using mid_nat [OF assms] by linarith
  show m: "unat ?mid < unat hi" using mid_nat [OF assms] lt by linarith
  show "unat (?mid + 1) = Suc (unat ?mid)"
    using m by (intro unat_Suc_less [of _ hi]) (simp add: word_less_nat_alt)
qed

lemma mid_measure:
  fixes lo hi :: u32
  assumes "lo < hi"
  shows "unat (lo + (hi - lo) div 2) - unat lo < unat hi - unat lo"
    and "unat hi - unat (lo + (hi - lo) div 2 + 1) < unat hi - unat lo"
  using mid_bounds [OF assms] by linarith+

function range_loop :: "se_range list \<Rightarrow> u32 \<Rightarrow> u32 \<Rightarrow> u32 \<Rightarrow> bool se_result" where
  "range_loop ranges lo hi cp =
     (if lo < hi then
        (let mid = lo + (hi - lo) div 2 in
         bindR (rdR ranges (unat mid)) (\<lambda>r.
           if cp < rg_lo r then range_loop ranges lo mid cp
           else if cp > rg_hi r then range_loop ranges (mid + 1) hi cp
           else Inr True))
      else Inr False)"
  by pat_completeness auto
termination
  by (relation "measure (\<lambda>(ranges, lo, hi, cp). unat hi - unat lo)")
    (simp_all add: mid_measure)

function map_loop ::
  "se_map_entry list \<Rightarrow> u32 \<Rightarrow> u32 \<Rightarrow> u32 \<Rightarrow> se_map_entry option se_result" where
  "map_loop entries lo hi cp =
     (if lo < hi then
        (let mid = lo + (hi - lo) div 2 in
         bindR (rdR entries (unat mid)) (\<lambda>e.
           if cp < me_cp e then map_loop entries lo mid cp
           else if cp > me_cp e then map_loop entries (mid + 1) hi cp
           else Inr (Some e)))
      else Inr None)"
  by pat_completeness auto
termination
  by (relation "measure (\<lambda>(entries, lo, hi, cp). unat hi - unat lo)")
    (simp_all add: mid_measure)

declare range_loop.simps [simp del] map_loop.simps [simp del]

definition se_range_contains :: "se_range list \<Rightarrow> u32 \<Rightarrow> bool se_result" where
  "se_range_contains ranges cp = range_loop ranges 0 (word_of_nat (length ranges)) cp"

definition se_map_lookup :: "se_map_entry list \<Rightarrow> u32 \<Rightarrow> se_map_entry option se_result" where
  "se_map_lookup entries cp = map_loop entries 0 (word_of_nat (length entries)) cp"

text \<open>
  The contract.  \<open>before e cp\<close> says that the searched value lies before the entry,
  \<open>after e cp\<close> that it lies after it.  On a list in which a value that is not after an
  entry is before every later one, the loop returns the entry it is neither before
  nor after.
\<close>

locale binary_search =
  fixes before after :: "'a \<Rightarrow> u32 \<Rightarrow> bool" and found :: "'a \<Rightarrow> 'b" and missing :: 'b
    and search :: "'a list \<Rightarrow> u32 \<Rightarrow> u32 \<Rightarrow> u32 \<Rightarrow> 'b se_result"
  assumes search_step: "lo < hi \<Longrightarrow> search xs lo hi cp =
      bindR (rdR xs (unat (lo + (hi - lo) div 2))) (\<lambda>e.
        if before e cp then search xs lo (lo + (hi - lo) div 2) cp
        else if after e cp then search xs (lo + (hi - lo) div 2 + 1) hi cp
        else Inr (found e))"
    and search_stop: "\<not> lo < hi \<Longrightarrow> search xs lo hi cp = Inr missing"
begin

definition hit :: "u32 \<Rightarrow> 'a \<Rightarrow> bool" where
  "hit cp e = (\<not> before e cp \<and> \<not> after e cp)"

definition ordered :: "'a list \<Rightarrow> bool" where
  "ordered xs = ((\<forall>e\<in>set xs. \<forall>cp. before e cp \<longrightarrow> \<not> after e cp) \<and>
     sorted_wrt (\<lambda>e e'. \<forall>cp. after e cp \<or> before e' cp) xs)"

definition lookup :: "'a list \<Rightarrow> u32 \<Rightarrow> 'b" where
  "lookup xs cp = (case find (hit cp) xs of None \<Rightarrow> missing | Some e \<Rightarrow> found e)"

lemma orderedD:
  assumes "ordered xs" "i < j" "j < length xs"
  shows "after (xs ! i) cp \<or> before (xs ! j) cp"
  using assms by (simp add: ordered_def sorted_wrt_iff_nth_less)

lemma ordered_excl:
  assumes "ordered xs" "i < length xs" "before (xs ! i) cp"
  shows "\<not> after (xs ! i) cp"
  using assms by (simp add: ordered_def)

lemma search_result:
  assumes ord: "ordered xs"
  shows "unat hi \<le> length xs \<Longrightarrow> (\<And>i. i < unat lo \<Longrightarrow> after (xs ! i) cp) \<Longrightarrow>
    (\<And>i. unat hi \<le> i \<Longrightarrow> i < length xs \<Longrightarrow> before (xs ! i) cp) \<Longrightarrow> unat lo \<le> unat hi \<Longrightarrow>
    search xs lo hi cp = Inr (lookup xs cp)"
proof (induction "unat hi - unat lo" arbitrary: lo hi rule: less_induct)
  case less
  let ?mid = "lo + (hi - lo) div 2"
  show ?case
  proof (cases "lo < hi")
    case False
    with less.prems(4) have eq: "unat lo = unat hi" by (simp add: word_less_nat_alt)
    have "\<not> hit cp (xs ! i)" if "i < length xs" for i
      using less.prems(2) [of i] less.prems(3) [of i] that eq unfolding hit_def by (cases "i < unat lo") auto
    then have "find (hit cp) xs = None" by (auto simp: find_None_iff in_set_conv_nth)
    with False show ?thesis by (simp add: search_stop lookup_def)
  next
    case True
    note mid = mid_bounds [OF True]
    have inb: "unat ?mid < length xs" using mid(2) less.prems(1) by linarith
    then have rd: "rdR xs (unat ?mid) = Inr (xs ! unat ?mid)" by (simp add: rdR_def)
    consider (before) "before (xs ! unat ?mid) cp"
      | (after) "\<not> before (xs ! unat ?mid) cp" "after (xs ! unat ?mid) cp"
      | (hit) "\<not> before (xs ! unat ?mid) cp" "\<not> after (xs ! unat ?mid) cp" by blast
    then show ?thesis
    proof cases
      case before
      have "search xs lo ?mid cp = Inr (lookup xs cp)"
      proof (rule less.hyps)
        show "unat ?mid - unat lo < unat hi - unat lo" using mid by linarith
        show "unat ?mid \<le> length xs" using inb by simp
        show "before (xs ! i) cp" if "unat ?mid \<le> i" "i < length xs" for i
          using that before orderedD [OF ord, of "unat ?mid" i cp] ordered_excl [OF ord inb before]
          by (cases "i = unat ?mid") auto
      qed (use less.prems mid in auto)
      with True before rd show ?thesis by (simp add: search_step)
    next
      case after
      have "search xs (?mid + 1) hi cp = Inr (lookup xs cp)"
      proof (rule less.hyps)
        show "unat hi - unat (?mid + 1) < unat hi - unat lo" using mid by linarith
        show "unat (?mid + 1) \<le> unat hi" using mid by linarith
        show "after (xs ! i) cp" if "i < unat (?mid + 1)" for i
          using that after orderedD [OF ord _ inb, of i cp] mid(3)
          by (cases "i = unat ?mid") auto
      qed (use less.prems mid in auto)
      with True after rd show ?thesis by (simp add: search_step)
    next
      case hit
      have "\<not> hit cp (xs ! i)" if "i < unat ?mid" for i
        using that hit orderedD [OF ord _ inb, of i cp] by (auto simp: hit_def)
      then have "find (hit cp) xs = Some (xs ! unat ?mid)"
        using hit inb by (auto simp: find_Some_iff hit_def)
      with True hit rd show ?thesis by (simp add: search_step lookup_def)
    qed
  qed
qed

lemma search_all:
  assumes "ordered xs" "length xs < 2 ^ 32"
  shows "search xs 0 (word_of_nat (length xs)) cp = Inr (lookup xs cp)"
  using assms by (intro search_result) (simp_all add: unat_of_nat take_bit_nat_eq_self)

end

interpretation range_search: binary_search
  "\<lambda>r cp. cp < rg_lo r" "\<lambda>r cp. cp > rg_hi r" "\<lambda>_. True" False range_loop
  by unfold_locales (simp_all add: range_loop.simps Let_def)

interpretation map_search: binary_search
  "\<lambda>e cp. cp < me_cp e" "\<lambda>e cp. cp > me_cp e" Some None map_loop
  by unfold_locales (simp_all add: map_loop.simps Let_def)

subsection \<open>Validation of the tables\<close>

text \<open>The loop over the entries \<open>i, i + 1, \<dots>\<close>, with the code point of the previous one.\<close>

fun validate_map_loop :: "nat \<Rightarrow> u32 \<Rightarrow> se_map_entry list \<Rightarrow> unit se_result" where
  "validate_map_loop i prev [] = Inr ()"
| "validate_map_loop i prev (entry # rest) =
     (if me_len entry > 4
      then Inl (SeError SE_ERR_INVALID_FORMAT ''%s map entry %u has len %u'')
      else if \<not> valid_unicode_codepoint (me_cp entry)
      then Inl (SeError SE_ERR_INVALID_FORMAT ''%s map entry %u has invalid codepoint'')
      else if \<not> list_all valid_unicode_codepoint (take (unat (me_len entry)) (me_out entry))
      then Inl (SeError SE_ERR_INVALID_FORMAT ''%s map entry %u output %u is not a valid codepoint'')
      else if i \<noteq> 0 \<and> me_cp entry \<le> prev
      then Inl (SeError SE_ERR_INVALID_FORMAT ''%s map is not strictly sorted'')
      else validate_map_loop (i + 1) (me_cp entry) rest)"

definition validate_norm_map :: "se_map_entry list \<Rightarrow> unit se_result" where
  "validate_norm_map entries = validate_map_loop 0 0 entries"

fun validate_ranges_loop :: "nat \<Rightarrow> u32 \<Rightarrow> se_range list \<Rightarrow> unit se_result" where
  "validate_ranges_loop i prev_hi [] = Inr ()"
| "validate_ranges_loop i prev_hi (r # rest) =
     (if \<not> valid_unicode_codepoint (rg_hi r)
      then Inl (SeError SE_ERR_INVALID_FORMAT ''%s range %u exceeds the Unicode range'')
      else if rg_lo r > rg_hi r
      then Inl (SeError SE_ERR_INVALID_FORMAT ''%s range %u is inverted'')
      else if i \<noteq> 0 \<and> rg_lo r \<le> prev_hi
      then Inl (SeError SE_ERR_INVALID_FORMAT ''%s ranges overlap or are unsorted'')
      else validate_ranges_loop (i + 1) (rg_hi r) rest)"

definition validate_norm_ranges :: "se_range list \<Rightarrow> unit se_result" where
  "validate_norm_ranges ranges = validate_ranges_loop 0 0 ranges"

text \<open>What an accepted table satisfies.\<close>

definition map_entry_ok :: "se_map_entry \<Rightarrow> bool" where
  "map_entry_ok e = (me_len e \<le> 4 \<and> valid_unicode_codepoint (me_cp e) \<and>
     list_all valid_unicode_codepoint (take (unat (me_len e)) (me_out e)))"

definition norm_map_ok :: "se_map_entry list \<Rightarrow> bool" where
  "norm_map_ok es = (list_all map_entry_ok es \<and> sorted_wrt (<) (map me_cp es))"

definition norm_ranges_ok :: "se_range list \<Rightarrow> bool" where
  "norm_ranges_ok rs =
     (list_all (\<lambda>r. valid_unicode_codepoint (rg_hi r) \<and> rg_lo r \<le> rg_hi r) rs \<and>
      sorted_wrt (\<lambda>r r'. rg_hi r < rg_lo r') rs)"

lemma validate_map_loop_iff:
  "validate_map_loop i prev es = Inr () \<longleftrightarrow>
     norm_map_ok es \<and> (i \<noteq> 0 \<longrightarrow> es \<noteq> [] \<longrightarrow> prev < me_cp (hd es))"
proof (induction i prev es rule: validate_map_loop.induct)
  case (1 i prev)
  show ?case by (simp add: norm_map_ok_def)
next
  case (2 i prev e rest)
  have sorted: "sorted_wrt (<) (map me_cp (e # rest)) \<longleftrightarrow>
      sorted_wrt (<) (map me_cp rest) \<and> (rest \<noteq> [] \<longrightarrow> me_cp e < me_cp (hd rest))"
    by (cases rest) (auto dest: less_trans)
  show ?case
    using 2 sorted by (auto simp: norm_map_ok_def map_entry_ok_def not_less not_le)
qed

lemma validate_ranges_loop_iff:
  "validate_ranges_loop i prev rs = Inr () \<longleftrightarrow>
     norm_ranges_ok rs \<and> (i \<noteq> 0 \<longrightarrow> rs \<noteq> [] \<longrightarrow> prev < rg_lo (hd rs))"
proof (induction i prev rs rule: validate_ranges_loop.induct)
  case (1 i prev)
  show ?case by (simp add: norm_ranges_ok_def)
next
  case (2 i prev r rest)
  have sorted: "sorted_wrt (\<lambda>r r'. rg_hi r < rg_lo r') (r # rest) \<longleftrightarrow>
      sorted_wrt (\<lambda>r r'. rg_hi r < rg_lo r') rest \<and> (rest \<noteq> [] \<longrightarrow> rg_hi r < rg_lo (hd rest))"
    if "list_all (\<lambda>r. rg_lo r \<le> rg_hi r) rest"
    using that by (cases rest) (auto dest: less_trans less_le_trans)
  have sub: "list_all (\<lambda>r. valid_unicode_codepoint (rg_hi r) \<and> rg_lo r \<le> rg_hi r) rest \<Longrightarrow>
      list_all (\<lambda>r. rg_lo r \<le> rg_hi r) rest"
    by (auto simp: list_all_iff)
  show ?case
    using 2 sorted [OF sub] by (auto simp: norm_ranges_ok_def not_less not_le)
qed

lemma validate_norm_map_iff: "validate_norm_map es = Inr () \<longleftrightarrow> norm_map_ok es"
  by (simp add: validate_norm_map_def validate_map_loop_iff)

lemma validate_norm_ranges_iff: "validate_norm_ranges rs = Inr () \<longleftrightarrow> norm_ranges_ok rs"
  by (simp add: validate_norm_ranges_def validate_ranges_loop_iff)

subsection \<open>Lookups in accepted tables\<close>

definition range_mem :: "se_range list \<Rightarrow> u32 \<Rightarrow> bool" where
  "range_mem rs cp = list_ex (\<lambda>r. rg_lo r \<le> cp \<and> cp \<le> rg_hi r) rs"

definition map_find :: "se_map_entry list \<Rightarrow> u32 \<Rightarrow> se_map_entry option" where
  "map_find es cp = find (\<lambda>e. me_cp e = cp) es"

lemma norm_ranges_ordered:
  assumes "norm_ranges_ok rs"
  shows "range_search.ordered rs"
proof -
  have "sorted_wrt (\<lambda>r r'. rg_hi r < rg_lo r') rs" and le: "\<forall>r\<in>set rs. rg_lo r \<le> rg_hi r"
    using assms by (auto simp: norm_ranges_ok_def list_all_iff)
  from this(1) have "sorted_wrt (\<lambda>r r'. \<forall>cp. cp > rg_hi r \<or> cp < rg_lo r') rs"
    by (rule sorted_wrt_mono_rel [rotated]) (auto simp: not_less intro: le_less_trans)
  with le show ?thesis by (auto simp: range_search.ordered_def not_less)
qed

lemma norm_map_ordered:
  assumes "norm_map_ok es"
  shows "map_search.ordered es"
proof -
  have "sorted_wrt (\<lambda>e e'. me_cp e < me_cp e') es"
    using assms by (simp add: norm_map_ok_def sorted_wrt_map)
  then have "sorted_wrt (\<lambda>e e'. \<forall>cp. cp > me_cp e \<or> cp < me_cp e') es"
    by (rule sorted_wrt_mono_rel [rotated]) (auto simp: not_less intro: le_less_trans)
  then show ?thesis by (auto simp: map_search.ordered_def)
qed

lemma range_contains_eq:
  assumes "norm_ranges_ok rs" "length rs < 2 ^ 32"
  shows "se_range_contains rs cp = Inr (range_mem rs cp)"
proof -
  have "(case find P rs of None \<Rightarrow> False | Some _ \<Rightarrow> True) = list_ex P rs" for P :: "se_range \<Rightarrow> bool"
    by (induction rs) auto
  then have "range_search.lookup rs cp = range_mem rs cp"
    by (simp add: range_search.lookup_def range_search.hit_def [abs_def] range_mem_def not_less)
  with range_search.search_all [OF norm_ranges_ordered] assms
  show ?thesis by (simp add: se_range_contains_def)
qed

lemma map_lookup_eq:
  assumes "norm_map_ok es" "length es < 2 ^ 32"
  shows "se_map_lookup es cp = Inr (map_find es cp)"
proof -
  have "map_search.hit cp = (\<lambda>e. me_cp e = cp)" by (auto simp: map_search.hit_def fun_eq_iff)
  then have "map_search.lookup es cp = map_find es cp"
    by (simp add: map_search.lookup_def map_find_def split: option.splits)
  with map_search.search_all [OF norm_map_ordered] assms
  show ?thesis by (simp add: se_map_lookup_def)
qed

subsection \<open>The 256-entry tables\<close>

text \<open>What the tables hold, as plain lists.\<close>

definition map256 :: "se_map_entry list \<Rightarrow> se_map_entry option list" where
  "map256 entries =
     fold (\<lambda>e out. if me_cp e < 256 then out[unat (me_cp e) := Some e] else out) entries
       (replicate 256 None)"

definition one_range256 :: "se_range \<Rightarrow> u8 list \<Rightarrow> u8 list" where
  "one_range256 r out =
     (let lo = rg_lo r; hi = rg_hi r in
      if lo > 255 then out
      else let hi = (if hi > 255 then 255 else hi)
           in fold (\<lambda>cp out. out[cp := 1]) [unat lo..<Suc (unat hi)] out)"

definition range256 :: "se_range list \<Rightarrow> u8 list" where
  "range256 ranges = fold one_range256 ranges (replicate 256 0)"

definition norm_fast_tables :: "se_norm_tables \<Rightarrow> se_norm_tables" where
  "norm_fast_tables nt = nt\<lparr>
     nt_lower256 := map256 (nt_lower nt),
     nt_nfd256 := map256 (nt_nfd nt),
     nt_mn256 := range256 (nt_mn nt),
     nt_punct256 := range256 (nt_punct nt),
     nt_control256 := range256 (nt_control nt),
     nt_whitespace256 := range256 (nt_whitespace nt)\<rparr>"

text \<open>The functions that fill them, which write with an index.\<close>

definition fill_map256 :: "se_map_entry list \<Rightarrow> se_map_entry option list se_result" where
  "fill_map256 entries =
     foldR (\<lambda>out e. if me_cp e < 256 then wrR out (unat (me_cp e)) (Some e) else Inr out) (replicate 256 None) entries"

definition fill_one_range :: "u8 list \<Rightarrow> se_range \<Rightarrow> u8 list se_result" where
  "fill_one_range out r =
     (let lo = rg_lo r; hi = rg_hi r in
      if lo > 255 then Inr out
      else let hi = (if hi > 255 then 255 else hi)
           in foldR (\<lambda>out cp. wrR out cp 1) out [unat lo..<Suc (unat hi)])"

definition fill_range256 :: "se_range list \<Rightarrow> u8 list se_result" where
  "fill_range256 ranges = foldR fill_one_range (replicate 256 0) ranges"

definition prepare_norm_fast_tables :: "se_norm_tables \<Rightarrow> se_norm_tables se_result" where
  "prepare_norm_fast_tables nt =
     bindR (fill_map256 (nt_lower nt)) (\<lambda>lower. bindR (fill_map256 (nt_nfd nt)) (\<lambda>nfd.
     bindR (fill_range256 (nt_mn nt)) (\<lambda>mn. bindR (fill_range256 (nt_punct nt)) (\<lambda>punct.
     bindR (fill_range256 (nt_control nt)) (\<lambda>control. bindR (fill_range256 (nt_whitespace nt)) (\<lambda>whitespace.
       Inr (nt\<lparr>nt_lower256 := lower, nt_nfd256 := nfd, nt_mn256 := mn, nt_punct256 := punct,
         nt_control256 := control, nt_whitespace256 := whitespace\<rparr>)))))))"

text \<open>No write is outside its table.\<close>

lemma foldR_Inr_fold:
  assumes "\<And>out x. length out = n \<Longrightarrow> x \<in> set xs \<Longrightarrow> f out x = Inr (g x out) \<and> length (g x out) = n"
  shows "length out = n \<Longrightarrow> foldR f out xs = Inr (fold g xs out) \<and> length (fold g xs out) = n"
  using assms by (induction xs arbitrary: out) auto

lemma fill_map256_eq: "fill_map256 entries = Inr (map256 entries)"
proof -
  have "foldR (\<lambda>out e. if me_cp e < 256 then wrR out (unat (me_cp e)) (Some e) else Inr out) out entries =
      Inr (fold (\<lambda>e out. if me_cp e < 256 then out[unat (me_cp e) := Some e] else out) entries out)"
    if "length out = 256" for out :: "se_map_entry option list"
    by (rule foldR_Inr_fold [THEN conjunct1, OF _ that]) (auto simp: wrR_def word_less_nat_alt)
  then show ?thesis by (simp add: fill_map256_def map256_def)
qed

lemma fill_one_range_eq:
  assumes "length out = 256"
  shows "fill_one_range out r = Inr (one_range256 r out) \<and> length (one_range256 r out) = 256"
proof -
  have ones: "foldR (\<lambda>out cp. wrR out cp 1) out is = Inr (fold (\<lambda>cp out. out[cp := 1]) is out) \<and>
      length (fold (\<lambda>cp out. out[cp := 1]) is out) = 256" if "\<forall>cp\<in>set is. cp < 256" for "is"
    by (rule foldR_Inr_fold [OF _ assms]) (use that in \<open>auto simp: wrR_def\<close>)
  have "unat (if rg_hi r > 255 then 255 else rg_hi r) < 256"
    by (auto simp: word_less_nat_alt)
  then have "\<forall>cp\<in>set [unat (rg_lo r)..<Suc (unat (if rg_hi r > 255 then 255 else rg_hi r))]. cp < 256" by auto
  from ones [OF this] show ?thesis using assms by (simp add: fill_one_range_def one_range256_def Let_def del: upt_Suc)
qed

lemma fill_range256_eq: "fill_range256 ranges = Inr (range256 ranges)"
proof -
  have "foldR fill_one_range out ranges = Inr (fold one_range256 ranges out)" if "length out = 256" for out
    by (rule foldR_Inr_fold [THEN conjunct1, OF fill_one_range_eq that])
  then show ?thesis by (simp add: fill_range256_def range256_def)
qed

lemma prepare_norm_fast_tables_eq [simp]: "prepare_norm_fast_tables nt = Inr (norm_fast_tables nt)"
  by (simp add: prepare_norm_fast_tables_def norm_fast_tables_def fill_map256_eq fill_range256_eq)

lemma fold_set_one:
  "j < length out \<Longrightarrow>
     (fold (\<lambda>cp out. out[cp := 1]) is out) ! j = (if j \<in> set is then (1 :: u8) else out ! j)"
  "length (fold (\<lambda>cp out. out[cp := (1 :: u8)]) is out) = length out"
  by (induction "is" arbitrary: out) (auto simp: nth_list_update)

lemma one_range256_nth:
  assumes "length out = 256" "cp < 256"
  shows "one_range256 r out ! unat cp =
           (if rg_lo r \<le> cp \<and> cp \<le> rg_hi r then 1 else out ! unat cp)"
    and "length (one_range256 r out) = 256"
proof -
  have c: "unat cp < 256" using assms(2) by (simp add: word_less_nat_alt)
  show "length (one_range256 r out) = 256"
    using assms(1) by (simp add: one_range256_def Let_def fold_set_one)
  show "one_range256 r out ! unat cp =
      (if rg_lo r \<le> cp \<and> cp \<le> rg_hi r then 1 else out ! unat cp)"
    using c assms(1) by (auto simp: one_range256_def Let_def fold_set_one word_nat)
qed

lemma fill_ranges_nth:
  assumes "cp < 256"
  shows "length out = 256 \<Longrightarrow>
    fold one_range256 rs out ! unat cp = (if range_mem rs cp then 1 else out ! unat cp) \<and>
    length (fold one_range256 rs out) = 256"
  using assms
  by (induction rs arbitrary: out) (auto simp: range_mem_def one_range256_nth)

lemma range256_rd:
  assumes "cp < 256"
  shows "rdR (range256 rs) (unat cp) = Inr (if range_mem rs cp then 1 else 0)"
proof -
  have "unat cp < 256" using assms by (simp add: word_less_nat_alt)
  then show ?thesis
    using fill_ranges_nth [OF assms, of "replicate 256 0" rs]
    by (simp add: range256_def rdR_def)
qed

lemma fill_maps_nth:
  assumes "cp < 256" "sorted_wrt (<) (map me_cp es)"
  shows "length out = 256 \<Longrightarrow>
    fold (\<lambda>e out. if me_cp e < 256 then out[unat (me_cp e) := Some e] else out) es out ! unat cp =
      (case map_find es cp of None \<Rightarrow> out ! unat cp | Some e \<Rightarrow> Some e)"
  using assms(2)
proof (induction es arbitrary: out)
  case Nil
  then show ?case by (simp add: map_find_def)
next
  case (Cons e es)
  have later: "map_find es cp = None" if "me_cp e = cp"
    using Cons.prems(2) that by (auto simp: map_find_def find_None_iff)
  have c: "unat cp < 256" using assms(1) by (simp add: word_less_nat_alt)
  have "unat (me_cp e) = unat cp \<longleftrightarrow> me_cp e = cp" by (simp add: word_unat_eq_iff)
  then show ?case
    using Cons later c assms(1)
    by (auto simp: map_find_def nth_list_update split: option.splits)
qed

lemma fold_update_length:
  "length (fold (\<lambda>e out. if P e then out[f e := g e] else out) es out) = length out"
  by (induction es arbitrary: out) auto

lemma map256_rd:
  assumes "cp < 256" "norm_map_ok es"
  shows "rdR (map256 es) (unat cp) = Inr (map_find es cp)"
proof -
  have "unat cp < 256" using assms(1) by (simp add: word_less_nat_alt)
  then show ?thesis
    using fill_maps_nth [OF assms(1), of es "replicate 256 None"] assms(2)
    by (simp add: map256_def rdR_def fold_update_length norm_map_ok_def split: option.splits)
qed

subsection \<open>Class predicates of the tokenizer\<close>

definition is_whitespace :: "se_model \<Rightarrow> u32 \<Rightarrow> bool se_result" where
  "is_whitespace m cp =
     (if cp < 0x80 then Inr (se_is_ascii_whitespace cp)
      else if cp < 256 then bindR (rdR (nt_whitespace256 (md_norm m)) (unat cp)) (\<lambda>b. Inr (b \<noteq> 0))
      else se_range_contains (nt_whitespace (md_norm m)) cp)"

definition ascii_control :: "u32 \<Rightarrow> bool" where
  "ascii_control cp = ((cp < 0x20 \<or> cp = 0x7F) \<and> cp \<noteq> 9 \<and> cp \<noteq> 10 \<and> cp \<noteq> 13)"

definition is_control :: "se_model \<Rightarrow> u32 \<Rightarrow> bool se_result" where
  "is_control m cp =
     (if cp < 0x80 then Inr (ascii_control cp)
      else if cp < 256 then bindR (rdR (nt_control256 (md_norm m)) (unat cp)) (\<lambda>b. Inr (b \<noteq> 0))
      else se_range_contains (nt_control (md_norm m)) cp)"

definition is_punct :: "se_model \<Rightarrow> u32 \<Rightarrow> bool se_result" where
  "is_punct m cp =
     (if cp < 0x80 then Inr (se_is_ascii_punct cp)
      else if cp < 256 then bindR (rdR (nt_punct256 (md_norm m)) (unat cp)) (\<lambda>b. Inr (b \<noteq> 0))
      else se_range_contains (nt_punct (md_norm m)) cp)"

definition lower_entry :: "se_model \<Rightarrow> u32 \<Rightarrow> se_map_entry option se_result" where
  "lower_entry m cp =
     (if cp < 256 then rdR (nt_lower256 (md_norm m)) (unat cp)
      else se_map_lookup (nt_lower (md_norm m)) cp)"

definition nfd_entry :: "se_model \<Rightarrow> u32 \<Rightarrow> se_map_entry option se_result" where
  "nfd_entry m cp =
     (if cp < 256 then rdR (nt_nfd256 (md_norm m)) (unat cp)
      else se_map_lookup (nt_nfd (md_norm m)) cp)"

definition is_mn :: "se_model \<Rightarrow> u32 \<Rightarrow> bool se_result" where
  "is_mn m cp =
     (if cp < 256 then bindR (rdR (nt_mn256 (md_norm m)) (unat cp)) (\<lambda>b. Inr (b \<noteq> 0))
      else se_range_contains (nt_mn (md_norm m)) cp)"

definition cp_is_cjk_segment :: "se_model \<Rightarrow> u32 \<Rightarrow> bool" where
  "cp_is_cjk_segment m cp =
     (mt_handle_chinese_chars (md_meta m) \<noteq> 0 \<and> cp \<ge> 0x3400 \<and> se_is_cjk cp)"

text \<open>The tables of a loaded model: accepted by validation, with the fast tables filled.\<close>

definition full_entries :: "se_map_entry list \<Rightarrow> bool" where
  "full_entries es = list_all (\<lambda>e. length (me_out e) = 4) es"

definition norm_tables_ok :: "se_norm_tables \<Rightarrow> bool" where
  "norm_tables_ok nt =
     (norm_map_ok (nt_lower nt) \<and> norm_map_ok (nt_nfd nt) \<and>
      full_entries (nt_lower nt) \<and> full_entries (nt_nfd nt) \<and>
      norm_ranges_ok (nt_mn nt) \<and> norm_ranges_ok (nt_punct nt) \<and>
      norm_ranges_ok (nt_control nt) \<and> norm_ranges_ok (nt_whitespace nt) \<and>
      length (nt_lower nt) < 2 ^ 32 \<and> length (nt_nfd nt) < 2 ^ 32 \<and>
      length (nt_mn nt) < 2 ^ 32 \<and> length (nt_punct nt) < 2 ^ 32 \<and>
      length (nt_control nt) < 2 ^ 32 \<and> length (nt_whitespace nt) < 2 ^ 32 \<and>
      nt = norm_fast_tables nt)"

lemma norm_tables_256:
  assumes "norm_tables_ok nt"
  shows "nt_lower256 nt = map256 (nt_lower nt)" "nt_nfd256 nt = map256 (nt_nfd nt)"
    "nt_mn256 nt = range256 (nt_mn nt)" "nt_punct256 nt = range256 (nt_punct nt)"
    "nt_control256 nt = range256 (nt_control nt)"
    "nt_whitespace256 nt = range256 (nt_whitespace nt)"
proof -
  have "nt = norm_fast_tables nt" using assms by (simp add: norm_tables_ok_def)
  note eq = arg_cong [OF this]
  show "nt_lower256 nt = map256 (nt_lower nt)" "nt_nfd256 nt = map256 (nt_nfd nt)"
    "nt_mn256 nt = range256 (nt_mn nt)" "nt_punct256 nt = range256 (nt_punct nt)"
    "nt_control256 nt = range256 (nt_control nt)"
    "nt_whitespace256 nt = range256 (nt_whitespace nt)"
    using eq [of nt_lower256] eq [of nt_nfd256] eq [of nt_mn256] eq [of nt_punct256]
      eq [of nt_control256] eq [of nt_whitespace256]
    by (simp_all add: norm_fast_tables_def)
qed

text \<open>The classes as the tables define them.\<close>

definition whitespace_cp :: "se_model \<Rightarrow> u32 \<Rightarrow> bool" where
  "whitespace_cp m cp =
     (if cp < 0x80 then se_is_ascii_whitespace cp else range_mem (nt_whitespace (md_norm m)) cp)"

definition control_cp :: "se_model \<Rightarrow> u32 \<Rightarrow> bool" where
  "control_cp m cp =
     (if cp < 0x80 then ascii_control cp else range_mem (nt_control (md_norm m)) cp)"

definition punct_cp :: "se_model \<Rightarrow> u32 \<Rightarrow> bool" where
  "punct_cp m cp =
     (if cp < 0x80 then se_is_ascii_punct cp else range_mem (nt_punct (md_norm m)) cp)"

definition mn_cp :: "se_model \<Rightarrow> u32 \<Rightarrow> bool" where
  "mn_cp m cp = range_mem (nt_mn (md_norm m)) cp"

definition lower_cp :: "se_model \<Rightarrow> u32 \<Rightarrow> se_map_entry option" where
  "lower_cp m cp = map_find (nt_lower (md_norm m)) cp"

definition nfd_cp :: "se_model \<Rightarrow> u32 \<Rightarrow> se_map_entry option" where
  "nfd_cp m cp = map_find (nt_nfd (md_norm m)) cp"

lemma class_eqs:
  assumes "norm_tables_ok (md_norm m)"
  shows is_whitespace_eq: "is_whitespace m cp = Inr (whitespace_cp m cp)"
    and is_control_eq: "is_control m cp = Inr (control_cp m cp)"
    and is_punct_eq: "is_punct m cp = Inr (punct_cp m cp)"
    and is_mn_eq: "is_mn m cp = Inr (mn_cp m cp)"
    and lower_entry_eq: "lower_entry m cp = Inr (lower_cp m cp)"
    and nfd_entry_eq: "nfd_entry m cp = Inr (nfd_cp m cp)"
  using assms
  by (simp_all add: is_whitespace_def is_control_def is_punct_def is_mn_def lower_entry_def
      nfd_entry_def whitespace_cp_def control_cp_def punct_cp_def mn_cp_def lower_cp_def nfd_cp_def
      norm_tables_256 range256_rd map256_rd range_contains_eq map_lookup_eq
      norm_tables_ok_def [of "md_norm m"] cong: if_cong)

lemma map_find_ok:
  assumes "norm_map_ok es" "map_find es cp = Some e"
  shows "map_entry_ok e" "me_cp e = cp"
  using assms by (auto simp: map_find_def norm_map_ok_def list_all_iff find_Some_iff)

lemma class_entry_full:
  assumes "norm_tables_ok (md_norm m)" "lower_cp m cp = Some e \<or> nfd_cp m cp = Some e"
  shows "unat (me_len e) \<le> 4" "length (me_out e) = 4"
proof -
  have "map_entry_ok e \<and> length (me_out e) = 4"
    using assms
    by (auto simp: norm_tables_ok_def lower_cp_def nfd_cp_def map_find_def norm_map_ok_def full_entries_def
        list_all_iff find_Some_iff)
  then show "unat (me_len e) \<le> 4" "length (me_out e) = 4"
    by (auto simp: map_entry_ok_def word_le_nat_alt)
qed

end
