(* ===== verification/Bytes.thy ===== *)
theory Bytes
  imports SeBase
begin

text \<open>
  Little-endian reads and byte comparison of \<^verbatim>\<open>se_format.c\<close>.  A pointer into a
  buffer is the list of the bytes from it to the end of the buffer, so that a read
  past the end is \<open>OutOfBounds\<close>.
\<close>

subsection \<open>Reads\<close>

definition join_u32 :: "u8 \<Rightarrow> u8 \<Rightarrow> u8 \<Rightarrow> u8 \<Rightarrow> u32" where
  "join_u32 b0 b1 b2 b3 =
     ucast b0 OR push_bit 8 (ucast b1) OR push_bit 16 (ucast b2) OR push_bit 24 (ucast b3)"

definition read_u32 :: "u8 list \<Rightarrow> nat \<Rightarrow> u32 se_result" where
  "read_u32 base off =
     bindR (rdR base off) (\<lambda>b0. bindR (rdR base (off + 1)) (\<lambda>b1.
     bindR (rdR base (off + 2)) (\<lambda>b2. bindR (rdR base (off + 3)) (\<lambda>b3.
       Inr (join_u32 b0 b1 b2 b3)))))"

definition join_u64 :: "u32 \<Rightarrow> u32 \<Rightarrow> u64" where
  "join_u64 lo hi = ucast lo OR push_bit 32 (ucast hi)"

definition read_u64 :: "u8 list \<Rightarrow> nat \<Rightarrow> u64 se_result" where
  "read_u64 base off =
     bindR (read_u32 base off) (\<lambda>lo. bindR (read_u32 base (off + 4)) (\<lambda>hi.
       Inr (join_u64 lo hi)))"

lemma read_u32_Inr [read_simps]:
  "off + 4 \<le> length base \<Longrightarrow> read_u32 base off =
     Inr (join_u32 (base ! off) (base ! (off + 1)) (base ! (off + 2)) (base ! (off + 3)))"
  by (simp add: read_u32_def rdR_def)

lemma read_u32_total: "off + 4 \<le> length base \<Longrightarrow> \<exists>w. read_u32 base off = Inr w"
  by (simp add: read_simps)

lemma read_u32_bounds: "read_u32 base off = Inr w \<Longrightarrow> off + 4 \<le> length base"
  by (auto simp: read_u32_def bindR_eq_Inr rdR_eq_Inr)

lemma read_u64_Inr [read_simps]:
  "off + 8 \<le> length base \<Longrightarrow> read_u64 base off =
     Inr (join_u64
       (join_u32 (base ! off) (base ! (off + 1)) (base ! (off + 2)) (base ! (off + 3)))
       (join_u32 (base ! (off + 4)) (base ! (off + 5)) (base ! (off + 6)) (base ! (off + 7))))"
  by (simp add: read_u64_def read_u32_Inr add.commute)

lemma read_u64_total: "off + 8 \<le> length base \<Longrightarrow> \<exists>w. read_u64 base off = Inr w"
  by (simp add: read_simps)

lemma join_u32_bytes:
  "ucast (join_u32 b0 b1 b2 b3) = b0" "ucast (drop_bit 8 (join_u32 b0 b1 b2 b3)) = b1"
  "ucast (drop_bit 16 (join_u32 b0 b1 b2 b3)) = b2"
  "ucast (drop_bit 24 (join_u32 b0 b1 b2 b3)) = b3"
  by (auto simp: join_u32_def bit_eq_iff bit_simps not_less dest: bit_imp_le_length)

lemma join_u32_inject:
  "join_u32 a0 a1 a2 a3 = join_u32 b0 b1 b2 b3 \<longleftrightarrow> a0 = b0 \<and> a1 = b1 \<and> a2 = b2 \<and> a3 = b3"
  by (metis join_u32_bytes)

lemma join_u64_words: "ucast (join_u64 lo hi) = lo" "ucast (drop_bit 32 (join_u64 lo hi)) = hi"
  by (auto simp: join_u64_def bit_eq_iff bit_simps not_less dest: bit_imp_le_length)

lemma join_u64_inject: "join_u64 l h = join_u64 l' h' \<longleftrightarrow> l = l' \<and> h = h'"
  by (metis join_u64_words)

lemma unat_join_u32:
  "unat (join_u32 b0 b1 b2 b3) = unat b0 + 256 * unat b1 + 65536 * unat b2 + 16777216 * unat b3"
proof -
  have b: "unat (b :: u8) < 256" for b using unsigned_less [of b] by simp
  have e: "join_u32 b0 b1 b2 b3 =
      push_bit 8 (push_bit 8 (push_bit 8 (ucast b3) OR ucast b2) OR ucast b1) OR ucast b0"
    by (auto simp: join_u32_def bit_eq_iff bit_simps not_less)
  have u: "unat (ucast b :: u32) = unat b" for b :: u8 by (simp add: unat_ucast_up)
  have s: "unat (push_bit 8 (ucast b3) OR ucast b2 :: u32) = unat b3 * 256 + unat b2"
    using unat_shift_or [of "ucast b3 :: u32" 8 "ucast b2"] b [of b2] b [of b3] u by simp
  have t: "unat (push_bit 8 (push_bit 8 (ucast b3) OR ucast b2) OR ucast b1 :: u32) =
      (unat b3 * 256 + unat b2) * 256 + unat b1"
    using unat_shift_or [of "push_bit 8 (ucast b3) OR ucast b2 :: u32" 8 "ucast b1"]
      b [of b1] b [of b2] b [of b3] u s by simp
  show ?thesis
    unfolding e
    using unat_shift_or [of "push_bit 8 (push_bit 8 (ucast b3) OR ucast b2) OR ucast b1 :: u32" 8 "ucast b0"]
      b [of b0] b [of b1] b [of b2] b [of b3] u t by simp
qed

text \<open>The position and size of a section of the file.\<close>

record sect =
  sec_off :: u64
  sec_size :: u64
  sec_name :: string

subsection \<open>Comparison\<close>

text \<open>The byte loop \<^verbatim>\<open>while (n--)\<close>.\<close>

fun memeq_bytes :: "u8 list \<Rightarrow> u8 list \<Rightarrow> nat \<Rightarrow> bool se_result" where
  "memeq_bytes a b 0 = Inr True"
| "memeq_bytes a b (Suc n) =
     bindR (rdR a 0) (\<lambda>x. bindR (rdR b 0) (\<lambda>y.
       if x \<noteq> y then Inr False else memeq_bytes (drop 1 a) (drop 1 b) n))"

definition memeq_tail :: "u8 list \<Rightarrow> u8 list \<Rightarrow> nat \<Rightarrow> bool se_result" where
  "memeq_tail a b n =
     (if n \<ge> 4 then
        bindR (read_u32 a 0) (\<lambda>ua. bindR (read_u32 b 0) (\<lambda>ub.
          if ua \<noteq> ub then Inr False else memeq_bytes (drop 4 a) (drop 4 b) (n - 4)))
      else memeq_bytes a b n)"

function se_memeq :: "u8 list \<Rightarrow> u8 list \<Rightarrow> nat \<Rightarrow> bool se_result" where
  "se_memeq a b n =
     (if n \<ge> 8 then
        bindR (read_u64 a 0) (\<lambda>ua. bindR (read_u64 b 0) (\<lambda>ub.
          if ua \<noteq> ub then Inr False else se_memeq (drop 8 a) (drop 8 b) (n - 8)))
      else memeq_tail a b n)"
  by pat_completeness auto
termination by (relation "measure (\<lambda>(a, b, n). n)") auto

declare se_memeq.simps [simp del]

lemma memeq_bytes_eq:
  "n \<le> length a \<Longrightarrow> n \<le> length b \<Longrightarrow> memeq_bytes a b n = Inr (take n a = take n b)"
proof (induction n arbitrary: a b)
  case (Suc n)
  then obtain x a' y b' where "a = x # a'" "b = y # b'"
    by (metis Suc_le_length_iff)
  with Suc show ?case by (simp add: rdR_def)
qed simp

lemma take_split: "take (m + n) xs = take (m + n) ys \<longleftrightarrow>
    take m xs = take m ys \<and> take n (drop m xs) = take n (drop m ys)"
  if "m \<le> length xs" "m \<le> length ys"
  using that by (simp add: take_add)

lemma read_u32_eq_iff:
  assumes "4 \<le> length a" "4 \<le> length b"
  shows "read_u32 a 0 = read_u32 b 0 \<longleftrightarrow> take 4 a = take 4 b"
proof -
  have t: "take 4 (xs :: u8 list) = [xs ! 0, xs ! 1, xs ! 2, xs ! 3]" if "4 \<le> length xs" for xs
    using that by (auto intro!: nth_equalityI simp: less_Suc_eq nth_Cons' eval_nat_numeral)
  show ?thesis using assms by (simp add: read_u32_Inr join_u32_inject t numeral_2_eq_2)
qed

lemma read_u64_eq_iff:
  assumes "8 \<le> length a" "8 \<le> length b"
  shows "read_u64 a 0 = read_u64 b 0 \<longleftrightarrow> take 8 a = take 8 b"
proof -
  have t: "take 8 (xs :: u8 list) =
      [xs ! 0, xs ! 1, xs ! 2, xs ! 3, xs ! 4, xs ! 5, xs ! 6, xs ! 7]" if "8 \<le> length xs" for xs
    using that by (auto intro!: nth_equalityI simp: less_Suc_eq nth_Cons' eval_nat_numeral)
  show ?thesis using assms by (simp add: read_u64_Inr join_u64_inject join_u32_inject t numeral_2_eq_2)
qed

lemma memeq_tail_eq:
  assumes "n \<le> length a" "n \<le> length b"
  shows "memeq_tail a b n = Inr (take n a = take n b)"
proof (cases "4 \<le> n")
  case False
  then show ?thesis using assms by (simp add: memeq_tail_def memeq_bytes_eq)
next
  case True
  obtain ua ub where u: "read_u32 a 0 = Inr ua" "read_u32 b 0 = Inr ub"
    using read_u32_total [of 0 a] read_u32_total [of 0 b] assms True by auto
  have "ua = ub \<longleftrightarrow> take 4 a = take 4 b"
    using read_u32_eq_iff [of a b] u assms True by simp
  moreover have "memeq_bytes (drop 4 a) (drop 4 b) (n - 4) =
      Inr (take (n - 4) (drop 4 a) = take (n - 4) (drop 4 b))"
    using assms by (intro memeq_bytes_eq) auto
  ultimately show ?thesis
    using True u take_split [of 4 a b "n - 4"] assms by (auto simp: memeq_tail_def)
qed

lemma memeq_eq:
  "n \<le> length a \<Longrightarrow> n \<le> length b \<Longrightarrow> se_memeq a b n = Inr (take n a = take n b)"
proof (induction a b n rule: se_memeq.induct)
  case (1 a b n)
  show ?case
  proof (cases "8 \<le> n")
    case False
    then show ?thesis using 1 by (simp add: se_memeq.simps memeq_tail_eq)
  next
    case True
    obtain ua ub where u: "read_u64 a 0 = Inr ua" "read_u64 b 0 = Inr ub"
      using read_u64_total [of 0 a] read_u64_total [of 0 b] "1.prems" True by auto
    have eq: "ua = ub \<longleftrightarrow> take 8 a = take 8 b"
      using read_u64_eq_iff [of a b] u "1.prems" True by simp
    show ?thesis
    proof (cases "ua = ub")
      case same: True
      have "se_memeq (drop 8 a) (drop 8 b) (n - 8) =
          Inr (take (n - 8) (drop 8 a) = take (n - 8) (drop 8 b))"
        using "1.prems" True u same by (intro "1.IH") auto
      then show ?thesis
        using True u same eq take_split [of 8 a b "n - 8"] "1.prems" by (simp add: se_memeq.simps [of a])
    next
      case False
      then show ?thesis
        using True u eq take_split [of 8 a b "n - 8"] "1.prems" by (simp add: se_memeq.simps [of a])
    qed
  qed
qed

end
