(* ===== verification/Trie.thy ===== *)
theory Trie
  imports Model Bytes Tables
begin

text \<open>
  The tries of \<^verbatim>\<open>se_format.c\<close>: the validation of a trie section, the child lookup
  with its five cases on the number of edges, and the longest match.  A trie that
  validation accepts denotes a finite map from byte strings to token ids, given by
  \<open>trie_word\<close>; the longest match returns the longest non-empty prefix of the input
  that this map holds, and reads only inside the trie.
\<close>

subsection \<open>Validation\<close>

definition read_trie_node :: "u8 list \<Rightarrow> nat \<Rightarrow> se_trie_node se_result" where
  "read_trie_node base off =
     bindR (read_u32 base off) (\<lambda>a. bindR (read_u32 base (off + 4)) (\<lambda>b.
     bindR (read_u32 base (off + 8)) (\<lambda>c. bindR (read_u32 base (off + 12)) (\<lambda>d.
       Inr \<lparr>tn_edge_start = a, tn_edge_count = b, tn_token_id = c, tn_reserved = d\<rparr>))))"

definition read_trie_edge :: "u8 list \<Rightarrow> nat \<Rightarrow> se_trie_edge se_result" where
  "read_trie_edge base off =
     bindR (read_u32 base off) (\<lambda>a. bindR (read_u32 base (off + 4)) (\<lambda>b.
       Inr \<lparr>te_byte = a, te_child = b\<rparr>))"

text \<open>The edges \<open>k, k + 1, \<dots>\<close> of a node, \<open>n\<close> of them still to check.\<close>

fun check_edges ::
  "se_trie_edge list \<Rightarrow> u32 \<Rightarrow> u32 \<Rightarrow> nat \<Rightarrow> u32 \<Rightarrow> nat \<Rightarrow> unit se_result" where
  "check_edges edges node_count edge_start k prev 0 = Inr ()"
| "check_edges edges node_count edge_start k prev (Suc n) =
     bindR (rdR edges (unat (edge_start + word_of_nat k))) (\<lambda>edge.
       if te_byte edge > 255 \<or> te_child edge \<ge> node_count
       then Inl (SeError SE_ERR_INVALID_FORMAT ''%s trie edge out of range'')
       else if k \<noteq> 0 \<and> te_byte edge \<le> prev
       then Inl (SeError SE_ERR_INVALID_FORMAT ''%s trie edges are not strictly sorted'')
       else check_edges edges node_count edge_start (k + 1) (te_byte edge) n)"

fun check_nodes ::
  "se_trie_edge list \<Rightarrow> u32 \<Rightarrow> u32 \<Rightarrow> u32 \<Rightarrow> se_trie_node list \<Rightarrow> unit se_result" where
  "check_nodes edges node_count edge_count vocab_size [] = Inr ()"
| "check_nodes edges node_count edge_count vocab_size (node # rest) =
     (if tn_token_id node \<noteq> SE_SLOT_EMPTY \<and> tn_token_id node \<ge> vocab_size
      then Inl (SeError SE_ERR_INVALID_FORMAT ''%s trie node %u has token id out of range'')
      else if tn_edge_start node > edge_count \<or> tn_edge_count node > edge_count - tn_edge_start node
      then Inl (SeError SE_ERR_INVALID_FORMAT ''%s trie node %u edges out of range'')
      else bindR (check_edges edges node_count (tn_edge_start node) 0 0 (unat (tn_edge_count node)))
             (\<lambda>_. check_nodes edges node_count edge_count vocab_size rest))"

definition parse_trie :: "u8 list \<Rightarrow> sect \<Rightarrow> u32 \<Rightarrow> se_trie se_result" where
  "parse_trie base sec vocab_size =
     (if sec_size sec < 16
      then Inl (SeError SE_ERR_INVALID_FORMAT ''%s trie section too small'')
      else (let p = unat (sec_off sec) in
        bindR (read_u32 base p) (\<lambda>node_count.
        bindR (read_u32 base (p + 4)) (\<lambda>edge_count.
          if node_count = 0
          then Inl (SeError SE_ERR_INVALID_FORMAT ''%s trie has no root node'')
          else if 16 + ucast node_count * 16 + ucast edge_count * 8 \<noteq> sec_size sec
          then Inl (SeError SE_ERR_INVALID_FORMAT ''%s trie size mismatch'')
          else
            bindR (mapR (\<lambda>i. read_trie_node base (p + 16 + 16 * i)) [0..<unat node_count]) (\<lambda>nodes.
            bindR (mapR (\<lambda>i. read_trie_edge base (p + 16 + 16 * unat node_count + 8 * i))
                     [0..<unat edge_count]) (\<lambda>edges.
            bindR (check_nodes edges node_count edge_count vocab_size nodes) (\<lambda>_.
              Inr \<lparr>tr_nodes = nodes, tr_edges = edges,
                   tr_node_count = node_count, tr_edge_count = edge_count\<rparr>)))))))"

subsection \<open>Lookup\<close>

text \<open>The scan of at most eight edges: \<open>n\<close> of them left, starting at the \<open>i\<close>-th.\<close>

fun edge_scan :: "se_trie_edge list \<Rightarrow> u32 \<Rightarrow> nat \<Rightarrow> u32 \<Rightarrow> nat \<Rightarrow> u32 se_result" where
  "edge_scan edges start i byte 0 = Inr SE_SLOT_EMPTY"
| "edge_scan edges start i byte (Suc n) =
     bindR (rdR edges (unat (start + word_of_nat i))) (\<lambda>edge.
       if te_byte edge = byte then Inr (te_child edge)
       else if te_byte edge > byte then Inr SE_SLOT_EMPTY
       else edge_scan edges start (i + 1) byte n)"

lemma drop_bit_half: "drop_bit 1 (x :: u32) = x div 2"
  by (simp add: drop_bit_eq_div)

function lower_bound_loop :: "se_trie_edge list \<Rightarrow> u32 \<Rightarrow> u32 \<Rightarrow> u32 \<Rightarrow> u32 se_result" where
  "lower_bound_loop edges lo hi byte =
     (if lo < hi then
        (let mid = lo + drop_bit 1 (hi - lo) in
         bindR (rdR edges (unat mid)) (\<lambda>edge.
           if te_byte edge < byte then lower_bound_loop edges (mid + 1) hi byte
           else lower_bound_loop edges lo mid byte))
      else Inr lo)"
  by pat_completeness auto

termination
  by (relation "measure (\<lambda>(edges, lo, hi, byte). unat hi - unat lo)")
    (simp_all only: drop_bit_half in_measure split mid_measure wf_measure)

declare lower_bound_loop.simps [simp del]

definition trie_find_child :: "se_trie \<Rightarrow> se_trie_node \<Rightarrow> u32 \<Rightarrow> u32 se_result" where
  "trie_find_child trie node byte =
     (let start = tn_edge_start node; count = tn_edge_count node; edges = tr_edges trie in
      if count = 0 then Inr SE_SLOT_EMPTY
      else if count = 1 then
        bindR (rdR edges (unat start)) (\<lambda>e.
          Inr (if te_byte e = byte then te_child e else SE_SLOT_EMPTY))
      else if count = 2 then
        bindR (rdR edges (unat start)) (\<lambda>e.
          if te_byte e = byte then Inr (te_child e)
          else bindR (rdR edges (unat (start + 1))) (\<lambda>e.
            Inr (if te_byte e = byte then te_child e else SE_SLOT_EMPTY)))
      else if count \<le> 8 then edge_scan edges start 0 byte (unat count)
      else bindR (lower_bound_loop edges start (start + count) byte) (\<lambda>lo.
        if lo < start + count then
          bindR (rdR edges (unat lo)) (\<lambda>e.
            Inr (if te_byte e = byte then te_child e else SE_SLOT_EMPTY))
        else Inr SE_SLOT_EMPTY))"

text \<open>The loop of the longest match over the bytes from position \<open>i\<close> on.\<close>

fun match_loop ::
  "se_trie \<Rightarrow> u8 list \<Rightarrow> nat \<Rightarrow> u32 \<Rightarrow> u32 \<Rightarrow> nat \<Rightarrow> (u32 \<times> nat) se_result" where
  "match_loop trie [] i node_index best_id best_len = Inr (best_id, best_len)"
| "match_loop trie (b # bytes) i node_index best_id best_len =
     bindR (rdR (tr_nodes trie) (unat node_index)) (\<lambda>node.
     bindR (trie_find_child trie node (ucast b)) (\<lambda>next.
       if next = SE_SLOT_EMPTY then Inr (best_id, best_len)
       else bindR (rdR (tr_nodes trie) (unat next)) (\<lambda>node'.
         if tn_token_id node' \<noteq> SE_SLOT_EMPTY
         then match_loop trie bytes (i + 1) next (tn_token_id node') (i + 1)
         else match_loop trie bytes (i + 1) next best_id best_len)))"

definition se_trie_longest_match :: "se_trie \<Rightarrow> u8 list \<Rightarrow> (u32 \<times> nat) option se_result" where
  "se_trie_longest_match trie bytes =
     (if tr_node_count trie = 0 then Inr None
      else bindR (match_loop trie bytes 0 0 SE_SLOT_EMPTY 0) (\<lambda>(best_id, best_len).
        Inr (if best_id = SE_SLOT_EMPTY then None else Some (best_id, best_len))))"

subsection \<open>What validation establishes\<close>

definition node_edges :: "se_trie \<Rightarrow> se_trie_node \<Rightarrow> se_trie_edge list" where
  "node_edges t node = take (unat (tn_edge_count node)) (drop (unat (tn_edge_start node)) (tr_edges t))"

definition edges_ok :: "u32 \<Rightarrow> se_trie_edge list \<Rightarrow> bool" where
  "edges_ok node_count es =
     (list_all (\<lambda>e. te_byte e \<le> 255 \<and> te_child e < node_count) es \<and>
      sorted_wrt (<) (map te_byte es))"

definition node_ok :: "u32 \<Rightarrow> se_trie \<Rightarrow> se_trie_node \<Rightarrow> bool" where
  "node_ok vocab_size t node =
     ((tn_token_id node \<noteq> SE_SLOT_EMPTY \<longrightarrow> tn_token_id node < vocab_size) \<and>
      unat (tn_edge_start node) + unat (tn_edge_count node) \<le> length (tr_edges t) \<and>
      edges_ok (tr_node_count t) (node_edges t node))"

definition trie_ok :: "u32 \<Rightarrow> se_trie \<Rightarrow> bool" where
  "trie_ok vocab_size t =
     (unat (tr_node_count t) = length (tr_nodes t) \<and> unat (tr_edge_count t) = length (tr_edges t) \<and>
      tr_nodes t \<noteq> [] \<and> list_all (node_ok vocab_size t) (tr_nodes t))"

lemma unat_plus_nat:
  "unat (a :: u32) + k < 2 ^ 32 \<Longrightarrow> unat (a + word_of_nat k) = unat a + k"
  by (simp add: unat_word_ariths unat_of_nat take_bit_nat_eq_self)

lemma take_drop_Cons:
  "i < length xs \<Longrightarrow> take (Suc n) (drop i xs) = xs ! i # take n (drop (Suc i) xs)"
  by (simp flip: Cons_nth_drop_Suc)

lemma sorted_Cons_hd:
  fixes f :: "'a \<Rightarrow> 'b::preorder"
  shows "sorted_wrt (<) (map f (x # xs)) \<longleftrightarrow>
    sorted_wrt (<) (map f xs) \<and> (xs \<noteq> [] \<longrightarrow> f x < f (hd xs))"
  by (cases xs) (auto dest: less_trans)

lemma check_edges_iff:
  "unat start + k + n \<le> length edges \<Longrightarrow> length edges < 2 ^ 32 \<Longrightarrow>
   check_edges edges node_count start k prev n = Inr () \<longleftrightarrow>
     edges_ok node_count (take n (drop (unat start + k) edges)) \<and>
     (k \<noteq> 0 \<longrightarrow> n \<noteq> 0 \<longrightarrow> prev < te_byte (edges ! (unat start + k)))"
proof (induction n arbitrary: k prev)
  case 0
  then show ?case by (simp add: edges_ok_def)
next
  case (Suc n)
  let ?i = "unat start + k"
  have i: "?i < length edges" "unat (start + word_of_nat k) = ?i"
    using Suc.prems by (simp_all add: unat_plus_nat)
  have hd: "hd (take n (drop (Suc ?i) edges)) = edges ! Suc ?i" if "n \<noteq> 0"
    using that Suc.prems by (simp add: hd_drop_conv_nth)
  have "check_edges edges node_count start (k + 1) (te_byte (edges ! ?i)) n = Inr () \<longleftrightarrow>
      edges_ok node_count (take n (drop (Suc ?i) edges)) \<and>
      (n \<noteq> 0 \<longrightarrow> te_byte (edges ! ?i) < te_byte (edges ! Suc ?i))"
    using Suc.IH [of "k + 1" "te_byte (edges ! ?i)"] Suc.prems by simp
  moreover have "take n (drop (Suc ?i) edges) \<noteq> [] \<longleftrightarrow> n \<noteq> 0" using Suc.prems by auto
  ultimately show ?case
    using i hd by (auto simp: rdR_def take_drop_Cons edges_ok_def sorted_Cons_hd not_less not_le
        simp del: list.map sorted_wrt.simps)
qed

lemma check_edges_safe:
  "unat start + k + n \<le> length edges \<Longrightarrow> length edges < 2 ^ 32 \<Longrightarrow>
   check_edges edges node_count start k prev n \<noteq> Inl OutOfBounds"
  by (induction n arbitrary: k prev) (auto simp: rdR_def unat_plus_nat bindR_eq_Inl)

lemma node_bounds:
  fixes start count edge_count :: u32
  assumes "\<not> (start > edge_count \<or> count > edge_count - start)"
  shows "unat start + unat count \<le> unat edge_count"
  using assms unat_sub_le [of start edge_count] unsigned_less [of edge_count]
  by (auto simp: not_less word_le_nat_alt)

lemma check_nodes_ok:
  assumes "unat (tr_edge_count t) = length (tr_edges t)"
  shows "check_nodes (tr_edges t) (tr_node_count t) (tr_edge_count t) vocab_size nodes = Inr () \<Longrightarrow>
    list_all (node_ok vocab_size t) nodes"
proof (induction nodes)
  case (Cons node nodes)
  from Cons.prems have bounds: "\<not> (tn_edge_start node > tr_edge_count t \<or>
      tn_edge_count node > tr_edge_count t - tn_edge_start node)"
    and tok: "tn_token_id node \<noteq> SE_SLOT_EMPTY \<longrightarrow> tn_token_id node < vocab_size"
    and chk: "check_edges (tr_edges t) (tr_node_count t) (tn_edge_start node) 0 0
      (unat (tn_edge_count node)) = Inr ()"
    and rest: "check_nodes (tr_edges t) (tr_node_count t) (tr_edge_count t) vocab_size nodes = Inr ()"
    by (auto simp: bindR_eq_Inr not_le split: if_splits)
  have len: "length (tr_edges t) < 2 ^ 32"
    using assms u32_bound [of "tr_edge_count t"] by simp
  have "edges_ok (tr_node_count t) (node_edges t node)"
    using check_edges_iff [of "tn_edge_start node" 0 "unat (tn_edge_count node)" "tr_edges t"]
      chk node_bounds [OF bounds] assms len by (simp add: node_edges_def)
  then show ?case
    using Cons.IH [OF rest] tok node_bounds [OF bounds] assms by (simp add: node_ok_def)
qed simp

lemma check_nodes_safe:
  assumes "unat edge_count = length edges"
  shows "check_nodes edges node_count edge_count vocab_size nodes \<noteq> Inl OutOfBounds"
proof (induction nodes)
  case (Cons node nodes)
  have "length edges < 2 ^ 32" using assms u32_bound [of edge_count] by simp
  then have "check_edges edges node_count (tn_edge_start node) 0 0 (unat (tn_edge_count node))
      \<noteq> Inl OutOfBounds"
    if "\<not> (tn_edge_start node > edge_count \<or> tn_edge_count node > edge_count - tn_edge_start node)"
    using node_bounds [OF that] assms by (intro check_edges_safe) simp_all
  then show ?case using Cons by (simp add: bindR_eq_Inl)
qed simp

lemma parse_trie_ok:
  assumes "parse_trie base sec vocab_size = Inr t"
  shows "trie_ok vocab_size t"
proof -
  obtain nodes edges nc ec where
    nodes: "mapR (\<lambda>i. read_trie_node base (unat (sec_off sec) + 16 + 16 * i)) [0..<unat nc] = Inr nodes"
    and edges: "mapR (\<lambda>i. read_trie_edge base (unat (sec_off sec) + 16 + 16 * unat nc + 8 * i))
      [0..<unat ec] = Inr edges"
    and chk: "check_nodes edges nc ec vocab_size nodes = Inr ()"
    and nz: "nc \<noteq> 0"
    and t: "t = \<lparr>tr_nodes = nodes, tr_edges = edges, tr_node_count = nc, tr_edge_count = ec\<rparr>"
    using assms by (auto simp: parse_trie_def Let_def bindR_eq_Inr split: if_splits)
  have "length nodes = unat nc" "length edges = unat ec"
    using mapR_Inr_length [OF nodes] mapR_Inr_length [OF edges] by simp_all
  moreover from this nz have "nodes \<noteq> []" by (auto simp: unat_eq_0)
  ultimately show ?thesis
    using check_nodes_ok [of t vocab_size nodes] chk t by (simp add: trie_ok_def)
qed

lemma read_trie_node_total:
  "off + 16 \<le> length base \<Longrightarrow> \<exists>y. read_trie_node base off = Inr y"
  by (simp add: read_trie_node_def read_simps)

lemma read_trie_edge_total:
  "off + 8 \<le> length base \<Longrightarrow> \<exists>y. read_trie_edge base off = Inr y"
  by (simp add: read_trie_edge_def read_simps)

lemma node_room: "p + 16 + n * 16 + m * 8 \<le> l \<Longrightarrow> i < n \<Longrightarrow> p + 16 + 16 * i + 16 \<le> (l :: nat)"
  by linarith

lemma edge_room:
  "p + 16 + n * 16 + m * 8 \<le> l \<Longrightarrow> i < m \<Longrightarrow> p + 16 + 16 * n + 8 * i + 8 \<le> (l :: nat)"
  by linarith

lemma trie_need_nat:
  "unat (16 + ucast (nc :: u32) * 16 + ucast (ec :: u32) * 8 :: u64) = 16 + unat nc * 16 + unat ec * 8"
proof -
  have "unat nc < 2 ^ 32" "unat ec < 2 ^ 32" by (rule u32_bound)+
  then show ?thesis by (simp add: unat_word_ariths unat_ucast_up)
qed

lemma parse_trie_safe:
  assumes "unat (sec_off sec) + unat (sec_size sec) \<le> length base"
  shows "parse_trie base sec vocab_size \<noteq> Inl OutOfBounds"
proof (cases "sec_size sec < 16")
  case True
  then show ?thesis by (simp add: parse_trie_def)
next
  case False
  let ?p = "unat (sec_off sec)"
  have p: "?p + 16 \<le> length base" using False assms by (simp add: word_less_nat_alt)
  obtain nc ec where c: "read_u32 base ?p = Inr nc" "read_u32 base (?p + 4) = Inr ec"
    using read_u32_total [of ?p base] read_u32_total [of "?p + 4" base] p by auto
  show ?thesis
  proof (cases "nc = 0 \<or> 16 + ucast nc * 16 + ucast ec * 8 \<noteq> sec_size sec")
    case True
    then show ?thesis using False c by (auto simp: parse_trie_def Let_def)
  next
    case ok: False
    then have "unat (sec_size sec) = 16 + unat nc * 16 + unat ec * 8"
      using trie_need_nat [of nc ec] by simp
    then have need: "?p + 16 + unat nc * 16 + unat ec * 8 \<le> length base" using assms by linarith
    have "\<exists>nodes. mapR (\<lambda>i. read_trie_node base (?p + 16 + 16 * i)) [0..<unat nc] = Inr nodes
        \<and> length nodes = unat nc"
      by (rule mapR_upt_total, rule read_trie_node_total, rule node_room [OF need])
    then obtain nodes where nodes:
      "mapR (\<lambda>i. read_trie_node base (?p + 16 + 16 * i)) [0..<unat nc] = Inr nodes" by blast
    have "\<exists>edges. mapR (\<lambda>i. read_trie_edge base (?p + 16 + 16 * unat nc + 8 * i)) [0..<unat ec]
        = Inr edges \<and> length edges = unat ec"
      by (rule mapR_upt_total, rule read_trie_edge_total, rule edge_room [OF need])
    then obtain edges where edges:
      "mapR (\<lambda>i. read_trie_edge base (?p + 16 + 16 * unat nc + 8 * i)) [0..<unat ec] = Inr edges"
      by blast
    have "unat ec = length edges" using mapR_Inr_length [OF edges] by simp
    then have "check_nodes edges nc ec vocab_size nodes \<noteq> Inl OutOfBounds" by (rule check_nodes_safe)
    moreover have "parse_trie base sec vocab_size =
        bindR (check_nodes edges nc ec vocab_size nodes) (\<lambda>_.
          Inr \<lparr>tr_nodes = nodes, tr_edges = edges, tr_node_count = nc, tr_edge_count = ec\<rparr>)"
      unfolding parse_trie_def Let_def using False c ok nodes edges by simp
    ultimately show ?thesis by (simp add: bindR_eq_Inl)
  qed
qed

subsection \<open>Child lookup\<close>

definition child_of :: "se_trie_edge list \<Rightarrow> u32 \<Rightarrow> u32" where
  "child_of es byte = (case find (\<lambda>e. te_byte e = byte) es of
     None \<Rightarrow> SE_SLOT_EMPTY | Some e \<Rightarrow> te_child e)"

lemma child_of_simps [simp]:
  "child_of [] byte = SE_SLOT_EMPTY"
  "child_of (e # es) byte = (if te_byte e = byte then te_child e else child_of es byte)"
  by (simp_all add: child_of_def)

lemma child_of_above:
  "(\<And>e. e \<in> set es \<Longrightarrow> te_byte e \<noteq> byte) \<Longrightarrow> child_of es byte = SE_SLOT_EMPTY"
  by (induction es) auto

lemma edge_scan_eq:
  "unat start + i + n \<le> length edges \<Longrightarrow> length edges < 2 ^ 32 \<Longrightarrow>
   sorted_wrt (<) (map te_byte (take n (drop (unat start + i) edges))) \<Longrightarrow>
   edge_scan edges start i byte n = Inr (child_of (take n (drop (unat start + i) edges)) byte)"
proof (induction n arbitrary: i)
  case (Suc n)
  let ?j = "unat start + i"
  have j: "?j < length edges" "unat (start + word_of_nat i) = ?j"
    using Suc.prems by (simp_all add: unat_plus_nat)
  have tail: "sorted_wrt (<) (map te_byte (take n (drop (Suc ?j) edges)))"
    and above: "\<And>e. e \<in> set (take n (drop (Suc ?j) edges)) \<Longrightarrow> te_byte (edges ! ?j) < te_byte e"
    using Suc.prems(3) j(1) by (simp_all add: take_drop_Cons)
  have "edge_scan edges start (i + 1) byte n = Inr (child_of (take n (drop (Suc ?j) edges)) byte)"
    using Suc.IH [of "i + 1"] Suc.prems tail by simp
  moreover have "child_of (take n (drop (Suc ?j) edges)) byte = SE_SLOT_EMPTY"
    if "te_byte (edges ! ?j) > byte"
    using that above by (intro child_of_above) (metis less_asym)
  ultimately show ?case
    using j by (simp add: rdR_def take_drop_Cons)
qed simp

lemma lower_bound_eq:
  assumes len: "unat hi0 \<le> length edges"
    and sorted: "\<And>i j. unat lo0 \<le> i \<Longrightarrow> i < j \<Longrightarrow> j < unat hi0 \<Longrightarrow> te_byte (edges ! i) < te_byte (edges ! j)"
  shows "lo0 \<le> lo \<Longrightarrow> lo \<le> hi \<Longrightarrow> hi \<le> hi0 \<Longrightarrow>
    (\<And>i. unat lo0 \<le> i \<Longrightarrow> i < unat lo \<Longrightarrow> te_byte (edges ! i) < byte) \<Longrightarrow>
    (\<And>i. unat hi \<le> i \<Longrightarrow> i < unat hi0 \<Longrightarrow> byte \<le> te_byte (edges ! i)) \<Longrightarrow>
    \<exists>r. lower_bound_loop edges lo hi byte = Inr r \<and> lo0 \<le> r \<and> r \<le> hi0 \<and>
      (\<forall>i. unat lo0 \<le> i \<and> i < unat r \<longrightarrow> te_byte (edges ! i) < byte) \<and>
      (\<forall>i. unat r \<le> i \<and> i < unat hi0 \<longrightarrow> byte \<le> te_byte (edges ! i))"
proof (induction "unat hi - unat lo" arbitrary: lo hi rule: less_induct)
  case less
  let ?mid = "lo + (hi - lo) div 2"
  show ?case
  proof (cases "lo < hi")
    case False
    then have "lo = hi" using less.prems(2) by simp
    then show ?thesis
      using less.prems by (subst lower_bound_loop.simps) auto
  next
    case True
    note mid = mid_bounds [OF True]
    have hi: "unat hi \<le> unat hi0" and lo: "unat lo0 \<le> unat lo"
      using less.prems by (simp_all add: word_le_nat_alt)
    have rd: "rdR edges (unat ?mid) = Inr (edges ! unat ?mid)"
      using mid hi len by (simp add: rdR_def)
    show ?thesis
    proof (cases "te_byte (edges ! unat ?mid) < byte")
      case less_byte: True
      have "\<exists>r. lower_bound_loop edges (?mid + 1) hi byte = Inr r \<and> lo0 \<le> r \<and> r \<le> hi0 \<and>
          (\<forall>i. unat lo0 \<le> i \<and> i < unat r \<longrightarrow> te_byte (edges ! i) < byte) \<and>
          (\<forall>i. unat r \<le> i \<and> i < unat hi0 \<longrightarrow> byte \<le> te_byte (edges ! i))"
      proof (rule less.hyps)
        show "unat hi - unat (?mid + 1) < unat hi - unat lo" using mid by linarith
        show "lo0 \<le> ?mid + 1" "?mid + 1 \<le> hi"
          using mid lo by (simp_all add: word_le_nat_alt)
        show "te_byte (edges ! i) < byte" if "unat lo0 \<le> i" "i < unat (?mid + 1)" for i
          using that less_byte sorted [of i "unat ?mid"] mid hi
          by (cases "i = unat ?mid") (auto intro: less_trans)
      qed (use less.prems in auto)
      then show ?thesis using True rd less_byte
        by (subst lower_bound_loop.simps) (simp add: drop_bit_half [simplified] Let_def)
    next
      case ge_byte: False
      have "\<exists>r. lower_bound_loop edges lo ?mid byte = Inr r \<and> lo0 \<le> r \<and> r \<le> hi0 \<and>
          (\<forall>i. unat lo0 \<le> i \<and> i < unat r \<longrightarrow> te_byte (edges ! i) < byte) \<and>
          (\<forall>i. unat r \<le> i \<and> i < unat hi0 \<longrightarrow> byte \<le> te_byte (edges ! i))"
      proof (rule less.hyps)
        show "unat ?mid - unat lo < unat hi - unat lo" using mid True by (simp add: word_less_nat_alt)
        show "lo \<le> ?mid" "?mid \<le> hi0" using mid hi by (simp_all add: word_le_nat_alt)
        show "byte \<le> te_byte (edges ! i)" if "unat ?mid \<le> i" "i < unat hi0" for i
          using that ge_byte sorted [of "unat ?mid" i] mid lo
          by (cases "i = unat ?mid") (auto simp: not_less intro: order_trans)
      qed (use less.prems in auto)
      then show ?thesis using True rd ge_byte
        by (subst lower_bound_loop.simps) (simp add: drop_bit_half [simplified] Let_def)
    qed
  qed
qed

lemma child_of_at:
  assumes "j < length es" "te_byte (es ! j) = byte" "\<And>i. i < j \<Longrightarrow> te_byte (es ! i) \<noteq> byte"
  shows "child_of es byte = te_child (es ! j)"
proof -
  have "find (\<lambda>e. te_byte e = byte) es = Some (es ! j)"
    using assms by (auto simp: find_Some_iff)
  then show ?thesis by (simp add: child_of_def)
qed

lemma find_child_eq:
  assumes len: "unat (tn_edge_start node) + unat (tn_edge_count node) \<le> length (tr_edges t)"
    and small: "length (tr_edges t) < 2 ^ 32"
    and sorted: "sorted_wrt (<) (map te_byte (node_edges t node))"
  shows "trie_find_child t node byte = Inr (child_of (node_edges t node) byte)"
proof -
  let ?s = "tn_edge_start node" and ?c = "tn_edge_count node" and ?edges = "tr_edges t"
  let ?es = "node_edges t node"
  have nth: "?es ! i = ?edges ! (unat ?s + i)" if "i < unat ?c" for i
    using that len by (simp add: node_edges_def)
  have elen: "length ?es = unat ?c" using len by (simp add: node_edges_def)
  consider (c0) "?c = 0" | (c1) "?c = 1" | (c2) "?c = 2" | (c8) "?c \<noteq> 0" "?c \<noteq> 1" "?c \<noteq> 2" "?c \<le> 8"
    | (big) "?c \<noteq> 0" "?c \<noteq> 1" "?c \<noteq> 2" "\<not> ?c \<le> 8" by blast
  then show ?thesis
  proof cases
    case c0
    then show ?thesis by (simp add: trie_find_child_def node_edges_def)
  next
    case c1
    then have "?es = [?edges ! unat ?s]"
      using elen nth by (intro nth_equalityI) auto
    then show ?thesis using c1 len by (simp add: trie_find_child_def rdR_def)
  next
    case c2
    then have "unat ?c = 2" by simp
    then have "?es = [?edges ! unat ?s, ?edges ! (unat ?s + 1)]"
      using elen nth by (intro nth_equalityI) (auto simp: less_2_cases_iff nth_Cons')
    moreover have "unat (?s + 1) = unat ?s + 1"
      using unat_plus_nat [of ?s 1] len small c2 by simp
    ultimately show ?thesis using c2 len by (simp add: trie_find_child_def rdR_def)
  next
    case c8
    then show ?thesis
      using edge_scan_eq [of ?s 0 "unat ?c" ?edges byte] len small sorted
      by (simp add: trie_find_child_def Let_def node_edges_def)
  next
    case big
    let ?e = "?s + ?c"
    have e: "unat ?e = unat ?s + unat ?c"
      using unat_plus_nat [of ?s "unat ?c"] len small by simp
    have sorted_at: "te_byte (?edges ! i) < te_byte (?edges ! j)"
      if "unat ?s \<le> i" "i < j" "j < unat ?e" for i j
      using sorted_wrt_nth_less [OF sorted, of "i - unat ?s" "j - unat ?s"] that e elen nth
      by (simp add: nth [of "i - unat ?s"] nth [of "j - unat ?s"])
    have "\<exists>r. lower_bound_loop ?edges ?s ?e byte = Inr r \<and> ?s \<le> r \<and> r \<le> ?e \<and>
        (\<forall>i. unat ?s \<le> i \<and> i < unat r \<longrightarrow> te_byte (?edges ! i) < byte) \<and>
        (\<forall>i. unat r \<le> i \<and> i < unat ?e \<longrightarrow> byte \<le> te_byte (?edges ! i))"
      using sorted_at e len by (intro lower_bound_eq) (auto simp: word_le_nat_alt)
    then obtain r where r: "lower_bound_loop ?edges ?s ?e byte = Inr r" "unat ?s \<le> unat r"
      "unat r \<le> unat ?e" and below: "\<And>i. unat ?s \<le> i \<Longrightarrow> i < unat r \<Longrightarrow> te_byte (?edges ! i) < byte"
      and above: "\<And>i. unat r \<le> i \<Longrightarrow> i < unat ?e \<Longrightarrow> byte \<le> te_byte (?edges ! i)"
      by (auto simp: word_le_nat_alt)
    define k where "k = unat r - unat ?s"
    have lower: "te_byte (?es ! i) \<noteq> byte" if "i < k" "i < unat ?c" for i
    proof -
      have "unat ?s + i < unat r" using that(1) by (simp add: k_def)
      from below [OF _ this] have "te_byte (?es ! i) < byte" using nth [OF that(2)] by simp
      then show ?thesis by simp
    qed
    have step: "trie_find_child t node byte =
        (if r < ?e then bindR (rdR ?edges (unat r)) (\<lambda>e.
            Inr (if te_byte e = byte then te_child e else SE_SLOT_EMPTY))
         else Inr SE_SLOT_EMPTY)"
      using big r(1) by (simp add: trie_find_child_def Let_def)
    show ?thesis
    proof (cases "r < ?e \<and> te_byte (?edges ! unat r) = byte")
      case True
      then have k: "k < unat ?c" and ek: "?es ! k = ?edges ! unat r"
        using r e nth [of k] by (auto simp: k_def word_less_nat_alt)
      have "child_of ?es byte = te_child (?es ! k)"
        using True k ek elen lower by (intro child_of_at) auto
      moreover have "unat r < length ?edges" using True len e by (simp add: word_less_nat_alt)
      ultimately show ?thesis using True ek step by (simp add: rdR_def)
    next
      case False
      have "te_byte (?es ! i) \<noteq> byte" if i: "i < unat ?c" for i
      proof (cases "i < k")
        case ge: False
        then have ri: "unat r \<le> unat ?s + i" "unat ?s + i < unat ?e" using r e i by (auto simp: k_def)
        then have "r < ?e" by (simp add: word_less_nat_alt)
        have "unat r < unat ?e" using ri by linarith
        then have "byte \<le> te_byte (?edges ! unat r)" by (intro above) simp_all
        moreover have "te_byte (?edges ! unat r) \<noteq> byte" using False \<open>r < ?e\<close> by simp
        ultimately have "byte < te_byte (?edges ! unat r)" by simp
        also have "te_byte (?edges ! unat r) \<le> te_byte (?edges ! (unat ?s + i))"
          using ri r(2) sorted_at [of "unat r" "unat ?s + i"]
          by (cases "unat r = unat ?s + i") (auto intro: less_imp_le)
        finally show ?thesis using nth [OF i] by simp
      qed (use lower i in simp)
      then have "child_of ?es byte = SE_SLOT_EMPTY"
        using elen by (intro child_of_above) (auto simp: in_set_conv_nth)
      moreover have "unat r < length ?edges" if "r < ?e" using that len e by (simp add: word_less_nat_alt)
      ultimately show ?thesis using False step by (auto simp: rdR_def)
    qed
  qed
qed

subsection \<open>The longest match\<close>

text \<open>
  The abstract trie: \<open>trie_word t bs\<close> is the token stored for the byte string \<open>bs\<close>,
  and \<open>longest_word w bs\<close> the longest non-empty prefix of \<open>bs\<close> that the finite map
  \<open>w\<close> holds, with its length.
\<close>

definition token_at :: "se_trie \<Rightarrow> u32 \<Rightarrow> u32 option" where
  "token_at t n = (let tok = tn_token_id (tr_nodes t ! unat n)
     in if tok = SE_SLOT_EMPTY then None else Some tok)"

definition trie_step :: "se_trie \<Rightarrow> u32 \<Rightarrow> u8 \<Rightarrow> u32 option" where
  "trie_step t n b = (let c = child_of (node_edges t (tr_nodes t ! unat n)) (ucast b)
     in if c = SE_SLOT_EMPTY then None else Some c)"

fun word_from :: "se_trie \<Rightarrow> u32 \<Rightarrow> u8 list \<Rightarrow> u32 option" where
  "word_from t n [] = token_at t n"
| "word_from t n (b # bs) =
     (case trie_step t n b of None \<Rightarrow> None | Some n' \<Rightarrow> word_from t n' bs)"

definition trie_word :: "se_trie \<Rightarrow> u8 list \<Rightarrow> u32 option" where
  "trie_word t bs = word_from t 0 bs"

definition longest_word :: "(u8 list \<Rightarrow> u32 option) \<Rightarrow> u8 list \<Rightarrow> (u32 \<times> nat) option" where
  "longest_word w bs =
     map_option (\<lambda>l. (the (w (take l bs)), l))
       (find (\<lambda>l. w (take l bs) \<noteq> None) (rev [1..<Suc (length bs)]))"

lemma longest_word_Some:
  assumes "longest_word w bs = Some (tok, l)"
  shows "0 < l" "l \<le> length bs" "w (take l bs) = Some tok"
    "\<And>l'. l < l' \<Longrightarrow> l' \<le> length bs \<Longrightarrow> w (take l' bs) = None"
proof -
  let ?xs = "rev [1..<Suc (length bs)]"
  from assms obtain i where i: "i < length ?xs" "w (take (?xs ! i) bs) \<noteq> None" "l = ?xs ! i"
    "tok = the (w (take l bs))" "\<And>j. j < i \<Longrightarrow> w (take (?xs ! j) bs) = None"
    by (auto simp: longest_word_def find_Some_iff)
  have nth: "?xs ! j = length bs - j" if "j < length bs" for j
    using that by (simp add: rev_nth del: upt_Suc)
  show "0 < l" "l \<le> length bs" using i(1,3) nth [of i] by (simp_all del: upt_Suc)
  show "w (take l bs) = Some tok" using i(2,3,4) by auto
  fix l' assume l': "l < l'" "l' \<le> length bs"
  then have "l = length bs - i" using i(1,3) nth by (simp del: upt_Suc)
  then have "length bs - l' < i" "length bs - l' < length bs" "?xs ! (length bs - l') = l'"
    using l' i(1) nth [of "length bs - l'"] by (simp_all del: upt_Suc)
  then show "w (take l' bs) = None" using i(5) [of "length bs - l'"] by simp
qed

lemma longest_word_None:
  assumes "longest_word w bs = None" "0 < l" "l \<le> length bs"
  shows "w (take l bs) = None"
proof -
  have "\<forall>x\<in>set [1..<Suc (length bs)]. w (take x bs) = None"
    using assms(1) by (simp add: longest_word_def find_None_iff del: upt_Suc)
  then show ?thesis using assms(2,3) by (simp del: upt_Suc)
qed

lemma longest_word_iff:
  "longest_word w bs = Some (tok, l) \<longleftrightarrow>
     0 < l \<and> l \<le> length bs \<and> w (take l bs) = Some tok \<and>
     (\<forall>l'. l < l' \<longrightarrow> l' \<le> length bs \<longrightarrow> w (take l' bs) = None)" (is "?L \<longleftrightarrow> ?R")
proof
  assume ?L
  from longest_word_Some [OF this] show ?R by blast
next
  assume R: ?R
  then obtain tok' m where m: "longest_word w bs = Some (tok', m)"
    using longest_word_None [of w bs l] by (cases "longest_word w bs") auto
  note longest_word_Some [OF m]
  with R have "m = l" by (metis nat_neq_iff option.distinct(1))
  with R m longest_word_Some(3) [OF m] show ?L by simp
qed

lemma longest_word_None_iff:
  "longest_word w bs = None \<longleftrightarrow> (\<forall>l. 0 < l \<longrightarrow> l \<le> length bs \<longrightarrow> w (take l bs) = None)"
  using longest_word_None longest_word_Some by (metis not_None_eq surj_pair)

lemma longest_word_Nil [simp]: "longest_word w [] = None"
  by (simp add: longest_word_def)

lemma longest_word_Cons:
  "longest_word (word_from t n) (b # bs) =
     (case trie_step t n b of
        None \<Rightarrow> None
      | Some n' \<Rightarrow> (case longest_word (word_from t n') bs of
          Some (tok, l) \<Rightarrow> Some (tok, Suc l)
        | None \<Rightarrow> map_option (\<lambda>tok. (tok, 1)) (token_at t n')))"
proof (cases "trie_step t n b")
  case None
  then have "word_from t n (take l (b # bs)) = None" if "0 < l" for l
    using that by (cases l) simp_all
  then show ?thesis using None by (simp add: longest_word_None_iff)
next
  case (Some n')
  then have w: "word_from t n (take (Suc l) (b # bs)) = word_from t n' (take l bs)" for l
    by simp
  show ?thesis
  proof (cases "longest_word (word_from t n') bs")
    case (Some p)
    obtain tok l where p: "p = (tok, l)" by (cases p)
    note l = longest_word_Some [OF Some [unfolded p]]
    have "longest_word (word_from t n) (b # bs) = Some (tok, Suc l)"
      unfolding longest_word_iff
    proof (intro conjI allI impI)
      show "word_from t n (take (Suc l) (b # bs)) = Some tok" unfolding w by (rule l(3))
      show "word_from t n (take l' (b # bs)) = None" if "Suc l < l'" "l' \<le> length (b # bs)" for l'
        using that w [of "l' - 1"] l(4) [of "l' - 1"] by simp
    qed (use l(2) in simp_all)
    then show ?thesis using Some p \<open>trie_step t n b = Some n'\<close> by simp
  next
    case None
    then have later: "word_from t n (take l' (b # bs)) = None" if "1 < l'" "l' \<le> length (b # bs)" for l'
      using that w [of "l' - 1"] longest_word_None [OF None, of "l' - 1"] by simp
    have first: "word_from t n (take 1 (b # bs)) = token_at t n'" using w [of 0] by simp
    show ?thesis
    proof (cases "token_at t n'")
      case None
      have "word_from t n (take l (b # bs)) = None" if "0 < l" "l \<le> length (b # bs)" for l
        using later [of l] first None that by (cases "l = 1") auto
      then have "longest_word (word_from t n) (b # bs) = None"
        unfolding longest_word_None_iff by blast
      then show ?thesis
        using \<open>longest_word (word_from t n') bs = None\<close> None \<open>trie_step t n b = Some n'\<close> by simp
    next
      case (Some tok)
      have "longest_word (word_from t n) (b # bs) = Some (tok, 1)"
        using later first Some by (simp add: longest_word_iff)
      then show ?thesis
        using \<open>longest_word (word_from t n') bs = None\<close> Some \<open>trie_step t n b = Some n'\<close> by simp
    qed
  qed
qed

lemma trie_ok_node:
  assumes "trie_ok v t" "unat n < length (tr_nodes t)"
  shows "node_ok v t (tr_nodes t ! unat n)"
  using assms by (simp add: trie_ok_def list_all_length)

lemma trie_ok_small: "trie_ok v t \<Longrightarrow> length (tr_edges t) < 2 ^ 32"
  by (metis trie_ok_def u32_bound)

lemma find_child_ok:
  assumes "trie_ok v t" "unat n < length (tr_nodes t)"
  shows "trie_find_child t (tr_nodes t ! unat n) byte =
    Inr (child_of (node_edges t (tr_nodes t ! unat n)) byte)"
  using trie_ok_node [OF assms] trie_ok_small [OF assms(1)]
  by (intro find_child_eq) (simp_all add: node_ok_def edges_ok_def)

lemma trie_step_bound:
  assumes "trie_ok v t" "unat n < length (tr_nodes t)" "trie_step t n b = Some n'"
  shows "unat n' < length (tr_nodes t)"
proof -
  let ?es = "node_edges t (tr_nodes t ! unat n)"
  have all: "list_all (\<lambda>e. te_child e < tr_node_count t) ?es"
    using trie_ok_node [OF assms(1,2)] by (auto simp: node_ok_def edges_ok_def list_all_iff)
  have "n' = child_of ?es (ucast b)" "n' \<noteq> SE_SLOT_EMPTY"
    using assms(3) by (auto simp: trie_step_def Let_def split: if_splits)
  then obtain e where "e \<in> set ?es" "n' = te_child e"
    by (auto simp: child_of_def find_Some_iff split: option.splits) (metis nth_mem)
  with all have "n' < tr_node_count t" by (auto simp: list_all_iff)
  with assms(1) show ?thesis by (simp add: trie_ok_def word_less_nat_alt)
qed

lemma match_loop_eq:
  assumes "trie_ok v t"
  shows "unat n < length (tr_nodes t) \<Longrightarrow>
    match_loop t bs i n best_id best_len =
      Inr (case longest_word (word_from t n) bs of
             None \<Rightarrow> (best_id, best_len) | Some (tok, l) \<Rightarrow> (tok, i + l))"
proof (induction bs arbitrary: i n best_id best_len)
  case Nil
  then show ?case by simp
next
  case (Cons b bs)
  note child = find_child_ok [OF assms Cons.prems, of "ucast b"]
  show ?case
  proof (cases "trie_step t n b")
    case None
    then show ?thesis
      using Cons.prems child by (simp add: rdR_def longest_word_Cons trie_step_def Let_def split: if_splits)
  next
    case (Some n')
    note n' = trie_step_bound [OF assms Cons.prems Some]
    have c: "child_of (node_edges t (tr_nodes t ! unat n)) (ucast b) = n'" "n' \<noteq> SE_SLOT_EMPTY"
      using Some by (auto simp: trie_step_def Let_def split: if_splits)
    show ?thesis
      using Cons.prems child n' c Some Cons.IH [OF n', of "i + 1"]
      by (auto simp: rdR_def longest_word_Cons token_at_def Let_def split: option.splits)
  qed
qed

lemma longest_match_eq:
  assumes "trie_ok v t"
  shows "se_trie_longest_match t bs = Inr (longest_word (trie_word t) bs)"
proof -
  have nz: "tr_node_count t \<noteq> 0" "unat (0 :: u32) < length (tr_nodes t)"
    using assms by (auto simp: trie_ok_def)
  have notempty: "tok \<noteq> SE_SLOT_EMPTY" if "word_from t n bs = Some tok" for n bs tok
    using that by (induction bs arbitrary: n) (auto simp: token_at_def Let_def split: if_splits option.splits)
  show ?thesis
  proof (cases "longest_word (word_from t 0) bs")
    case None
    then show ?thesis
      using nz match_loop_eq [OF assms nz(2)]
      by (simp add: se_trie_longest_match_def trie_word_def [abs_def])
  next
    case (Some p)
    obtain tok l where p: "p = (tok, l)" by (cases p)
    then have "tok \<noteq> SE_SLOT_EMPTY" using notempty longest_word_Some(3) Some by blast
    then show ?thesis
      using nz match_loop_eq [OF assms nz(2)] Some p
      by (simp add: se_trie_longest_match_def trie_word_def [abs_def])
  qed
qed

end
