(* ===== verification/VocabHash.thy ===== *)
theory VocabHash
  imports Model Bytes SizeArith
begin

text \<open>
  The vocabulary hash table of \<^verbatim>\<open>se_format.c\<close>: the hash, the lookup by linear
  probing, and the validation of the table when a model is opened.  On a validated
  table the lookup is a search of the probe sequence up to the first empty slot; every
  token id below the vocabulary size has exactly one slot, and every slot is reached
  from its stored hash within the recorded number of probes.
\<close>

subsection \<open>Hashing\<close>

definition hash_bytes_continue :: "u32 \<Rightarrow> u8 list \<Rightarrow> u32" where
  "hash_bytes_continue h data = foldl (\<lambda>h b. (h XOR ucast b) * 16777619) h data"

definition se_hash_bytes :: "u8 list \<Rightarrow> u32 \<Rightarrow> u32" where
  "se_hash_bytes data seed = foldl (\<lambda>h b. (h XOR ucast b) * 16777619) seed data"

lemma hash_pieces:
  "hash_bytes_continue (hash_bytes_continue seed a) b = se_hash_bytes (a @ b) seed"
  by (simp add: hash_bytes_continue_def se_hash_bytes_def)

subsection \<open>Lookup\<close>

definition slot_matches ::
  "se_model \<Rightarrow> se_vocab_slot \<Rightarrow> u8 list \<Rightarrow> u8 list \<Rightarrow> bool se_result" where
  "slot_matches model slot prefix bytes =
     (let tok = drop (unat (sl_str_off slot)) (md_vocab_strings model) in
      bindR (if prefix = [] then Inr True else se_memeq tok prefix (length prefix)) (\<lambda>same.
        if \<not> same then Inr False
        else if bytes = [] then Inr True
        else se_memeq (drop (length prefix) tok) bytes (length bytes)))"

text \<open>The probe loop, \<open>n\<close> probes left.\<close>

fun probe_loop ::
  "se_model \<Rightarrow> u8 list \<Rightarrow> u8 list \<Rightarrow> u32 \<Rightarrow> u32 \<Rightarrow> u32 \<Rightarrow> u32 \<Rightarrow> nat \<Rightarrow> u32 option se_result" where
  "probe_loop model prefix bytes h total_len msk pos 0 = Inr None"
| "probe_loop model prefix bytes h total_len msk pos (Suc n) =
     bindR (rdR (md_vocab_hash model) (unat pos)) (\<lambda>slot.
       if sl_token_id slot = SE_SLOT_EMPTY then Inr None
       else bindR (if sl_hash slot = h \<and> sl_str_len slot = total_len
                   then slot_matches model slot prefix bytes else Inr False) (\<lambda>found.
         if found then Inr (Some (sl_token_id slot))
         else probe_loop model prefix bytes h total_len msk ((pos + 1) AND msk) n))"

definition se_vocab_lookup_piece ::
  "se_model \<Rightarrow> u8 list \<Rightarrow> u8 list \<Rightarrow> u32 option se_result" where
  "se_vocab_lookup_piece model prefix bytes =
     (if length prefix > 0xFFFFFFFF \<or> length bytes > 0xFFFFFFFF
         \<or> length prefix > 0xFFFFFFFF - length bytes
      then Inr None
      else (let h = hash_bytes_continue (mt_hash_seed (md_meta model)) prefix;
                h = hash_bytes_continue h bytes;
                msk = mt_hash_table_size (md_meta model) - 1;
                pos = h AND msk;
                total_len = word_of_nat (length prefix + length bytes)
            in probe_loop model prefix bytes h total_len msk pos (unat (mt_max_probe (md_meta model)))))"

definition se_vocab_lookup :: "se_model \<Rightarrow> u8 list \<Rightarrow> u32 option se_result" where
  "se_vocab_lookup model bytes = se_vocab_lookup_piece model [] bytes"

subsection \<open>Validation\<close>

text \<open>
  The loop over the slots.  \<open>seen\<close> is the bit set of the token ids found so far and
  \<open>filled\<close> their number; \<open>strings_size\<close> is the size of the string section.
\<close>

fun fill_loop ::
  "u32 \<Rightarrow> u64 \<Rightarrow> se_vocab_slot list \<Rightarrow> u8 list \<Rightarrow> u32 \<Rightarrow> u32 se_result" where
  "fill_loop vocab_size strings_size [] seen filled = Inr filled"
| "fill_loop vocab_size strings_size (slot # rest) seen filled =
     (if sl_token_id slot = SE_SLOT_EMPTY then fill_loop vocab_size strings_size rest seen filled
      else if sl_token_id slot \<ge> vocab_size
      then Inl (SeError SE_ERR_INVALID_FORMAT ''slot %u has token id out of range'')
      else if ucast (sl_str_off slot) + ucast (sl_str_len slot) > strings_size
      then Inl (SeError SE_ERR_INVALID_FORMAT ''slot %u points outside the string blob'')
      else (let msk = push_bit (unat (sl_token_id slot AND 7)) 1;
                at = unat (drop_bit 3 (sl_token_id slot))
            in bindR (rdR seen at) (\<lambda>byte.
                 if byte AND msk \<noteq> 0
                 then Inl (SeError SE_ERR_INVALID_FORMAT
                        ''token id %u appears more than once in hash table'')
                 else fill_loop vocab_size strings_size rest (seen[at := byte OR msk]) (filled + 1))))"

definition added_texts :: "(u32 \<times> u8 list) list" where
  "added_texts =
     [(SE_ADDED_PAD, [0x5B, 0x50, 0x41, 0x44, 0x5D]),
      (SE_ADDED_UNK, [0x5B, 0x55, 0x4E, 0x4B, 0x5D]),
      (SE_ADDED_CLS, [0x5B, 0x43, 0x4C, 0x53, 0x5D]),
      (SE_ADDED_SEP, [0x5B, 0x53, 0x45, 0x50, 0x5D]),
      (SE_ADDED_MASK, [0x5B, 0x4D, 0x41, 0x53, 0x4B, 0x5D])]"

definition unk_text :: "u8 list" where
  "unk_text = [0x5B, 0x55, 0x4E, 0x4B, 0x5D]"

fun check_added :: "se_model \<Rightarrow> ((u32 \<times> u8 list) \<times> u32) list \<Rightarrow> unit se_result" where
  "check_added model [] = Inr ()"
| "check_added model (((tag, text), expected) # rest) =
     (if mt_added_token_mask (md_meta model) AND tag = 0 then check_added model rest
      else bindR (if expected \<ge> mt_vocab_size (md_meta model) then Inr None
                  else se_vocab_lookup model text) (\<lambda>got.
        if got \<noteq> Some expected
        then Inl (SeError SE_ERR_INVALID_FORMAT ''added token %s is not reachable at its recorded id'')
        else check_added model rest))"

text \<open>\<open>calloc_ok\<close> says whether the allocation of the bit set succeeds.\<close>

definition validate_vocab_hash :: "bool \<Rightarrow> se_model \<Rightarrow> u64 \<Rightarrow> unit se_result" where
  "validate_vocab_hash calloc_ok model strings_size =
     (let m = md_meta model;
          bitset_size = (ucast (mt_vocab_size m) + 7 :: size_t) div 8
      in case se_alloc_bytes bitset_size 1 of
           None \<Rightarrow> Inl (SeError SE_ERR_INVALID_FORMAT ''vocabulary size is too large'')
         | Some seen_bytes \<Rightarrow>
             if \<not> calloc_ok
             then Inl (SeError SE_ERR_OOM ''out of memory while validating vocabulary hash'')
             else bindR (fill_loop (mt_vocab_size m) strings_size (md_vocab_hash model)
                          (replicate (unat seen_bytes) 0) 0) (\<lambda>filled.
               if filled \<noteq> mt_vocab_size m
               then Inl (SeError SE_ERR_INVALID_FORMAT ''hash table has %u filled slots, expected %u'')
               else bindR (se_vocab_lookup model unk_text) (\<lambda>unk.
                 if unk \<noteq> Some (mt_unk_id m)
                 then Inl (SeError SE_ERR_INVALID_FORMAT
                        ''[UNK] is not reachable through the vocabulary hash'')
                 else check_added model (zip added_texts
                        [mt_pad_id m, mt_unk_id m, mt_cls_id m, mt_sep_id m, mt_mask_id m]))))"

text \<open>
  The walk from the home position of slot \<open>i\<close>.  The counter stays at most one above
  \<^verbatim>\<open>max_probe\<close>, which the header check bounds by the table size, so it does not wrap
  and is a natural number.
\<close>

function limit_loop :: "u32 \<Rightarrow> u32 \<Rightarrow> u32 \<Rightarrow> u32 \<Rightarrow> nat \<Rightarrow> unit se_result" where
  "limit_loop msk max_probe i pos probes =
     (if pos = i then Inr ()
      else if Suc probes > unat max_probe
      then Inl (SeError SE_ERR_INVALID_FORMAT ''slot %u exceeds recorded max probe'')
      else limit_loop msk max_probe i ((pos + 1) AND msk) (Suc probes))"
  by pat_completeness auto
termination by (relation "measure (\<lambda>(msk, max_probe, i, pos, probes). unat max_probe - probes)") auto

declare limit_loop.simps [simp del]

fun limits_from :: "u32 \<Rightarrow> u32 \<Rightarrow> nat \<Rightarrow> se_vocab_slot list \<Rightarrow> unit se_result" where
  "limits_from msk max_probe i [] = Inr ()"
| "limits_from msk max_probe i (slot # rest) =
     (if sl_token_id slot = SE_SLOT_EMPTY then limits_from msk max_probe (i + 1) rest
      else bindR (limit_loop msk max_probe (word_of_nat i) (sl_hash slot AND msk) 1) (\<lambda>_.
        limits_from msk max_probe (i + 1) rest))"

definition validate_hash_probe_limits :: "se_model \<Rightarrow> unit se_result" where
  "validate_hash_probe_limits model =
     (let m = md_meta model in
      if mt_max_probe m = 0 then Inr ()
      else limits_from (mt_hash_table_size m - 1) (mt_max_probe m) 0 (md_vocab_hash model))"

subsection \<open>Table sizes are powers of two\<close>

lemma pow2_nat: "0 < n \<Longrightarrow> n AND (n - 1) = 0 \<Longrightarrow> \<exists>k. n = 2 ^ k" for n :: nat
proof (induction n rule: less_induct)
  case (less n)
  have "drop_bit 1 n AND drop_bit 1 (n - 1) = 0"
    using less.prems(2) by (metis drop_bit_and drop_bit_of_0)
  then have half: "n div 2 AND (n - 1) div 2 = 0" by (simp add: drop_bit_eq_div)
  show ?case
  proof (cases "even n")
    case True
    then obtain m where m: "n = 2 * m" by blast
    with less.prems(1) have pos: "0 < m" "m < n" by simp_all
    moreover have "(n - 1) div 2 = m - 1" using m pos(1) by (cases m) auto
    ultimately have "m AND (m - 1) = 0" using half m by simp
    from less.IH [OF pos(2,1) this] obtain k where "m = 2 ^ k" by blast
    with m show ?thesis by (intro exI [of _ "Suc k"]) simp
  next
    case False
    then obtain m where m: "n = 2 * m + 1" by (metis oddE)
    then have "m = 0" using half by simp
    with m show ?thesis by (intro exI [of _ 0]) simp
  qed
qed

lemma pow2_word:
  fixes s :: u32
  assumes "s \<noteq> 0" "s AND (s - 1) = 0"
  shows "\<exists>k. unat s = 2 ^ k \<and> s - 1 = mask k"
proof -
  have pos: "0 < unat s" using assms(1) by (simp add: unat_gt_0)
  then have pred: "unat (s - 1) = unat s - 1" by (simp add: unat_sub_le word_le_nat_alt)
  have "unat s AND (unat s - 1) = unat (s AND (s - 1))"
    by (simp add: unsigned_and_eq pred)
  then have "unat s AND (unat s - 1) = 0" using assms(2) by simp
  from pow2_nat [OF pos this] obtain k where k: "unat s = 2 ^ k" by blast
  then have "word_of_nat (unat s) = (2 :: u32) ^ k" by simp
  then have "s = 2 ^ k" by (simp add: unat_of_nat)
  then show ?thesis using k by (auto simp: mask_eq_exp_minus_1)
qed

lemma and_size_mask:
  fixes s x :: u32
  assumes "s \<noteq> 0" "s AND (s - 1) = 0"
  shows "unat (x AND (s - 1)) = unat x mod unat s"
proof -
  obtain k where k: "unat s = 2 ^ k" "s - 1 = mask k" using pow2_word [OF assms] by blast
  have "unat (x AND mask k) = unat x mod 2 ^ k" by (rule unat_and_mask)
  with k show ?thesis by simp
qed

lemma mod_wrap:
  fixes s x :: u32
  assumes "s \<noteq> 0" "s AND (s - 1) = 0"
  shows "unat ((x + 1) AND (s - 1)) = (unat x + 1) mod unat s"
proof -
  obtain k where k: "unat s = 2 ^ k" using pow2_word [OF assms] by blast
  have "k \<le> 32"
  proof (rule ccontr)
    assume "\<not> k \<le> 32"
    then have "(2 :: nat) ^ 32 \<le> 2 ^ k" by (intro power_increasing) auto
    with k u32_bound [of s] show False by simp
  qed
  then have "(2 :: nat) ^ k dvd 2 ^ 32" by (rule le_imp_power_dvd)
  then have "(unat x + 1) mod 2 ^ 32 mod 2 ^ k = (unat x + 1) mod 2 ^ k" by (rule mod_mod_cancel)
  then show ?thesis
    unfolding and_size_mask [OF assms] k by (simp add: unat_word_ariths)
qed

subsection \<open>The lookup as a search of the probe sequence\<close>

definition slot_string :: "se_model \<Rightarrow> se_vocab_slot \<Rightarrow> u8 list" where
  "slot_string m slot = take (unat (sl_str_len slot)) (drop (unat (sl_str_off slot)) (md_vocab_strings m))"

definition slot_used :: "se_vocab_slot \<Rightarrow> bool" where
  "slot_used slot = (sl_token_id slot \<noteq> SE_SLOT_EMPTY)"

definition slot_ok :: "se_model \<Rightarrow> se_vocab_slot \<Rightarrow> bool" where
  "slot_ok m slot = (slot_used slot \<longrightarrow>
     sl_token_id slot < mt_vocab_size (md_meta m) \<and>
     unat (sl_str_off slot) + unat (sl_str_len slot) \<le> length (md_vocab_strings m))"

definition hash_table_ok :: "se_model \<Rightarrow> bool" where
  "hash_table_ok m =
     (let size = mt_hash_table_size (md_meta m) in
      size \<noteq> 0 \<and> size AND (size - 1) = 0 \<and> length (md_vocab_hash m) = unat size \<and>
      list_all (slot_ok m) (md_vocab_hash m))"

definition probe_slots :: "se_model \<Rightarrow> nat \<Rightarrow> nat \<Rightarrow> se_vocab_slot list" where
  "probe_slots m pos n =
     map (\<lambda>k. md_vocab_hash m ! ((pos + k) mod length (md_vocab_hash m))) [0..<n]"

definition vocab_find :: "se_model \<Rightarrow> u8 list \<Rightarrow> u32 option" where
  "vocab_find m s =
     (let h = se_hash_bytes s (mt_hash_seed (md_meta m));
          slots = probe_slots m (unat h) (unat (mt_max_probe (md_meta m)))
      in map_option sl_token_id
           (find (\<lambda>slot. sl_hash slot = h \<and> slot_string m slot = s) (takeWhile slot_used slots)))"

lemma slot_matches_eq:
  assumes "unat (sl_str_off slot) + unat (sl_str_len slot) \<le> length (md_vocab_strings m)"
    and "unat (sl_str_len slot) = length prefix + length bytes"
  shows "slot_matches m slot prefix bytes = Inr (slot_string m slot = prefix @ bytes)"
proof -
  let ?tok = "drop (unat (sl_str_off slot)) (md_vocab_strings m)"
  have len: "length prefix \<le> length ?tok" "length bytes \<le> length (drop (length prefix) ?tok)"
    using assms by simp_all
  have s: "slot_string m slot = take (length prefix) ?tok @ take (length bytes) (drop (length prefix) ?tok)"
    using assms(2) by (simp add: slot_string_def take_add)
  have a: "(if prefix = [] then Inr True else se_memeq ?tok prefix (length prefix)) =
      Inr (take (length prefix) ?tok = prefix)"
    using memeq_eq [of "length prefix" ?tok prefix] len by simp
  have b: "(if bytes = [] then Inr True else se_memeq (drop (length prefix) ?tok) bytes (length bytes)) =
      Inr (take (length bytes) (drop (length prefix) ?tok) = bytes)"
    using memeq_eq [of "length bytes" "drop (length prefix) ?tok" bytes] len by simp
  show ?thesis
    unfolding slot_matches_def Let_def a bindR_Inr b s using len by (simp add: append_eq_append_conv)
qed

lemma probe_slots_0 [simp]: "probe_slots m pos 0 = []"
  by (simp add: probe_slots_def)

lemma probe_slots_Suc:
  "probe_slots m pos (Suc n) =
     md_vocab_hash m ! (pos mod length (md_vocab_hash m)) # probe_slots m (pos + 1) n"
  by (simp add: probe_slots_def upt_conv_Cons map_Suc_upt [symmetric] del: upt_Suc map_Suc_upt)

lemma probe_slots_mod:
  "probe_slots m (pos mod length (md_vocab_hash m)) n = probe_slots m pos n"
  by (simp add: probe_slots_def mod_add_left_eq)

lemma probe_loop_eq:
  assumes ok: "hash_table_ok m" and len: "length prefix + length bytes < 2 ^ 32"
    and msk: "msk = mt_hash_table_size (md_meta m) - 1"
  shows "unat pos < length (md_vocab_hash m) \<Longrightarrow>
    probe_loop m prefix bytes h (word_of_nat (length prefix + length bytes)) msk pos n =
      Inr (map_option sl_token_id
        (find (\<lambda>slot. sl_hash slot = h \<and> slot_string m slot = prefix @ bytes)
          (takeWhile slot_used (probe_slots m (unat pos) n))))"
proof (induction n arbitrary: pos)
  case (Suc n)
  let ?slot = "md_vocab_hash m ! unat pos"
  let ?total = "word_of_nat (length prefix + length bytes) :: u32"
  let ?size = "mt_hash_table_size (md_meta m)"
  have size: "?size \<noteq> 0" "?size AND (?size - 1) = 0" "length (md_vocab_hash m) = unat ?size"
    using ok by (simp_all add: hash_table_ok_def Let_def)
  have slot: "slot_ok m ?slot" using ok Suc.prems by (simp add: hash_table_ok_def Let_def list_all_length)
  have total: "unat ?total = length prefix + length bytes"
    by (rule unat_small_u32 [OF len])
  have "unat ((pos + 1) AND msk) = (unat pos + 1) mod length (md_vocab_hash m)"
    using mod_wrap [OF size(1,2)] size(3) msk by simp
  moreover have "0 < length (md_vocab_hash m)" using Suc.prems by linarith
  ultimately have rest: "probe_loop m prefix bytes h ?total msk ((pos + 1) AND msk) n =
      Inr (map_option sl_token_id
        (find (\<lambda>slot. sl_hash slot = h \<and> slot_string m slot = prefix @ bytes)
          (takeWhile slot_used (probe_slots m (unat pos + 1) n))))"
    using Suc.IH [of "(pos + 1) AND msk"] probe_slots_mod [of m "unat pos + 1" n] by simp
  have matches: "(if sl_hash ?slot = h \<and> sl_str_len ?slot = ?total
      then slot_matches m ?slot prefix bytes else Inr False) =
      Inr (sl_hash ?slot = h \<and> slot_string m ?slot = prefix @ bytes)" if "slot_used ?slot"
  proof (cases "sl_str_len ?slot = ?total")
    case True
    then have "slot_matches m ?slot prefix bytes = Inr (slot_string m ?slot = prefix @ bytes)"
      using slot that total by (intro slot_matches_eq) (simp_all add: slot_ok_def)
    then show ?thesis using True by simp
  next
    case False
    then have "unat (sl_str_len ?slot) \<noteq> length (prefix @ bytes)"
      using total by (metis length_append word_unat_eq_iff)
    moreover have "length (slot_string m ?slot) = unat (sl_str_len ?slot)"
      using slot that by (auto simp: slot_string_def slot_ok_def)
    ultimately have "slot_string m ?slot \<noteq> prefix @ bytes" by metis
    with False show ?thesis by simp
  qed
  have read: "rdR (md_vocab_hash m) (unat pos) = Inr ?slot" using Suc.prems by (simp add: rdR_def)
  have cons: "probe_slots m (unat pos) (Suc n) = ?slot # probe_slots m (unat pos + 1) n"
    using Suc.prems by (simp add: probe_slots_Suc)
  show ?case
  proof (cases "slot_used ?slot")
    case False
    then show ?thesis unfolding cons by (simp add: read slot_used_def)
  next
    case True
    have "sl_token_id ?slot \<noteq> SE_SLOT_EMPTY" using True by (simp add: slot_used_def)
    then show ?thesis unfolding cons using True
      by (simp only: probe_loop.simps read bindR_Inr if_False matches [OF True] rest) simp
  qed
qed simp

lemma vocab_lookup_piece_eq:
  assumes "hash_table_ok m"
  shows "se_vocab_lookup_piece m prefix bytes =
    Inr (if length prefix + length bytes < 2 ^ 32 then vocab_find m (prefix @ bytes) else None)"
proof (cases "length prefix + length bytes < 2 ^ 32")
  case False
  then show ?thesis by (auto simp: se_vocab_lookup_piece_def)
next
  case True
  let ?size = "mt_hash_table_size (md_meta m)" and ?h = "se_hash_bytes (prefix @ bytes) (mt_hash_seed (md_meta m))"
  have size: "?size \<noteq> 0" "?size AND (?size - 1) = 0" "length (md_vocab_hash m) = unat ?size"
    using assms by (simp_all add: hash_table_ok_def Let_def)
  have pos: "unat (?h AND (?size - 1)) = unat ?h mod length (md_vocab_hash m)"
    using and_size_mask [OF size(1,2)] size(3) by simp
  have "0 < length (md_vocab_hash m)" using size by (simp add: unat_gt_0)
  then have bound: "unat (?h AND (?size - 1)) < length (md_vocab_hash m)" using pos by simp
  have guard: "\<not> (length prefix > 0xFFFFFFFF \<or> length bytes > 0xFFFFFFFF
      \<or> length prefix > 0xFFFFFFFF - length bytes)" using True by auto
  show ?thesis
    using guard True probe_loop_eq [OF assms True refl bound]
    by (simp add: se_vocab_lookup_piece_def hash_pieces Let_def vocab_find_def pos probe_slots_mod)
qed

subsection \<open>What the validation of the table establishes\<close>

definition used_ids :: "se_vocab_slot list \<Rightarrow> nat list" where
  "used_ids slots = map (\<lambda>s. unat (sl_token_id s)) (filter slot_used slots)"

definition seen_ids :: "u8 list \<Rightarrow> nat set" where
  "seen_ids seen = {t. t div 8 < length seen \<and> bit (seen ! (t div 8)) (t mod 8)}"

lemma seen_ids_update:
  assumes "k < 8" "at < length seen"
  shows "seen_ids (seen[at := seen ! at OR push_bit k 1]) = insert (8 * at + k) (seen_ids seen)"
proof -
  have "t \<in> seen_ids (seen[at := seen ! at OR push_bit k 1]) \<longleftrightarrow>
      t = 8 * at + k \<or> t \<in> seen_ids seen" for t
  proof (cases "t div 8 = at")
    case True
    have "t mod 8 < LENGTH(8)" by simp
    moreover have "t = 8 * at + k \<longleftrightarrow> t mod 8 = k"
      using True assms(1) div_mult_mod_eq [of t 8] by linarith
    ultimately show ?thesis
      using True assms by (auto simp: seen_ids_def bit_simps)
  next
    case False
    then have "t \<noteq> 8 * at + k" using assms(1) by auto
    with False show ?thesis by (simp add: seen_ids_def)
  qed
  then show ?thesis by blast
qed

lemma fill_loop_Inr:
  "fill_loop vs ss slots seen filled = Inr f \<Longrightarrow> unat vs \<le> 8 * length seen \<Longrightarrow>
   distinct (used_ids slots) \<and> set (used_ids slots) \<subseteq> {..<unat vs} - seen_ids seen \<and>
   f = filled + word_of_nat (length (used_ids slots)) \<and>
   list_all (\<lambda>s. slot_used s \<longrightarrow> unat (sl_str_off s) + unat (sl_str_len s) \<le> unat ss) slots"
proof (induction slots arbitrary: seen filled)
  case Nil
  then show ?case by (simp add: used_ids_def)
next
  case (Cons slot slots)
  show ?case
  proof (cases "slot_used slot")
    case False
    then have "fill_loop vs ss slots seen filled = Inr f"
      using Cons.prems(1) by (simp add: slot_used_def)
    from Cons.IH [OF this Cons.prems(2)] False show ?thesis by (simp add: used_ids_def)
  next
    case True
    let ?tok = "sl_token_id slot"
    let ?k = "unat (?tok AND 7)" and ?at = "unat (drop_bit 3 ?tok)"
    let ?seen = "seen[?at := seen ! ?at OR push_bit ?k 1]"
    have tok: "unat ?tok < unat vs" and str: "\<not> ucast (sl_str_off slot) + ucast (sl_str_len slot) > ss"
      and fresh: "seen ! ?at AND push_bit ?k 1 = 0"
      and rec: "fill_loop vs ss slots ?seen (filled + 1) = Inr f"
      using Cons.prems(1) True
      by (auto simp: slot_used_def Let_def bindR_eq_Inr rdR_eq_Inr not_le word_less_nat_alt split: if_splits)
    have k: "?k = unat ?tok mod 8" and at: "?at = unat ?tok div 8"
      by (simp_all add: word_nat)
    have kb: "?k < 8" and inb: "?at < length seen" using k at tok Cons.prems(2) by simp_all
    have id: "8 * ?at + ?k = unat ?tok" using k at by simp
    have "\<not> bit (seen ! ?at) ?k"
      using fresh by (simp add: bit_iff_and_push_bit_not_eq_0)
    then have notin: "unat ?tok \<notin> seen_ids seen" using k at by (simp add: seen_ids_def)
    have upd: "seen_ids ?seen = insert (unat ?tok) (seen_ids seen)"
      using seen_ids_update [OF kb inb] unfolding id .
    have "unat vs \<le> 8 * length ?seen" using Cons.prems(2) by simp
    note IH = Cons.IH [OF rec this]
    have "unat (ucast (sl_str_off slot) + ucast (sl_str_len slot) :: u64) =
        unat (sl_str_off slot) + unat (sl_str_len slot)"
      using u32_bound [of "sl_str_off slot"] u32_bound [of "sl_str_len slot"]
      by (simp add: unat_word_ariths unat_ucast_up)
    then have "unat (sl_str_off slot) + unat (sl_str_len slot) \<le> unat ss"
      using str by (simp add: not_less word_le_nat_alt)
    moreover have "used_ids (slot # slots) = unat ?tok # used_ids slots"
      using True by (simp add: used_ids_def)
    ultimately show ?thesis using IH notin tok upd by auto
  qed
qed

lemma fill_loop_safe:
  "unat vs \<le> 8 * length seen \<Longrightarrow> fill_loop vs ss slots seen filled \<noteq> Inl OutOfBounds"
proof (induction slots arbitrary: seen filled)
  case (Cons slot slots)
  have inb: "unat (drop_bit 3 (sl_token_id slot)) < length seen" if "\<not> sl_token_id slot \<ge> vs"
    using that Cons.prems by (simp add: word_nat not_le)
  show ?case
    using Cons inb by (auto simp: Let_def bindR_eq_Inl rdR_eq_Inl not_le)
qed simp

lemma seen_bytes:
  assumes "se_alloc_bytes ((ucast (vs :: u32) + 7 :: size_t) div 8) 1 = Some n"
  shows "unat vs \<le> 8 * unat n"
proof -
  let ?c = "(ucast vs + 7 :: size_t) div 8"
  have c: "unat ?c = (unat vs + 7) div 8"
    using u32_bound [of vs] by (simp add: unat_div unat_word_ariths unat_ucast_up)
  have "unat n = unat (se_alloc_count ?c)"
    using assms by (simp add: se_alloc_bytes_def checked_mul_size_Some)
  moreover have "unat ?c \<le> unat (se_alloc_count ?c)" by (simp add: se_alloc_count_def)
  ultimately show ?thesis using c by linarith
qed

lemma seen_bytes_total:
  "\<exists>n. se_alloc_bytes ((ucast (vs :: u32) + 7 :: size_t) div 8) 1 = Some n"
  by (simp add: se_alloc_bytes_def checked_mul_size_eq size_t_bound [simplified])

lemma filled_ids:
  fixes vs :: u32
  assumes "distinct (used_ids slots)" "set (used_ids slots) \<subseteq> {..<unat vs}"
    and "vs = word_of_nat (length (used_ids slots))" "length slots < 2 ^ 32"
  shows "set (used_ids slots) = {..<unat vs}"
proof -
  have "length (used_ids slots) \<le> length slots" by (simp add: used_ids_def)
  then have "length (used_ids slots) < 2 ^ 32" using assms(4) by linarith
  then have "unat vs = length (used_ids slots)" unfolding assms(3) by (rule unat_small_u32)
  then have "card (set (used_ids slots)) = card {..<unat vs}"
    using distinct_card [OF assms(1)] by simp
  then show ?thesis using assms(2) by (intro card_subset_eq) simp_all
qed

lemma check_added_Inr:
  "check_added m xs = Inr () \<Longrightarrow> ((tag, text), expected) \<in> set xs \<Longrightarrow>
   mt_added_token_mask (md_meta m) AND tag \<noteq> 0 \<Longrightarrow>
   expected < mt_vocab_size (md_meta m) \<and> se_vocab_lookup m text = Inr (Some expected)"
  by (induction m xs rule: check_added.induct)
    (auto simp: bindR_eq_Inr not_le split: if_splits)

subsection \<open>The probe limit\<close>

lemma limit_loop_iff:
  assumes s: "s \<noteq> 0" "s AND (s - 1) = 0" and i: "i < s"
  shows "unat pos < unat s \<Longrightarrow>
    limit_loop (s - 1) max_probe i pos probes = Inr () \<longleftrightarrow>
      (\<exists>d. (d = 0 \<or> probes + d \<le> unat max_probe) \<and> (unat pos + d) mod unat s = unat i)"
proof (induction "s - 1" max_probe i pos probes rule: limit_loop.induct)
  case (1 max_probe i pos probes)
  show ?case
  proof (cases "pos = i")
    case True
    then show ?thesis
      using "1.prems" by (subst limit_loop.simps) (auto intro!: exI [of _ 0])
  next
    case ne: False
    then have no0: "(unat pos + 0) mod unat s \<noteq> unat i"
      using "1.prems" by (simp add: word_unat_eq_iff)
    show ?thesis
    proof (cases "Suc probes > unat max_probe")
      case True
      then have "\<not> (\<exists>d. (d = 0 \<or> probes + d \<le> unat max_probe) \<and> (unat pos + d) mod unat s = unat i)"
        using no0 by (metis Suc_leI add_Suc_right le_add1 not_gr_zero not_le order_trans
            add.commute less_add_same_cancel2)
      then show ?thesis using ne True by (subst limit_loop.simps) simp
    next
      case False
      have step: "unat ((pos + 1) AND (s - 1)) = (unat pos + 1) mod unat s" by (rule mod_wrap [OF s])
      moreover have "0 < unat s" using s(1) by (simp add: unat_gt_0)
      ultimately have b: "unat ((pos + 1) AND (s - 1)) < unat s" by simp
      have "limit_loop (s - 1) max_probe i pos probes = Inr () \<longleftrightarrow>
          limit_loop (s - 1) max_probe i ((pos + 1) AND (s - 1)) (Suc probes) = Inr ()"
        using ne False by (subst limit_loop.simps) simp
      also have "\<dots> \<longleftrightarrow> (\<exists>d. (d = 0 \<or> Suc probes + d \<le> unat max_probe) \<and>
          (unat pos + Suc d) mod unat s = unat i)"
        using "1.hyps" [OF ne False b] by (simp add: step mod_simps)
      also have "\<dots> \<longleftrightarrow> (\<exists>d. (d = 0 \<or> probes + d \<le> unat max_probe) \<and> (unat pos + d) mod unat s = unat i)"
        (is "(\<exists>d. ?A d) \<longleftrightarrow> (\<exists>d. ?B d)")
      proof
        assume "\<exists>d. ?A d"
        then obtain d where "?A d" by blast
        then have "?B (Suc d)" using False by auto
        then show "\<exists>d. ?B d" by blast
      next
        assume "\<exists>d. ?B d"
        then obtain d where d: "?B d" by blast
        with no0 obtain d' where "d = Suc d'" by (cases d) auto
        with d have "?A d'" by auto
        then show "\<exists>d. ?A d" by blast
      qed
      finally show ?thesis .
    qed
  qed
qed

lemma all_less_Suc_split: "(\<forall>j<length (x # xs). P j) \<longleftrightarrow> P 0 \<and> (\<forall>j<length xs. P (Suc j))"
  by (auto simp: less_Suc_eq_0_disj)

lemma limits_from_iff:
  assumes s: "s \<noteq> 0" "s AND (s - 1) = 0"
  shows "k + length slots \<le> unat s \<Longrightarrow>
    limits_from (s - 1) max_probe k slots = Inr () \<longleftrightarrow>
      (\<forall>j<length slots. slot_used (slots ! j) \<longrightarrow>
        (\<exists>d. (d = 0 \<or> 1 + d \<le> unat max_probe) \<and>
          (unat (sl_hash (slots ! j)) + d) mod unat s = k + j))"
proof (induction slots arbitrary: k)
  case (Cons slot slots)
  have kb: "k < 2 ^ 32" using Cons.prems u32_bound [of s] by simp
  have ki: "unat (word_of_nat k :: u32) = k" by (rule unat_small_u32 [OF kb])
  have "(word_of_nat k :: u32) < s" using ki Cons.prems by (simp add: word_less_nat_alt)
  note limit = limit_loop_iff [OF s this]
  have "0 < unat s" using s(1) by (simp add: unat_gt_0)
  then have home: "unat (sl_hash slot AND (s - 1)) = unat (sl_hash slot) mod unat s"
    "unat (sl_hash slot AND (s - 1)) < unat s"
    using and_size_mask [OF s] by simp_all
  have one: "limit_loop (s - 1) max_probe (word_of_nat k) (sl_hash slot AND (s - 1)) 1 = Inr () \<longleftrightarrow>
      (\<exists>d. (d = 0 \<or> 1 + d \<le> unat max_probe) \<and> (unat (sl_hash slot) + d) mod unat s = k)"
    unfolding limit [OF home(2)] ki home(1) by (simp add: mod_simps)
  have rest: "limits_from (s - 1) max_probe (k + 1) slots = Inr () \<longleftrightarrow>
      (\<forall>j<length slots. slot_used (slots ! j) \<longrightarrow>
        (\<exists>d. (d = 0 \<or> 1 + d \<le> unat max_probe) \<and>
          (unat (sl_hash (slots ! j)) + d) mod unat s = k + 1 + j))"
    using Cons.prems by (intro Cons.IH) simp
  have "limits_from (s - 1) max_probe k (slot # slots) = Inr () \<longleftrightarrow>
      (slot_used slot \<longrightarrow> limit_loop (s - 1) max_probe (word_of_nat k) (sl_hash slot AND (s - 1)) 1 = Inr ())
      \<and> limits_from (s - 1) max_probe (k + 1) slots = Inr ()"
    by (auto simp: slot_used_def bindR_eq_Inr)
  also have "\<dots> \<longleftrightarrow> (\<forall>j<length (slot # slots). slot_used ((slot # slots) ! j) \<longrightarrow>
        (\<exists>d. (d = 0 \<or> 1 + d \<le> unat max_probe) \<and>
          (unat (sl_hash ((slot # slots) ! j)) + d) mod unat s = k + j))"
    unfolding one rest all_less_Suc_split by simp
  finally show ?case .
qed simp

subsection \<open>The validated table\<close>

lemma list_all_slot_ok:
  assumes "set (used_ids slots) \<subseteq> {..<unat (mt_vocab_size (md_meta m))}"
    and "list_all (\<lambda>s. slot_used s \<longrightarrow>
      unat (sl_str_off s) + unat (sl_str_len s) \<le> length (md_vocab_strings m)) slots"
  shows "list_all (slot_ok m) slots"
  using assms by (auto simp: list_all_iff slot_ok_def used_ids_def word_less_nat_alt)

lemma validate_fill:
  assumes fill: "fill_loop (mt_vocab_size (md_meta m)) ss (md_vocab_hash m)
      (replicate (unat n) 0) 0 = Inr f"
    and n: "se_alloc_bytes ((ucast (mt_vocab_size (md_meta m)) + 7 :: size_t) div 8) 1 = Some n"
    and size: "mt_hash_table_size (md_meta m) \<noteq> 0"
      "mt_hash_table_size (md_meta m) AND (mt_hash_table_size (md_meta m) - 1) = 0"
      "length (md_vocab_hash m) = unat (mt_hash_table_size (md_meta m))"
    and ss: "unat ss = length (md_vocab_strings m)"
  shows "hash_table_ok m" and "distinct (used_ids (md_vocab_hash m))"
    and "f = word_of_nat (length (used_ids (md_vocab_hash m)))"
    and "set (used_ids (md_vocab_hash m)) \<subseteq> {..<unat (mt_vocab_size (md_meta m))}"
proof -
  note facts = fill_loop_Inr [OF fill]
  have "unat (mt_vocab_size (md_meta m)) \<le> 8 * length (replicate (unat n) (0 :: u8))"
    using seen_bytes [OF n] by simp
  from facts [OF this] show "distinct (used_ids (md_vocab_hash m))"
    and "f = word_of_nat (length (used_ids (md_vocab_hash m)))"
    and sub: "set (used_ids (md_vocab_hash m)) \<subseteq> {..<unat (mt_vocab_size (md_meta m))}"
    by auto
  have "list_all (slot_ok m) (md_vocab_hash m)"
    using sub facts [OF \<open>unat (mt_vocab_size (md_meta m)) \<le> _\<close>] ss by (intro list_all_slot_ok) auto
  then show "hash_table_ok m" using size by (simp add: hash_table_ok_def Let_def)
qed

lemma validate_vocab_hash_Inr:
  assumes val: "validate_vocab_hash calloc_ok m ss = Inr ()"
    and size: "mt_hash_table_size (md_meta m) \<noteq> 0"
      "mt_hash_table_size (md_meta m) AND (mt_hash_table_size (md_meta m) - 1) = 0"
      "length (md_vocab_hash m) = unat (mt_hash_table_size (md_meta m))"
    and ss: "unat ss = length (md_vocab_strings m)"
  shows "hash_table_ok m" and "distinct (used_ids (md_vocab_hash m))"
    and "set (used_ids (md_vocab_hash m)) = {..<unat (mt_vocab_size (md_meta m))}"
    and "se_vocab_lookup m unk_text = Inr (Some (mt_unk_id (md_meta m)))"
    and "check_added m (zip added_texts [mt_pad_id (md_meta m), mt_unk_id (md_meta m),
          mt_cls_id (md_meta m), mt_sep_id (md_meta m), mt_mask_id (md_meta m)]) = Inr ()"
proof -
  obtain n where n: "se_alloc_bytes ((ucast (mt_vocab_size (md_meta m)) + 7 :: size_t) div 8) 1 = Some n"
    using seen_bytes_total by blast
  from val n obtain f where fill: "fill_loop (mt_vocab_size (md_meta m)) ss (md_vocab_hash m)
      (replicate (unat n) 0) 0 = Inr f" and f: "f = mt_vocab_size (md_meta m)"
    and unk: "se_vocab_lookup m unk_text = Inr (Some (mt_unk_id (md_meta m)))"
    and added: "check_added m (zip added_texts [mt_pad_id (md_meta m), mt_unk_id (md_meta m),
          mt_cls_id (md_meta m), mt_sep_id (md_meta m), mt_mask_id (md_meta m)]) = Inr ()"
    by (auto simp: validate_vocab_hash_def Let_def bindR_eq_Inr split: if_splits)
  note v = validate_fill [OF fill n size ss]
  show "hash_table_ok m" "distinct (used_ids (md_vocab_hash m))" by (rule v)+
  show "set (used_ids (md_vocab_hash m)) = {..<unat (mt_vocab_size (md_meta m))}"
    using v f size(3) u32_bound [of "mt_hash_table_size (md_meta m)"]
    by (intro filled_ids) simp_all
  show "se_vocab_lookup m unk_text = Inr (Some (mt_unk_id (md_meta m)))" by (rule unk)
  show "check_added m (zip added_texts [mt_pad_id (md_meta m), mt_unk_id (md_meta m),
      mt_cls_id (md_meta m), mt_sep_id (md_meta m), mt_mask_id (md_meta m)]) = Inr ()" by (rule added)
qed

lemma check_added_safe:
  "hash_table_ok m \<Longrightarrow> check_added m xs \<noteq> Inl OutOfBounds"
  by (induction m xs rule: check_added.induct)
    (simp_all add: bindR_eq_Inl se_vocab_lookup_def vocab_lookup_piece_eq)

lemma validate_vocab_hash_safe:
  assumes size: "mt_hash_table_size (md_meta m) \<noteq> 0"
      "mt_hash_table_size (md_meta m) AND (mt_hash_table_size (md_meta m) - 1) = 0"
      "length (md_vocab_hash m) = unat (mt_hash_table_size (md_meta m))"
    and ss: "unat ss = length (md_vocab_strings m)"
  shows "validate_vocab_hash calloc_ok m ss \<noteq> Inl OutOfBounds"
proof -
  obtain n where n: "se_alloc_bytes ((ucast (mt_vocab_size (md_meta m)) + 7 :: size_t) div 8) 1 = Some n"
    using seen_bytes_total by blast
  let ?fill = "fill_loop (mt_vocab_size (md_meta m)) ss (md_vocab_hash m) (replicate (unat n) 0) 0"
  show ?thesis
  proof (cases ?fill)
    case (Inl e)
    have "?fill \<noteq> Inl OutOfBounds" using seen_bytes [OF n] by (intro fill_loop_safe) simp
    with Inl n show ?thesis by (simp add: validate_vocab_hash_def Let_def)
  next
    case (Inr f)
    note ok = validate_fill(1) [OF Inr n size ss]
    show ?thesis
      using n Inr check_added_safe [OF ok] ok
      by (simp add: validate_vocab_hash_def Let_def bindR_eq_Inl se_vocab_lookup_def vocab_lookup_piece_eq)
  qed
qed

lemma vocab_lookup_eq:
  assumes "hash_table_ok m" "length s < 2 ^ 32"
  shows "se_vocab_lookup m s = Inr (vocab_find m s)"
  using assms by (simp add: se_vocab_lookup_def vocab_lookup_piece_eq)

lemma vocab_find_sound:
  assumes ok: "hash_table_ok m" and found: "vocab_find m s = Some tok"
  shows "\<exists>slot\<in>set (md_vocab_hash m). slot_used slot \<and> sl_token_id slot = tok \<and> slot_string m slot = s"
proof -
  let ?slots = "probe_slots m (unat (se_hash_bytes s (mt_hash_seed (md_meta m)))) (unat (mt_max_probe (md_meta m)))"
  from found obtain slot where
    "find (\<lambda>slot. sl_hash slot = se_hash_bytes s (mt_hash_seed (md_meta m)) \<and> slot_string m slot = s)
       (takeWhile slot_used ?slots) = Some slot" and tok: "tok = sl_token_id slot"
    by (auto simp: vocab_find_def Let_def)
  then have s: "slot_string m slot = s" and mem: "slot \<in> set (takeWhile slot_used ?slots)"
    by (auto simp: find_Some_iff) 
  from ok have "0 < length (md_vocab_hash m)" by (simp add: hash_table_ok_def Let_def unat_gt_0)
  then have "slot \<in> set (md_vocab_hash m)" "slot_used slot"
    using set_takeWhileD [OF mem] by (auto simp: probe_slots_def)
  with s tok show ?thesis by blast
qed

text \<open>
  A stored string is found at its own slot when its hash is the stored one, no slot
  before it on its probe sequence is empty, and none of them holds the same string.
\<close>

lemma vocab_find_complete:
  assumes hash: "sl_hash slot = se_hash_bytes s (mt_hash_seed (md_meta m))" "slot_string m slot = s"
    and d: "d < unat (mt_max_probe (md_meta m))"
      "md_vocab_hash m ! ((unat (sl_hash slot) + d) mod length (md_vocab_hash m)) = slot"
    and used: "\<And>k. k \<le> d \<Longrightarrow>
      slot_used (md_vocab_hash m ! ((unat (sl_hash slot) + k) mod length (md_vocab_hash m)))"
    and first: "\<And>k. k < d \<Longrightarrow>
      slot_string m (md_vocab_hash m ! ((unat (sl_hash slot) + k) mod length (md_vocab_hash m))) \<noteq> s"
  shows "vocab_find m s = Some (sl_token_id slot)"
proof -
  let ?slots = "probe_slots m (unat (sl_hash slot)) (unat (mt_max_probe (md_meta m)))"
  let ?P = "\<lambda>slot'. sl_hash slot' = sl_hash slot \<and> slot_string m slot' = s"
  have nth: "?slots ! k = md_vocab_hash m ! ((unat (sl_hash slot) + k) mod length (md_vocab_hash m))"
    if "k < unat (mt_max_probe (md_meta m))" for k
    using that by (simp add: probe_slots_def)
  have len: "length ?slots = unat (mt_max_probe (md_meta m))" by (simp add: probe_slots_def)
  have split: "?slots = take (Suc d) ?slots @ drop (Suc d) ?slots" by simp
  have "\<forall>x\<in>set (take (Suc d) ?slots). slot_used x"
    using used nth d(1) len by (auto simp: in_set_conv_nth)
  then have "takeWhile slot_used ?slots =
      take (Suc d) ?slots @ takeWhile slot_used (drop (Suc d) ?slots)"
    by (subst split) (rule takeWhile_append2, blast)
  moreover have "take (Suc d) ?slots = take d ?slots @ [slot]"
    using d len nth [OF d(1)] by (simp add: take_Suc_conv_app_nth)
  moreover have "find ?P (take d ?slots) = None"
    using first nth d(1) len by (auto simp: find_None_iff in_set_conv_nth)
  ultimately have "find ?P (takeWhile slot_used ?slots) = Some slot"
    using hash by (simp add: find_append)
  then show ?thesis using hash(1) by (simp add: vocab_find_def Let_def)
qed

end
