(* ===== verification/Format.thy ===== *)
theory Format
  imports Trie VocabHash
begin

text \<open>
  Opening a model: \<^verbatim>\<open>validate\<close> of \<^verbatim>\<open>se_format.c\<close> and what it calls.  The file is the
  list of its bytes.  \<open>little_endian\<close> is the answer of \<^verbatim>\<open>se_host_is_little_endian\<close> and
  \<open>calloc_ok\<close> the outcome of the one allocation.  The pointers into the mapped file that the C
  code stores in the model are the lists read through them, so a section that
  reached past the file would make the model \<open>OutOfBounds\<close>.
\<close>

subsection \<open>Sections\<close>

definition section_present :: "sect \<Rightarrow> bool" where
  "section_present s = (sec_off s \<noteq> 0 \<or> sec_size s \<noteq> 0)"

definition section_end :: "sect \<Rightarrow> u64" where
  "section_end s = sec_off s + sec_size s"

definition section_ok :: "sect \<Rightarrow> u64 \<Rightarrow> u64 \<Rightarrow> bool" where
  "section_ok s file_size elem_size =
     (if \<not> section_present s then True
      else if sec_off s < 320 then False
      else if sec_off s mod 64 \<noteq> 0 then False
      else if sec_size s > file_size then False
      else if sec_off s > file_size - sec_size s then False
      else if elem_size \<noteq> 0 \<and> sec_size s mod elem_size \<noteq> 0 then False
      else True)"

definition read_section :: "u8 list \<Rightarrow> nat \<Rightarrow> string \<Rightarrow> sect se_result" where
  "read_section base off name =
     bindR (read_u64 base off) (\<lambda>o'. bindR (read_u64 base (off + 8)) (\<lambda>s.
       Inr \<lparr>sec_off = o', sec_size = s, sec_name = name\<rparr>))"

definition sections_overlap :: "sect \<Rightarrow> sect \<Rightarrow> bool" where
  "sections_overlap a b =
     (if \<not> section_present a \<or> \<not> section_present b then False
      else sec_off a < section_end b \<and> sec_off b < section_end a)"

fun validate_no_overlaps :: "sect list \<Rightarrow> unit se_result" where
  "validate_no_overlaps [] = Inr ()"
| "validate_no_overlaps (s # rest) =
     (if list_ex (sections_overlap s) rest
      then Inl (SeError SE_ERR_INVALID_FORMAT ''sections %s and %s overlap'')
      else validate_no_overlaps rest)"

subsection \<open>Normalization tables\<close>

definition read_map_entry :: "u8 list \<Rightarrow> nat \<Rightarrow> se_map_entry se_result" where
  "read_map_entry base off =
     bindR (read_u32 base off) (\<lambda>cp. bindR (read_u32 base (off + 4)) (\<lambda>len.
     bindR (read_u32 base (off + 8)) (\<lambda>a. bindR (read_u32 base (off + 12)) (\<lambda>b.
     bindR (read_u32 base (off + 16)) (\<lambda>c. bindR (read_u32 base (off + 20)) (\<lambda>d.
       Inr \<lparr>me_cp = cp, me_len = len, me_out = [a, b, c, d]\<rparr>))))))"

definition read_range :: "u8 list \<Rightarrow> nat \<Rightarrow> se_range se_result" where
  "read_range base off =
     bindR (read_u32 base off) (\<lambda>lo. bindR (read_u32 base (off + 4)) (\<lambda>hi.
       Inr \<lparr>rg_lo = lo, rg_hi = hi\<rparr>))"

definition read_maps :: "u8 list \<Rightarrow> nat \<Rightarrow> u32 \<Rightarrow> se_map_entry list se_result" where
  "read_maps base off n = mapR (\<lambda>i. read_map_entry base (off + 24 * i)) [0..<unat n]"

definition read_ranges :: "u8 list \<Rightarrow> nat \<Rightarrow> u32 \<Rightarrow> se_range list se_result" where
  "read_ranges base off n = mapR (\<lambda>i. read_range base (off + 8 * i)) [0..<unat n]"

definition empty_norm :: se_norm_tables where
  "empty_norm = \<lparr>nt_lower = [], nt_nfd = [], nt_mn = [], nt_punct = [], nt_control = [],
     nt_whitespace = [], nt_lower256 = replicate 256 None, nt_nfd256 = replicate 256 None,
     nt_mn256 = replicate 256 0, nt_punct256 = replicate 256 0, nt_control256 = replicate 256 0,
     nt_whitespace256 = replicate 256 0\<rparr>"

definition norm_need :: "u32 \<Rightarrow> u32 \<Rightarrow> u32 \<Rightarrow> u32 \<Rightarrow> u32 \<Rightarrow> u32 \<Rightarrow> u64 option" where
  "norm_need n_lower n_nfd n_mn n_punct n_control n_ws =
     (let map_count = ucast n_lower + ucast n_nfd :: u64;
          range_count = ucast n_mn + ucast n_punct + ucast n_control + ucast n_ws :: u64
      in if map_count > (- 1 - 32) div 24 \<or> range_count > (- 1 - 32) div 8 then None
         else Some (32 + map_count * 24 + range_count * 8))"

text \<open>The tables from the position \<open>cursor\<close> on, one after the other, then their validation.\<close>

definition load_norm ::
  "u8 list \<Rightarrow> nat \<Rightarrow> u32 \<Rightarrow> u32 \<Rightarrow> u32 \<Rightarrow> u32 \<Rightarrow> u32 \<Rightarrow> u32 \<Rightarrow> se_norm_tables se_result" where
  "load_norm base cursor n_lower n_nfd n_mn n_punct n_control n_ws =
     (let c2 = cursor + unat n_lower * 24; c3 = c2 + unat n_nfd * 24; c4 = c3 + unat n_mn * 8;
          c5 = c4 + unat n_punct * 8; c6 = c5 + unat n_control * 8
      in bindR (read_maps base cursor n_lower) (\<lambda>lower. bindR (read_maps base c2 n_nfd) (\<lambda>nfd.
         bindR (read_ranges base c3 n_mn) (\<lambda>mn. bindR (read_ranges base c4 n_punct) (\<lambda>punct.
         bindR (read_ranges base c5 n_control) (\<lambda>control.
         bindR (read_ranges base c6 n_ws) (\<lambda>whitespace.
         bindR (validate_norm_map lower) (\<lambda>_. bindR (validate_norm_map nfd) (\<lambda>_.
         bindR (validate_norm_ranges mn) (\<lambda>_. bindR (validate_norm_ranges punct) (\<lambda>_.
         bindR (validate_norm_ranges control) (\<lambda>_. bindR (validate_norm_ranges whitespace) (\<lambda>_.
           prepare_norm_fast_tables (empty_norm\<lparr>nt_lower := lower, nt_nfd := nfd,
             nt_mn := mn, nt_punct := punct, nt_control := control,
             nt_whitespace := whitespace\<rparr>))))))))))))))"

definition parse_norm_tables :: "u8 list \<Rightarrow> sect \<Rightarrow> se_norm_tables se_result" where
  "parse_norm_tables base sec =
     (if sec_size sec = 0 then Inr empty_norm
      else if sec_size sec < 32
      then Inl (SeError SE_ERR_INVALID_FORMAT ''norm tables section too small'')
      else (let p = unat (sec_off sec) in
        bindR (read_u32 base p) (\<lambda>n_lower. bindR (read_u32 base (p + 4)) (\<lambda>n_nfd.
        bindR (read_u32 base (p + 8)) (\<lambda>n_mn. bindR (read_u32 base (p + 12)) (\<lambda>n_punct.
        bindR (read_u32 base (p + 16)) (\<lambda>n_control. bindR (read_u32 base (p + 20)) (\<lambda>n_ws.
          case norm_need n_lower n_nfd n_mn n_punct n_control n_ws of
            None \<Rightarrow> Inl (SeError SE_ERR_INVALID_FORMAT ''norm tables size overflow'')
          | Some need \<Rightarrow>
            if need \<noteq> sec_size sec
            then Inl (SeError SE_ERR_INVALID_FORMAT
                   ''norm tables size mismatch (need %llu, have %llu)'')
            else load_norm base (p + 32) n_lower n_nfd n_mn n_punct n_control n_ws))))))))"

subsection \<open>The header\<close>

text \<open>The offsets of the 27 header words, in the order the code reads them.\<close>

definition meta_offsets :: "nat list" where
  "meta_offsets = [20, 24, 28, 32, 36, 40, 44, 48, 52, 56, 60, 64, 68, 72,
     76, 80, 84, 88, 92, 96, 100, 104, 108, 112, 124, 304, 308]"

definition read_at :: "u8 list \<Rightarrow> nat \<Rightarrow> (nat \<times> u32) se_result" where
  "read_at base off = bindR (read_u32 base off) (\<lambda>w. Inr (off, w))"

definition read_meta :: "u8 list \<Rightarrow> se_meta se_result" where
  "read_meta base =
     bindR (mapR (read_at base) meta_offsets) (\<lambda>words.
       let u32_at = (\<lambda>off. the (map_of words off)) in
       Inr \<lparr>mt_dim = u32_at 20, mt_vocab_size = u32_at 24, mt_tokenizer_type = u32_at 28,
         mt_embedding_dtype = u32_at 32, mt_pooling_type = u32_at 36, mt_normalization_type = u32_at 40,
         mt_max_tokens_default = u32_at 44, mt_truncation_policy = u32_at 48, mt_add_special_tokens = u32_at 52,
         mt_unk_policy = u32_at 56, mt_empty_policy = u32_at 60, mt_do_lower_case = u32_at 64,
         mt_strip_accents = u32_at 68, mt_handle_chinese_chars = u32_at 72, mt_clean_text = u32_at 76,
         mt_max_input_chars_per_word = u32_at 80, mt_max_token_chars = u32_at 124, mt_max_probe = u32_at 304,
         mt_added_token_mask = u32_at 308, mt_pad_id = u32_at 84, mt_unk_id = u32_at 88,
         mt_cls_id = u32_at 92, mt_sep_id = u32_at 96, mt_mask_id = u32_at 100,
         mt_hash_table_size = u32_at 104, mt_hash_seed = u32_at 108, mt_subword_prefix_len = u32_at 112,
         mt_subword_prefix = take 8 (drop 116 base)\<rparr>)"

definition check_meta :: "se_meta \<Rightarrow> unit se_result" where
  "check_meta m =
     (if mt_tokenizer_type m \<noteq> SE_TOKENIZER_BERT_WORDPIECE_V1
      then Inl (SeError SE_ERR_UNSUPPORTED_TOKENIZER ''tokenizer profile %u is not supported'')
      else if mt_embedding_dtype m \<noteq> SE_DTYPE_F32
      then Inl (SeError SE_ERR_INVALID_FORMAT ''embedding dtype %u is not supported'')
      else if mt_pooling_type m \<noteq> SE_POOLING_MEAN
      then Inl (SeError SE_ERR_INVALID_FORMAT ''pooling type %u is not supported'')
      else if mt_normalization_type m \<noteq> SE_NORMALIZATION_NONE \<and>
              mt_normalization_type m \<noteq> SE_NORMALIZATION_L2
      then Inl (SeError SE_ERR_INVALID_FORMAT ''normalization type %u is not supported'')
      else if mt_truncation_policy m \<noteq> SE_TRUNCATE_USABLE_IDS_BEFORE_POOLING \<and>
              mt_truncation_policy m \<noteq> SE_TRUNCATE_RAW_IDS_BEFORE_UNK_DROP
      then Inl (SeError SE_ERR_INVALID_FORMAT ''truncation policy %u is not supported'')
      else if mt_add_special_tokens m \<noteq> 0
      then Inl (SeError SE_ERR_INVALID_FORMAT ''runtime does not add special tokens'')
      else if mt_unk_policy m \<noteq> SE_UNK_INCLUDE \<and> mt_unk_policy m \<noteq> SE_UNK_DROP
      then Inl (SeError SE_ERR_INVALID_FORMAT ''unknown UNK policy %u'')
      else if mt_added_token_mask m AND NOT SE_ADDED_TOKEN_MASK_ALL \<noteq> 0
      then Inl (SeError SE_ERR_INVALID_FORMAT ''unknown added-token mask bits 0x%x'')
      else if mt_empty_policy m \<noteq> SE_EMPTY_ZERO_VECTOR \<and> mt_empty_policy m \<noteq> SE_EMPTY_RAISE
      then Inl (SeError SE_ERR_INVALID_FORMAT ''unknown empty-input policy %u'')
      else if mt_do_lower_case m > 1 \<or> mt_strip_accents m > 1 \<or> mt_handle_chinese_chars m > 1 \<or>
              mt_clean_text m > 1
      then Inl (SeError SE_ERR_INVALID_FORMAT ''normalizer flags must be 0 or 1'')
      else if mt_dim m = 0 \<or> mt_dim m > push_bit 20 1
      then Inl (SeError SE_ERR_INVALID_FORMAT ''implausible dim %u'')
      else if mt_vocab_size m = 0
      then Inl (SeError SE_ERR_INVALID_FORMAT ''empty vocabulary'')
      else if mt_hash_table_size m = 0 \<or> mt_hash_table_size m AND (mt_hash_table_size m - 1) \<noteq> 0
      then Inl (SeError SE_ERR_INVALID_FORMAT ''hash table size %u is not a power of two'')
      else if mt_hash_table_size m \<le> mt_vocab_size m \<or>
              (ucast (mt_vocab_size m) * 100 :: u64) > ucast (mt_hash_table_size m) * 70
      then Inl (SeError SE_ERR_INVALID_FORMAT
             ''hash table load factor exceeds the supported 0.70 maximum'')
      else if mt_max_probe m = 0 \<or> mt_max_probe m > mt_hash_table_size m
      then Inl (SeError SE_ERR_INVALID_FORMAT ''invalid recorded max probe %u'')
      else if mt_subword_prefix_len m > 8
      then Inl (SeError SE_ERR_INVALID_FORMAT ''subword prefix too long'')
      else if mt_unk_id m \<ge> mt_vocab_size m
      then Inl (SeError SE_ERR_INVALID_FORMAT ''unk id out of range'')
      else if mt_clean_text m \<noteq> 1
      then Inl (SeError SE_ERR_INVALID_FORMAT ''BERT_WORDPIECE_V1 requires clean_text=true'')
      else Inr ())"

definition adjust_meta :: "se_meta \<Rightarrow> se_meta" where
  "adjust_meta m =
     (let m = (if mt_max_input_chars_per_word m = 0
               then m\<lparr>mt_max_input_chars_per_word := 100\<rparr> else m)
      in if mt_max_token_chars m = 0 \<or> mt_max_token_chars m > mt_max_input_chars_per_word m
         then m\<lparr>mt_max_token_chars := mt_max_input_chars_per_word m\<rparr> else m)"

definition read_header :: "bool \<Rightarrow> u8 list \<Rightarrow> se_meta se_result" where
  "read_header little_endian base =
     (if \<not> little_endian
      then Inl (SeError SE_ERR_UNSUPPORTED_VERSION
             ''static_embeddings .semb files require a little-endian host'')
      else if (word_of_nat (length base) :: u64) < 320
      then Inl (SeError SE_ERR_INVALID_FORMAT ''file shorter than header'')
      else if take 8 base \<noteq> SE_MAGIC then Inl (SeError SE_ERR_INVALID_FORMAT ''bad magic'')
      else bindR (read_u32 base 8) (\<lambda>version.
        if version \<noteq> SE_FORMAT_VERSION
        then Inl (SeError SE_ERR_UNSUPPORTED_VERSION ''format version %u is not supported'')
        else bindR (read_u32 base 12) (\<lambda>header_size.
          if header_size \<noteq> 320
          then Inl (SeError SE_ERR_INVALID_FORMAT ''unexpected header size'')
          else bindR (read_meta base) (\<lambda>m. bindR (check_meta m) (\<lambda>_. Inr (adjust_meta m))))))"

subsection \<open>The whole file\<close>

text \<open>The seven sections with the offsets of their header entries, in the order of the code.\<close>

definition section_entries :: "(nat \<times> string) list" where
  "section_entries =
     [(128, ''vocab_strings''), (144, ''vocab_hash''), (160, ''embeddings''), (176, ''norm_tables''),
      (192, ''provenance''), (208, ''root_trie''), (224, ''continuation_trie'')]"

definition section_elem_sizes :: "u64 list" where
  "section_elem_sizes = [0, 16, 4, 0, 0, 0, 0]"

definition read_sections :: "u8 list \<Rightarrow> sect list se_result" where
  "read_sections base =
     bindR (mapR (\<lambda>(off, name). read_section base off name) section_entries) (\<lambda>secs.
       if \<not> list_all2 (\<lambda>s elem. section_ok s (word_of_nat (length base)) elem) secs section_elem_sizes
       then Inl (SeError SE_ERR_INVALID_FORMAT ''section offsets are out of bounds or unaligned'')
       else bindR (validate_no_overlaps secs) (\<lambda>_. Inr secs))"

definition read_slot :: "u8 list \<Rightarrow> nat \<Rightarrow> se_vocab_slot se_result" where
  "read_slot base off =
     bindR (read_u32 base off) (\<lambda>a. bindR (read_u32 base (off + 4)) (\<lambda>b.
     bindR (read_u32 base (off + 8)) (\<lambda>c. bindR (read_u32 base (off + 12)) (\<lambda>d.
       Inr \<lparr>sl_hash = a, sl_str_off = b, sl_str_len = c, sl_token_id = d\<rparr>))))"

definition section_bytes :: "u8 list \<Rightarrow> sect \<Rightarrow> u8 list se_result" where
  "section_bytes base s =
     (if unat (sec_off s) + unat (sec_size s) \<le> length base
      then Inr (take (unat (sec_size s)) (drop (unat (sec_off s)) base)) else Inl OutOfBounds)"

definition empty_trie :: se_trie where
  "empty_trie = \<lparr>tr_nodes = [], tr_edges = [], tr_node_count = 0, tr_edge_count = 0\<rparr>"

definition load_tables :: "u8 list \<Rightarrow> se_meta \<Rightarrow> sect list \<Rightarrow> se_model se_result" where
  "load_tables base m secs =
     (let vocab_strings = secs ! 0; vocab_hash = secs ! 1; embeddings = secs ! 2; provenance = secs ! 4;
          expected_hash_bytes = ucast (mt_hash_table_size m) * 16 :: u64
      in if sec_size vocab_hash \<noteq> expected_hash_bytes
         then Inl (SeError SE_ERR_INVALID_FORMAT ''hash section size mismatch'')
         else if (ucast (mt_vocab_size m) :: u64) > (- 1) div ucast (mt_dim m) \<or>
                 (ucast (mt_vocab_size m) * ucast (mt_dim m) :: u64) > (- 1) div 4
         then Inl (SeError SE_ERR_INVALID_FORMAT ''embedding matrix size overflow'')
         else if sec_size embeddings \<noteq> ucast (mt_vocab_size m) * ucast (mt_dim m) * 4
         then Inl (SeError SE_ERR_INVALID_FORMAT
                ''embedding section is %llu bytes, expected vocab_size * dim * 4 = %llu'')
         else bindR (section_bytes base vocab_strings) (\<lambda>strings.
           bindR (mapR (\<lambda>i. read_slot base (unat (sec_off vocab_hash) + 16 * i))
                    [0..<unat (mt_hash_table_size m)]) (\<lambda>slots.
           bindR (mapR (\<lambda>i. read_u32 base (unat (sec_off embeddings) + 4 * i))
                    [0..<unat (mt_vocab_size m) * unat (mt_dim m)]) (\<lambda>matrix.
           bindR (section_bytes base provenance) (\<lambda>prov.
             Inr \<lparr>md_meta = m, md_norm = empty_norm, md_vocab_strings = strings,
                  md_vocab_hash = slots, md_root_trie = empty_trie, md_cont_trie = empty_trie,
                  md_embeddings = matrix, md_provenance = prov\<rparr>)))))"

definition validate :: "bool \<Rightarrow> bool \<Rightarrow> u8 list \<Rightarrow> se_model se_result" where
  "validate little_endian calloc_ok base =
     bindR (read_header little_endian base) (\<lambda>m.
     bindR (read_sections base) (\<lambda>secs.
     bindR (load_tables base m secs) (\<lambda>model.
     bindR (validate_vocab_hash calloc_ok model (sec_size (secs ! 0))) (\<lambda>_.
     bindR (validate_hash_probe_limits model) (\<lambda>_.
     bindR (parse_trie base (secs ! 5) (mt_vocab_size m)) (\<lambda>root.
     bindR (parse_trie base (secs ! 6) (mt_vocab_size m)) (\<lambda>cont.
     bindR (parse_norm_tables base (secs ! 3)) (\<lambda>norm.
       Inr (model\<lparr>md_root_trie := root, md_cont_trie := cont, md_norm := norm\<rparr>)))))))))"

subsection \<open>Bounds of sections\<close>

lemma unat_small_u64: "n < 2 ^ 64 \<Longrightarrow> unat (word_of_nat n :: u64) = n"
  by (simp add: unat_of_nat take_bit_nat_eq_self)

lemma section_ok_bounds:
  assumes "section_ok s (word_of_nat (length base)) elem" "length base < 2 ^ 64"
  shows "unat (sec_off s) + unat (sec_size s) \<le> length base"
    and "section_present s \<Longrightarrow> 320 \<le> unat (sec_off s)"
    and "section_present s \<Longrightarrow> unat (sec_off s) mod 64 = 0"
    and "elem \<noteq> 0 \<Longrightarrow> unat (sec_size s) mod unat elem = 0"
proof -
  let ?n = "word_of_nat (length base) :: u64"
  have n: "unat ?n = length base" by (rule unat_small_u64 [OF assms(2)])
  consider (absent) "\<not> section_present s" | (present) "section_present s" "\<not> sec_off s < 320"
      "sec_off s mod 64 = 0" "\<not> sec_size s > ?n" "\<not> sec_off s > ?n - sec_size s"
      "elem = 0 \<or> sec_size s mod elem = 0"
    using assms(1) by (auto simp: section_ok_def split: if_splits)
  note cases = this
  show "unat (sec_off s) + unat (sec_size s) \<le> length base"
    using cases
  proof cases
    case absent
    then show ?thesis by (simp add: section_present_def)
  next
    case present
    then have "sec_size s \<le> ?n" "sec_off s \<le> ?n - sec_size s" by (simp_all add: not_less)
    then have "unat (sec_size s) \<le> length base" "unat (sec_off s) \<le> length base - unat (sec_size s)"
      by (simp_all add: word_le_nat_alt unat_sub_le n)
    then show ?thesis by linarith
  qed
  show "320 \<le> unat (sec_off s)" "unat (sec_off s) mod 64 = 0" if p: "section_present s"
  proof -
    have "\<not> sec_off s < 320 \<and> sec_off s mod 64 = 0"
      using cases
    proof cases
      case present
      from present(2,3) show ?thesis by (rule conjI)
    qed (use p in simp)
    then show "320 \<le> unat (sec_off s)" "unat (sec_off s) mod 64 = 0"
      by (simp_all add: not_less word_le_nat_alt unat_mod word_unat_eq_iff)
  qed
  show "unat (sec_size s) mod unat elem = 0" if "elem \<noteq> 0"
    using cases
  proof cases
    case absent
    then show ?thesis by (simp add: section_present_def)
  next
    case present
    with that have "sec_size s mod elem = 0" by simp
    then show ?thesis by (simp add: word_unat_eq_iff unat_mod)
  qed
qed

definition sections_apart :: "sect \<Rightarrow> sect \<Rightarrow> bool" where
  "sections_apart a b =
     (section_present a \<longrightarrow> section_present b \<longrightarrow>
      unat (sec_off b) + unat (sec_size b) \<le> unat (sec_off a) \<or>
      unat (sec_off a) + unat (sec_size a) \<le> unat (sec_off b))"

lemma overlap_iff:
  assumes "unat (sec_off a) + unat (sec_size a) < 2 ^ 64" "unat (sec_off b) + unat (sec_size b) < 2 ^ 64"
  shows "sections_overlap a b \<longleftrightarrow> \<not> sections_apart a b"
proof -
  have "unat (section_end a) = unat (sec_off a) + unat (sec_size a)"
    "unat (section_end b) = unat (sec_off b) + unat (sec_size b)"
    using assms by (simp_all add: section_end_def unat_word_ariths)
  then show ?thesis
    by (auto simp: sections_overlap_def sections_apart_def word_less_nat_alt)
qed

lemma no_overlaps_iff:
  "validate_no_overlaps secs = Inr () \<longleftrightarrow> sorted_wrt (\<lambda>a b. \<not> sections_overlap a b) secs"
  by (induction secs) (auto simp: list_ex_iff)

lemma no_overlaps_safe: "validate_no_overlaps secs \<noteq> Inl OutOfBounds"
  by (induction secs) auto

lemma read_sections_Inr:
  assumes "read_sections base = Inr secs" "length base < 2 ^ 64"
  shows "length secs = 7"
    and "\<And>s. s \<in> set secs \<Longrightarrow> unat (sec_off s) + unat (sec_size s) \<le> length base"
    and "sorted_wrt sections_apart secs"
    and "list_all2 (\<lambda>s elem. section_ok s (word_of_nat (length base)) elem) secs section_elem_sizes"
proof -
  from assms(1) show all: "list_all2 (\<lambda>s elem. section_ok s (word_of_nat (length base)) elem) secs section_elem_sizes"
    by (auto simp: read_sections_def bindR_eq_Inr split: if_splits)
  then show "length secs = 7" by (auto dest!: list_all2_lengthD simp: section_elem_sizes_def)
  have ok: "\<exists>elem. section_ok s (word_of_nat (length base)) elem" if "s \<in> set secs" for s
    using all that by (auto simp: list_all2_conv_all_nth in_set_conv_nth)
  then show inb: "unat (sec_off s) + unat (sec_size s) \<le> length base" if "s \<in> set secs" for s
    using section_ok_bounds(1) assms(2) that by blast
  have "sorted_wrt (\<lambda>a b. \<not> sections_overlap a b) secs"
    using assms(1) by (auto simp: read_sections_def bindR_eq_Inr no_overlaps_iff split: if_splits)
  then show "sorted_wrt sections_apart secs"
  proof (rule sorted_wrt_mono_rel [rotated])
    fix a b assume ab: "a \<in> set secs" "b \<in> set secs" "\<not> sections_overlap a b"
    have "unat (sec_off a) + unat (sec_size a) < 2 ^ 64" "unat (sec_off b) + unat (sec_size b) < 2 ^ 64"
      using inb [OF ab(1)] inb [OF ab(2)] assms(2) by linarith+
    from overlap_iff [OF this] ab(3) show "sections_apart a b" by simp
  qed
qed

lemma read_section_total:
  "off + 16 \<le> length base \<Longrightarrow> \<exists>s. read_section base off name = Inr s"
  by (simp add: read_section_def read_simps)

lemma read_sections_safe:
  assumes "320 \<le> length base"
  shows "read_sections base \<noteq> Inl OutOfBounds"
proof -
  have "\<exists>secs. mapR (\<lambda>(off, name). read_section base off name) section_entries = Inr secs"
    by (rule mapR_total) (use assms in \<open>auto simp: section_entries_def intro!: read_section_total\<close>)
  then obtain secs where
    "mapR (\<lambda>(off, name). read_section base off name) section_entries = Inr secs" by blast
  then show ?thesis by (simp add: read_sections_def bindR_eq_Inl no_overlaps_safe)
qed

subsection \<open>The header\<close>

text \<open>What the header of an accepted file satisfies.\<close>

definition meta_ok :: "se_meta \<Rightarrow> bool" where
  "meta_ok m =
     (mt_tokenizer_type m = 1 \<and> mt_embedding_dtype m = 1 \<and> mt_pooling_type m = 1 \<and>
      mt_normalization_type m \<le> 1 \<and> mt_truncation_policy m \<in> {2, 3} \<and>
      mt_add_special_tokens m = 0 \<and> mt_unk_policy m \<le> 1 \<and> mt_empty_policy m \<le> 1 \<and>
      mt_added_token_mask m AND NOT 31 = 0 \<and>
      mt_do_lower_case m \<le> 1 \<and> mt_strip_accents m \<le> 1 \<and> mt_handle_chinese_chars m \<le> 1 \<and>
      mt_clean_text m = 1 \<and> mt_dim m \<noteq> 0 \<and> unat (mt_dim m) \<le> 2 ^ 20 \<and> mt_vocab_size m \<noteq> 0 \<and>
      mt_hash_table_size m \<noteq> 0 \<and> mt_hash_table_size m AND (mt_hash_table_size m - 1) = 0 \<and>
      mt_vocab_size m < mt_hash_table_size m \<and>
      10 * unat (mt_vocab_size m) \<le> 7 * unat (mt_hash_table_size m) \<and>
      mt_max_probe m \<noteq> 0 \<and> mt_max_probe m \<le> mt_hash_table_size m \<and>
      mt_subword_prefix_len m \<le> 8 \<and> mt_unk_id m < mt_vocab_size m \<and>
      mt_max_input_chars_per_word m \<noteq> 0 \<and> mt_max_token_chars m \<noteq> 0 \<and>
      mt_max_token_chars m \<le> mt_max_input_chars_per_word m)"

lemma u32_le_1: "(x :: u32) \<le> 1 \<longleftrightarrow> x = 0 \<or> x = 1"
  by (auto simp: word_le_nat_alt word_unat_eq_iff)

lemma load_factor:
  "\<not> (ucast (v :: u32) * 100 :: u64) > ucast (h :: u32) * 70 \<longleftrightarrow> 10 * unat v \<le> 7 * unat h"
proof -
  have "unat (ucast v * 100 :: u64) = unat v * 100" "unat (ucast h * 70 :: u64) = unat h * 70"
    using u32_bound [of v] u32_bound [of h] by (simp_all add: unat_word_ariths unat_ucast_up)
  then show ?thesis by (simp add: word_less_nat_alt) linarith
qed

lemma check_meta_ok:
  assumes "check_meta m = Inr ()"
  shows "meta_ok (adjust_meta m)"
proof -
  have "\<not> mt_dim m > push_bit 20 1" using assms by (auto simp: check_meta_def split: if_splits)
  then have dim: "unat (mt_dim m) \<le> 2 ^ 20" by (simp add: not_less word_le_nat_alt push_bit_eq_mult)
  have keep: "mt_tokenizer_type m = 1 \<and> mt_embedding_dtype m = 1 \<and> mt_pooling_type m = 1 \<and>
      mt_normalization_type m \<le> 1 \<and> mt_truncation_policy m \<in> {2, 3} \<and>
      mt_add_special_tokens m = 0 \<and> mt_unk_policy m \<le> 1 \<and> mt_empty_policy m \<le> 1 \<and>
      mt_added_token_mask m AND NOT 31 = 0 \<and>
      mt_do_lower_case m \<le> 1 \<and> mt_strip_accents m \<le> 1 \<and> mt_handle_chinese_chars m \<le> 1 \<and>
      mt_clean_text m = 1 \<and> mt_dim m \<noteq> 0 \<and> mt_vocab_size m \<noteq> 0 \<and>
      mt_hash_table_size m \<noteq> 0 \<and> mt_hash_table_size m AND (mt_hash_table_size m - 1) = 0 \<and>
      mt_vocab_size m < mt_hash_table_size m \<and>
      10 * unat (mt_vocab_size m) \<le> 7 * unat (mt_hash_table_size m) \<and>
      mt_max_probe m \<noteq> 0 \<and> mt_max_probe m \<le> mt_hash_table_size m \<and>
      mt_subword_prefix_len m \<le> 8 \<and> mt_unk_id m < mt_vocab_size m"
    using assms unfolding check_meta_def
    by (simp add: u32_le_1 not_le load_factor [symmetric] split: if_splits) (simp add: not_less u32_le_1)
  then show ?thesis
    using dim by (auto simp: meta_ok_def adjust_meta_def Let_def)
qed

lemma check_meta_safe: "check_meta m \<noteq> Inl OutOfBounds"
  by (simp add: check_meta_def)

lemma read_meta_total: "312 \<le> length base \<Longrightarrow> \<exists>m. read_meta base = Inr m"
proof -
  assume len: "312 \<le> length base"
  have "\<exists>ws. mapR (read_at base) meta_offsets = Inr ws"
    by (rule mapR_total) (use len in \<open>auto simp: meta_offsets_def read_at_def read_simps\<close>)
  then show ?thesis by (auto simp: read_meta_def Let_def)
qed

lemma read_header_safe:
  assumes "length base < 2 ^ 64"
  shows "read_header little_endian base \<noteq> Inl OutOfBounds"
proof (cases "(word_of_nat (length base) :: u64) < 320")
  case True
  then show ?thesis by (simp add: read_header_def)
next
  case False
  then have len: "320 \<le> length base"
    using unat_small_u64 [OF assms] by (simp add: word_less_nat_alt)
  obtain m where m: "read_meta base = Inr m" using read_meta_total [of base] len by auto
  obtain v h where v: "read_u32 base 8 = Inr v" "read_u32 base 12 = Inr h"
    using read_u32_total [of 8 base] read_u32_total [of 12 base] len by auto
  show ?thesis
    using False by (simp add: read_header_def v m bindR_eq_Inl check_meta_safe)
qed

lemma read_header_Inr:
  assumes "read_header little_endian base = Inr m" "length base < 2 ^ 64"
  shows "meta_ok m" and "320 \<le> length base"
proof -
  from assms(1) obtain m0 where "check_meta m0 = Inr ()" "m = adjust_meta m0"
    and len: "\<not> (word_of_nat (length base) :: u64) < 320"
    by (auto simp: read_header_def bindR_eq_Inr split: if_splits)
  then show "meta_ok m" using check_meta_ok by simp
  show "320 \<le> length base" using len unat_small_u64 [OF assms(2)] by (simp add: word_less_nat_alt)
qed

subsection \<open>The normalization tables\<close>

lemma read_map_entry_total: "off + 24 \<le> length base \<Longrightarrow> \<exists>e. read_map_entry base off = Inr e"
  by (simp add: read_map_entry_def read_simps)

lemma read_range_total: "off + 8 \<le> length base \<Longrightarrow> \<exists>r. read_range base off = Inr r"
  by (simp add: read_range_def read_simps)

lemma item_room: "off + unat (n :: u32) * sz \<le> l \<Longrightarrow> i < unat n \<Longrightarrow> off + sz * i + sz \<le> (l :: nat)"
proof -
  assume "off + unat n * sz \<le> l" "i < unat n"
  then have "Suc i * sz \<le> unat n * sz" by (intro mult_le_mono1) simp
  with \<open>off + unat n * sz \<le> l\<close> show ?thesis by (simp add: algebra_simps)
qed

lemma read_maps_total:
  assumes "off + unat n * 24 \<le> length base"
  shows "\<exists>es. read_maps base off n = Inr es \<and> length es = unat n"
  unfolding read_maps_def
  by (rule mapR_upt_total, rule read_map_entry_total, rule item_room [OF assms])

lemma read_ranges_total:
  assumes "off + unat n * 8 \<le> length base"
  shows "\<exists>rs. read_ranges base off n = Inr rs \<and> length rs = unat n"
  unfolding read_ranges_def
  by (rule mapR_upt_total, rule read_range_total, rule item_room [OF assms])

lemma read_maps_small: "read_maps base off n = Inr es \<Longrightarrow> length es < 2 ^ 32"
  using u32_bound [of n] by (auto simp: read_maps_def dest: mapR_Inr_length)

lemma read_maps_full: "read_maps base off n = Inr es \<Longrightarrow> full_entries es"
  by (auto simp: read_maps_def full_entries_def list_all_iff read_map_entry_def bindR_eq_Inr dest!: mapR_set)

lemma read_ranges_small: "read_ranges base off n = Inr rs \<Longrightarrow> length rs < 2 ^ 32"
  using u32_bound [of n] by (auto simp: read_ranges_def dest: mapR_Inr_length)

lemma norm_need_nat:
  assumes "norm_need a b c d e f = Some need"
  shows "unat need = 32 + unat a * 24 + unat b * 24 + unat c * 8 + unat d * 8 + unat e * 8 + unat f * 8"
proof -
  have "need = 32 + (ucast a + ucast b) * 24 + (ucast c + ucast d + ucast e + ucast f) * 8"
    using assms by (auto simp: norm_need_def Let_def split: if_splits)
  then show ?thesis
    using u32_bound [of a] u32_bound [of b] u32_bound [of c] u32_bound [of d] u32_bound [of e]
      u32_bound [of f]
    by (simp add: unat_word_ariths unat_ucast_up)
qed

lemma validate_loops_safe:
  "validate_norm_map es \<noteq> Inl OutOfBounds" "validate_norm_ranges rs \<noteq> Inl OutOfBounds"
proof -
  have "validate_map_loop i prev es \<noteq> Inl OutOfBounds" for i prev
    by (induction i prev es rule: validate_map_loop.induct) auto
  moreover have "validate_ranges_loop i prev rs \<noteq> Inl OutOfBounds" for i prev
    by (induction i prev rs rule: validate_ranges_loop.induct) auto
  ultimately show "validate_norm_map es \<noteq> Inl OutOfBounds" "validate_norm_ranges rs \<noteq> Inl OutOfBounds"
    by (simp_all add: validate_norm_map_def validate_norm_ranges_def)
qed

lemma prepare_idem: "norm_fast_tables (norm_fast_tables nt) = norm_fast_tables nt"
  by (simp add: norm_fast_tables_def)

lemma empty_norm_ok: "norm_tables_ok empty_norm"
  by (simp add: norm_tables_ok_def full_entries_def empty_norm_def norm_fast_tables_def map256_def
      range256_def norm_map_ok_def norm_ranges_ok_def)

lemma load_norm_ok:
  assumes "load_norm base cursor n1 n2 n3 n4 n5 n6 = Inr nt"
  shows "norm_tables_ok nt"
proof -
  from assms obtain lower nfd mn punct control ws c2 c3 c4 c5 c6 where
    reads: "read_maps base cursor n1 = Inr lower" "read_maps base c2 n2 = Inr nfd"
      "read_ranges base c3 n3 = Inr mn" "read_ranges base c4 n4 = Inr punct"
      "read_ranges base c5 n5 = Inr control" "read_ranges base c6 n6 = Inr ws"
    and val: "validate_norm_map lower = Inr ()" "validate_norm_map nfd = Inr ()"
      "validate_norm_ranges mn = Inr ()" "validate_norm_ranges punct = Inr ()"
      "validate_norm_ranges control = Inr ()" "validate_norm_ranges ws = Inr ()"
    and nt: "nt = norm_fast_tables (empty_norm\<lparr>nt_lower := lower, nt_nfd := nfd,
      nt_mn := mn, nt_punct := punct, nt_control := control, nt_whitespace := ws\<rparr>)"
    unfolding load_norm_def Let_def bindR_eq_Inr prepare_norm_fast_tables_eq by auto
  have "nt = norm_fast_tables nt" unfolding nt by (simp add: prepare_idem)
  moreover have "nt_lower nt = lower" "nt_nfd nt = nfd" "nt_mn nt = mn" "nt_punct nt = punct"
    "nt_control nt = control" "nt_whitespace nt = ws"
    unfolding nt by (simp_all add: norm_fast_tables_def)
  moreover note val [unfolded validate_norm_map_iff validate_norm_ranges_iff]
    and reads(1) [THEN read_maps_small] reads(2) [THEN read_maps_small]
      reads(1) [THEN read_maps_full] reads(2) [THEN read_maps_full]
      reads(3) [THEN read_ranges_small] reads(4) [THEN read_ranges_small]
      reads(5) [THEN read_ranges_small] reads(6) [THEN read_ranges_small]
  ultimately show ?thesis unfolding norm_tables_ok_def by simp
qed

lemma parse_norm_tables_ok:
  assumes "parse_norm_tables base sec = Inr nt"
  shows "norm_tables_ok nt"
  using assms empty_norm_ok
  by (auto simp: parse_norm_tables_def Let_def bindR_eq_Inr split: if_splits option.splits
      dest: load_norm_ok)

lemma parse_norm_tables_safe:
  assumes "unat (sec_off sec) + unat (sec_size sec) \<le> length base"
  shows "parse_norm_tables base sec \<noteq> Inl OutOfBounds"
proof (cases "sec_size sec = 0 \<or> sec_size sec < 32")
  case True
  then show ?thesis by (auto simp: parse_norm_tables_def)
next
  case False
  let ?p = "unat (sec_off sec)"
  have p: "?p + 32 \<le> length base" using False assms by (auto simp: word_less_nat_alt)
  obtain a b c d e f where w: "read_u32 base ?p = Inr a" "read_u32 base (?p + 4) = Inr b"
    "read_u32 base (?p + 8) = Inr c" "read_u32 base (?p + 12) = Inr d"
    "read_u32 base (?p + 16) = Inr e" "read_u32 base (?p + 20) = Inr f"
    using p read_u32_total [of ?p base] read_u32_total [of "?p + 4" base] read_u32_total [of "?p + 8" base]
      read_u32_total [of "?p + 12" base] read_u32_total [of "?p + 16" base]
      read_u32_total [of "?p + 20" base] by auto
  show ?thesis
  proof (cases "norm_need a b c d e f = Some (sec_size sec)")
    case other: False
    then show ?thesis
      using False w by (auto simp: parse_norm_tables_def Let_def split: option.splits)
  next
    case need: True
    let ?c1 = "?p + 32" let ?c2 = "?c1 + unat a * 24" let ?c3 = "?c2 + unat b * 24"
    let ?c4 = "?c3 + unat c * 8" let ?c5 = "?c4 + unat d * 8" let ?c6 = "?c5 + unat e * 8"
    have "?c6 + unat f * 8 \<le> length base" using norm_need_nat [OF need] assms by linarith
    then have "?c1 + unat a * 24 \<le> length base" "?c2 + unat b * 24 \<le> length base"
      "?c3 + unat c * 8 \<le> length base" "?c4 + unat d * 8 \<le> length base"
      "?c5 + unat e * 8 \<le> length base" "?c6 + unat f * 8 \<le> length base"
      by linarith+
    obtain es1 es2 rs1 rs2 rs3 rs4 where r: "read_maps base ?c1 a = Inr es1" "read_maps base ?c2 b = Inr es2"
      "read_ranges base ?c3 c = Inr rs1" "read_ranges base ?c4 d = Inr rs2"
      "read_ranges base ?c5 e = Inr rs3" "read_ranges base ?c6 f = Inr rs4"
      using read_maps_total [OF \<open>?c1 + unat a * 24 \<le> length base\<close>]
        read_maps_total [OF \<open>?c2 + unat b * 24 \<le> length base\<close>]
        read_ranges_total [OF \<open>?c3 + unat c * 8 \<le> length base\<close>]
        read_ranges_total [OF \<open>?c4 + unat d * 8 \<le> length base\<close>]
        read_ranges_total [OF \<open>?c5 + unat e * 8 \<le> length base\<close>]
        read_ranges_total [OF \<open>?c6 + unat f * 8 \<le> length base\<close>] by blast
    show ?thesis
      unfolding parse_norm_tables_def load_norm_def Let_def using False
      by (simp add: w need r bindR_eq_Inl validate_loops_safe)
  qed
qed

subsection \<open>The model\<close>

text \<open>What the rest of the extension relies on in a loaded model.\<close>

definition model_ok :: "se_model \<Rightarrow> bool" where
  "model_ok m =
     (meta_ok (md_meta m) \<and> hash_table_ok m \<and> norm_tables_ok (md_norm m) \<and>
      trie_ok (mt_vocab_size (md_meta m)) (md_root_trie m) \<and>
      trie_ok (mt_vocab_size (md_meta m)) (md_cont_trie m) \<and>
      distinct (used_ids (md_vocab_hash m)) \<and>
      vocab_find m unk_text = Some (mt_unk_id (md_meta m)) \<and>
      length (md_embeddings m) = unat (mt_vocab_size (md_meta m)) * unat (mt_dim (md_meta m)))"

lemma read_slot_total: "off + 16 \<le> length base \<Longrightarrow> \<exists>s. read_slot base off = Inr s"
  by (simp add: read_slot_def read_simps)

lemma matrix_size:
  assumes "unat (d :: u32) \<le> 2 ^ 20" "d \<noteq> 0"
  shows "unat (ucast (v :: u32) * ucast d * 4 :: u64) = unat v * unat d * 4"
    and "\<not> ((ucast v :: u64) > (- 1) div ucast d \<or> (ucast v * ucast d :: u64) > (- 1) div 4)"
proof -
  have vd: "unat v * unat d \<le> (2 ^ 32 - 1) * 2 ^ 20"
    using assms(1) u32_bound [of v] by (intro mult_le_mono) simp_all
  then have vd': "unat (ucast v * ucast d :: u64) = unat v * unat d"
    by (simp add: unat_word_ariths unat_ucast_up)
  have "unat v * unat d \<le> 4503599626321920" using vd by simp
  then have "unat v * unat d * 4 < 18446744073709551616" by linarith
  then show "unat (ucast v * ucast d * 4 :: u64) = unat v * unat d * 4"
    using unat_word_ariths(2) [of "ucast v * ucast d :: u64" 4] vd' by simp
  have max: "unat (- 1 :: u64) = 2 ^ 64 - 1" by (simp add: unsigned_minus_1_eq_mask mask_eq_exp_minus_1)
  have "unat v * unat d \<le> 2 ^ 64 - 1" using vd by simp
  moreover have "0 < unat d" using assms(2) by (simp add: unat_gt_0)
  ultimately have "unat v \<le> (2 ^ 64 - 1) div unat d" by (simp add: less_eq_div_iff_mult_less_eq)
  then have "\<not> (ucast v :: u64) > (- 1) div ucast d"
    by (simp only: word_less_nat_alt unat_div max unat_ucast_up [where 'a = 32] len_num1 len_bit0 len_bit1)
  moreover have "\<not> (ucast v * ucast d :: u64) > (- 1) div 4"
    using vd by (simp add: word_less_nat_alt unat_div max vd')
  ultimately show "\<not> ((ucast v :: u64) > (- 1) div ucast d \<or> (ucast v * ucast d :: u64) > (- 1) div 4)"
    by blast
qed

lemma hash_bytes_size: "unat (ucast (n :: u32) * 16 :: u64) = unat n * 16"
  using u32_bound [of n] by (simp add: unat_word_ariths unat_ucast_up)

lemma section_bytes_total:
  "unat (sec_off s) + unat (sec_size s) \<le> length base \<Longrightarrow>
   \<exists>bs. section_bytes base s = Inr bs \<and> length bs = unat (sec_size s)"
  by (simp add: section_bytes_def)

lemma slot_room: "p + 16 * n \<le> l \<Longrightarrow> i < n \<Longrightarrow> p + 16 * i + 16 \<le> (l :: nat)"
  by linarith

lemma word_room: "p + 4 * n \<le> l \<Longrightarrow> i < n \<Longrightarrow> p + 4 * i + 4 \<le> (l :: nat)"
  by linarith

lemma load_tables_safe:
  assumes secs: "length secs = 7" "\<And>s. s \<in> set secs \<Longrightarrow> unat (sec_off s) + unat (sec_size s) \<le> length base"
    and m: "meta_ok m"
  shows "load_tables base m secs \<noteq> Inl OutOfBounds"
proof -
  have d: "unat (mt_dim m) \<le> 2 ^ 20" "mt_dim m \<noteq> 0" using m by (simp_all add: meta_ok_def)
  note size = matrix_size [OF d, of "mt_vocab_size m"]
  have inb: "unat (sec_off (secs ! i)) + unat (sec_size (secs ! i)) \<le> length base" if "i < 7" for i
    using that secs by simp
  obtain strings where strings: "section_bytes base (secs ! 0) = Inr strings"
    using section_bytes_total [OF inb [of 0]] by auto
  obtain prov where prov: "section_bytes base (secs ! 4) = Inr prov"
    using section_bytes_total [OF inb [of 4]] by auto
  show ?thesis
  proof (cases "sec_size (secs ! 1) = ucast (mt_hash_table_size m) * 16 \<and>
      sec_size (secs ! 2) = ucast (mt_vocab_size m) * ucast (mt_dim m) * 4")
    case False
    then show ?thesis by (auto simp: load_tables_def Let_def)
  next
    case True
    have h: "unat (sec_off (secs ! 1)) + 16 * unat (mt_hash_table_size m) \<le> length base"
      using inb [of 1] True hash_bytes_size by (simp add: mult.commute)
    have e: "unat (sec_off (secs ! 2)) + 4 * (unat (mt_vocab_size m) * unat (mt_dim m)) \<le> length base"
      using inb [of 2] True size(1) by (simp add: ac_simps)
    have "\<exists>slots. mapR (\<lambda>i. read_slot base (unat (sec_off (secs ! 1)) + 16 * i))
        [0..<unat (mt_hash_table_size m)] = Inr slots \<and> length slots = unat (mt_hash_table_size m)"
      by (rule mapR_upt_total, rule read_slot_total, rule slot_room [OF h])
    then obtain slots where slots: "mapR (\<lambda>i. read_slot base (unat (sec_off (secs ! Suc 0)) + 16 * i))
        [0..<unat (mt_hash_table_size m)] = Inr slots" by auto
    have "\<exists>matrix. mapR (\<lambda>i. read_u32 base (unat (sec_off (secs ! 2)) + 4 * i))
        [0..<unat (mt_vocab_size m) * unat (mt_dim m)] = Inr matrix
        \<and> length matrix = unat (mt_vocab_size m) * unat (mt_dim m)"
      by (rule mapR_upt_total, rule read_u32_total, rule word_room [OF e])
    then obtain matrix where matrix: "mapR (\<lambda>i. read_u32 base (unat (sec_off (secs ! 2)) + 4 * i))
        [0..<unat (mt_vocab_size m) * unat (mt_dim m)] = Inr matrix" by blast
    show ?thesis
      unfolding load_tables_def Let_def by (simp add: strings prov slots matrix bindR_eq_Inl)
  qed
qed

lemma load_tables_Inr:
  assumes "load_tables base m secs = Inr model"
    and secs: "length secs = 7" "\<And>s. s \<in> set secs \<Longrightarrow> unat (sec_off s) + unat (sec_size s) \<le> length base"
  shows "md_meta model = m"
    and "length (md_vocab_hash model) = unat (mt_hash_table_size m)"
    and "length (md_vocab_strings model) = unat (sec_size (secs ! 0))"
    and "length (md_embeddings model) = unat (mt_vocab_size m) * unat (mt_dim m)"
proof -
  from assms(1) obtain strings slots matrix prov where
    strings: "section_bytes base (secs ! 0) = Inr strings"
    and slots: "mapR (\<lambda>i. read_slot base (unat (sec_off (secs ! 1)) + 16 * i))
      [0..<unat (mt_hash_table_size m)] = Inr slots"
    and matrix: "mapR (\<lambda>i. read_u32 base (unat (sec_off (secs ! 2)) + 4 * i))
      [0..<unat (mt_vocab_size m) * unat (mt_dim m)] = Inr matrix"
    and model: "model = \<lparr>md_meta = m, md_norm = empty_norm, md_vocab_strings = strings,
      md_vocab_hash = slots, md_root_trie = empty_trie, md_cont_trie = empty_trie,
      md_embeddings = matrix, md_provenance = prov\<rparr>"
    by (auto simp: load_tables_def Let_def bindR_eq_Inr split: if_splits)
  have "unat (sec_off (secs ! 0)) + unat (sec_size (secs ! 0)) \<le> length base" using secs by simp
  then have "length strings = unat (sec_size (secs ! 0))"
    using strings section_bytes_total [of "secs ! 0" base] by auto
  then show "md_meta model = m" "length (md_vocab_hash model) = unat (mt_hash_table_size m)"
    "length (md_vocab_strings model) = unat (sec_size (secs ! 0))"
    "length (md_embeddings model) = unat (mt_vocab_size m) * unat (mt_dim m)"
    using mapR_Inr_length [OF slots] mapR_Inr_length [OF matrix] model by simp_all
qed

lemma lookup_frame:
  "hash_table_ok (m\<lparr>md_root_trie := r, md_cont_trie := c, md_norm := n\<rparr>) = hash_table_ok m"
  "vocab_find (m\<lparr>md_root_trie := r, md_cont_trie := c, md_norm := n\<rparr>) = vocab_find m"
  by (simp_all add: hash_table_ok_def slot_ok_def [abs_def] vocab_find_def [abs_def] probe_slots_def
      slot_string_def Let_def)

lemma limit_loop_safe: "limit_loop msk max_probe i pos probes \<noteq> Inl OutOfBounds"
  by (induction msk max_probe i pos probes rule: limit_loop.induct) (subst limit_loop.simps, auto)

lemma limits_from_safe: "limits_from msk max_probe k slots \<noteq> Inl OutOfBounds"
  by (induction slots arbitrary: k) (auto simp: bindR_eq_Inl limit_loop_safe)

lemma validate_stages:
  assumes "read_header le base = Inr m" "read_sections base = Inr secs"
    and "load_tables base m secs = Inr model" "length base < 2 ^ 64"
  shows "mt_hash_table_size (md_meta model) \<noteq> 0"
    and "mt_hash_table_size (md_meta model) AND (mt_hash_table_size (md_meta model) - 1) = 0"
    and "length (md_vocab_hash model) = unat (mt_hash_table_size (md_meta model))"
    and "unat (sec_size (secs ! 0)) = length (md_vocab_strings model)"
  using read_header_Inr(1) [OF assms(1,4)] load_tables_Inr [OF assms(3) read_sections_Inr(1,2) [OF assms(2,4)]]
  by (simp_all add: meta_ok_def)

lemma validate_safe_lemma:
  assumes len: "length base < 2 ^ 64"
  shows "validate le calloc_ok base \<noteq> Inl OutOfBounds"
proof
  assume bad: "validate le calloc_ok base = Inl OutOfBounds"
  from bad read_header_safe [OF len] obtain m where m: "read_header le base = Inr m"
    by (auto simp: validate_def bindR_eq_Inl)
  note hdr = read_header_Inr [OF m len]
  from bad m read_sections_safe [OF hdr(2)] obtain secs where secs: "read_sections base = Inr secs"
    by (auto simp: validate_def bindR_eq_Inl)
  note s = read_sections_Inr [OF secs len]
  from bad m secs load_tables_safe [OF s(1,2) hdr(1)] obtain model where model: "load_tables base m secs = Inr model"
    by (auto simp: validate_def bindR_eq_Inl)
  note stage = validate_stages [OF m secs model len]
  have inb: "unat (sec_off (secs ! i)) + unat (sec_size (secs ! i)) \<le> length base" if "i < 7" for i
    using that s(1,2) by simp
  have "validate_hash_probe_limits model \<noteq> Inl OutOfBounds"
    by (simp add: validate_hash_probe_limits_def Let_def limits_from_safe)
  with bad m secs model validate_vocab_hash_safe [OF stage]
    parse_trie_safe [OF inb [of 5]] parse_trie_safe [OF inb [of 6]]
    parse_norm_tables_safe [OF inb [of 3]]
  show False by (auto simp: validate_def bindR_eq_Inl)
qed

lemma validate_Inr:
  assumes val: "validate le calloc_ok base = Inr model" and len: "length base < 2 ^ 64"
  shows "model_ok model"
    and "distinct (used_ids (md_vocab_hash model))"
    and "set (used_ids (md_vocab_hash model)) = {..<unat (mt_vocab_size (md_meta model))}"
    and "vocab_find model unk_text = Some (mt_unk_id (md_meta model))"
    and "\<exists>secs. read_sections base = Inr secs"
    and "validate_hash_probe_limits model = Inr ()"
proof -
  from val obtain m secs model0 root cont norm where
    m: "read_header le base = Inr m" and secs: "read_sections base = Inr secs"
    and load: "load_tables base m secs = Inr model0"
    and hash: "validate_vocab_hash calloc_ok model0 (sec_size (secs ! 0)) = Inr ()"
    and probe: "validate_hash_probe_limits model0 = Inr ()"
    and root: "parse_trie base (secs ! 5) (mt_vocab_size m) = Inr root"
    and cont: "parse_trie base (secs ! 6) (mt_vocab_size m) = Inr cont"
    and norm: "parse_norm_tables base (secs ! 3) = Inr norm"
    and model: "model = model0\<lparr>md_root_trie := root, md_cont_trie := cont, md_norm := norm\<rparr>"
    by (auto simp: validate_def bindR_eq_Inr)
  note stage = validate_stages [OF m secs load len]
  note v = validate_vocab_hash_Inr [OF hash stage]
  note l = load_tables_Inr [OF load read_sections_Inr(1,2) [OF secs len]]
  have unk: "vocab_find model0 unk_text = Some (mt_unk_id (md_meta model0))"
    using v(4) vocab_lookup_eq [OF v(1), of unk_text] by (simp add: unk_text_def)
  show "model_ok model"
    using v(1,2) unk l parse_trie_ok [OF root] parse_trie_ok [OF cont] parse_norm_tables_ok [OF norm]
      read_header_Inr(1) [OF m len]
    by (simp add: model_ok_def model lookup_frame)
  show "distinct (used_ids (md_vocab_hash model))"
    "set (used_ids (md_vocab_hash model)) = {..<unat (mt_vocab_size (md_meta model))}"
    "vocab_find model unk_text = Some (mt_unk_id (md_meta model))"
    "validate_hash_probe_limits model = Inr ()"
    using v(2,3) unk probe
    by (simp_all add: model lookup_frame validate_hash_probe_limits_def Let_def cong: if_cong)
  show "\<exists>secs. read_sections base = Inr secs" using secs by blast
qed

end
