(* ===== verification/Example.thy ===== *)
theory Example
  imports Format
begin

text \<open>
  A complete model file of 824 bytes, for the witnesses of the properties: two
  dimensions, the vocabulary \<^verbatim>\<open>[PAD]\<close>, \<^verbatim>\<open>[UNK]\<close>, \<^verbatim>\<open>a\<close>, \<^verbatim>\<open>##b\<close>, a hash table of eight slots, tries with one
  word each and one entry in every normalization table.  The file is given by its
  little-endian words, and \<open>validate\<close> accepts it.
\<close>

subsection \<open>Files as words\<close>

definition le_bytes :: "u32 \<Rightarrow> u8 list" where
  "le_bytes w = [ucast w, ucast (drop_bit 8 w), ucast (drop_bit 16 w), ucast (drop_bit 24 w)]"

definition le_file :: "u32 list \<Rightarrow> u8 list" where
  "le_file ws = concat (map le_bytes ws)"

lemma join_le_bytes:
  "join_u32 (ucast w) (ucast (drop_bit 8 w)) (ucast (drop_bit 16 w)) (ucast (drop_bit 24 w)) = w"
proof (rule bit_word_eqI)
  fix n assume "n < LENGTH(32)"
  then consider "n < 8" | "8 \<le> n" "n < 16" | "16 \<le> n" "n < 24" | "24 \<le> n" "n < 32" by fastforce
  then show "bit (join_u32 (ucast w) (ucast (drop_bit 8 w)) (ucast (drop_bit 16 w))
      (ucast (drop_bit 24 w))) n = bit w n"
    by cases (auto simp: join_u32_def bit_simps)
qed

lemma le_bytes_length [simp]: "length (le_bytes w) = 4"
  by (simp add: le_bytes_def)

lemma le_file_length: "length (le_file ws) = 4 * length ws"
  by (induction ws) (simp_all add: le_file_def)

lemma le_file_drop: "drop (4 * k) (le_file ws) = le_file (drop k ws)"
proof (induction ws arbitrary: k)
  case (Cons w ws)
  then show ?case by (cases k) (simp_all add: le_file_def)
qed (simp add: le_file_def)

lemma read_u32_drop: "read_u32 (drop n base) 0 = read_u32 base n" if "n + 4 \<le> length base"
  using that by (simp add: read_u32_Inr)

lemma le_file_read:
  assumes "k < length ws"
  shows "read_u32 (le_file ws) (4 * k) = Inr (ws ! k)"
proof -
  obtain w rest where d: "drop k ws = w # rest" "w = ws ! k"
    using assms by (metis Cons_nth_drop_Suc)
  have "read_u32 (le_file (drop k ws)) 0 = Inr w"
    unfolding d(1) by (simp add: le_file_def le_bytes_def read_u32_Inr join_le_bytes)
  moreover have "4 * k + 4 \<le> length (le_file ws)" using assms by (simp add: le_file_length)
  ultimately show ?thesis
    using read_u32_drop [of "4 * k" "le_file ws"] by (simp add: le_file_drop d(2))
qed

lemma le_file_read_at:
  assumes "n mod 4 = 0" "n div 4 < length ws"
  shows "read_u32 (le_file ws) n = Inr (ws ! (n div 4))"
proof -
  have "n = 4 * (n div 4)" using assms(1) by auto
  then show ?thesis using le_file_read [OF assms(2)] by simp
qed

lemma le_file_drop_at: "n mod 4 = 0 \<Longrightarrow> drop n (le_file ws) = le_file (drop (n div 4) ws)"
  using le_file_drop [of "n div 4" ws] by auto

lemma le_file_take: "take (4 * k + r) (le_file ws) =
    le_file (take k ws) @ take r (le_file (drop k ws))"
proof (induction ws arbitrary: k)
  case (Cons w ws)
  then show ?case by (cases k) (simp_all add: le_file_def)
qed (simp add: le_file_def)

subsection \<open>The file\<close>

definition example_words :: "u32 list" where
  "example_words = [
     0x424d4553, 0x3176, 3, 0x140, 0, 2, 4, 1, 1, 1,
     1, 8, 2, 0, 1, 0, 1, 1, 1, 1,
     100, 0, 1, 0xffffffff, 0xffffffff, 0xffffffff, 8, 0x811c9dc5, 2, 0x2323,
     0, 0, 0x140, 0, 14, 0, 0x180, 0, 128, 0,
     0x200, 0, 32, 0, 0x240, 0, 112, 0, 0, 0,
     0, 0, 0x2c0, 0, 56, 0, 0x300, 0, 56, 0,
     0, 0, 0, 0, 0, 0, 0, 0, 0, 0,
     0, 0, 0, 0, 0, 0, 1, 3, 0, 0,
     0x4441505b, 0x4e555b5d, 0x23615d4b, 0x6223, 0, 0, 0, 0, 0, 0,
     0, 0, 0, 0, 0, 0, 0, 0, 0, 0xffffffff,
     0x77f4bf61, 5, 5, 1, 0xe728742, 0, 5, 0, 0x1ebb1653, 11,
     3, 3, 0xe40c292c, 10, 1, 2, 0, 0, 0, 0xffffffff,
     0, 0, 0, 0xffffffff, 0, 0, 0, 0xffffffff, 0, 0,
     0, 0, 0x40400000, 0x40800000, 0x3f800000, 0, 0, 0, 0, 0,
     0, 0, 0, 0, 1, 1, 1, 1, 1, 1,
     0, 0, 0x391, 1, 0x3b1, 0, 0, 0, 233, 2,
     101, 0x301, 0, 0, 0x300, 0x36f, 0x2010, 0x2027, 128, 159,
     160, 160, 0, 0, 0, 0, 2, 1, 0, 0,
     0, 1, 0xffffffff, 0, 1, 0, 2, 0, 97, 1,
     0, 0, 2, 1, 0, 0, 0, 1, 0xffffffff, 0,
     1, 0, 3, 0, 98, 1]"

definition example_file :: "u8 list" where
  "example_file = le_file example_words"

lemma example_words_length: "length example_words = 206"
  by (simp add: example_words_def)

lemmas example_read = le_file_read_at [of _ example_words, folded example_file_def,
  unfolded example_words_length]

lemma example_length: "length example_file = 824"
  by (simp add: example_file_def le_file_length example_words_length)

definition example_meta :: se_meta where
  "example_meta = \<lparr>mt_dim = 2, mt_vocab_size = 4, mt_tokenizer_type = 1, mt_embedding_dtype = 1,
     mt_pooling_type = 1, mt_normalization_type = 1, mt_max_tokens_default = 8,
     mt_truncation_policy = 2, mt_add_special_tokens = 0, mt_unk_policy = 1, mt_empty_policy = 0,
     mt_do_lower_case = 1, mt_strip_accents = 1, mt_handle_chinese_chars = 1, mt_clean_text = 1,
     mt_max_input_chars_per_word = 100, mt_max_token_chars = 100, mt_max_probe = 1,
     mt_added_token_mask = 3, mt_pad_id = 0, mt_unk_id = 1, mt_cls_id = 0xFFFFFFFF,
     mt_sep_id = 0xFFFFFFFF, mt_mask_id = 0xFFFFFFFF, mt_hash_table_size = 8,
     mt_hash_seed = 0x811C9DC5, mt_subword_prefix_len = 2,
     mt_subword_prefix = [35, 35, 0, 0, 0, 0, 0, 0]\<rparr>"

definition example_secs :: "sect list" where
  "example_secs =
     [\<lparr>sec_off = 320, sec_size = 14, sec_name = ''vocab_strings''\<rparr>,
      \<lparr>sec_off = 384, sec_size = 128, sec_name = ''vocab_hash''\<rparr>,
      \<lparr>sec_off = 512, sec_size = 32, sec_name = ''embeddings''\<rparr>,
      \<lparr>sec_off = 576, sec_size = 112, sec_name = ''norm_tables''\<rparr>,
      \<lparr>sec_off = 0, sec_size = 0, sec_name = ''provenance''\<rparr>,
      \<lparr>sec_off = 704, sec_size = 56, sec_name = ''root_trie''\<rparr>,
      \<lparr>sec_off = 768, sec_size = 56, sec_name = ''continuation_trie''\<rparr>]"

definition example_slots :: "se_vocab_slot list" where
  "example_slots =
     (let none = \<lparr>sl_hash = 0, sl_str_off = 0, sl_str_len = 0, sl_token_id = 0xFFFFFFFF\<rparr> in
      [none,
       \<lparr>sl_hash = 0x77F4BF61, sl_str_off = 5, sl_str_len = 5, sl_token_id = 1\<rparr>,
       \<lparr>sl_hash = 0x0E728742, sl_str_off = 0, sl_str_len = 5, sl_token_id = 0\<rparr>,
       \<lparr>sl_hash = 0x1EBB1653, sl_str_off = 11, sl_str_len = 3, sl_token_id = 3\<rparr>,
       \<lparr>sl_hash = 0xE40C292C, sl_str_off = 10, sl_str_len = 1, sl_token_id = 2\<rparr>,
       none, none, none])"

definition example_trie :: "u32 \<Rightarrow> u32 \<Rightarrow> se_trie" where
  "example_trie byte tok =
     \<lparr>tr_nodes =
        [\<lparr>tn_edge_start = 0, tn_edge_count = 1, tn_token_id = 0xFFFFFFFF, tn_reserved = 0\<rparr>,
         \<lparr>tn_edge_start = 1, tn_edge_count = 0, tn_token_id = tok, tn_reserved = 0\<rparr>],
      tr_edges = [\<lparr>te_byte = byte, te_child = 1\<rparr>], tr_node_count = 2, tr_edge_count = 1\<rparr>"

definition example_norm :: se_norm_tables where
  "example_norm = norm_fast_tables (empty_norm\<lparr>
     nt_lower := [\<lparr>me_cp = 0x391, me_len = 1, me_out = [0x3B1, 0, 0, 0]\<rparr>],
     nt_nfd := [\<lparr>me_cp = 0xE9, me_len = 2, me_out = [0x65, 0x301, 0, 0]\<rparr>],
     nt_mn := [\<lparr>rg_lo = 0x300, rg_hi = 0x36F\<rparr>],
     nt_punct := [\<lparr>rg_lo = 0x2010, rg_hi = 0x2027\<rparr>],
     nt_control := [\<lparr>rg_lo = 0x80, rg_hi = 0x9F\<rparr>],
     nt_whitespace := [\<lparr>rg_lo = 0xA0, rg_hi = 0xA0\<rparr>]\<rparr>)"

definition example_strings :: "u8 list" where
  "example_strings = [0x5B, 0x50, 0x41, 0x44, 0x5D, 0x5B, 0x55, 0x4E, 0x4B, 0x5D, 0x61, 0x23, 0x23, 0x62]"

definition example_base :: se_model where
  "example_base = \<lparr>md_meta = example_meta, md_norm = empty_norm,
     md_vocab_strings = example_strings, md_vocab_hash = example_slots,
     md_root_trie = empty_trie, md_cont_trie = empty_trie,
     md_embeddings = [0, 0, 0, 0, 0x40400000, 0x40800000, 0x3F800000, 0], md_provenance = []\<rparr>"

definition example_model :: se_model where
  "example_model = example_base\<lparr>md_root_trie := example_trie 0x61 2,
     md_cont_trie := example_trie 0x62 3, md_norm := example_norm\<rparr>"

subsection \<open>Its validation\<close>

lemma example_magic: "take 8 example_file = SE_MAGIC"
  using le_file_take [of 2 0 example_words]
  by (simp add: example_file_def le_file_def example_words_def le_bytes_def)

lemma example_prefix: "take 8 (drop 116 example_file) = [35, 35, 0, 0, 0, 0, 0, 0]"
proof -
  have "take 8 (drop 116 example_file) = take 8 (le_file (drop 29 example_words))"
    by (simp add: example_file_def le_file_drop_at)
  also have "\<dots> = [35, 35, 0, 0, 0, 0, 0, 0]"
    using le_file_take [of 2 0 "drop 29 example_words"]
    by (simp add: le_file_def example_words_def le_bytes_def)
  finally show ?thesis .
qed

lemma example_header: "read_header True example_file = Inr example_meta"
  by (simp add: read_header_def example_length example_magic read_meta_def meta_offsets_def read_at_def
      example_read example_words_def example_prefix check_meta_def adjust_meta_def example_meta_def
      Let_def word_le_nat_alt)

lemma example_sections: "read_sections example_file = Inr example_secs"
  by (simp add: read_sections_def section_entries_def read_section_def read_u64_def example_read
      example_words_def join_u64_def section_elem_sizes_def section_ok_def section_present_def
      sections_overlap_def section_end_def example_length example_secs_def)

lemma example_load: "load_tables example_file example_meta example_secs = Inr example_base"
proof -
  have "take 14 (drop 320 example_file) = take 14 (le_file (drop 80 example_words))"
    by (simp add: example_file_def le_file_drop_at)
  also have "\<dots> = example_strings"
    using le_file_take [of 3 2 "drop 80 example_words"]
    by (simp add: le_file_def example_words_def le_bytes_def example_strings_def)
  finally have strings: "take 14 (drop 320 example_file) = example_strings" .
  have "\<not> ((ucast (4 :: u32) :: u64) > (- 1) div ucast (2 :: u32) \<or>
      (ucast (4 :: u32) * ucast (2 :: u32) :: u64) > (- 1) div 4)"
    by (rule matrix_size(2)) simp_all
  then show ?thesis
    by (simp add: load_tables_def Let_def example_secs_def example_meta_def section_bytes_def
        example_length strings upt_rec read_slot_def example_read example_words_def example_slots_def
        example_base_def)
qed


lemma example_hash_ok: "hash_table_ok example_base"
  by (simp add: hash_table_ok_def Let_def example_base_def example_meta_def example_slots_def
      slot_ok_def slot_used_def example_strings_def word_less_nat_alt)

lemma example_unk: "se_vocab_lookup example_base unk_text = Inr (Some 1)"
  by (subst vocab_lookup_eq [OF example_hash_ok]) (simp_all add: unk_text_def vocab_find_def se_hash_bytes_def
      probe_slots_def example_base_def example_meta_def example_slots_def slot_used_def slot_string_def
      example_strings_def Let_def)

lemma example_pad: "se_vocab_lookup example_base [0x5B, 0x50, 0x41, 0x44, 0x5D] = Inr (Some 0)"
  by (subst vocab_lookup_eq [OF example_hash_ok]) (simp_all add: vocab_find_def se_hash_bytes_def
      probe_slots_def example_base_def example_meta_def example_slots_def slot_used_def slot_string_def
      example_strings_def Let_def)

lemma example_fill: "fill_loop 4 14 example_slots [0] 0 = Inr 4"
  by (simp add: example_slots_def Let_def rdR_def word_le_nat_alt word_less_nat_alt)

lemma example_vocab: "validate_vocab_hash True example_base 14 = Inr ()"
proof -
  have meta: "md_meta example_base = example_meta" "md_vocab_hash example_base = example_slots"
    by (simp_all add: example_base_def)
  have bytes: "se_alloc_bytes 1 1 = Some 1"
    by (simp add: se_alloc_bytes_def se_alloc_count_def checked_mul_size_eq)
  show ?thesis
    using example_unk example_pad
    by (simp add: validate_vocab_hash_def Let_def meta example_meta_def bytes example_fill
        added_texts_def word_le_nat_alt unk_text_def)
qed

lemma example_limits: "validate_hash_probe_limits example_base = Inr ()"
  by (simp add: validate_hash_probe_limits_def Let_def example_base_def example_meta_def
      example_slots_def limit_loop.simps)

lemma example_tries:
  "parse_trie example_file (example_secs ! 5) 4 = Inr (example_trie 0x61 2)"
  "parse_trie example_file (example_secs ! 6) 4 = Inr (example_trie 0x62 3)"
  by (simp_all add: parse_trie_def Let_def example_secs_def read_trie_node_def read_trie_edge_def
      upt_rec example_read example_words_def example_trie_def rdR_def word_le_nat_alt)

lemma example_norm: "parse_norm_tables example_file (example_secs ! 3) = Inr example_norm"
  by (simp add: parse_norm_tables_def load_norm_def Let_def example_secs_def norm_need_def
      read_maps_def read_ranges_def read_map_entry_def read_range_def upt_rec example_read
      example_words_def example_norm_def validate_norm_map_def validate_norm_ranges_def
      valid_unicode_codepoint_def word_le_nat_alt)

lemma example_validate: "validate True True example_file = Inr example_model"
proof -
  have "mt_vocab_size example_meta = 4" "sec_size (example_secs ! 0) = 14"
    by (simp_all add: example_meta_def example_secs_def)
  then show ?thesis
    by (simp only: validate_def example_header example_sections example_load example_vocab
        example_limits example_tries example_norm bindR_Inr example_model_def)
qed

lemma example_model_ok: "model_ok example_model"
  by (rule validate_Inr(1) [OF example_validate]) (simp add: example_length)

end
