(* ===== verification/Scratch.thy ===== *)
theory Scratch
  imports SizeArith
begin

text \<open>
  The scratch buffers of \<^verbatim>\<open>se_tokenizer.c\<close>: growth, reservation and trimming, and the
  per-thread slot that hands them out.  A scratch is the record of its capacities; the contents
  that matter live in the token state (theory \<open>Wordpiece\<close>).  A buffer pointer is null exactly
  when its capacity is 0.

  The allocator is a parameter: \<open>env_alloc env k bytes\<close> says whether the \<open>k\<close>-th call of
  \<^verbatim>\<open>malloc\<close> or \<^verbatim>\<open>realloc\<close> succeeds, asked for that many bytes, so that a statement for all \<open>env\<close>
  covers every pattern of allocation failure.  \<open>env_cancelled env k\<close> is the value the \<open>k\<close>-th
  read of the cancel flag sees, and \<open>env_setspecific env k\<close> whether storing the thread's slot
  succeeds after \<open>k\<close> allocator calls.
\<close>

record se_env =
  env_alloc :: "nat \<Rightarrow> size_t \<Rightarrow> bool"
  env_cancelled :: "nat \<Rightarrow> bool"
  env_setspecific :: "nat \<Rightarrow> bool"

record se_scratch =
  sc_cps_cap :: size_t
  sc_cps2_cap :: size_t
  sc_bytes_cap :: size_t
  sc_ids_cap :: size_t
  sc_acc_cap :: size_t

definition se_scratch_init :: se_scratch where
  "se_scratch_init =
     \<lparr>sc_cps_cap = 0, sc_cps2_cap = 0, sc_bytes_cap = 0, sc_ids_cap = 0, sc_acc_cap = 0\<rparr>"

subsection \<open>Growing and shrinking a buffer\<close>

text \<open>
  The results are the number of allocator calls made so far and the new capacity, \<open>None\<close> for
  the null pointer.
\<close>

definition grow_buffer ::
  "se_env \<Rightarrow> nat \<Rightarrow> size_t \<Rightarrow> size_t \<Rightarrow> size_t \<Rightarrow> size_t \<Rightarrow> nat \<times> size_t option" where
  "grow_buffer env calls cap need elem_size min_capacity =
     (if cap \<ge> need then (calls, if cap = 0 then None else Some cap)
      else case se_next_capacity cap need min_capacity of
        None \<Rightarrow> (calls, None)
      | Some next \<Rightarrow>
          (case se_array_bytes next elem_size of
             None \<Rightarrow> (calls, None)
           | Some bytes \<Rightarrow>
               if env_alloc env calls bytes then (calls + 1, Some next) else (calls + 1, None)))"

definition grow_u32 :: "se_env \<Rightarrow> nat \<Rightarrow> size_t \<Rightarrow> size_t \<Rightarrow> nat \<times> size_t option" where
  "grow_u32 env calls cap need = grow_buffer env calls cap need 4 256"

definition grow_bytes :: "se_env \<Rightarrow> nat \<Rightarrow> size_t \<Rightarrow> size_t \<Rightarrow> nat \<times> size_t option" where
  "grow_bytes env calls cap need = grow_buffer env calls cap need 1 256"

definition grow_float :: "se_env \<Rightarrow> nat \<Rightarrow> size_t \<Rightarrow> size_t \<Rightarrow> nat \<times> size_t option" where
  "grow_float env calls cap need = grow_buffer env calls cap need 4 need"

text \<open>The result says whether the call succeeded, and carries the capacity in either case.\<close>

definition shrink_buffer ::
  "se_env \<Rightarrow> nat \<Rightarrow> size_t \<Rightarrow> size_t \<Rightarrow> size_t \<Rightarrow> nat \<times> size_t \<times> bool" where
  "shrink_buffer env calls cap keep elem_size =
     (if cap \<le> keep then (calls, cap, True)
      else if cap = 0 then (calls, 0, True)
      else case se_array_bytes keep elem_size of
        None \<Rightarrow> (calls, cap, False)
      | Some bytes \<Rightarrow>
          if env_alloc env calls bytes then (calls + 1, keep, True) else (calls + 1, cap, False))"

definition shrink_u32 :: "se_env \<Rightarrow> nat \<Rightarrow> size_t \<Rightarrow> size_t \<Rightarrow> nat \<times> size_t \<times> bool" where
  "shrink_u32 env calls cap keep = shrink_buffer env calls cap keep 4"

definition shrink_bytes :: "se_env \<Rightarrow> nat \<Rightarrow> size_t \<Rightarrow> size_t \<Rightarrow> nat \<times> size_t \<times> bool" where
  "shrink_bytes env calls cap keep = shrink_buffer env calls cap keep 1"

subsection \<open>Reserving and trimming a scratch\<close>

definition se_scratch_reserve ::
  "se_env \<Rightarrow> nat \<Rightarrow> se_scratch \<Rightarrow> u32 \<Rightarrow> nat \<times> se_scratch \<times> bool" where
  "se_scratch_reserve env calls s dim =
     (case grow_u32 env calls (sc_cps_cap s) 256 of
        (calls, None) \<Rightarrow> (calls, s, False)
      | (calls, Some c) \<Rightarrow> let s = s\<lparr>sc_cps_cap := c\<rparr> in
     (case grow_u32 env calls (sc_cps2_cap s) 256 of
        (calls, None) \<Rightarrow> (calls, s, False)
      | (calls, Some c) \<Rightarrow> let s = s\<lparr>sc_cps2_cap := c\<rparr> in
     (case grow_u32 env calls (sc_ids_cap s) 512 of
        (calls, None) \<Rightarrow> (calls, s, False)
      | (calls, Some c) \<Rightarrow> let s = s\<lparr>sc_ids_cap := c\<rparr> in
     (case grow_bytes env calls (sc_bytes_cap s) 1024 of
        (calls, None) \<Rightarrow> (calls, s, False)
      | (calls, Some c) \<Rightarrow> let s = s\<lparr>sc_bytes_cap := c\<rparr> in
     (case grow_float env calls (sc_acc_cap s) (ucast dim) of
        (calls, None) \<Rightarrow> (calls, s, False)
      | (calls, Some c) \<Rightarrow> (calls, s\<lparr>sc_acc_cap := c\<rparr>, True))))))"

definition se_scratch_trim :: "se_env \<Rightarrow> nat \<Rightarrow> se_scratch \<Rightarrow> nat \<times> se_scratch" where
  "se_scratch_trim env calls s =
     (let (calls, c, _) = shrink_u32 env calls (sc_cps_cap s) 256; s = s\<lparr>sc_cps_cap := c\<rparr>;
          (calls, c, _) = shrink_u32 env calls (sc_cps2_cap s) 256; s = s\<lparr>sc_cps2_cap := c\<rparr>;
          (calls, c, _) = (if sc_ids_cap s > 8192 then shrink_u32 env calls (sc_ids_cap s) 8192
                           else (calls, sc_ids_cap s, True)); s = s\<lparr>sc_ids_cap := c\<rparr>;
          (calls, c, _) = shrink_bytes env calls (sc_bytes_cap s) 1024
      in (calls, s\<lparr>sc_bytes_cap := c\<rparr>))"

subsection \<open>Facts about capacities\<close>

lemma grow_buffer_ge:
  assumes "grow_buffer env calls cap need elem mn = (calls', Some c)"
  shows "need \<le> c" and "c \<noteq> 0"
  using assms next_capacity_ge [of cap need mn c]
  by (auto simp: grow_buffer_def split: if_splits option.splits)

lemma grow_buffer_mono:
  assumes "grow_buffer env calls cap need elem mn = (calls', Some c)"
  shows "cap \<le> c"
proof (cases "cap \<ge> need")
  case True
  then show ?thesis using assms by (auto simp: grow_buffer_def split: if_splits)
next
  case False
  then show ?thesis using grow_buffer_ge(1) [OF assms] by (meson le_less_trans less_imp_le not_le)
qed

lemma grow_u32_ge: "grow_u32 env calls cap need = (calls', Some c) \<Longrightarrow> need \<le> c"
  and grow_bytes_ge: "grow_bytes env calls cap need = (calls', Some c) \<Longrightarrow> need \<le> c"
  and grow_float_ge: "grow_float env calls cap need = (calls', Some c) \<Longrightarrow> need \<le> c"
  by (auto simp: grow_u32_def grow_bytes_def grow_float_def dest: grow_buffer_ge)

lemma grow_u32_mono: "grow_u32 env calls cap need = (calls', Some c) \<Longrightarrow> cap \<le> c"
  and grow_bytes_mono: "grow_bytes env calls cap need = (calls', Some c) \<Longrightarrow> cap \<le> c"
  and grow_float_mono: "grow_float env calls cap need = (calls', Some c) \<Longrightarrow> cap \<le> c"
  by (auto simp: grow_u32_def grow_bytes_def grow_float_def dest: grow_buffer_mono)

lemma shrink_buffer_bounds:
  assumes "shrink_buffer env calls cap keep elem = (calls', c, ok)"
  shows "c \<le> cap" and "ok \<longrightarrow> c \<le> keep" and "\<not> ok \<longrightarrow> c = cap"
    and "keep \<le> cap \<longrightarrow> keep \<le> c"
  using assms by (auto simp: shrink_buffer_def split: if_splits option.splits)

text \<open>
  When the allocator never fails, a buffer grows to any positive number of elements that is far from
  the limit of \<^verbatim>\<open>size_t\<close>.  An operation that ran out of memory either met a failing allocation or
  worked on at least \<open>2 ^ 30\<close> elements.
\<close>

definition alloc_ok :: "se_env \<Rightarrow> bool" where
  "alloc_ok env = (\<forall>k bytes. env_alloc env k bytes)"

definition may_fail :: "se_env \<Rightarrow> nat \<Rightarrow> bool" where
  "may_fail env n = (alloc_ok env \<longrightarrow> 2 ^ 30 \<le> n)"

lemma may_fail_mono: "may_fail env a \<Longrightarrow> a \<le> b \<Longrightarrow> may_fail env b"
  by (auto simp: may_fail_def)

lemma may_fail_add: "may_fail env a \<Longrightarrow> may_fail env (a + b)" "may_fail env b \<Longrightarrow> may_fail env (a + b)"
  by (auto intro: may_fail_mono)

lemma next_capacity_small:
  assumes "cap < need" "unat need \<le> 2 ^ 60" "unat mn \<le> 2 ^ 60"
  shows "\<exists>c. se_next_capacity cap need mn = Some c \<and> unat c \<le> 2 ^ 61"
proof -
  define start where "start = (let n = (if cap \<noteq> 0 then cap else mn) in if n = 0 then 1 else n)"
  have nz: "start \<noteq> 0" and eq: "se_next_capacity cap need mn = capacity_loop start need"
    by (simp_all add: start_def se_next_capacity_def Let_def)
  have "unat start \<le> 2 ^ 60"
    using assms by (auto simp: start_def Let_def word_less_nat_alt)
  then show ?thesis
    using capacity_loop_None [OF nz] capacity_loop_result [OF nz, of need] assms(2) eq
    by (cases "capacity_loop start need") fastforce+
qed

lemma grow_buffer_ok:
  assumes "alloc_ok env" "need \<noteq> 0" "unat need \<le> 2 ^ 60" "unat mn \<le> 2 ^ 60" "unat elem \<le> 4" "elem \<noteq> 0"
  shows "\<exists>calls' c. grow_buffer env calls cap need elem mn = (calls', Some c)"
proof (cases "cap \<ge> need")
  case True
  then show ?thesis using assms(2) by (auto simp: grow_buffer_def)
next
  case False
  then obtain c where c: "se_next_capacity cap need mn = Some c" "unat c \<le> 2 ^ 61"
    using next_capacity_small [of cap need mn] assms by (auto simp: not_le)
  have "unat c * unat elem \<le> 2 ^ 61 * 4" using c(2) assms(5) by (intro mult_le_mono)
  then have "unat c * unat elem < 2 ^ 64" by simp
  then obtain b where "se_array_bytes c elem = Some b" using assms(6)
    by (auto simp: se_array_bytes_def checked_mul_size_eq)
  then show ?thesis using False c(1) assms(1) by (auto simp: grow_buffer_def alloc_ok_def)
qed

lemma grow_u32_ok: "alloc_ok env \<Longrightarrow> need \<noteq> 0 \<Longrightarrow> unat need \<le> 2 ^ 60 \<Longrightarrow>
    \<exists>calls' c. grow_u32 env calls cap need = (calls', Some c)"
  and grow_bytes_ok: "alloc_ok env \<Longrightarrow> need \<noteq> 0 \<Longrightarrow> unat need \<le> 2 ^ 60 \<Longrightarrow>
    \<exists>calls' c. grow_bytes env calls cap need = (calls', Some c)"
  unfolding grow_u32_def grow_bytes_def by (rule grow_buffer_ok; simp)+

text \<open>The capacities a reserved scratch has at least.\<close>

definition scratch_reserved :: "u32 \<Rightarrow> se_scratch \<Rightarrow> bool" where
  "scratch_reserved dim s =
     (256 \<le> sc_cps_cap s \<and> 256 \<le> sc_cps2_cap s \<and> 512 \<le> sc_ids_cap s \<and> 1024 \<le> sc_bytes_cap s \<and>
      ucast dim \<le> sc_acc_cap s)"

lemma scratch_reserve_ok:
  assumes "se_scratch_reserve env calls s dim = (calls', s', True)"
  shows "scratch_reserved dim s'"
  using assms
  by (auto simp: se_scratch_reserve_def Let_def scratch_reserved_def
      dest: grow_u32_ge grow_bytes_ge grow_float_ge split: prod.splits option.splits)

lemma scratch_trim_bounds:
  assumes "se_scratch_trim env calls s = (calls', s')"
  shows "sc_cps_cap s' \<le> sc_cps_cap s" "sc_cps2_cap s' \<le> sc_cps2_cap s"
    "sc_ids_cap s' \<le> sc_ids_cap s" "sc_bytes_cap s' \<le> sc_bytes_cap s" "sc_acc_cap s' = sc_acc_cap s"
  using assms
  by (auto simp: se_scratch_trim_def Let_def shrink_u32_def shrink_bytes_def
      dest: shrink_buffer_bounds(1) split: prod.splits if_splits)

lemma shrink_ids_keep:
  assumes "shrink_buffer env calls cap 8192 elem = (calls', c, ok)" "8192 < cap"
  shows "512 \<le> c"
proof -
  have "8192 \<le> c" using shrink_buffer_bounds(4) [OF assms(1)] assms(2) by simp
  moreover have "(512 :: size_t) \<le> 8192" by (simp add: word_le_nat_alt)
  ultimately show ?thesis by (rule order_trans [rotated])
qed

lemma scratch_trim_keeps_reserved:
  assumes "se_scratch_trim env calls s = (calls', s')" "scratch_reserved dim s"
  shows "scratch_reserved dim s'"
  using assms
  by (auto simp: se_scratch_trim_def Let_def shrink_u32_def shrink_bytes_def scratch_reserved_def
      dest: shrink_ids_keep shrink_buffer_bounds(4) split: prod.splits if_splits)

subsection \<open>The slot of a thread\<close>

text \<open>
  The thread-specific slot holds one scratch with a flag that says whether it is handed out; while
  it is, further scratches come from the heap.  A heap scratch is known by its address, and
  \<open>th_heap\<close> holds those that are allocated.  Releasing a pointer that is not allocated is undefined
  behaviour in C and \<open>OutOfBounds\<close> here.
\<close>

record thread_state =
  th_tls :: "(se_scratch \<times> bool) option"
  th_heap :: "nat \<Rightarrow> se_scratch option"
  th_next :: nat
  th_calls :: nat

datatype scratch_ptr = TlsScratch | HeapScratch nat

definition thread_start :: thread_state where
  "thread_start = \<lparr>th_tls = None, th_heap = (\<lambda>_. None), th_next = 0, th_calls = 0\<rparr>"

definition se_scratch_tls_slot :: "se_env \<Rightarrow> thread_state \<Rightarrow> thread_state \<times> bool" where
  "se_scratch_tls_slot env th =
     (case th_tls th of
        Some _ \<Rightarrow> (th, True)
      | None \<Rightarrow>
          let calls = th_calls th; th = th\<lparr>th_calls := calls + 1\<rparr> in
          if \<not> env_alloc env calls 88 then (th, False)
          else if \<not> env_setspecific env calls then (th, False)
          else (th\<lparr>th_tls := Some (se_scratch_init, False)\<rparr>, True))"

definition se_scratch_acquire ::
  "se_env \<Rightarrow> thread_state \<Rightarrow> u32 \<Rightarrow> thread_state \<times> scratch_ptr option" where
  "se_scratch_acquire env th dim =
     (case se_scratch_tls_slot env th of
        (th, False) \<Rightarrow> (th, None)
      | (th, True) \<Rightarrow>
          (case th_tls th of
             None \<Rightarrow> (th, None)
           | Some (scratch, in_use) \<Rightarrow>
               if \<not> in_use then
                 (case se_scratch_reserve env (th_calls th) scratch dim of
                    (calls, s, ok) \<Rightarrow>
                      let th = th\<lparr>th_calls := calls, th_tls := Some (s, ok)\<rparr>
                      in (th, if ok then Some TlsScratch else None))
               else
                 let calls = th_calls th; th = th\<lparr>th_calls := calls + 1\<rparr> in
                 if \<not> env_alloc env calls 80 then (th, None)
                 else (case se_scratch_reserve env (calls + 1) se_scratch_init dim of
                    (calls, s, ok) \<Rightarrow>
                      let th = th\<lparr>th_calls := calls\<rparr> in
                      if \<not> ok then (th, None)
                      else (th\<lparr>th_heap := (th_heap th)(th_next th := Some s), th_next := th_next th + 1\<rparr>,
                            Some (HeapScratch (th_next th))))))"

definition se_scratch_release ::
  "se_env \<Rightarrow> thread_state \<Rightarrow> scratch_ptr option \<Rightarrow> thread_state se_result" where
  "se_scratch_release env th p =
     (case p of
        None \<Rightarrow> Inr th
      | Some TlsScratch \<Rightarrow>
          (case th_tls th of
             None \<Rightarrow> Inl OutOfBounds
           | Some (scratch, _) \<Rightarrow>
               (case se_scratch_trim env (th_calls th) scratch of
                  (calls, s) \<Rightarrow> Inr (th\<lparr>th_calls := calls, th_tls := Some (s, False)\<rparr>)))
      | Some (HeapScratch a) \<Rightarrow>
          if th_heap th a = None then Inl OutOfBounds
          else Inr (th\<lparr>th_heap := (th_heap th)(a := None)\<rparr>))"

definition se_scratch_drop_thread :: "thread_state \<Rightarrow> thread_state" where
  "se_scratch_drop_thread th = th\<lparr>th_tls := None\<rparr>"

text \<open>
  A thread that releases only what it holds.  The second component is the list of the pointers
  handed out and not yet released.
\<close>

inductive scratch_step ::
  "se_env \<Rightarrow> thread_state \<times> scratch_ptr list \<Rightarrow> thread_state \<times> scratch_ptr list \<Rightarrow> bool" for env where
  acquire: "se_scratch_acquire env th dim = (th', Some p) \<Longrightarrow>
    scratch_step env (th, held) (th', p # held)"
| acquire_fails: "se_scratch_acquire env th dim = (th', None) \<Longrightarrow>
    scratch_step env (th, held) (th', held)"
| release: "p \<in> set held \<Longrightarrow> se_scratch_release env th (Some p) = Inr th' \<Longrightarrow>
    scratch_step env (th, held) (th', remove1 p held)"
| drop_thread: "scratch_step env (th, []) (se_scratch_drop_thread th, [])"

inductive scratch_reachable :: "se_env \<Rightarrow> thread_state \<times> scratch_ptr list \<Rightarrow> bool" for env where
  start: "scratch_reachable env (thread_start, [])"
| step: "scratch_reachable env s \<Longrightarrow> scratch_step env s s' \<Longrightarrow> scratch_reachable env s'"

inductive_cases scratch_stepE: "scratch_step env (th, held) s'"

definition scratch_inv :: "thread_state \<times> scratch_ptr list \<Rightarrow> bool" where
  "scratch_inv s = (case s of (th, held) \<Rightarrow>
     distinct held \<and>
     (TlsScratch \<in> set held \<longleftrightarrow> (\<exists>sc. th_tls th = Some (sc, True))) \<and>
     (\<forall>a. HeapScratch a \<in> set held \<longleftrightarrow> th_heap th a \<noteq> None) \<and>
     (\<forall>a. th_heap th a \<noteq> None \<longrightarrow> a < th_next th))"

lemma tls_slot_cases:
  assumes "se_scratch_tls_slot env th = (th', ok)"
  shows "th_heap th' = th_heap th" "th_next th' = th_next th"
    "(\<exists>sc. th_tls th' = Some (sc, True)) \<longleftrightarrow> (\<exists>sc. th_tls th = Some (sc, True))"
  using assms by (auto simp: se_scratch_tls_slot_def Let_def split: option.splits if_splits)

lemma acquire_Some:
  assumes "se_scratch_acquire env th dim = (th', Some p)"
  shows "(p = TlsScratch \<and> \<not> (\<exists>sc. th_tls th = Some (sc, True)) \<and> (\<exists>sc. th_tls th' = Some (sc, True) \<and>
            scratch_reserved dim sc) \<and> th_heap th' = th_heap th \<and> th_next th' = th_next th) \<or>
         (p = HeapScratch (th_next th) \<and> (\<exists>sc. th_tls th = Some (sc, True)) \<and>
            (\<exists>sc. th_tls th' = Some (sc, True)) \<and>
            (\<exists>sc. th_heap th' = (th_heap th)(th_next th := Some sc) \<and> scratch_reserved dim sc) \<and>
            th_next th' = th_next th + 1)"
proof -
  obtain th1 ok where slot: "se_scratch_tls_slot env th = (th1, ok)" by (cases "se_scratch_tls_slot env th")
  note s = tls_slot_cases [OF slot]
  show ?thesis
    using assms slot s
    by (auto simp: se_scratch_acquire_def Let_def dest: scratch_reserve_ok
        split: option.splits if_splits bool.splits prod.splits)
qed

lemma acquire_None:
  assumes "se_scratch_acquire env th dim = (th', None)"
  shows "((\<exists>sc. th_tls th' = Some (sc, True)) \<longleftrightarrow> (\<exists>sc. th_tls th = Some (sc, True))) \<and>
    th_heap th' = th_heap th \<and> th_next th' = th_next th"
proof -
  obtain th1 ok where slot: "se_scratch_tls_slot env th = (th1, ok)" by (cases "se_scratch_tls_slot env th")
  note s = tls_slot_cases [OF slot]
  show ?thesis
    using assms slot s
    by (auto simp: se_scratch_acquire_def Let_def
        split: option.splits if_splits bool.splits prod.splits)
qed

lemma release_held:
  assumes "scratch_inv (th, held)" "p \<in> set held"
  shows "\<exists>th'. se_scratch_release env th (Some p) = Inr th'"
  using assms by (cases p) (auto simp: scratch_inv_def se_scratch_release_def split: prod.splits)

lemma release_inv:
  assumes inv: "scratch_inv (th, held)" and p: "p \<in> set held"
    and rel: "se_scratch_release env th (Some p) = Inr th'"
  shows "scratch_inv (th', remove1 p held)"
proof -
  have "distinct held" using inv by (simp add: scratch_inv_def)
  then show ?thesis
    using assms by (cases p) (auto simp: scratch_inv_def se_scratch_release_def split: prod.splits if_splits)
qed

lemma scratch_step_inv:
  assumes "scratch_step env s s'" "scratch_inv s"
  shows "scratch_inv s'"
  using assms
proof (induction rule: scratch_step.induct)
  case (acquire th dim th' p held)
  from acquire_Some [OF acquire.hyps] acquire.prems show ?case
    by (fastforce simp: scratch_inv_def less_Suc_eq split: if_splits)
next
  case (acquire_fails th dim th' held)
  from acquire_None [OF acquire_fails.hyps] acquire_fails.prems show ?case
    by (simp add: scratch_inv_def)
next
  case (release p held th th')
  then show ?case by (intro release_inv)
next
  case (drop_thread th)
  then show ?case by (simp add: scratch_inv_def se_scratch_drop_thread_def)
qed

lemma scratch_reachable_inv: "scratch_reachable env s \<Longrightarrow> scratch_inv s"
proof (induction rule: scratch_reachable.induct)
  case start
  show ?case by (simp add: scratch_inv_def thread_start_def)
next
  case (step s s')
  then show ?case by (blast intro: scratch_step_inv)
qed

subsection \<open>Properties\<close>

text \<open>
  Property C20: a reserved scratch is large enough for what the tokenizer and the embedder assume, for
  every pattern of allocation failure: when reservation succeeds all five buffers have their minimal
  capacities, and trimming a scratch on release keeps these minima and never grows a buffer.
\<close>

theorem scratch_reserve_trim:
  "(case se_scratch_reserve env calls s dim of (_, s', ok) \<Rightarrow> ok \<longrightarrow> scratch_reserved dim s') \<and>
   (case se_scratch_trim env calls s of (_, s') \<Rightarrow>
      (scratch_reserved dim s \<longrightarrow> scratch_reserved dim s') \<and>
      sc_cps_cap s' \<le> sc_cps_cap s \<and> sc_cps2_cap s' \<le> sc_cps2_cap s \<and>
      sc_ids_cap s' \<le> sc_ids_cap s \<and> sc_bytes_cap s' \<le> sc_bytes_cap s \<and>
      sc_acc_cap s' = sc_acc_cap s)"
  by (auto dest: scratch_reserve_ok scratch_trim_keeps_reserved scratch_trim_bounds)

definition example_env :: se_env where
  "example_env = \<lparr>env_alloc = (\<lambda>_ _. True), env_cancelled = (\<lambda>_. False), env_setspecific = (\<lambda>_. True)\<rparr>"

theorem scratch_reserve_trim_witness:
  "scratch_reserved 2 (fst (snd (se_scratch_reserve example_env 0 se_scratch_init 2)))"
proof -
  have "snd (snd (se_scratch_reserve example_env 0 se_scratch_init 2))"
    by (simp add: se_scratch_reserve_def Let_def grow_u32_def grow_bytes_def grow_float_def
        grow_buffer_def se_next_capacity_def capacity_loop.simps se_array_bytes_def
        checked_mul_size_eq example_env_def se_scratch_init_def word_le_nat_alt word_less_nat_alt
        unat_div unat_SE_SIZE_MAX)
  then show ?thesis
    using scratch_reserve_trim
      [where env = example_env and calls = 0 and s = se_scratch_init and dim = 2] by (auto split: prod.splits)
qed

text \<open>
  Property C19: no scratch is handed out twice, leaked or released wrongly.  In every state a thread
  can reach, in which it has acquired and released scratches in any order with any allocation
  failures, the pointers it holds are pairwise different, the one in the thread's slot is held
  exactly when the slot is marked in use, the allocated heap scratches are exactly those it holds,
  and releasing any pointer it holds is defined and keeps all of this true.
\<close>

theorem scratch_ownership:
  assumes "scratch_reachable env (th, held)"
  shows "distinct held \<and>
    (TlsScratch \<in> set held \<longleftrightarrow> (\<exists>sc. th_tls th = Some (sc, True))) \<and>
    (\<forall>a. HeapScratch a \<in> set held \<longleftrightarrow> th_heap th a \<noteq> None) \<and>
    (\<forall>p\<in>set held. \<exists>th'. se_scratch_release env th (Some p) = Inr th' \<and>
       scratch_reachable env (th', remove1 p held))"
proof -
  have inv: "scratch_inv (th, held)" by (rule scratch_reachable_inv [OF assms])
  have "\<exists>th'. se_scratch_release env th (Some p) = Inr th' \<and> scratch_reachable env (th', remove1 p held)"
    if p: "p \<in> set held" for p
  proof -
    from release_held [OF inv p] obtain th' where th': "se_scratch_release env th (Some p) = Inr th'" by blast
    have "scratch_step env (th, held) (th', remove1 p held)"
      by (rule scratch_step.release [OF p th'])
    with assms th' show ?thesis by (blast intro: scratch_reachable.step)
  qed
  with inv show ?thesis by (simp add: scratch_inv_def)
qed

lemma example_acquire: "\<exists>th. se_scratch_acquire example_env thread_start 2 = (th, Some TlsScratch)"
  by (simp add: se_scratch_acquire_def se_scratch_tls_slot_def thread_start_def Let_def
      se_scratch_reserve_def grow_u32_def grow_bytes_def grow_float_def
      grow_buffer_def se_next_capacity_def capacity_loop.simps se_array_bytes_def
      checked_mul_size_eq example_env_def se_scratch_init_def word_le_nat_alt word_less_nat_alt
        unat_div unat_SE_SIZE_MAX)

theorem scratch_ownership_witness:
  "\<exists>th. scratch_reachable example_env (th, [TlsScratch]) \<and> (\<exists>sc. th_tls th = Some (sc, True))"
proof -
  obtain th where th: "se_scratch_acquire example_env thread_start 2 = (th, Some TlsScratch)"
    using example_acquire by blast
  have "scratch_step example_env (thread_start, []) (th, [TlsScratch])"
    by (rule scratch_step.acquire [OF th])
  then have reach: "scratch_reachable example_env (th, [TlsScratch])"
    using scratch_reachable.start by (rule scratch_reachable.step [rotated])
  with scratch_ownership [OF reach] show ?thesis by auto
qed

end
