(* ===== verification/Wordpiece.thy ===== *)
theory Wordpiece
  imports Example Scratch
begin

text \<open>
  The state of a tokenization and the WordPiece step of \<^verbatim>\<open>se_tokenizer.c\<close>: the ids pushed so far, the
  UTF-8 bytes and character offsets of a word, the exact lookup and the greedy longest match over the two
  tries.  The part of the ids buffer and of the segment buffer that is live is a list; the writes are
  checked against the capacities, so that a write past a buffer is \<open>OutOfBounds\<close>.  The lemmas show that the
  step computes \<open>word_outcome\<close>, which is stated on code points and on the finite maps the tries denote,
  unless memory runs out.
\<close>

subsection \<open>The token state\<close>

datatype se_token_limit = SE_TOKEN_LIMIT_RAW | SE_TOKEN_LIMIT_USABLE

text \<open>The fields of \<^verbatim>\<open>token_state_t\<close> that stay fixed, with the environment, and those that change.\<close>

record token_cfg =
  tc_model :: se_model
  tc_max_tokens :: u32
  tc_limit_mode :: se_token_limit
  tc_env :: se_env

record token_state =
  ts_scratch :: se_scratch
  ts_calls :: nat
  ts_polls :: nat
  ts_ids :: "u32 list"
  ts_n_unk :: size_t
  ts_segment :: "u32 list"
  ts_segment_ascii :: bool
  ts_truncated :: bool

text \<open>\<open>Inr None\<close> is the failure of \<^verbatim>\<open>push_id\<close>.\<close>

definition push_id :: "token_cfg \<Rightarrow> token_state \<Rightarrow> u32 \<Rightarrow> token_state option se_result" where
  "push_id cfg st tok =
     (let n_ids = length (ts_ids st) in
      if n_ids \<ge> 0xFFFFFFFF then Inr None
      else case grow_u32 (tc_env cfg) (ts_calls st) (sc_ids_cap (ts_scratch st)) (word_of_nat (n_ids + 1)) of
        (calls, None) \<Rightarrow> Inr None
      | (calls, Some cap) \<Rightarrow>
          if n_ids < unat cap
          then Inr (Some (st\<lparr>ts_calls := calls, ts_scratch := (ts_scratch st)\<lparr>sc_ids_cap := cap\<rparr>,
                            ts_ids := ts_ids st @ [tok]\<rparr>))
          else Inl OutOfBounds)"

subsection \<open>The bytes and offsets of a word\<close>

definition grow_word_buffers :: "token_cfg \<Rightarrow> token_state \<Rightarrow> size_t \<Rightarrow> nat \<Rightarrow> token_state option" where
  "grow_word_buffers cfg st bytes_need word_len =
     (case grow_bytes (tc_env cfg) (ts_calls st) (sc_bytes_cap (ts_scratch st)) bytes_need of
        (calls, None) \<Rightarrow> None
      | (calls, Some cap) \<Rightarrow>
          let st = st\<lparr>ts_calls := calls, ts_scratch := (ts_scratch st)\<lparr>sc_bytes_cap := cap\<rparr>\<rparr> in
          (case grow_u32 (tc_env cfg) (ts_calls st) (sc_cps2_cap (ts_scratch st)) (word_of_nat (word_len + 1)) of
             (calls, None) \<Rightarrow> None
           | (calls, Some cap2) \<Rightarrow>
               Some (st\<lparr>ts_calls := calls, ts_scratch := (ts_scratch st)\<lparr>sc_cps2_cap := cap2\<rparr>\<rparr>)))"

fun utf8_loop :: "u32 list \<Rightarrow> nat \<Rightarrow> u8 list \<Rightarrow> u32 list \<Rightarrow> (u8 list \<times> u32 list) option se_result" where
  "utf8_loop [] cap bytes offs =
     (if length bytes > 0xFFFFFFFF then Inr None
      else Inr (Some (bytes, offs @ [word_of_nat (length bytes)])))"
| "utf8_loop (cp # rest) cap bytes offs =
     (if length bytes > 0xFFFFFFFF then Inr None
      else if length bytes + length (se_utf8_encode cp) \<le> cap
      then utf8_loop rest cap (bytes @ se_utf8_encode cp) (offs @ [word_of_nat (length bytes)])
      else Inl OutOfBounds)"

text \<open>\<open>Inr None\<close> is the return of \<^verbatim>\<open>WORDPIECE_OOM\<close>.\<close>

definition encode_word ::
  "token_cfg \<Rightarrow> token_state \<Rightarrow> u32 list \<Rightarrow> bool \<Rightarrow> (u8 list \<times> u32 list \<times> token_state) option se_result" where
  "encode_word cfg st word known_ascii =
     (let word_len = length word;
          ascii_identity = (if \<not> known_ascii then list_all (\<lambda>cp. cp < 0x80) word else True)
      in if ascii_identity then
           (case grow_word_buffers cfg st (word_of_nat word_len) word_len of
              None \<Rightarrow> Inr None
            | Some st \<Rightarrow>
                if word_len \<le> unat (sc_bytes_cap (ts_scratch st)) \<and> word_len < unat (sc_cps2_cap (ts_scratch st))
                then Inr (Some (map ucast word, map word_of_nat [0..<word_len] @ [word_of_nat word_len], st))
                else Inl OutOfBounds)
         else
           (case se_checked_mul_size (word_of_nat word_len) 4 of
              None \<Rightarrow> Inr None
            | Some bytes_need \<Rightarrow>
                (case se_checked_add_size bytes_need 4 of
                   None \<Rightarrow> Inr None
                 | Some bytes_need \<Rightarrow>
                     (case grow_word_buffers cfg st bytes_need word_len of
                        None \<Rightarrow> Inr None
                      | Some st \<Rightarrow>
                          if word_len < unat (sc_cps2_cap (ts_scratch st))
                          then bindR (utf8_loop word (unat (sc_bytes_cap (ts_scratch st))) [] []) (\<lambda>r.
                            case r of
                              None \<Rightarrow> Inr None
                            | Some (bytes, offs) \<Rightarrow> Inr (Some (bytes, offs, st)))
                          else Inl OutOfBounds))))"

subsection \<open>The WordPiece step\<close>

datatype wordpiece_status = WORDPIECE_OK | WORDPIECE_OOM | WORDPIECE_INVALID

text \<open>The scan for the end of the matched piece.\<close>

function piece_end :: "u32 list \<Rightarrow> nat \<Rightarrow> nat \<Rightarrow> nat \<Rightarrow> nat se_result" where
  "piece_end cps2 max_end target e =
     (if e \<le> max_end then
        bindR (rdR cps2 e) (\<lambda>o'. if unat o' < target then piece_end cps2 max_end target (e + 1) else Inr e)
      else Inr e)"
  by pat_completeness auto
termination by (relation "measure (\<lambda>(cps2, max_end, target, e). Suc max_end - e)") auto

declare piece_end.simps [simp del]

lemma piece_end_ge: "piece_end cps2 max_end target e = Inr e' \<Longrightarrow> e \<le> e'"
proof (induction cps2 max_end target e rule: piece_end.induct)
  case (1 cps2 max_end target e)
  from "1.prems" show ?case
    by (subst (asm) piece_end.simps)
      (auto simp: bindR_eq_Inr split: if_splits dest!: "1.IH")
qed

text \<open>The match may read \<open>max_off - off\<close> bytes from \<open>bytes + off\<close>.\<close>

definition byte_window :: "u8 list \<Rightarrow> u32 \<Rightarrow> u32 \<Rightarrow> u8 list se_result" where
  "byte_window bytes off max_off =
     (if unat off \<le> unat max_off \<and> unat max_off \<le> length bytes
      then Inr (take (unat max_off - unat off) (drop (unat off) bytes)) else Inl OutOfBounds)"

definition push_unk ::
  "token_cfg \<Rightarrow> token_state \<Rightarrow> (wordpiece_status \<times> token_state) se_result" where
  "push_unk cfg st =
     bindR (push_id cfg st (mt_unk_id (md_meta (tc_model cfg)))) (\<lambda>r. case r of
         None \<Rightarrow> Inr (WORDPIECE_OOM, st)
       | Some st \<Rightarrow> Inr (WORDPIECE_OK, st\<lparr>ts_n_unk := ts_n_unk st + 1\<rparr>))"

function greedy_loop ::
  "token_cfg \<Rightarrow> u8 list \<Rightarrow> u32 list \<Rightarrow> nat \<Rightarrow> nat \<Rightarrow> nat \<Rightarrow> token_state \<Rightarrow>
   (wordpiece_status \<times> token_state) se_result" where
  "greedy_loop cfg bytes cps2 word_len emitted_before start st =
     (if start < word_len then
        (let m = tc_model cfg;
             max_end = min (start + unat (mt_max_token_chars (md_meta m))) word_len in
         bindR (rdR cps2 start) (\<lambda>off.
         bindR (rdR cps2 max_end) (\<lambda>max_off.
         bindR (byte_window bytes off max_off) (\<lambda>window.
         bindR (se_trie_longest_match (if start > 0 then md_cont_trie m else md_root_trie m) window) (\<lambda>found.
           case found of
             None \<Rightarrow> push_unk cfg (st\<lparr>ts_ids := take emitted_before (ts_ids st)\<rparr>)
           | Some (found_id, matched_len) \<Rightarrow>
               let target = unat off + matched_len in
               bindR (piece_end cps2 max_end target (start + 1)) (\<lambda>e.
                 if e > max_end then Inr (WORDPIECE_INVALID, st)
                 else bindR (rdR cps2 e) (\<lambda>at_e.
                   if unat at_e \<noteq> target then Inr (WORDPIECE_INVALID, st)
                   else bindR (push_id cfg st found_id) (\<lambda>r. case r of
                       None \<Rightarrow> Inr (WORDPIECE_OOM, st)
                     | Some st \<Rightarrow> greedy_loop cfg bytes cps2 word_len emitted_before e st))))))))
      else Inr (WORDPIECE_OK, st))"
  by pat_completeness auto
termination
  by (relation "measure (\<lambda>(cfg, bytes, cps2, word_len, emitted_before, start, st). word_len - start)")
    (auto dest: piece_end_ge)

declare greedy_loop.simps [simp del]

definition wordpiece ::
  "token_cfg \<Rightarrow> token_state \<Rightarrow> u32 list \<Rightarrow> bool \<Rightarrow> (wordpiece_status \<times> token_state) se_result" where
  "wordpiece cfg st word known_ascii =
     (let m = tc_model cfg; word_len = length word in
      if word_len = 0 then Inr (WORDPIECE_OK, st)
      else if word_len > unat (mt_max_input_chars_per_word (md_meta m)) then push_unk cfg st
      else bindR (encode_word cfg st word known_ascii) (\<lambda>enc.
        case enc of
          None \<Rightarrow> Inr (WORDPIECE_OOM, st)
        | Some (bytes, cps2, st) \<Rightarrow>
            bindR (if word_len \<le> unat (mt_max_token_chars (md_meta m))
                   then se_vocab_lookup m bytes else Inr None) (\<lambda>exact.
              case exact of
                Some exact_id \<Rightarrow>
                  bindR (push_id cfg st exact_id) (\<lambda>r. case r of
                      None \<Rightarrow> Inr (WORDPIECE_OOM, st)
                    | Some st \<Rightarrow> Inr (WORDPIECE_OK, st))
              | None \<Rightarrow> greedy_loop cfg bytes cps2 word_len (length (ts_ids st)) 0 st)))"

subsection \<open>What the step computes\<close>

definition utf8 :: "u32 list \<Rightarrow> u8 list" where
  "utf8 w = concat (map se_utf8_encode w)"

text \<open>
  The outcome of a word: its pieces, the unknown token, or a match that ends inside a character,
  which only a corrupt trie can give.
\<close>

datatype pieces = Pieces "u32 list" | Unknown | BadBoundary

definition char_boundary :: "u32 list \<Rightarrow> nat \<Rightarrow> nat option" where
  "char_boundary w l = find (\<lambda>k. length (utf8 (take k w)) = l) [1..<Suc (length w)]"

function greedy_pieces :: "se_model \<Rightarrow> bool \<Rightarrow> u32 list \<Rightarrow> pieces" where
  "greedy_pieces m first [] = Pieces []"
| "greedy_pieces m first (c # cs) =
     (let window = take (unat (mt_max_token_chars (md_meta m))) (c # cs);
          t = (if first then md_root_trie m else md_cont_trie m)
      in case longest_word (trie_word t) (utf8 window) of
           None \<Rightarrow> Unknown
         | Some (tok, l) \<Rightarrow>
             (case char_boundary window l of
                None \<Rightarrow> BadBoundary
              | Some k \<Rightarrow>
                  (case greedy_pieces m False (drop (k - 1) cs) of
                     Pieces toks \<Rightarrow> Pieces (tok # toks)
                   | r \<Rightarrow> r)))"
  by pat_completeness auto
termination by (relation "measure (\<lambda>(m, first, w). length w)") auto

declare greedy_pieces.simps(2) [simp del]

definition word_outcome :: "se_model \<Rightarrow> u32 list \<Rightarrow> pieces" where
  "word_outcome m word =
     (if word = [] then Pieces []
      else if length word > unat (mt_max_input_chars_per_word (md_meta m)) then Unknown
      else case (if length word \<le> unat (mt_max_token_chars (md_meta m)) then vocab_find m (utf8 word) else None) of
        Some tok \<Rightarrow> Pieces [tok]
      | None \<Rightarrow> greedy_pieces m True word)"

subsection \<open>Facts about encodings\<close>

lemma utf8_simps [simp]:
  "utf8 [] = []" "utf8 (c # w) = se_utf8_encode c @ utf8 w" "utf8 (v @ w) = utf8 v @ utf8 w"
  by (simp_all add: utf8_def)

lemma utf8_encode_pos: "0 < length (se_utf8_encode c)"
  using utf8_encode_nonempty by simp

lemma utf8_encode_le: "length (se_utf8_encode c) \<le> 4"
  using utf8_encode_length [of c] by auto

lemma utf8_length_le: "length (utf8 w) \<le> 4 * length w"
proof (induction w)
  case (Cons c w)
  then show ?case using utf8_encode_le [of c] by simp
qed simp

lemma utf8_length_ge: "length w \<le> length (utf8 w)"
proof (induction w)
  case (Cons c w)
  have "1 \<le> length (se_utf8_encode c)" using utf8_encode_pos [of c] by linarith
  then show ?case using Cons by (simp only: utf8_simps length_append length_Cons)
qed simp

lemma utf8_split: "utf8 w = utf8 (take k w) @ utf8 (drop k w)"
  by (simp flip: utf8_simps(3))

lemma utf8_take_less:
  assumes "i < j" "j \<le> length w"
  shows "length (utf8 (take i w)) < length (utf8 (take j w))"
proof -
  have "take j w = take i w @ take (j - i) (drop i w)"
    using assms(1) take_add [of i "j - i" w] by simp
  moreover have "0 < length (take (j - i) (drop i w))" using assms by simp
  then have "0 < length (utf8 (take (j - i) (drop i w)))"
    using utf8_length_ge [of "take (j - i) (drop i w)"] by linarith
  ultimately show ?thesis by simp
qed

lemma utf8_take_le: "length (utf8 (take k w)) \<le> length (utf8 w)"
  using utf8_split [of w k] by (metis le_add1 length_append)

lemma utf8_ascii: "list_all (\<lambda>cp. cp < 0x80) w \<Longrightarrow> utf8 w = map ucast w"
  by (induction w) (simp_all add: se_utf8_encode_def)

definition offsets :: "u32 list \<Rightarrow> u32 list" where
  "offsets w = map (\<lambda>k. word_of_nat (length (utf8 (take k w)))) [0..<Suc (length w)]"

lemma offsets_rd:
  assumes "k \<le> length w" "length (utf8 w) < 2 ^ 32"
  shows "\<exists>o'. rdR (offsets w) k = Inr o' \<and> unat o' = length (utf8 (take k w))"
proof -
  have "rdR (offsets w) k = Inr (word_of_nat (length (utf8 (take k w))))"
    using assms(1) by (simp add: offsets_def rdR_def nth_append del: upt_Suc)
  moreover have "length (utf8 (take k w)) < 2 ^ 32"
    using utf8_take_le [of k w] assms(2) by linarith
  then have "unat (word_of_nat (length (utf8 (take k w))) :: u32) = length (utf8 (take k w))"
    by (rule unat_small_u32)
  ultimately show ?thesis by blast
qed

subsection \<open>Pushing and growing\<close>

text \<open>States that differ only in the memory they own.\<close>

definition same_tokens :: "token_state \<Rightarrow> token_state \<Rightarrow> bool" where
  "same_tokens st st' =
     (ts_ids st' = ts_ids st \<and> ts_n_unk st' = ts_n_unk st \<and> ts_segment st' = ts_segment st \<and>
      ts_segment_ascii st' = ts_segment_ascii st \<and> ts_truncated st' = ts_truncated st \<and>
      ts_polls st' = ts_polls st)"

lemma same_tokens_simps:
  assumes "same_tokens st st'"
  shows "ts_ids st' = ts_ids st" "ts_n_unk st' = ts_n_unk st" "ts_segment st' = ts_segment st"
    "ts_segment_ascii st' = ts_segment_ascii st" "ts_truncated st' = ts_truncated st"
    "ts_polls st' = ts_polls st"
  using assms by (auto simp: same_tokens_def)

lemma same_tokens_refl [simp]: "same_tokens st st"
  by (simp add: same_tokens_def)

lemma same_tokens_mem [simp]:
  "same_tokens st (st\<lparr>ts_scratch := sc, ts_calls := n\<rparr>)" "same_tokens st (st\<lparr>ts_calls := n, ts_scratch := sc\<rparr>)"
  by (auto simp: same_tokens_def)

lemma same_tokens_trans: "same_tokens st st' \<Longrightarrow> same_tokens st' st'' \<Longrightarrow> same_tokens st st''"
  by (auto simp: same_tokens_def)

lemma unat_small_size: "n < 2 ^ 64 \<Longrightarrow> unat (word_of_nat n :: size_t) = n"
  by (rule unat_small_u64)

lemma push_id_cases:
  "push_id cfg st tok = Inr None \<and> may_fail (tc_env cfg) (length (ts_ids st)) \<or>
   (\<exists>st'. push_id cfg st tok = Inr (Some st') \<and> same_tokens (st\<lparr>ts_ids := ts_ids st @ [tok]\<rparr>) st' \<and>
      length (ts_ids st) < 2 ^ 32 - 1)"
proof (cases "length (ts_ids st) \<ge> 0xFFFFFFFF")
  case True
  then show ?thesis by (simp add: push_id_def may_fail_def)
next
  case False
  let ?need = "word_of_nat (length (ts_ids st) + 1) :: size_t"
  have "length (ts_ids st) + 1 < 2 ^ 64" using False by simp
  then have need: "unat ?need = length (ts_ids st) + 1" by (rule unat_small_size)
  obtain calls r where g: "grow_u32 (tc_env cfg) (ts_calls st) (sc_ids_cap (ts_scratch st)) ?need = (calls, r)"
    by (metis surj_pair)
  show ?thesis
  proof (cases r)
    case None
    have "?need \<noteq> 0" "unat ?need \<le> 2 ^ 60" using need False by (auto simp: unat_eq_zero [symmetric])
    then have "\<not> alloc_ok (tc_env cfg)"
      using grow_u32_ok [of "tc_env cfg" ?need "ts_calls st" "sc_ids_cap (ts_scratch st)"] g None by auto
    then show ?thesis using g None False by (simp add: push_id_def Let_def may_fail_def)
  next
    case (Some cap)
    have "?need \<le> cap" using grow_u32_ge g Some by blast
    then have "length (ts_ids st) < unat cap" using need by (simp add: word_le_nat_alt)
    then have "push_id cfg st tok = Inr (Some (st\<lparr>ts_calls := calls,
        ts_scratch := (ts_scratch st)\<lparr>sc_ids_cap := cap\<rparr>, ts_ids := ts_ids st @ [tok]\<rparr>))"
      using g Some False by (simp add: push_id_def Let_def)
    moreover have "same_tokens (st\<lparr>ts_ids := ts_ids st @ [tok]\<rparr>) (st\<lparr>ts_calls := calls,
        ts_scratch := (ts_scratch st)\<lparr>sc_ids_cap := cap\<rparr>, ts_ids := ts_ids st @ [tok]\<rparr>)"
      by (auto simp: same_tokens_def)
    ultimately show ?thesis using False by auto
  qed
qed

lemma push_unk_cases:
  "(\<exists>st'. push_unk cfg st = Inr (WORDPIECE_OOM, st')) \<and> may_fail (tc_env cfg) (length (ts_ids st)) \<or>
   (\<exists>st'. push_unk cfg st = Inr (WORDPIECE_OK, st') \<and>
      same_tokens (st\<lparr>ts_ids := ts_ids st @ [mt_unk_id (md_meta (tc_model cfg))],
                      ts_n_unk := ts_n_unk st + 1\<rparr>) st' \<and>
      length (ts_ids st) < 2 ^ 32 - 1)"
  using push_id_cases [of cfg st "mt_unk_id (md_meta (tc_model cfg))"]
  by (auto simp: push_unk_def same_tokens_def)

lemma grow_word_buffers_Some:
  assumes "grow_word_buffers cfg st need n = Some st'"
  shows "same_tokens st st'" "need \<le> sc_bytes_cap (ts_scratch st')"
    "word_of_nat (n + 1) \<le> sc_cps2_cap (ts_scratch st')"
  using assms
  by (auto simp: grow_word_buffers_def same_tokens_def Let_def dest: grow_bytes_ge grow_u32_ge
      split: prod.splits option.splits)

lemma grow_word_buffers_None:
  assumes "grow_word_buffers cfg st need n = None" "need \<noteq> 0" "unat need \<le> 2 ^ 60" "n < 2 ^ 32"
  shows "\<not> alloc_ok (tc_env cfg)"
proof
  assume ok: "alloc_ok (tc_env cfg)"
  have u: "unat (word_of_nat (n + 1) :: size_t) = n + 1"
    using assms(4) by (intro unat_small_size) simp
  then have n1: "(word_of_nat (n + 1) :: size_t) \<noteq> 0" by (metis add_is_0 unsigned_0 zero_neq_one)
  have u60: "unat (word_of_nat (n + 1) :: size_t) \<le> 2 ^ 60" unfolding u using assms(4) by simp
  from grow_bytes_ok [OF ok assms(2,3)] obtain calls1 c1 where
    g: "grow_bytes (tc_env cfg) (ts_calls st) (sc_bytes_cap (ts_scratch st)) need = (calls1, Some c1)" by blast
  from grow_u32_ok [OF ok n1 u60] obtain calls2 c2 where
    "grow_u32 (tc_env cfg) calls1 (sc_cps2_cap (ts_scratch st)) (word_of_nat (n + 1)) = (calls2, Some c2)" by blast
  with g show False using assms(1) by (simp add: grow_word_buffers_def Let_def)
qed

lemma utf8_loop_eq:
  "length bytes + 4 * length w \<le> cap \<Longrightarrow>
   utf8_loop w cap bytes offs = Inr None \<and> 2 ^ 32 \<le> length bytes + 4 * length w \<or>
   (utf8_loop w cap bytes offs = Inr (Some (bytes @ utf8 w,
      offs @ map (\<lambda>k. word_of_nat (length bytes + length (utf8 (take k w)))) [0..<Suc (length w)])) \<and>
    length (bytes @ utf8 w) < 2 ^ 32)"
proof (induction w arbitrary: bytes offs)
  case Nil
  then show ?case by auto
next
  case (Cons c w)
  let ?b = "bytes @ se_utf8_encode c"
  have grow: "length ?b + 4 * length w \<le> length bytes + 4 * length (c # w)"
    using utf8_encode_le [of c] by simp
  then have cap: "length ?b + 4 * length w \<le> cap" using Cons.prems by linarith
  have map: "map (\<lambda>k. word_of_nat (length bytes + length (utf8 (take k (c # w))))) [0..<Suc (length (c # w))] =
      (word_of_nat (length bytes) :: u32) #
      map (\<lambda>k. word_of_nat (length ?b + length (utf8 (take k w)))) [0..<Suc (length w)]"
    by (subst upt_conv_Cons) (simp_all add: map_Suc_upt [symmetric] add.assoc comp_def
        del: upt_Suc map_Suc_upt)
  show ?case
    using Cons.IH [OF cap, of "offs @ [word_of_nat (length bytes)]"] cap grow
    unfolding map by (auto simp del: upt_Suc)
qed

subsection \<open>The step refines its outcome\<close>

lemma offsets_ascii:
  assumes "list_all (\<lambda>cp. cp < 0x80) w"
  shows "offsets w = map word_of_nat [0..<length w] @ [word_of_nat (length w)]"
proof -
  have "length (utf8 (take k w)) = k" if "k \<le> length w" for k
  proof -
    have "list_all (\<lambda>cp. cp < 0x80) (take k w)"
      using assms by (auto simp: list_all_iff dest: in_set_takeD)
    then show ?thesis using that by (simp add: utf8_ascii)
  qed
  note pre = this
  have len: "length (utf8 w) = length w" using pre [of "length w"] by simp
  have "map (\<lambda>k. word_of_nat (length (utf8 (take k w)))) [0..<length w] = map word_of_nat [0..<length w]"
    using pre by (intro map_cong) auto
  then show ?thesis using len by (simp add: offsets_def)
qed

lemma encode_word_cases:
  assumes len: "length w < 2 ^ 32" and ka: "ka \<longrightarrow> list_all (\<lambda>cp. cp < 0x80) w"
    and ne: "w \<noteq> []"
  shows "encode_word cfg st w ka = Inr None \<and> may_fail (tc_env cfg) (length w) \<or>
    (\<exists>st'. encode_word cfg st w ka = Inr (Some (utf8 w, offsets w, st')) \<and> same_tokens st st' \<and>
      length (utf8 w) < 2 ^ 32)"
proof -
  have n: "unat (word_of_nat (length w) :: size_t) = length w"
    using len by (intro unat_small_size) simp
  have n1: "unat (word_of_nat (length w + 1) :: size_t) = length w + 1"
    using len by (intro unat_small_size) simp
  show ?thesis
  proof (cases "ka \<or> list_all (\<lambda>cp. cp < 0x80) w")
    case True
    then have ascii: "list_all (\<lambda>cp. cp < 0x80) w" using ka by blast
    then have flag: "(if \<not> ka then list_all (\<lambda>cp. cp < 0x80) w else True) = True" by simp
    show ?thesis
    proof (cases "grow_word_buffers cfg st (word_of_nat (length w)) (length w)")
      case None
      have "(word_of_nat (length w) :: size_t) \<noteq> 0" using n ne by (metis length_0_conv unsigned_0)
      moreover have "unat (word_of_nat (length w) :: size_t) \<le> 2 ^ 60" unfolding n using len by simp
      ultimately have "\<not> alloc_ok (tc_env cfg)" using grow_word_buffers_None [OF None _ _ len] by blast
      then show ?thesis using None unfolding encode_word_def Let_def flag by (simp add: may_fail_def)
    next
      case (Some st')
      note g = grow_word_buffers_Some [OF Some]
      have "length w \<le> unat (sc_bytes_cap (ts_scratch st'))" "length w < unat (sc_cps2_cap (ts_scratch st'))"
        using g(2,3) n n1 by (simp_all add: word_le_nat_alt)
      moreover have "length (utf8 w) < 2 ^ 32" using len ascii by (simp add: utf8_ascii)
      ultimately show ?thesis
        unfolding encode_word_def Let_def flag using Some g(1) ascii
        by (simp add: utf8_ascii offsets_ascii)
    qed
  next
    case False
    then have flag: "(if \<not> ka then list_all (\<lambda>cp. cp < 0x80) w else True) = False" by simp
    let ?m = "word_of_nat (length w) * 4 :: size_t" and ?need = "word_of_nat (length w) * 4 + 4 :: size_t"
    have mul: "se_checked_mul_size (word_of_nat (length w)) 4 = Some ?m"
      and um: "unat ?m = length w * 4"
      using len n by (simp_all add: checked_mul_size_eq unat_word_ariths)
    have add: "se_checked_add_size ?m 4 = Some ?need" and un: "unat ?need = length w * 4 + 4"
      using len um by (simp_all add: checked_add_size_eq unat_word_ariths)
    show ?thesis
    proof (cases "grow_word_buffers cfg st ?need (length w)")
      case None
      have "?need \<noteq> 0" using un by (metis add_is_0 unsigned_0 zero_neq_numeral)
      moreover have "unat ?need \<le> 2 ^ 60" unfolding un using len by simp
      ultimately have "\<not> alloc_ok (tc_env cfg)" using grow_word_buffers_None [OF None _ _ len] by blast
      then show ?thesis using None unfolding encode_word_def Let_def flag by (simp add: mul add may_fail_def)
    next
      case (Some st')
      note g = grow_word_buffers_Some [OF Some]
      have c2: "length w < unat (sc_cps2_cap (ts_scratch st'))"
        using g(3) n1 by (simp add: word_le_nat_alt)
      have "length ([] :: u8 list) + 4 * length w \<le> unat (sc_bytes_cap (ts_scratch st'))"
        using g(2) un by (simp add: word_le_nat_alt)
      from utf8_loop_eq [OF this, of "[]"] show ?thesis
        unfolding encode_word_def Let_def flag using Some g(1) c2
        by (auto simp: mul add offsets_def may_fail_def simp del: upt_Suc)
    qed
  qed
qed

lemma utf8_slice:
  assumes "i \<le> j" "j \<le> length w"
  shows "take (length (utf8 (take j w)) - length (utf8 (take i w))) (drop (length (utf8 (take i w))) (utf8 w)) =
    utf8 (take (j - i) (drop i w))"
proof -
  have "utf8 w = utf8 (take i w) @ utf8 (take (j - i) (drop i w)) @ utf8 (drop j w)"
    using assms(1) by (metis append_take_drop_id drop_drop le_add_diff_inverse2 utf8_simps(3))
  moreover have "utf8 (take j w) = utf8 (take i w) @ utf8 (take (j - i) (drop i w))"
    using assms(1) take_add [of i "j - i" w] by simp
  ultimately show ?thesis by simp
qed

lemma byte_window_eq:
  assumes "i \<le> j" "j \<le> length w" "unat a = length (utf8 (take i w))" "unat b = length (utf8 (take j w))"
  shows "byte_window (utf8 w) a b = Inr (utf8 (take (j - i) (drop i w)))"
proof -
  have "length (utf8 (take i w)) \<le> length (utf8 (take j w))"
    using utf8_take_less [of i j w] assms(1,2) by (cases "i = j") auto
  then show ?thesis
    using assms(3,4) utf8_take_le [of j w] utf8_slice [OF assms(1,2)] by (simp add: byte_window_def)
qed

text \<open>The scan finds the first offset that is not before the target.\<close>

lemma piece_end_eq:
  assumes "length (utf8 w) < 2 ^ 32" "max_end \<le> length w"
  shows "e \<le> Suc max_end \<Longrightarrow>
    \<exists>e'. piece_end (offsets w) max_end target e = Inr e' \<and> e \<le> e' \<and> e' \<le> Suc max_end \<and>
      (\<forall>j. e \<le> j \<longrightarrow> j < e' \<longrightarrow> length (utf8 (take j w)) < target) \<and>
      (e' \<le> max_end \<longrightarrow> target \<le> length (utf8 (take e' w)))"
proof (induction "Suc max_end - e" arbitrary: e)
  case 0
  then have "e = Suc max_end" by simp
  then show ?case by (subst piece_end.simps) auto
next
  case (Suc n)
  then have e: "e \<le> max_end" by simp
  then obtain o' where o': "rdR (offsets w) e = Inr o'" "unat o' = length (utf8 (take e w))"
    using offsets_rd [of e w] assms by auto
  show ?case
  proof (cases "unat o' < target")
    case False
    then show ?thesis using e o' by (subst piece_end.simps) auto
  next
    case True
    have "n = Suc max_end - (e + 1)" "e + 1 \<le> Suc max_end" using Suc.hyps(2) e by simp_all
    from Suc.hyps(1) [OF this] obtain e' where e': "piece_end (offsets w) max_end target (e + 1) = Inr e'"
      "e + 1 \<le> e'" "e' \<le> Suc max_end" "\<forall>j. e + 1 \<le> j \<longrightarrow> j < e' \<longrightarrow> length (utf8 (take j w)) < target"
      "e' \<le> max_end \<longrightarrow> target \<le> length (utf8 (take e' w))" by blast
    have "length (utf8 (take j w)) < target" if "e \<le> j" "j < e'" for j
      using that e'(4) True o'(2) by (cases "j = e") auto
    then show ?thesis using e e' o' True by (subst piece_end.simps) auto
  qed
qed

lemma find_upt_first:
  assumes "find P [a..<b] = Some k"
  shows "a \<le> k" "k < b" "P k" "\<And>j. a \<le> j \<Longrightarrow> j < k \<Longrightarrow> \<not> P j"
proof -
  from assms obtain i where i: "i < length [a..<b]" "P ([a..<b] ! i)" "k = [a..<b] ! i"
    "\<And>j. j < i \<Longrightarrow> \<not> P ([a..<b] ! j)" by (auto simp: find_Some_iff)
  then have k: "k = a + i" by simp
  with i show "a \<le> k" "k < b" "P k" by auto
  fix j assume "a \<le> j" "j < k"
  then show "\<not> P j" using i(1) i(4) [of "j - a"] k by simp
qed

text \<open>The code's boundary test, phrased on offsets, is the abstract one.\<close>

lemma boundary_eq:
  assumes len: "length (utf8 w) < 2 ^ 32" and s: "s \<le> length w" and me: "max_end \<le> length w" "s \<le> max_end"
    and window: "window = take (max_end - s) (drop s w)"
  shows "\<exists>e. piece_end (offsets w) max_end (length (utf8 (take s w)) + l) (s + 1) = Inr e \<and>
    (case char_boundary window l of
       None \<Rightarrow> e > max_end \<or> (\<exists>o'. rdR (offsets w) e = Inr o' \<and> unat o' \<noteq> length (utf8 (take s w)) + l)
     | Some k \<Rightarrow> e = s + k \<and> 0 < k \<and> k \<le> max_end - s \<and>
         (\<exists>o'. rdR (offsets w) e = Inr o' \<and> unat o' = length (utf8 (take s w)) + l))"
proof -
  let ?t = "length (utf8 (take s w)) + l"
  have off: "length (utf8 (take (s + k) w)) = length (utf8 (take s w)) + length (utf8 (take k window))"
    if "k \<le> max_end - s" for k
    using that window take_add [of s k w] by (simp add: min_def)
  have wl: "length window = max_end - s" using window me s by simp
  have "s + 1 \<le> Suc max_end" using me(2) by simp
  from piece_end_eq [OF len me(1) this, of ?t] obtain e where
    e: "piece_end (offsets w) max_end ?t (s + 1) = Inr e" "s + 1 \<le> e" "e \<le> Suc max_end"
    and below: "\<And>j. s + 1 \<le> j \<Longrightarrow> j < e \<Longrightarrow> length (utf8 (take j w)) < ?t"
    and above: "e \<le> max_end \<Longrightarrow> ?t \<le> length (utf8 (take e w))" by blast
  show ?thesis
  proof (cases "char_boundary window l")
    case None
    have none: "length (utf8 (take k window)) \<noteq> l" if "0 < k" "k \<le> max_end - s" for k
      using None that wl by (simp add: char_boundary_def find_None_iff del: upt_Suc)
    have "\<exists>o'. rdR (offsets w) e = Inr o' \<and> unat o' \<noteq> ?t" if "e \<le> max_end"
    proof -
      obtain o' where "rdR (offsets w) e = Inr o'" "unat o' = length (utf8 (take e w))"
        using offsets_rd [of e w] len me(1) \<open>e \<le> max_end\<close> by auto
      moreover have "length (utf8 (take e w)) \<noteq> ?t"
        using none [of "e - s"] off [of "e - s"] e(2) \<open>e \<le> max_end\<close> by simp
      ultimately show ?thesis by auto
    qed
    then show ?thesis using e(1) None by (cases "e \<le> max_end") auto
  next
    case (Some k)
    note k = find_upt_first [OF Some [unfolded char_boundary_def]]
    have kb: "0 < k" "k \<le> max_end - s" using k(1,2) wl by auto
    have at: "length (utf8 (take (s + k) w)) = ?t" using off [OF kb(2)] k(3) by simp
    have "e = s + k"
    proof (rule ccontr)
      assume ne: "e \<noteq> s + k"
      consider "s + k < e" | "e < s + k" using ne by linarith
      then show False
      proof cases
        case 1
        then show False using below [of "s + k"] at kb(1) by simp
      next
        case 2
        then have "e \<le> max_end" using kb(2) me(2) by linarith
        moreover have "length (utf8 (take e w)) < length (utf8 (take (s + k) w))"
          using 2 kb(2) me by (intro utf8_take_less) auto
        ultimately show False using above at by simp
      qed
    qed
    moreover obtain o' where "rdR (offsets w) (s + k) = Inr o'" "unat o' = length (utf8 (take (s + k) w))"
      using offsets_rd [of "s + k" w] len kb(2) me by (auto simp: le_diff_conv2 add.commute)
    ultimately show ?thesis using e(1) Some kb at by auto
  qed
qed

text \<open>
  What a word does to the token state: \<open>n\<close> is the number of ids before the word, to which an unknown
  word returns.
\<close>

definition word_effect ::
  "se_model \<Rightarrow> nat \<Rightarrow> token_state \<Rightarrow> pieces \<Rightarrow> wordpiece_status \<times> token_state \<Rightarrow> bool" where
  "word_effect m n st out r =
     ((length (ts_ids st) < 2 ^ 32 \<longrightarrow> fst r = WORDPIECE_OK \<longrightarrow> length (ts_ids (snd r)) < 2 ^ 32) \<and>
      (case out of
        Pieces toks \<Rightarrow> fst r = WORDPIECE_OK \<and> same_tokens (st\<lparr>ts_ids := ts_ids st @ toks\<rparr>) (snd r)
      | Unknown \<Rightarrow> fst r = WORDPIECE_OK \<and>
          same_tokens (st\<lparr>ts_ids := take n (ts_ids st) @ [mt_unk_id (md_meta m)], ts_n_unk := ts_n_unk st + 1\<rparr>)
            (snd r)
      | BadBoundary \<Rightarrow> fst r = WORDPIECE_INVALID))"

text \<open>\<open>lim\<close> bounds the work that can run out of memory.\<close>

definition word_result ::
  "se_env \<Rightarrow> se_model \<Rightarrow> nat \<Rightarrow> nat \<Rightarrow> token_state \<Rightarrow> pieces \<Rightarrow>
   (wordpiece_status \<times> token_state) se_result \<Rightarrow> bool" where
  "word_result env m lim n st out res =
     (\<exists>r. res = Inr r \<and> (fst r = WORDPIECE_OOM \<and> may_fail env lim \<or> word_effect m n st out r))"

lemma word_effect_same:
  assumes "same_tokens st st'"
  shows "word_effect m n st' out r = word_effect m n st out r"
  using assms by (auto simp: word_effect_def same_tokens_def split: pieces.splits)

lemma word_result_same: "same_tokens st st' \<Longrightarrow> word_result env m lim n st' out res = word_result env m lim n st out res"
  by (simp add: word_result_def word_effect_same)

lemma word_result_unk:
  assumes "tc_model cfg = m" "n \<le> length (ts_ids st)" "n \<le> lim" "ts_n_unk st0 = ts_n_unk st" "ts_ids st0 = take n (ts_ids st)"
    "ts_segment st0 = ts_segment st" "ts_segment_ascii st0 = ts_segment_ascii st"
    "ts_truncated st0 = ts_truncated st" "ts_polls st0 = ts_polls st"
  shows "word_result (tc_env cfg) m lim n st Unknown (push_unk cfg st0)"
  using push_unk_cases [of cfg st0] assms
  by (auto simp: word_result_def word_effect_def same_tokens_def intro: may_fail_mono)

text \<open>Pushing one piece before the pieces of the rest.\<close>

lemma word_result_push:
  assumes "same_tokens (st\<lparr>ts_ids := ts_ids st @ [tok]\<rparr>) st'" "n \<le> length (ts_ids st)"
    and "length (ts_ids st) < 2 ^ 32 - 1" and "word_result env m lim n st' out res"
  shows "word_result env m lim n st (case out of Pieces toks \<Rightarrow> Pieces (tok # toks) | r \<Rightarrow> r) res"
proof -
  from assms(4) obtain r where r: "res = Inr r"
    "fst r = WORDPIECE_OOM \<and> may_fail env lim \<or> word_effect m n st' out r" by (auto simp: word_result_def)
  have len: "length (ts_ids st') < 2 ^ 32" using assms(1,3) by (simp add: same_tokens_def)
  from r(2) show ?thesis
  proof
    assume "word_effect m n st' out r"
    then have "word_effect m n st (case out of Pieces toks \<Rightarrow> Pieces (tok # toks) | r \<Rightarrow> r) r"
      using assms(1,2) len by (cases out) (auto simp: word_effect_def same_tokens_def)
    then show ?thesis using r(1) by (simp add: word_result_def)
  qed (simp add: r(1) word_result_def)
qed

lemma greedy_loop_result:
  assumes m: "tc_model cfg = m"
    and ok: "trie_ok v (md_root_trie m)" "trie_ok v (md_cont_trie m)"
    and len: "length (utf8 w) < 2 ^ 32" and mtc: "mt_max_token_chars (md_meta m) \<noteq> 0"
  shows "start \<le> length w \<Longrightarrow> n \<le> length (ts_ids st) \<Longrightarrow> length (ts_ids st) \<le> n + start \<Longrightarrow>
    word_result (tc_env cfg) m (n + length w) n st (greedy_pieces m (start = 0) (drop start w))
      (greedy_loop cfg (utf8 w) (offsets w) (length w) n start st)"
proof (induction "length w - start" arbitrary: start st rule: less_induct)
  case less
  show ?case
  proof (cases "start < length w")
    case False
    then show ?thesis
      using less.prems by (subst greedy_loop.simps) (simp add: word_result_def word_effect_def)
  next
    case True
    let ?mtc = "unat (mt_max_token_chars (md_meta m))"
    define max_end where "max_end = min (start + ?mtc) (length w)"
    define window where "window = take (max_end - start) (drop start w)"
    define t where "t = (if start = 0 then md_root_trie m else md_cont_trie m)"
    have mtc_pos: "0 < ?mtc" using mtc by (simp add: unat_gt_0)
    have me: "max_end \<le> length w" "start < max_end"
      using True mtc_pos by (auto simp: max_end_def)
    have win: "window = take ?mtc (drop start w)"
      using True by (auto simp: window_def max_end_def min_def)
    obtain c cs where ccs: "drop start w = c # cs" using True by (cases "drop start w") auto
    obtain off where off: "rdR (offsets w) start = Inr off" "unat off = length (utf8 (take start w))"
      using offsets_rd [of start w] True len by auto
    obtain mo where mo: "rdR (offsets w) max_end = Inr mo" "unat mo = length (utf8 (take max_end w))"
      using offsets_rd [of max_end w] me len by auto
    have bw: "byte_window (utf8 w) off mo = Inr (utf8 window)"
      unfolding window_def using byte_window_eq [OF _ me(1) off(2) mo(2)] me(2) by simp
    have "se_trie_longest_match t (utf8 window) = Inr (longest_word (trie_word t) (utf8 window))"
      using ok by (auto simp: t_def intro: longest_match_eq)
    then have lm: "se_trie_longest_match (if 0 < start then md_cont_trie m else md_root_trie m) (utf8 window) =
        Inr (longest_word (trie_word t) (utf8 window))"
      by (cases "start = 0") (simp_all add: t_def)
    have gp: "greedy_pieces m (start = 0) (drop start w) =
       (case longest_word (trie_word t) (utf8 window) of
           None \<Rightarrow> Unknown
         | Some (tok, l) \<Rightarrow>
             (case char_boundary window l of
                None \<Rightarrow> BadBoundary
              | Some k \<Rightarrow>
                  (case greedy_pieces m False (drop (k - 1) cs) of
                     Pieces toks \<Rightarrow> Pieces (tok # toks)
                   | r \<Rightarrow> r)))"
      unfolding ccs greedy_pieces.simps Let_def win t_def by simp
    note step = greedy_loop.simps [of cfg "utf8 w" "offsets w" "length w" n start st, unfolded Let_def m,
        folded max_end_def, unfolded off(1) mo(1) bindR_Inr bw lm]
    show ?thesis
    proof (cases "longest_word (trie_word t) (utf8 window)")
      case None
      then show ?thesis
        unfolding gp step using True less.prems(2) m by (simp add: word_result_unk)
    next
      case (Some p)
      obtain tok l where p: "p = (tok, l)" by (cases p)
      obtain e where pe: "piece_end (offsets w) max_end (length (utf8 (take start w)) + l) (start + 1) = Inr e"
        and cb: "case char_boundary window l of
           None \<Rightarrow> e > max_end \<or> (\<exists>o'. rdR (offsets w) e = Inr o' \<and> unat o' \<noteq> length (utf8 (take start w)) + l)
         | Some k \<Rightarrow> e = start + k \<and> 0 < k \<and> k \<le> max_end - start \<and>
             (\<exists>o'. rdR (offsets w) e = Inr o' \<and> unat o' = length (utf8 (take start w)) + l)"
        using boundary_eq [OF len less.prems(1) me(1) _ window_def, of l] me(2) by auto
      show ?thesis
      proof (cases "char_boundary window l")
        case None
        then show ?thesis
          unfolding gp step using True Some p pe cb off(2)
          by (auto simp: word_result_def word_effect_def)
      next
        case (Some k)
        with cb obtain o' where e: "e = start + k" "0 < k" "k \<le> max_end - start"
          and o': "rdR (offsets w) e = Inr o'" "unat o' = length (utf8 (take start w)) + l" by auto
        have e_le: "e \<le> max_end" "e \<le> length w" using e me by auto
        have rest: "drop (k - 1) cs = drop e w"
        proof -
          have "drop (k - 1) cs = drop k (c # cs)" using e(2) by (cases k) auto
          then show ?thesis unfolding ccs [symmetric] e(1) by (simp add: add.commute)
        qed
        have run: "greedy_loop cfg (utf8 w) (offsets w) (length w) n start st =
          bindR (push_id cfg st tok) (\<lambda>r. case r of
              None \<Rightarrow> Inr (WORDPIECE_OOM, st)
            | Some st \<Rightarrow> greedy_loop cfg (utf8 w) (offsets w) (length w) n e st)"
          unfolding step using True \<open>longest_word _ _ = Some p\<close> p pe off(2) o' e_le by simp
        have "greedy_pieces m (start = 0) (drop start w) =
           (case greedy_pieces m (e = 0) (drop e w) of Pieces toks \<Rightarrow> Pieces (tok # toks) | r \<Rightarrow> r)"
          unfolding gp using \<open>longest_word _ _ = Some p\<close> p Some rest e(1,2) by simp
        moreover have "word_result (tc_env cfg) m (n + length w) n st
            (case greedy_pieces m (e = 0) (drop e w) of Pieces toks \<Rightarrow> Pieces (tok # toks) | r \<Rightarrow> r)
            (greedy_loop cfg (utf8 w) (offsets w) (length w) n start st)"
          using push_id_cases [of cfg st tok]
        proof (elim disjE exE conjE)
          assume "push_id cfg st tok = Inr None" "may_fail (tc_env cfg) (length (ts_ids st))"
          moreover have "length (ts_ids st) \<le> n + length w" using less.prems by linarith
          ultimately show ?thesis unfolding run by (auto simp: word_result_def intro: may_fail_mono)
        next
          fix st' assume st': "push_id cfg st tok = Inr (Some st')"
            "same_tokens (st\<lparr>ts_ids := ts_ids st @ [tok]\<rparr>) st'" and small: "length (ts_ids st) < 2 ^ 32 - 1"
          have "length w - e < length w - start" using e e_le True by simp
          moreover have "n \<le> length (ts_ids st')" "length (ts_ids st') \<le> n + e"
            using less.prems(2,3) same_tokens_simps(1) [OF st'(2)] e by simp_all
          ultimately have "word_result (tc_env cfg) m (n + length w) n st' (greedy_pieces m (e = 0) (drop e w))
             (greedy_loop cfg (utf8 w) (offsets w) (length w) n e st')"
            using e_le(2) by (intro less.hyps) auto
          from word_result_push [OF st'(2) less.prems(2) small this] show ?thesis
            unfolding run using st'(1) by simp
        qed
        ultimately show ?thesis by simp
      qed
    qed
  qed
qed

text \<open>The step computes the outcome of the word, unless memory runs out.\<close>

lemma wordpiece_result:
  assumes m: "tc_model cfg = m" and ok: "model_ok m" and ka: "ka \<longrightarrow> list_all (\<lambda>cp. cp < 0x80) w"
  shows "word_result (tc_env cfg) m (length (ts_ids st) + length w) (length (ts_ids st)) st (word_outcome m w)
    (wordpiece cfg st w ka)"
proof -
  let ?mtc = "unat (mt_max_token_chars (md_meta m))" and ?mic = "unat (mt_max_input_chars_per_word (md_meta m))"
  have mtc: "mt_max_token_chars (md_meta m) \<noteq> 0" and le: "?mtc \<le> ?mic"
    using ok by (auto simp: model_ok_def meta_ok_def word_le_nat_alt)
  have tries: "trie_ok (mt_vocab_size (md_meta m)) (md_root_trie m)" "trie_ok (mt_vocab_size (md_meta m)) (md_cont_trie m)"
    and hash: "hash_table_ok m" using ok by (auto simp: model_ok_def)
  consider "w = []" | "w \<noteq> []" "length w > ?mic" | "w \<noteq> []" "length w \<le> ?mic" by linarith
  then show ?thesis
  proof cases
    case 1
    then show ?thesis by (simp add: wordpiece_def word_outcome_def word_result_def word_effect_def)
  next
    case 2
    then show ?thesis using m by (simp add: wordpiece_def word_outcome_def word_result_unk Let_def)
  next
    case 3
    have len: "length w < 2 ^ 32"
      using 3 u32_bound [of "mt_max_input_chars_per_word (md_meta m)"] by linarith
    have out: "word_outcome m w = (case (if length w \<le> ?mtc then vocab_find m (utf8 w) else None) of
        Some tok \<Rightarrow> Pieces [tok] | None \<Rightarrow> greedy_pieces m True w)"
      using 3 by (simp add: word_outcome_def)
    have step: "wordpiece cfg st w ka = bindR (encode_word cfg st w ka) (\<lambda>enc.
        case enc of
          None \<Rightarrow> Inr (WORDPIECE_OOM, st)
        | Some (bytes, cps2, st) \<Rightarrow>
            bindR (if length w \<le> ?mtc then se_vocab_lookup m bytes else Inr None) (\<lambda>exact.
              case exact of
                Some exact_id \<Rightarrow>
                  bindR (push_id cfg st exact_id) (\<lambda>r. case r of
                      None \<Rightarrow> Inr (WORDPIECE_OOM, st)
                    | Some st \<Rightarrow> Inr (WORDPIECE_OK, st))
              | None \<Rightarrow> greedy_loop cfg bytes cps2 (length w) (length (ts_ids st)) 0 st))"
      using 3 by (simp add: wordpiece_def m Let_def)
    show ?thesis
      using encode_word_cases [OF len ka 3(1), where cfg = cfg and st = st]
    proof (elim disjE exE conjE)
      assume "encode_word cfg st w ka = Inr None" "may_fail (tc_env cfg) (length w)"
      then show ?thesis unfolding step by (auto simp: word_result_def intro: may_fail_mono)
    next
      fix st' assume enc: "encode_word cfg st w ka = Inr (Some (utf8 w, offsets w, st'))"
        and same: "same_tokens st st'" and u: "length (utf8 w) < 2 ^ 32"
      have look: "(if length w \<le> ?mtc then se_vocab_lookup m (utf8 w) else Inr None) =
          Inr (if length w \<le> ?mtc then vocab_find m (utf8 w) else None)"
        using vocab_lookup_eq [OF hash u] by simp
      show ?thesis
      proof (cases "if length w \<le> ?mtc then vocab_find m (utf8 w) else None")
        case None
        have "word_result (tc_env cfg) m (length (ts_ids st') + length w) (length (ts_ids st')) st' (greedy_pieces m True w)
            (greedy_loop cfg (utf8 w) (offsets w) (length w) (length (ts_ids st')) 0 st')"
          using greedy_loop_result [OF m tries u mtc, of 0 "length (ts_ids st')" st'] by simp
        then show ?thesis
          unfolding step out using None same
          by (simp add: enc look word_result_same same_tokens_simps(1) [OF same])
      next
        case (Some tok)
        then show ?thesis
          unfolding step out using push_id_cases [of cfg st' tok] same
          by (auto simp: enc look word_result_def word_effect_def same_tokens_def may_fail_def)
      qed
    qed
  qed
qed

subsection \<open>The pieces of a word\<close>

text \<open>
  \<open>cover m first w toks ws\<close>: the pieces \<open>ws\<close> spell \<open>w\<close>, and each is a word of the trie it was
  looked up in, under the token at its position.
\<close>

fun piece_cover :: "se_model \<Rightarrow> bool \<Rightarrow> u32 list list \<Rightarrow> u32 list \<Rightarrow> bool" where
  "piece_cover m first [] toks = (toks = [])"
| "piece_cover m first (p # ps) [] = False"
| "piece_cover m first (p # ps) (tok # toks) =
     (p \<noteq> [] \<and> length p \<le> unat (mt_max_token_chars (md_meta m)) \<and>
      trie_word (if first then md_root_trie m else md_cont_trie m) (utf8 p) = Some tok \<and>
      piece_cover m False ps toks)"

lemma greedy_pieces_cover:
  "greedy_pieces m first w = Pieces toks \<Longrightarrow> \<exists>ps. concat ps = w \<and> piece_cover m first ps toks"
proof (induction "length w" arbitrary: w first toks rule: less_induct)
  case less
  show ?case
  proof (cases w)
    case Nil
    then show ?thesis using less.prems by (intro exI [of _ "[]"]) simp
  next
    case (Cons c cs)
    let ?mtc = "unat (mt_max_token_chars (md_meta m))"
    let ?t = "if first then md_root_trie m else md_cont_trie m"
    from less.prems Cons obtain tok l k toks' where
      l: "longest_word (trie_word ?t) (utf8 (take ?mtc w)) = Some (tok, l)"
      and k: "char_boundary (take ?mtc w) l = Some k"
      and rest: "greedy_pieces m False (drop (k - 1) cs) = Pieces toks'" and toks: "toks = tok # toks'"
      by (auto simp: greedy_pieces.simps(2) Let_def split: option.splits pieces.splits)
    note f = find_upt_first [OF k [unfolded char_boundary_def]]
    have kw: "0 < k" "k \<le> length w" "k \<le> ?mtc" using f(1,2) by auto
    have drop: "drop (k - 1) cs = drop k w" using kw(1) Cons by (cases k) auto
    have take: "take k (take ?mtc w) = take k w" using kw(3) by (simp add: min_def)
    have pre: "utf8 (take k w) = take l (utf8 (take ?mtc w))"
      using utf8_split [of "take ?mtc w" k] f(3) take by (metis append_eq_conv_conj)
    have "length (drop k w) < length w" using kw by simp
    from less.hyps [OF this rest [unfolded drop]] obtain ps where
      ps: "concat ps = drop k w" "piece_cover m False ps toks'" by blast
    have "trie_word ?t (utf8 (take k w)) = Some tok" unfolding pre by (rule longest_word_Some(3) [OF l])
    then show ?thesis
      using kw ps toks by (intro exI [of _ "take k w # ps"]) auto
  qed
qed

lemma piece_cover_length: "piece_cover m first ps toks \<Longrightarrow> length toks \<le> length (concat ps)"
proof (induction m first ps toks rule: piece_cover.induct)
  case (3 m first p ps tok toks)
  then show ?case by (cases p) auto
qed auto

lemma word_outcome_length:
  assumes "word_outcome m w = Pieces toks"
  shows "length toks \<le> length w"
proof -
  from assms consider "length toks \<le> 1" "w \<noteq> []" | "w = []" "toks = []" | "greedy_pieces m True w = Pieces toks"
    by (auto simp: word_outcome_def split: if_splits option.splits)
  then show ?thesis
  proof cases
    case 1
    then show ?thesis by (cases w) auto
  next
    case 3
    then show ?thesis using greedy_pieces_cover piece_cover_length by blast
  qed simp
qed

subsection \<open>The example model\<close>

definition example_cfg :: token_cfg where
  "example_cfg = \<lparr>tc_model = example_model, tc_max_tokens = 4, tc_limit_mode = SE_TOKEN_LIMIT_USABLE, tc_env = example_env\<rparr>"

definition example_state :: token_state where
  "example_state = \<lparr>ts_scratch = se_scratch_init, ts_calls = 0, ts_polls = 0, ts_ids = [], ts_n_unk = 0,
     ts_segment = [], ts_segment_ascii = True, ts_truncated = False\<rparr>"

lemma example_find: "vocab_find example_model [0x61, 0x62] = None"
  by (simp add: vocab_find_def se_hash_bytes_def probe_slots_def example_model_def example_base_def
    example_meta_def example_slots_def slot_used_def slot_string_def example_strings_def Let_def)

lemma example_pieces: "word_outcome example_model [0x61, 0x62] = Pieces [2, 3]"
  using example_find
  by (simp add: word_outcome_def utf8_def se_utf8_encode_def greedy_pieces.simps(2) longest_word_def trie_word_def
    token_at_def trie_step_def child_of_def node_edges_def example_model_def example_base_def example_meta_def
    example_trie_def upt_rec char_boundary_def Let_def)

lemma example_wordpiece:
  "\<exists>st'. wordpiece example_cfg example_state [0x61, 0x62] True = Inr (WORDPIECE_OK, st') \<and>
     ts_ids st' = [2, 3] \<and> ts_n_unk st' = 0"
  using wordpiece_result [of example_cfg example_model True "[0x61, 0x62]" example_state]
  by (auto simp: example_cfg_def example_model_ok example_pieces may_fail_def alloc_ok_def example_env_def
      example_state_def word_result_def word_effect_def same_tokens_def)

subsection \<open>Properties\<close>

text \<open>
  Property C16: on a loaded model the WordPiece step does what the algorithm says.  A word longer than
  the limit gives the unknown token, a word in the vocabulary its id, any other word the ids of its
  greedy longest matches; an unmatched rest withdraws the ids already pushed for the word and counts
  one unknown token.  The step stays inside its buffers, and it reports that memory ran out only when
  an allocation failed or the sequence has \<open>2 ^ 30\<close> elements.
\<close>

theorem wordpiece_exact:
  assumes "model_ok (tc_model cfg)" and "known_ascii \<longrightarrow> list_all (\<lambda>cp. cp < 0x80) word"
  shows "\<exists>status st'. wordpiece cfg st word known_ascii = Inr (status, st') \<and>
    (status = WORDPIECE_OOM \<and> may_fail (tc_env cfg) (length (ts_ids st) + length word) \<or>
     (case word_outcome (tc_model cfg) word of
        Pieces toks \<Rightarrow> status = WORDPIECE_OK \<and> ts_ids st' = ts_ids st @ toks \<and> ts_n_unk st' = ts_n_unk st
      | Unknown \<Rightarrow> status = WORDPIECE_OK \<and>
          ts_ids st' = ts_ids st @ [mt_unk_id (md_meta (tc_model cfg))] \<and> ts_n_unk st' = ts_n_unk st + 1
      | BadBoundary \<Rightarrow> status = WORDPIECE_INVALID))"
proof -
  from wordpiece_result [OF refl assms(1,2), of st] obtain status st' where
    run: "wordpiece cfg st word known_ascii = Inr (status, st')"
    and eff: "status = WORDPIECE_OOM \<and> may_fail (tc_env cfg) (length (ts_ids st) + length word) \<or>
      word_effect (tc_model cfg) (length (ts_ids st)) st (word_outcome (tc_model cfg) word) (status, st')"
    by (auto simp: word_result_def)
  then show ?thesis
    unfolding run by (cases "word_outcome (tc_model cfg) word") (simp_all add: word_effect_def same_tokens_def, blast+)
qed

theorem wordpiece_exact_witness:
  "\<exists>st'. wordpiece example_cfg example_state [0x61, 0x62] True = Inr (WORDPIECE_OK, st') \<and>
     ts_ids st' = [2, 3] \<and> ts_n_unk st' = 0"
  using wordpiece_exact [of example_cfg True "[0x61, 0x62]" example_state]
  by (simp add: example_cfg_def example_model_ok example_pieces may_fail_def alloc_ok_def example_env_def
      example_state_def)

text \<open>
  Property C17: the ids a word is replaced by spell the word.  When no unknown token was counted, the word is
  the concatenation of non-empty pieces, the first a word of the root trie and the others words of the
  continuation trie, under exactly the ids pushed; or the word is in the vocabulary under the one id pushed.
\<close>

theorem wordpiece_spells_word:
  assumes "wordpiece cfg st word known_ascii = Inr (WORDPIECE_OK, st')" and "word \<noteq> []"
    and "model_ok (tc_model cfg)" and "known_ascii \<longrightarrow> list_all (\<lambda>cp. cp < 0x80) word"
    and "ts_n_unk st' = ts_n_unk st"
  shows "\<exists>toks. ts_ids st' = ts_ids st @ toks \<and>
    ((\<exists>tok. toks = [tok] \<and> vocab_find (tc_model cfg) (utf8 word) = Some tok) \<or>
     (\<exists>ps. concat ps = word \<and> piece_cover (tc_model cfg) True ps toks))"
proof -
  have eff: "word_effect (tc_model cfg) (length (ts_ids st)) st (word_outcome (tc_model cfg) word) (WORDPIECE_OK, st')"
    using wordpiece_result [OF refl assms(3,4), of st] assms(1) by (auto simp: word_result_def)
  obtain toks where out: "word_outcome (tc_model cfg) word = Pieces toks" and ids: "ts_ids st' = ts_ids st @ toks"
  proof (cases "word_outcome (tc_model cfg) word")
    case (Pieces toks)
    then show thesis using eff that by (simp add: word_effect_def same_tokens_def)
  next
    case Unknown
    then show thesis using eff assms(5) by (simp add: word_effect_def same_tokens_def)
  next
    case BadBoundary
    then show thesis using eff by (simp add: word_effect_def)
  qed
  from out assms(2) have "(\<exists>tok. toks = [tok] \<and> vocab_find (tc_model cfg) (utf8 word) = Some tok) \<or>
      greedy_pieces (tc_model cfg) True word = Pieces toks"
    by (auto simp: word_outcome_def split: if_splits option.splits)
  then show ?thesis
  proof
    assume "greedy_pieces (tc_model cfg) True word = Pieces toks"
    from greedy_pieces_cover [OF this] ids show ?thesis by blast
  qed (use ids in blast)
qed

theorem wordpiece_spells_word_witness:
  "\<exists>ps. concat ps = [0x61, 0x62] \<and> piece_cover example_model True ps [2, 3]"
proof -
  obtain st' where run: "wordpiece example_cfg example_state [0x61, 0x62] True = Inr (WORDPIECE_OK, st')"
    and st': "ts_ids st' = [2, 3]" "ts_n_unk st' = 0"
    using example_wordpiece by blast
  show ?thesis
    using wordpiece_spells_word [OF run] st' example_find example_model_ok
    by (simp add: example_cfg_def example_state_def utf8_def se_utf8_encode_def)
qed

end
