(* ===== verification/Tokenizer.thy ===== *)
theory Tokenizer
  imports Wordpiece
begin

text \<open>
  The tokenizer of \<^verbatim>\<open>se_tokenizer.c\<close>: normalization of code points, segmentation into words, added
  tokens, the token limit, the fast path for runs of ASCII bytes, and \<^verbatim>\<open>se_tokenize\<close>.  A result
  \<open>(st, stop)\<close> carries the new value of \<^verbatim>\<open>*stop\<close>, which is 0 at every call.  Theory
  \<open>TokenizeSpec\<close> relates these definitions to a specification on code points.
\<close>

type_synonym step_result = "(token_state \<times> bool) se_result"

subsection \<open>Errors, cancellation, segments\<close>

definition oom :: "'a se_result" where
  "oom = Inl (SeError SE_ERR_OOM ''out of memory while %s'')"

definition operation_cancelled :: "'a se_result" where
  "operation_cancelled = Inl (SeError SE_ERR_INTERNAL ''operation cancelled'')"

definition token_cancelled :: "token_cfg \<Rightarrow> token_state \<Rightarrow> token_state \<times> bool" where
  "token_cancelled cfg st = (st\<lparr>ts_polls := ts_polls st + 1\<rparr>, env_cancelled (tc_env cfg) (ts_polls st))"

text \<open>\<open>None\<close> is the return of 0.\<close>

definition append_segment_cp :: "token_cfg \<Rightarrow> token_state \<Rightarrow> u32 \<Rightarrow> token_state option" where
  "append_segment_cp cfg st cp =
     (let st = (if cp \<ge> 0x80 then st\<lparr>ts_segment_ascii := False\<rparr> else st);
          segment_len = length (ts_segment st)
      in case grow_u32 (tc_env cfg) (ts_calls st) (sc_cps_cap (ts_scratch st)) (word_of_nat segment_len + 1) of
           (calls, None) \<Rightarrow> None
         | (calls, Some cap) \<Rightarrow>
             if word_of_nat segment_len \<ge> cap then None
             else Some (st\<lparr>ts_calls := calls, ts_scratch := (ts_scratch st)\<lparr>sc_cps_cap := cap\<rparr>,
                          ts_segment := ts_segment st @ [cp]\<rparr>))"

subsection \<open>The token limit\<close>

definition limited_token_count :: "token_cfg \<Rightarrow> token_state \<Rightarrow> size_t" where
  "limited_token_count cfg st =
     (if tc_limit_mode cfg = SE_TOKEN_LIMIT_USABLE \<and> mt_unk_policy (md_meta (tc_model cfg)) = SE_UNK_DROP
      then word_of_nat (length (ts_ids st)) - ts_n_unk st
      else word_of_nat (length (ts_ids st)))"

text \<open>The scan for the last id to keep; the result is \<open>(keep, kept_unk)\<close>.\<close>

fun usable_scan :: "u32 \<Rightarrow> size_t \<Rightarrow> u32 list \<Rightarrow> nat \<Rightarrow> size_t \<Rightarrow> size_t \<Rightarrow> nat \<times> size_t" where
  "usable_scan unk max_tokens [] k usable kept_unk = (0, kept_unk)"
| "usable_scan unk max_tokens (tok # ids) k usable kept_unk =
     (if tok = unk then usable_scan unk max_tokens ids (k + 1) usable (kept_unk + 1)
      else if usable + 1 = max_tokens then (k + 1, kept_unk)
      else usable_scan unk max_tokens ids (k + 1) (usable + 1) kept_unk)"

definition cap_after_append :: "token_cfg \<Rightarrow> token_state \<Rightarrow> token_state \<times> bool" where
  "cap_after_append cfg st =
     (let meta = md_meta (tc_model cfg); max_tokens = tc_max_tokens cfg in
      if max_tokens = 0 \<or> limited_token_count cfg st \<le> ucast max_tokens then (st, False)
      else if tc_limit_mode cfg = SE_TOKEN_LIMIT_RAW \<or> mt_unk_policy meta \<noteq> SE_UNK_DROP then
        (let dropped_unk = length (filter (\<lambda>tok. tok = mt_unk_id meta) (drop (unat max_tokens) (ts_ids st)))
         in (st\<lparr>ts_n_unk := ts_n_unk st - word_of_nat dropped_unk,
                ts_ids := take (unat max_tokens) (ts_ids st), ts_truncated := True\<rparr>, True))
      else
        (case usable_scan (mt_unk_id meta) (ucast max_tokens) (ts_ids st) 0 0 0 of
           (keep, kept_unk) \<Rightarrow>
             (st\<lparr>ts_ids := take keep (ts_ids st), ts_n_unk := kept_unk, ts_truncated := True\<rparr>, True)))"

subsection \<open>Added tokens and words\<close>

definition added_token_id :: "se_model \<Rightarrow> u32 \<Rightarrow> u32" where
  "added_token_id model added_bit =
     (if added_bit = SE_ADDED_PAD then mt_pad_id (md_meta model)
      else if added_bit = SE_ADDED_UNK then mt_unk_id (md_meta model)
      else if added_bit = SE_ADDED_CLS then mt_cls_id (md_meta model)
      else if added_bit = SE_ADDED_SEP then mt_sep_id (md_meta model)
      else if added_bit = SE_ADDED_MASK then mt_mask_id (md_meta model)
      else SE_SLOT_EMPTY)"

definition SE_ADDED_TOKENS :: "(u32 \<times> u8 list) list" where
  "SE_ADDED_TOKENS =
     [(SE_ADDED_MASK, [0x5B, 0x4D, 0x41, 0x53, 0x4B, 0x5D]),
      (SE_ADDED_PAD, [0x5B, 0x50, 0x41, 0x44, 0x5D]),
      (SE_ADDED_UNK, [0x5B, 0x55, 0x4E, 0x4B, 0x5D]),
      (SE_ADDED_CLS, [0x5B, 0x43, 0x4C, 0x53, 0x5D]),
      (SE_ADDED_SEP, [0x5B, 0x53, 0x45, 0x50, 0x5D])]"

text \<open>The added token at a position.\<close>

fun specs_at :: "se_model \<Rightarrow> u8 list \<Rightarrow> nat \<Rightarrow> (u32 \<times> u8 list) list \<Rightarrow> (u32 \<times> nat) option" where
  "specs_at model input pos [] = None"
| "specs_at model input pos ((added_bit, txt) # specs) =
     (if mt_added_token_mask (md_meta model) AND added_bit = 0 then specs_at model input pos specs
      else if length txt > length input - pos then specs_at model input pos specs
      else if take (length txt) (drop pos input) \<noteq> txt then specs_at model input pos specs
      else Some (added_token_id model added_bit, length txt))"

definition added_at :: "se_model \<Rightarrow> u8 list \<Rightarrow> nat \<Rightarrow> (u32 \<times> nat) option" where
  "added_at model input pos =
     (if mt_added_token_mask (md_meta model) = 0 \<or> pos \<ge> length input \<or> input ! pos \<noteq> 0x5B then None
      else specs_at model input pos SE_ADDED_TOKENS)"

text \<open>\<^verbatim>\<open>memcmp\<close> on two buffers that both must have \<open>n\<close> bytes from \<open>i\<close> on, resp. from the start.\<close>

definition memcmp_at :: "u8 list \<Rightarrow> nat \<Rightarrow> u8 list \<Rightarrow> nat \<Rightarrow> bool se_result" where
  "memcmp_at a i b n =
     (if i + n \<le> length a \<and> n \<le> length b then Inr (take n (drop i a) = take n b) else Inl OutOfBounds)"

fun match_specs :: "se_model \<Rightarrow> u8 list \<Rightarrow> nat \<Rightarrow> (u32 \<times> u8 list) list \<Rightarrow> (u32 \<times> nat) option se_result" where
  "match_specs model input pos [] = Inr None"
| "match_specs model input pos ((added_bit, txt) # specs) =
     (if mt_added_token_mask (md_meta model) AND added_bit = 0 then match_specs model input pos specs
      else if length txt > length input - pos then match_specs model input pos specs
      else bindR (memcmp_at input pos txt (length txt)) (\<lambda>same.
        if \<not> same then match_specs model input pos specs
        else Inr (Some (added_token_id model added_bit, length txt))))"

definition match_added_token :: "se_model \<Rightarrow> u8 list \<Rightarrow> nat \<Rightarrow> (u32 \<times> nat) option se_result" where
  "match_added_token model input pos =
     (if mt_added_token_mask (md_meta model) = 0 \<or> pos \<ge> length input then Inr None
      else bindR (rdR input pos) (\<lambda>b.
        if b \<noteq> 0x5B then Inr None else match_specs model input pos SE_ADDED_TOKENS))"

lemma memcmp_at_Inr [read_simps]:
  "i + n \<le> length a \<Longrightarrow> n \<le> length b \<Longrightarrow> memcmp_at a i b n = Inr (take n (drop i a) = take n b)"
  by (simp add: memcmp_at_def)

lemma match_specs_eq: "pos < length input \<Longrightarrow> match_specs model input pos specs = Inr (specs_at model input pos specs)"
  by (induction model input pos specs rule: match_specs.induct) (auto simp: memcmp_at_Inr)

lemma match_added_token_eq [simp]: "match_added_token model input pos = Inr (added_at model input pos)"
  by (auto simp: match_added_token_def added_at_def match_specs_eq rdR_def)

definition append_direct_id :: "token_cfg \<Rightarrow> token_state \<Rightarrow> u32 \<Rightarrow> step_result" where
  "append_direct_id cfg st tok =
     bindR (push_id cfg st tok) (\<lambda>r. case r of
         None \<Rightarrow> oom
       | Some st \<Rightarrow>
           Inr (cap_after_append cfg
             (if tok = mt_unk_id (md_meta (tc_model cfg)) then st\<lparr>ts_n_unk := ts_n_unk st + 1\<rparr> else st)))"

definition append_wordpiece :: "token_cfg \<Rightarrow> token_state \<Rightarrow> u32 list \<Rightarrow> step_result" where
  "append_wordpiece cfg st word =
     bindR (wordpiece cfg st word (if length word = 1 then hd word < 0x80 else ts_segment_ascii st)) (\<lambda>(wp, st).
       case wp of
         WORDPIECE_OOM \<Rightarrow> oom
       | WORDPIECE_INVALID \<Rightarrow> Inl (SeError SE_ERR_INTERNAL ''invalid WordPiece byte boundary'')
       | WORDPIECE_OK \<Rightarrow> Inr (cap_after_append cfg st))"

definition flush_segment :: "token_cfg \<Rightarrow> token_state \<Rightarrow> step_result" where
  "flush_segment cfg st =
     (if ts_segment st = [] then Inr (st, False)
      else bindR (append_wordpiece cfg st (ts_segment st)) (\<lambda>(st, stop).
        Inr (st\<lparr>ts_segment := [], ts_segment_ascii := True\<rparr>, stop)))"

subsection \<open>Normalization\<close>

text \<open>The return that follows every nested call: an error or a stop ends the caller.\<close>

definition unless_stop :: "step_result \<Rightarrow> (token_state \<Rightarrow> step_result) \<Rightarrow> step_result" where
  "unless_stop r f = bindR r (\<lambda>(st, stop). if stop then Inr (st, True) else f st)"

fun until_stop :: "(u32 \<Rightarrow> token_state \<Rightarrow> step_result) \<Rightarrow> u32 list \<Rightarrow> token_state \<Rightarrow> step_result" where
  "until_stop f [] st = Inr (st, False)"
| "until_stop f (cp # cps) st = unless_stop (f cp st) (until_stop f cps)"

definition entry_out :: "se_map_entry \<Rightarrow> u32 list se_result" where
  "entry_out e = (if unat (me_len e) \<le> length (me_out e) then Inr (take (unat (me_len e)) (me_out e))
                  else Inl OutOfBounds)"

definition feed_token_cp :: "token_cfg \<Rightarrow> token_state \<Rightarrow> u32 \<Rightarrow> step_result" where
  "feed_token_cp cfg st cp =
     bindR (is_whitespace (tc_model cfg) cp) (\<lambda>ws.
       if ws then flush_segment cfg st
       else bindR (is_punct (tc_model cfg) cp) (\<lambda>punct.
         if punct then unless_stop (flush_segment cfg st) (\<lambda>st. append_wordpiece cfg st [cp])
         else case append_segment_cp cfg st cp of None \<Rightarrow> oom | Some st \<Rightarrow> Inr (st, False)))"

definition emit_lowered :: "token_cfg \<Rightarrow> token_state \<Rightarrow> u32 \<Rightarrow> step_result" where
  "emit_lowered cfg st cp =
     (if mt_do_lower_case (md_meta (tc_model cfg)) \<noteq> 0 then
        if cp \<ge> 0x41 \<and> cp \<le> 0x5A then feed_token_cp cfg st (cp + 32)
        else if cp \<ge> 0x80 then
          bindR (lower_entry (tc_model cfg) cp) (\<lambda>e. case e of
              Some e \<Rightarrow> bindR (entry_out e) (\<lambda>out. until_stop (\<lambda>cp st. feed_token_cp cfg st cp) out st)
            | None \<Rightarrow> feed_token_cp cfg st cp)
        else feed_token_cp cfg st cp
      else feed_token_cp cfg st cp)"

definition emit_stripped :: "token_cfg \<Rightarrow> token_state \<Rightarrow> u32 \<Rightarrow> step_result" where
  "emit_stripped cfg st cp =
     (if mt_strip_accents (md_meta (tc_model cfg)) = 0 \<or> cp < 0x80 then emit_lowered cfg st cp
      else bindR (nfd_entry (tc_model cfg) cp) (\<lambda>e. case e of
          None \<Rightarrow> bindR (is_mn (tc_model cfg) cp) (\<lambda>mn.
                    if mn then Inr (st, False) else emit_lowered cfg st cp)
        | Some e \<Rightarrow> bindR (entry_out e) (\<lambda>out.
            until_stop (\<lambda>d st. bindR (is_mn (tc_model cfg) d) (\<lambda>mn.
              if mn then Inr (st, False) else emit_lowered cfg st d)) out st)))"

definition emit_cleaned :: "token_cfg \<Rightarrow> token_state \<Rightarrow> u32 \<Rightarrow> step_result" where
  "emit_cleaned cfg st cp =
     (let m = tc_model cfg; meta = md_meta m in
      bindR (if mt_clean_text meta \<noteq> 0 then
               if cp = 0 \<or> cp = 0xFFFD then Inr None
               else bindR (is_control m cp) (\<lambda>control.
                 if control then Inr None
                 else bindR (is_whitespace m cp) (\<lambda>ws. Inr (Some (if ws then 32 else cp))))
             else Inr (Some cp)) (\<lambda>cleaned.
        case cleaned of
          None \<Rightarrow> Inr (st, False)
        | Some cp \<Rightarrow>
            if mt_handle_chinese_chars meta \<noteq> 0 \<and> cp \<ge> 0x3400 \<and> se_is_cjk cp then
              unless_stop (emit_stripped cfg st 32) (\<lambda>st.
              unless_stop (emit_stripped cfg st cp) (\<lambda>st. emit_stripped cfg st 32))
            else emit_stripped cfg st cp))"

subsection \<open>Runs of ASCII bytes\<close>

datatype se_ascii_class = SE_ASCII_DROP | SE_ASCII_SPACE | SE_ASCII_PUNCT | SE_ASCII_WORD

definition SE_ASCII_CLASS :: "nat list" where
  "SE_ASCII_CLASS =
     [0, 0, 0, 0, 0, 0, 0, 0, 0, 1, 1, 0, 0, 1, 0, 0, 0, 0, 0, 0, 0, 0, 0, 0, 0, 0, 0, 0, 0, 0, 0, 0,
      1, 2, 2, 2, 2, 2, 2, 2, 2, 2, 2, 2, 2, 2, 2, 2, 3, 3, 3, 3, 3, 3, 3, 3, 3, 3, 2, 2, 2, 2, 2, 2,
      2, 3, 3, 3, 3, 3, 3, 3, 3, 3, 3, 3, 3, 3, 3, 3, 3, 3, 3, 3, 3, 3, 3, 3, 3, 3, 3, 2, 2, 2, 2, 2,
      2, 3, 3, 3, 3, 3, 3, 3, 3, 3, 3, 3, 3, 3, 3, 3, 3, 3, 3, 3, 3, 3, 3, 3, 3, 3, 3, 2, 2, 2, 2, 0]"

definition ascii_class :: "u8 \<Rightarrow> se_ascii_class se_result" where
  "ascii_class b = bindR (rdR SE_ASCII_CLASS (unat b)) (\<lambda>c.
     Inr (if c = 0 then SE_ASCII_DROP else if c = 1 then SE_ASCII_SPACE
          else if c = 2 then SE_ASCII_PUNCT else SE_ASCII_WORD))"

function reserve_run :: "u8 list \<Rightarrow> nat \<Rightarrow> nat \<Rightarrow> nat \<Rightarrow> nat se_result" where
  "reserve_run input i limit run =
     (if run < limit then
        bindR (rdR input (i + run)) (\<lambda>b.
          if b < 0x80
          then bindR (ascii_class b) (\<lambda>c.
                 if c = SE_ASCII_WORD then reserve_run input i limit (run + 1) else Inr run)
          else Inr run)
      else Inr run)"
  by pat_completeness auto
termination by (relation "measure (\<lambda>(input, i, limit, run). limit - run)") auto

declare reserve_run.simps [simp del]

definition ascii_word_reserve_len :: "u8 list \<Rightarrow> nat \<Rightarrow> nat se_result" where
  "ascii_word_reserve_len input i =
     (let limit = length input - i; limit = (if limit > 1024 then 1024 else limit)
      in reserve_run input i limit 1)"

text \<open>The word byte at \<open>i\<close> goes into the segment buffer, which grows by the rest of the run.\<close>

definition append_ascii_word :: "token_cfg \<Rightarrow> token_state \<Rightarrow> u8 list \<Rightarrow> nat \<Rightarrow> u8 \<Rightarrow> token_state se_result" where
  "append_ascii_word cfg st input i b =
     (let segment_len = length (ts_segment st); sc = ts_scratch st;
          lc = mt_do_lower_case (md_meta (tc_model cfg)) \<noteq> 0 in
      bindR (if word_of_nat segment_len \<ge> sc_cps_cap sc then
               bindR (ascii_word_reserve_len input i) (\<lambda>n.
                 case grow_u32 (tc_env cfg) (ts_calls st) (sc_cps_cap sc) (word_of_nat segment_len + word_of_nat n) of
                   (calls, None) \<Rightarrow> oom
                 | (calls, Some cap) \<Rightarrow> Inr (st\<lparr>ts_calls := calls, ts_scratch := sc\<lparr>sc_cps_cap := cap\<rparr>\<rparr>))
             else Inr st) (\<lambda>st.
        if word_of_nat segment_len \<ge> sc_cps_cap (ts_scratch st) then oom
        else Inr (st\<lparr>ts_segment := ts_segment st @
                      [if lc \<and> b \<ge> 0x41 \<and> b \<le> 0x5A then ucast b + 32 else ucast b]\<rparr>)))"

lemma match_specs_pos:
  "specs_at model input pos specs = Some (tok, len) \<Longrightarrow> list_all (\<lambda>(_, txt). txt \<noteq> []) specs \<Longrightarrow> 0 < len"
  by (induction model input pos specs rule: specs_at.induct) (auto split: if_splits)

lemma match_added_token_pos: "added_at model input pos = Some (tok, len) \<Longrightarrow> 0 < len"
  by (auto simp: added_at_def SE_ADDED_TOKENS_def simp del: specs_at.simps
      split: if_splits dest!: match_specs_pos)

text \<open>
  One turn of a loop: \<open>Again\<close> goes on at a position with a counter, \<open>Leave\<close> ends the loop at a
  position with the value of \<^verbatim>\<open>*stop\<close>.
\<close>

datatype 'c turn = Again nat 'c token_state | Leave nat bool token_state

definition ascii_added ::
  "token_cfg \<Rightarrow> token_state \<Rightarrow> nat \<Rightarrow> nat \<Rightarrow> u32 \<Rightarrow> nat \<Rightarrow> nat turn se_result" where
  "ascii_added cfg st i next_cancel_check added_id added_len =
     bindR (flush_segment cfg st) (\<lambda>(st, stop).
       if stop then Inr (Leave i True st)
       else bindR (append_direct_id cfg st added_id) (\<lambda>(st, stop).
         Inr (if stop then Leave (i + added_len) True st else Again (i + added_len) next_cancel_check st)))"

definition ascii_byte ::
  "token_cfg \<Rightarrow> token_state \<Rightarrow> u8 list \<Rightarrow> nat \<Rightarrow> nat \<Rightarrow> u8 \<Rightarrow> nat turn se_result" where
  "ascii_byte cfg st input i next_cancel_check b =
     bindR (ascii_class b) (\<lambda>cls.
       if cls = SE_ASCII_WORD then
         bindR (append_ascii_word cfg st input i b) (\<lambda>st. Inr (Again (i + 1) next_cancel_check st))
       else if cls = SE_ASCII_DROP then Inr (Again (i + 1) next_cancel_check st)
       else bindR (flush_segment cfg st) (\<lambda>(st, stop).
         if stop then Inr (Leave i True st)
         else bindR (if cls = SE_ASCII_PUNCT then append_wordpiece cfg st [ucast b] else Inr (st, False))
           (\<lambda>(st, stop). Inr (if stop then Leave (i + 1) True st else Again (i + 1) next_cancel_check st))))"

definition ascii_turn ::
  "token_cfg \<Rightarrow> u8 list \<Rightarrow> nat \<Rightarrow> nat \<Rightarrow> token_state \<Rightarrow> nat turn se_result" where
  "ascii_turn cfg input i next_cancel_check st =
     bindR (rdR input i) (\<lambda>b.
       if b \<ge> 0x80 then Inr (Leave i False st)
       else
         bindR (if b = 0x5B \<and> mt_added_token_mask (md_meta (tc_model cfg)) \<noteq> 0
                then match_added_token (tc_model cfg) input i else Inr None) (\<lambda>added. case added of
            Some (added_id, added_len) \<Rightarrow> ascii_added cfg st i next_cancel_check added_id added_len
          | None \<Rightarrow>
              if i \<ge> next_cancel_check then
                (case token_cancelled cfg st of
                   (st, cancelled) \<Rightarrow>
                     if cancelled then operation_cancelled else ascii_byte cfg st input i (i + 1024) b)
              else ascii_byte cfg st input i next_cancel_check b))"

lemma ascii_added_pos: "ascii_added cfg st i check tok len = Inr (Again i' check' st') \<Longrightarrow> i' = i + len"
  by (auto simp: ascii_added_def bindR_eq_Inr split: if_splits)

lemma ascii_byte_pos: "ascii_byte cfg st input i check b = Inr (Again i' check' st') \<Longrightarrow> i' = i + 1"
  by (auto simp: ascii_byte_def bindR_eq_Inr split: if_splits)

lemma ascii_turn_pos: "ascii_turn cfg input i check st = Inr (Again i' check' st') \<Longrightarrow> i < i'"
  by (auto simp: ascii_turn_def bindR_eq_Inr operation_cancelled_def split: if_splits option.splits prod.splits
      dest!: ascii_added_pos ascii_byte_pos dest: match_added_token_pos)

function ascii_run ::
  "token_cfg \<Rightarrow> u8 list \<Rightarrow> nat \<Rightarrow> nat \<Rightarrow> token_state \<Rightarrow> (token_state \<times> nat \<times> bool) se_result" where
  "ascii_run cfg input i next_cancel_check st =
     (if i < length input then
        bindR (ascii_turn cfg input i next_cancel_check st) (\<lambda>t. case t of
            Again i' check' st' \<Rightarrow> ascii_run cfg input i' check' st'
          | Leave i' stop st' \<Rightarrow> Inr (st', i', stop))
      else Inr (st, i, False))"
  by pat_completeness auto
termination
  by (relation "measure (\<lambda>(cfg, input, i, check, st). length input - i)") (auto dest: ascii_turn_pos)

declare ascii_run.simps [simp del]

definition tokenize_ascii_run ::
  "token_cfg \<Rightarrow> token_state \<Rightarrow> u8 list \<Rightarrow> nat \<Rightarrow> (token_state \<times> nat \<times> bool) se_result" where
  "tokenize_ascii_run cfg st input i = ascii_run cfg input i (i + 1024) st"

lemma ascii_leave_pos: "ascii_turn cfg input i check st = Inr (Leave i' stop st') \<Longrightarrow> i \<le> i'"
  by (auto simp: ascii_turn_def ascii_added_def ascii_byte_def bindR_eq_Inr operation_cancelled_def
      split: if_splits option.splits prod.splits)

lemma ascii_run_ge: "ascii_run cfg input i check st = Inr (st', i', stop) \<Longrightarrow> i \<le> i'"
proof (induction cfg input i check st rule: ascii_run.induct)
  case (1 cfg input i check st)
  show ?case
  proof (cases "i < length input")
    case False
    then show ?thesis using "1.prems" by (simp add: ascii_run.simps [of cfg input i])
  next
    case True
    then obtain t where t: "ascii_turn cfg input i check st = Inr t"
      using "1.prems" by (auto simp: ascii_run.simps [of cfg input i] bindR_eq_Inr)
    show ?thesis
    proof (cases t)
      case (Again j c s)
      then show ?thesis
        using "1.prems" "1.IH" [OF True t Again] ascii_turn_pos [OF t [unfolded Again]] True t
        by (simp add: ascii_run.simps [of cfg input i])
    next
      case (Leave j c s)
      then show ?thesis
        using "1.prems" ascii_leave_pos [OF t [unfolded Leave]] True t
        by (simp add: ascii_run.simps [of cfg input i])
    qed
  qed
qed

subsection \<open>The tokenizer\<close>

record se_token_stats =
  st_token_count :: u32
  st_unk_count :: u32
  st_truncated :: bool

text \<open>One turn at a byte that is not ASCII, or after a run of ASCII bytes.\<close>

definition decode_turn ::
  "token_cfg \<Rightarrow> u8 list \<Rightarrow> nat \<Rightarrow> size_t \<Rightarrow> token_state \<Rightarrow> size_t turn se_result" where
  "decode_turn cfg input i iterations st =
     bindR (decode_one input i) (\<lambda>r. case r of
         None \<Rightarrow> Inl (SeError SE_ERR_INVALID_UTF8 ''input is not valid UTF-8'')
       | Some (cp, i) \<Rightarrow>
           bindR (emit_cleaned cfg st cp) (\<lambda>(st, stop).
             Inr (if stop then Leave i True st else Again i iterations st)))"

definition tokenize_turn ::
  "token_cfg \<Rightarrow> u8 list \<Rightarrow> nat \<Rightarrow> size_t \<Rightarrow> token_state \<Rightarrow> size_t turn se_result" where
  "tokenize_turn cfg input i iterations st =
     (let (st, cancelled) = (if iterations AND 0x3FF = 0 then token_cancelled cfg st else (st, False));
          iterations = iterations + 1 in
      if cancelled then operation_cancelled
      else bindR (rdR input i) (\<lambda>b.
        if b < 0x80 then
          bindR (tokenize_ascii_run cfg st input i) (\<lambda>(st, i, stop).
            if stop then Inr (Leave i True st)
            else if i \<ge> length input then Inr (Leave i False st)
            else decode_turn cfg input i iterations st)
        else decode_turn cfg input i iterations st))"

lemma decode_turn_pos: "decode_turn cfg input i iterations st = Inr (Again i' iterations' st') \<Longrightarrow> i < i'"
  by (auto simp: decode_turn_def bindR_eq_Inr split: if_splits option.splits dest: decode_one_progress)

lemma tokenize_turn_pos: "tokenize_turn cfg input i iterations st = Inr (Again i' iterations' st') \<Longrightarrow> i < i'"
  by (auto simp: tokenize_turn_def Let_def bindR_eq_Inr operation_cancelled_def tokenize_ascii_run_def
      split: if_splits prod.splits dest!: decode_turn_pos ascii_run_ge)

function tokenize_loop ::
  "token_cfg \<Rightarrow> u8 list \<Rightarrow> nat \<Rightarrow> size_t \<Rightarrow> token_state \<Rightarrow> token_state se_result" where
  "tokenize_loop cfg input i iterations st =
     (if i < length input then
        bindR (tokenize_turn cfg input i iterations st) (\<lambda>t. case t of
            Again i' iterations' st' \<Rightarrow> tokenize_loop cfg input i' iterations' st'
          | Leave i' stop st' \<Rightarrow> Inr st')
      else Inr st)"
  by pat_completeness auto
termination
  by (relation "measure (\<lambda>(cfg, input, i, iterations, st). length input - i)") (auto dest: tokenize_turn_pos)

declare tokenize_loop.simps [simp del]

definition token_start :: "se_scratch \<Rightarrow> nat \<Rightarrow> nat \<Rightarrow> token_state" where
  "token_start sc calls polls =
     \<lparr>ts_scratch = sc, ts_calls = calls, ts_polls = polls, ts_ids = [], ts_n_unk = 0,
      ts_segment = [], ts_segment_ascii = True, ts_truncated = False\<rparr>"

definition se_tokenize ::
  "token_cfg \<Rightarrow> se_scratch \<Rightarrow> nat \<Rightarrow> nat \<Rightarrow> u8 list \<Rightarrow> (token_state \<times> se_token_stats) se_result" where
  "se_tokenize cfg sc calls polls input =
     bindR (tokenize_loop cfg input 0 0 (token_start sc calls polls)) (\<lambda>st.
     bindR (if \<not> ts_truncated st then bindR (flush_segment cfg st) (\<lambda>(st, stop). Inr st) else Inr st) (\<lambda>st.
       if length (ts_ids st) > 0xFFFFFFFF \<or> ts_n_unk st > 0xFFFFFFFF
       then Inl (SeError SE_ERR_OOM ''input produced too many tokens'')
       else Inr (st, \<lparr>st_token_count = word_of_nat (length (ts_ids st)), st_unk_count = ucast (ts_n_unk st),
                      st_truncated = ts_truncated st\<rparr>)))"

end
