(* ===== verification/TokenizeSpec.thy ===== *)
theory TokenizeSpec
  imports Tokenizer
begin

text \<open>
  What \<^verbatim>\<open>se_tokenize\<close> computes, on code points: every code point is normalized, the stream is cut into
  words at whitespace and punctuation, every word gives the ids of its outcome, and the sequence
  of ids is cut at the token limit.  The lemmas relate each operation of theory \<open>Tokenizer\<close> to the
  actions it performs; the properties are about whole inputs.
\<close>

subsection \<open>Specification\<close>

datatype action = Word "u32 list" | Direct u32

definition flush_acts :: "u32 list \<Rightarrow> action list" where
  "flush_acts seg = (if seg = [] then [] else [Word seg])"

definition seg_cp :: "se_model \<Rightarrow> u32 list \<Rightarrow> u32 \<Rightarrow> action list \<times> u32 list" where
  "seg_cp m seg cp =
     (if whitespace_cp m cp then (flush_acts seg, [])
      else if punct_cp m cp then (flush_acts seg @ [Word [cp]], [])
      else ([], seg @ [cp]))"

fun seg_cps :: "se_model \<Rightarrow> u32 list \<Rightarrow> u32 list \<Rightarrow> action list \<times> u32 list" where
  "seg_cps m seg [] = ([], seg)"
| "seg_cps m seg (cp # cps) =
     (case seg_cp m seg cp of (a, seg) \<Rightarrow> case seg_cps m seg cps of (b, seg) \<Rightarrow> (a @ b, seg))"

definition lowered :: "se_model \<Rightarrow> u32 \<Rightarrow> u32 list" where
  "lowered m cp =
     (if mt_do_lower_case (md_meta m) = 0 then [cp]
      else if cp \<ge> 0x41 \<and> cp \<le> 0x5A then [cp + 32]
      else if cp < 0x80 then [cp]
      else case lower_cp m cp of None \<Rightarrow> [cp] | Some e \<Rightarrow> take (unat (me_len e)) (me_out e))"

definition stripped :: "se_model \<Rightarrow> u32 \<Rightarrow> u32 list" where
  "stripped m cp =
     (if mt_strip_accents (md_meta m) = 0 \<or> cp < 0x80 then lowered m cp
      else case nfd_cp m cp of
        None \<Rightarrow> if mn_cp m cp then [] else lowered m cp
      | Some e \<Rightarrow> concat (map (\<lambda>d. if mn_cp m d then [] else lowered m d) (take (unat (me_len e)) (me_out e))))"

definition cleaned :: "se_model \<Rightarrow> u32 \<Rightarrow> u32 list" where
  "cleaned m cp =
     (if cp = 0 \<or> cp = 0xFFFD \<or> control_cp m cp then []
      else let cp = (if whitespace_cp m cp then 32 else cp) in
        if mt_handle_chinese_chars (md_meta m) \<noteq> 0 \<and> cp \<ge> 0x3400 \<and> se_is_cjk cp
        then stripped m 32 @ stripped m cp @ stripped m 32 else stripped m cp)"

subsection \<open>Actions on the ids\<close>

definition action_ids :: "se_model \<Rightarrow> action \<Rightarrow> u32 list option" where
  "action_ids m a =
     (case a of
        Direct tok \<Rightarrow> Some [tok]
      | Word w \<Rightarrow> (case word_outcome m w of
                    Pieces toks \<Rightarrow> Some toks | Unknown \<Rightarrow> Some [mt_unk_id (md_meta m)] | BadBoundary \<Rightarrow> None))"

definition drops_unk :: "token_cfg \<Rightarrow> bool" where
  "drops_unk cfg = (tc_limit_mode cfg = SE_TOKEN_LIMIT_USABLE \<and>
     mt_unk_policy (md_meta (tc_model cfg)) = SE_UNK_DROP)"

definition unk_of :: "token_cfg \<Rightarrow> u32" where
  "unk_of cfg = mt_unk_id (md_meta (tc_model cfg))"

definition counted :: "token_cfg \<Rightarrow> u32 list \<Rightarrow> nat" where
  "counted cfg ids = (if drops_unk cfg then length (filter (\<lambda>t. t \<noteq> unk_of cfg) ids) else length ids)"

definition over_limit :: "token_cfg \<Rightarrow> u32 list \<Rightarrow> bool" where
  "over_limit cfg ids = (tc_max_tokens cfg \<noteq> 0 \<and> counted cfg ids > unat (tc_max_tokens cfg))"

fun take_usable :: "u32 \<Rightarrow> nat \<Rightarrow> u32 list \<Rightarrow> u32 list" where
  "take_usable unk n [] = []"
| "take_usable unk n (t # ts) =
     (if n = 0 then [] else t # take_usable unk (if t = unk then n else n - 1) ts)"

definition limit_ids :: "token_cfg \<Rightarrow> u32 list \<Rightarrow> u32 list" where
  "limit_ids cfg ids =
     (if drops_unk cfg then take_usable (unk_of cfg) (unat (tc_max_tokens cfg)) ids
      else take (unat (tc_max_tokens cfg)) ids)"

datatype outcome = Running "u32 list" | Capped "u32 list" | Corrupt

fun run_actions :: "token_cfg \<Rightarrow> u32 list \<Rightarrow> action list \<Rightarrow> outcome" where
  "run_actions cfg ids [] = Running ids"
| "run_actions cfg ids (a # acts) =
     (case action_ids (tc_model cfg) a of
        None \<Rightarrow> Corrupt
      | Some new \<Rightarrow>
          if over_limit cfg (ids @ new) then Capped (limit_ids cfg (ids @ new))
          else run_actions cfg (ids @ new) acts)"

fun weight :: "action list \<Rightarrow> nat" where
  "weight [] = 0"
| "weight (Word w # acts) = length w + weight acts"
| "weight (Direct t # acts) = 1 + weight acts"

lemma run_actions_append:
  "run_actions cfg ids (a @ b) =
     (case run_actions cfg ids a of Running ids' \<Rightarrow> run_actions cfg ids' b | r \<Rightarrow> r)"
  by (induction a arbitrary: ids) (auto split: option.splits)

lemma weight_append [simp]: "weight (a @ b) = weight a + weight b"
  by (induction a rule: weight.induct) auto

lemma flush_acts_simps [simp]: "flush_acts [] = []" "weight (flush_acts seg) = length seg"
  by (auto simp: flush_acts_def)

lemma seg_cp_weight:
  assumes "seg_cp m seg cp = (acts, seg')"
  shows "length seg \<le> weight acts + length seg'" "weight acts + length seg' \<le> length seg + 1"
  using assms by (auto simp: seg_cp_def split: if_splits)

lemma seg_cps_weight:
  "seg_cps m seg cps = (acts, seg') \<Longrightarrow>
     length seg \<le> weight acts + length seg' \<and> weight acts + length seg' \<le> length seg + length cps"
proof (induction cps arbitrary: seg acts)
  case (Cons cp cps)
  obtain a s b where a: "seg_cp m seg cp = (a, s)" and b: "seg_cps m s cps = (b, seg')" and acts: "acts = a @ b"
    using Cons.prems by (auto split: prod.splits)
  from seg_cp_weight [OF a] Cons.IH [OF b] show ?case by (simp add: acts)
qed simp

lemma seg_cps_append:
  "seg_cps m seg (xs @ ys) =
     (case seg_cps m seg xs of (a, s) \<Rightarrow> case seg_cps m s ys of (b, s') \<Rightarrow> (a @ b, s'))"
  by (induction xs arbitrary: seg) (auto split: prod.splits)

lemma action_ids_le:
  assumes "action_ids m a = Some new"
  shows "length new \<le> weight [a]"
proof (cases "a = Word []")
  case True
  then show ?thesis using assms by (auto simp: action_ids_def word_outcome_def)
next
  case False
  show ?thesis
  proof (cases a)
    case (Word w)
    then have "w \<noteq> []" using False by simp
    then show ?thesis using assms Word word_outcome_length [of m w]
      by (cases w) (auto simp: action_ids_def split: pieces.splits)
  qed (use assms in \<open>auto simp: action_ids_def\<close>)
qed

lemma run_actions_length: "run_actions cfg ids acts = Running ids' \<Longrightarrow> length ids' \<le> length ids + weight acts"
proof (induction acts arbitrary: ids)
  case (Cons a acts)
  then obtain new where new: "action_ids (tc_model cfg) a = Some new"
    and rec: "run_actions cfg (ids @ new) acts = Running ids'" by (auto split: option.splits if_splits)
  have "weight (a # acts) = weight [a] + weight acts" by (cases a) auto
  then show ?case using Cons.IH [OF rec] action_ids_le [OF new] by simp
qed simp

text \<open>The cap of a prefix that is over the limit is the cap of the whole.\<close>

lemma take_usable_append:
  "n \<le> length (filter (\<lambda>t. t \<noteq> unk) ids) \<Longrightarrow> take_usable unk n (ids @ ys) = take_usable unk n ids"
proof (induction ids arbitrary: n)
  case Nil
  then show ?case by (cases ys) auto
next
  case (Cons t ids)
  then show ?case by (cases n) (auto split: if_splits)
qed

lemma take_usable_usable:
  "n \<le> length (filter (\<lambda>t. t \<noteq> unk) ids) \<Longrightarrow> length (filter (\<lambda>t. t \<noteq> unk) (take_usable unk n ids)) = n"
proof (induction ids arbitrary: n)
  case (Cons t ids)
  then show ?case by (cases n) (auto split: if_splits)
qed simp

lemma limit_ids_append:
  "over_limit cfg ids \<Longrightarrow> limit_ids cfg (ids @ ys) = limit_ids cfg ids"
  by (auto simp: over_limit_def limit_ids_def counted_def take_usable_append split: if_splits)

lemma over_limit_append: "over_limit cfg ids \<Longrightarrow> over_limit cfg (ids @ ys)"
  by (auto simp: over_limit_def counted_def split: if_splits)


subsection \<open>The token limit\<close>

abbreviation (input) unks :: "token_cfg \<Rightarrow> u32 list \<Rightarrow> nat" where
  "unks cfg ids \<equiv> length (filter (\<lambda>t. t = unk_of cfg) ids)"

lemma unks_usable: "length (filter (\<lambda>t. t = u) ids) + length (filter (\<lambda>t. t \<noteq> u) ids) = length ids"
  using sum_length_filter_compl [of "\<lambda>t. t = u" ids] by simp

lemma take_usable_0 [simp]: "take_usable unk 0 ids = []"
  by (cases ids) auto

lemma take_usable_length: "length (take_usable unk n ids) \<le> length ids"
  by (induction unk n ids rule: take_usable.induct) auto

lemma take_usable_prefix: "take_usable unk n ids = take (length (take_usable unk n ids)) ids"
  by (induction unk n ids rule: take_usable.induct) auto

lemma limited_count_eq:
  assumes "length (ts_ids st) < 2 ^ 32" "ts_n_unk st = word_of_nat (unks cfg (ts_ids st))"
  shows "unat (limited_token_count cfg st) = counted cfg (ts_ids st)"
proof -
  let ?n = "length (ts_ids st)" and ?u = "unks cfg (ts_ids st)"
  have le: "?u \<le> ?n" by simp
  have "?n < 2 ^ 64" using assms(1) by simp
  note n = unat_small_size [OF this] and u = unat_small_size [OF le_less_trans [OF le this]]
  have "unat (word_of_nat ?n - word_of_nat ?u :: size_t) = ?n - ?u"
    using le n u by (subst unat_sub) (simp_all add: word_le_nat_alt)
  moreover have "?n - ?u = length (filter (\<lambda>t. t \<noteq> unk_of cfg) (ts_ids st))"
    using unks_usable [of "unk_of cfg" "ts_ids st"] by linarith
  ultimately show ?thesis
    using n assms(2) by (simp add: limited_token_count_def counted_def drops_unk_def)
qed

lemma usable_scan_eq:
  assumes "M < 2 ^ 32"
  shows "u < M \<Longrightarrow> M - u \<le> length (filter (\<lambda>t. t \<noteq> unk) ids) \<Longrightarrow>
    usable_scan unk (word_of_nat M) ids k (word_of_nat u) ku =
      (k + length (take_usable unk (M - u) ids),
       ku + word_of_nat (length (filter (\<lambda>t. t = unk) (take_usable unk (M - u) ids))))"
proof (induction ids arbitrary: k u ku)
  case (Cons t ids)
  show ?case
  proof (cases "t = unk")
    case True
    then show ?thesis using Cons.prems Cons.IH [of u "k + 1" "ku + 1"] by simp
  next
    case False
    have eq: "(word_of_nat u + 1 = (word_of_nat M :: size_t)) \<longleftrightarrow> u + 1 = M"
    proof -
      have "u + 1 < 2 ^ 64" "M < 2 ^ 64" using Cons.prems(1) assms by simp_all
      note this [THEN unat_small_size]
      then show ?thesis by (metis add.commute of_nat_Suc plus_1_eq_Suc)
    qed
    show ?thesis
    proof (cases "u + 1 = M")
      case True
      then have "M - u = Suc 0" by simp
      then show ?thesis using \<open>t \<noteq> unk\<close> eq True by (simp add: take_usable.simps(2))
    next
      case F: False
      then have lt: "u + 1 < M" using Cons.prems(1) by simp
      have "M - u = Suc (M - (u + 1))" using lt by simp
      then show ?thesis
        using Cons.prems(2) Cons.IH [OF lt, of "k + 1" ku] \<open>t \<noteq> unk\<close> eq F by (simp add: add.commute)
    qed
  qed
qed simp

text \<open>\<open>tracks cfg st\<close>: the count of unknown tokens is that of the ids, and nothing has wrapped.\<close>

definition tracks :: "token_cfg \<Rightarrow> token_state \<Rightarrow> bool" where
  "tracks cfg st = (ts_n_unk st = word_of_nat (unks cfg (ts_ids st)) \<and> length (ts_ids st) < 2 ^ 32)"

lemma cap_after_append_within:
  assumes "tracks cfg st" "\<not> over_limit cfg (ts_ids st)"
  shows "cap_after_append cfg st = (st, False)"
  using assms limited_count_eq [of st cfg] u32_bound [of "tc_max_tokens cfg"]
  by (auto simp: cap_after_append_def Let_def over_limit_def tracks_def word_le_nat_alt unat_ucast_up)

lemma cap_after_append_over:
  assumes "tracks cfg st" "over_limit cfg (ts_ids st)"
  shows "\<exists>st'. cap_after_append cfg st = (st', True) \<and> ts_ids st' = limit_ids cfg (ts_ids st) \<and>
    ts_truncated st' \<and> tracks cfg st'"
proof -
  let ?M = "unat (tc_max_tokens cfg)" and ?ids = "ts_ids st" and ?sc = "limited_token_count cfg st"
  have cnt: "unat ?sc = counted cfg ?ids"
    using assms(1) by (intro limited_count_eq) (auto simp: tracks_def)
  have M: "tc_max_tokens cfg \<noteq> 0" "?M < counted cfg ?ids" using assms(2) by (auto simp: over_limit_def)
  have over: "\<not> (tc_max_tokens cfg = 0 \<or> ?sc \<le> ucast (tc_max_tokens cfg))"
    using M cnt by (simp add: word_le_nat_alt unat_ucast_up)
  have raw: "(tc_limit_mode cfg = SE_TOKEN_LIMIT_RAW \<or> mt_unk_policy (md_meta (tc_model cfg)) \<noteq> SE_UNK_DROP) =
      (\<not> drops_unk cfg)"
    by (cases "tc_limit_mode cfg") (auto simp: drops_unk_def)
  show ?thesis
  proof (cases "drops_unk cfg")
    case False
    have split: "unks cfg ?ids = unks cfg (take ?M ?ids) + unks cfg (drop ?M ?ids)"
      by (metis append_take_drop_id filter_append length_append)
    show ?thesis
      using over False assms(1) split
      unfolding cap_after_append_def Let_def raw by (auto simp: limit_ids_def tracks_def unk_of_def)
  next
    case True
    have "0 < ?M" using M(1) by (simp add: unat_gt_0)
    moreover have "?M - 0 \<le> length (filter (\<lambda>t. t \<noteq> unk_of cfg) ?ids)"
      using M(2) True by (simp add: counted_def)
    moreover have "?M < 2 ^ 32" by (rule u32_bound)
    ultimately have scan: "usable_scan (unk_of cfg) (word_of_nat ?M) ?ids 0 0 0 =
        (length (take_usable (unk_of cfg) ?M ?ids), word_of_nat (unks cfg (take_usable (unk_of cfg) ?M ?ids)))"
      using usable_scan_eq [of ?M 0 "unk_of cfg" ?ids 0 0] by simp
    have M': "word_of_nat ?M = (ucast (tc_max_tokens cfg) :: size_t)" by simp
    show ?thesis
      using over True assms(1) scan [unfolded M'] take_usable_prefix [of "unk_of cfg" ?M ?ids]
        take_usable_length [of "unk_of cfg" ?M ?ids]
      unfolding cap_after_append_def Let_def raw
      by (auto simp: limit_ids_def tracks_def unk_of_def)
  qed
qed


subsection \<open>The ids of a word and the unknown token\<close>

text \<open>
  What the writer of the format promises of the tries: the unknown token is stored for its own text only,
  in the root trie.  (Validation does not check it.)
\<close>

definition unk_only_root :: "se_model \<Rightarrow> bool" where
  "unk_only_root m =
     (\<forall>bs. (trie_word (md_root_trie m) bs = Some (mt_unk_id (md_meta m)) \<longrightarrow> bs = unk_text) \<and>
           trie_word (md_cont_trie m) bs \<noteq> Some (mt_unk_id (md_meta m)))"

text \<open>The words the segmentation makes: a single code point, or no punctuation.\<close>

definition word_ok :: "se_model \<Rightarrow> u32 list \<Rightarrow> bool" where
  "word_ok m w = (length w = 1 \<or> list_all (\<lambda>c. \<not> punct_cp m c) w)"

lemma punct_bracket: "punct_cp m 0x5B"
  by (simp add: punct_cp_def se_is_ascii_punct_def)

lemma utf8_lead_bit: "\<not> c < 0x80 \<Longrightarrow> bit (hd (se_utf8_encode c)) 7"
  by (auto simp: se_utf8_encode_def bit_simps)

lemma utf8_bracket:
  assumes "utf8 w = 0x5B # bs"
  shows "\<exists>w'. w = 0x5B # w'"
proof (cases w)
  case Nil
  then show ?thesis using assms by simp
next
  case (Cons c w')
  have "\<not> bit (0x5B :: u8) 7" by simp
  moreover have "hd (se_utf8_encode c) = 0x5B"
    using assms Cons utf8_encode_nonempty [of c] by (metis hd_append2 list.sel(1) utf8_simps(2))
  ultimately have "c < 0x80" using utf8_lead_bit [of c] by metis
  then have "ucast c = (0x5B :: u8)" using assms Cons by (simp add: se_utf8_encode_def)
  then have "unat (ucast c :: u8) = 0x5B" by simp
  then have "c = 0x5B"
    using \<open>c < 0x80\<close> by (simp add: word_unat_eq_iff word_less_nat_alt unsigned_ucast_eq take_bit_nat_eq_self)
  then show ?thesis using Cons by simp
qed

lemma vocab_find_inj:
  assumes "hash_table_ok m" "distinct (used_ids (md_vocab_hash m))"
    and "vocab_find m a = Some tok" "vocab_find m b = Some tok"
  shows "a = b"
proof -
  from vocab_find_sound [OF assms(1,3)] obtain s where
    s: "s \<in> set (md_vocab_hash m)" "slot_used s" "sl_token_id s = tok" "slot_string m s = a" by blast
  from vocab_find_sound [OF assms(1,4)] obtain t where
    t: "t \<in> set (md_vocab_hash m)" "slot_used t" "sl_token_id t = tok" "slot_string m t = b" by blast
  have "s = t"
    using assms(2) s t by (auto simp: used_ids_def distinct_map inj_on_def)
  then show ?thesis using s t by simp
qed

lemma piece_cover_unk:
  assumes "unk_only_root m"
  shows "piece_cover m first ps toks \<Longrightarrow> mt_unk_id (md_meta m) \<in> set toks \<Longrightarrow>
    first \<and> (\<exists>p ps'. ps = p # ps' \<and> utf8 p = unk_text)"
proof (induction ps arbitrary: first toks)
  case (Cons p ps)
  then obtain tok toks' where toks: "toks = tok # toks'" by (cases toks) auto
  then have "mt_unk_id (md_meta m) \<notin> set toks'" using Cons by fastforce
  then have "tok = mt_unk_id (md_meta m)" using Cons.prems toks by simp
  then show ?case
    using Cons.prems toks assms [unfolded unk_only_root_def, THEN spec, of "utf8 p"] by (auto split: if_splits)
qed simp

lemma word_ok_not_unk: "word_ok m w \<Longrightarrow> utf8 w \<noteq> unk_text @ bs"
proof
  assume w: "word_ok m w" "utf8 w = unk_text @ bs"
  then obtain w' where "w = 0x5B # w'" using utf8_bracket [of w] by (auto simp: unk_text_def)
  with w punct_bracket [of m] have "w = [0x5B]" by (auto simp: word_ok_def)
  with w show False by (simp add: unk_text_def se_utf8_encode_def)
qed

lemma word_pieces_no_unk:
  assumes "model_ok m" "unk_only_root m" "word_ok m w" "word_outcome m w = Pieces toks"
  shows "mt_unk_id (md_meta m) \<notin> set toks"
proof
  assume unk: "mt_unk_id (md_meta m) \<in> set toks"
  have hash: "hash_table_ok m" "distinct (used_ids (md_vocab_hash m))"
    and u: "vocab_find m unk_text = Some (mt_unk_id (md_meta m))"
    using assms(1) by (auto simp: model_ok_def)
  have "utf8 w \<noteq> unk_text" using word_ok_not_unk [OF assms(3), of "[]"] by simp
  then have "vocab_find m (utf8 w) \<noteq> Some (mt_unk_id (md_meta m))"
    using vocab_find_inj [OF hash _ u] by blast
  then have "greedy_pieces m True w = Pieces toks"
    using assms(4) unk by (auto simp: word_outcome_def split: if_splits option.splits)
  from greedy_pieces_cover [OF this] obtain ps where
    "concat ps = w" "piece_cover m True ps toks" by blast
  moreover from this piece_cover_unk [OF assms(2) _ unk] obtain p ps' where "ps = p # ps'" "utf8 p = unk_text"
    by blast
  ultimately have "utf8 w = unk_text @ utf8 (concat ps')" by auto
  then show False using word_ok_not_unk [OF assms(3)] by blast
qed

subsection \<open>Operations perform actions\<close>

text \<open>\<open>sim cfg ids seg st\<close>: the state of a running tokenization with these ids and this open segment.\<close>

definition sim :: "token_cfg \<Rightarrow> u32 list \<Rightarrow> u32 list \<Rightarrow> token_state \<Rightarrow> bool" where
  "sim cfg ids seg st =
     (ts_ids st = ids \<and> tracks cfg st \<and> ts_segment st = seg \<and>
      ts_segment_ascii st = list_all (\<lambda>c. c < 0x80) seg \<and> \<not> ts_truncated st \<and>
      list_all (\<lambda>c. \<not> punct_cp (tc_model cfg) c) seg)"

definition capped :: "token_cfg \<Rightarrow> u32 list \<Rightarrow> token_state \<Rightarrow> bool" where
  "capped cfg ids st = (ts_ids st = ids \<and> tracks cfg st \<and> ts_truncated st)"

definition achieves :: "token_cfg \<Rightarrow> u32 list \<Rightarrow> action list \<Rightarrow> u32 list \<Rightarrow> step_result \<Rightarrow> bool" where
  "achieves cfg ids acts seg res =
     (case run_actions cfg ids acts of
        Corrupt \<Rightarrow> res = Inl (SeError SE_ERR_INTERNAL ''invalid WordPiece byte boundary'')
      | Capped ids' \<Rightarrow> \<exists>st. res = Inr (st, True) \<and> capped cfg ids' st
      | Running ids' \<Rightarrow> \<exists>st. res = Inr (st, False) \<and> sim cfg ids' seg st)"

definition performs :: "token_cfg \<Rightarrow> u32 list \<Rightarrow> action list \<Rightarrow> u32 list \<Rightarrow> step_result \<Rightarrow> bool" where
  "performs cfg ids acts seg res =
     (res = oom \<and> may_fail (tc_env cfg) (length ids + weight acts + length seg) \<or> achieves cfg ids acts seg res)"

lemma performs_bind:
  assumes first: "performs cfg ids a seg1 res"
    and rest: "\<And>ids' st. run_actions cfg ids a = Running ids' \<Longrightarrow> sim cfg ids' seg1 st \<Longrightarrow>
      performs cfg ids' b seg2 (f st)"
    and weight: "length seg1 \<le> weight b + length seg2"
  shows "performs cfg ids (a @ b) seg2 (unless_stop res f)"
proof (cases "res = oom \<and> may_fail (tc_env cfg) (length ids + weight a + length seg1)")
  case True
  then have "may_fail (tc_env cfg) (length ids + weight (a @ b) + length seg2)"
    using weight by (auto elim: may_fail_mono)
  then show ?thesis using True by (simp add: performs_def achieves_def unless_stop_def oom_def)
next
  case False
  show ?thesis
  proof (cases "run_actions cfg ids a")
    case (Running ids')
    then obtain st where st: "res = Inr (st, False)" "sim cfg ids' seg1 st"
      using first False by (auto simp: performs_def achieves_def)
    have "length ids' \<le> length ids + weight a" by (rule run_actions_length [OF Running])
    then have "may_fail (tc_env cfg) (length ids' + weight b + length seg2) \<Longrightarrow>
        may_fail (tc_env cfg) (length ids + weight (a @ b) + length seg2)"
      by (auto elim: may_fail_mono)
    then show ?thesis
      using rest [OF Running st(2)] st(1) Running
      by (auto simp: performs_def achieves_def unless_stop_def run_actions_append split: outcome.splits)
  qed (use first False in \<open>auto simp: performs_def achieves_def unless_stop_def run_actions_append\<close>)
qed

text \<open>Running one action, once its ids are known.\<close>

lemma achieves_append:
  assumes "action_ids (tc_model cfg) act = Some new" "tracks cfg st" "ts_ids st = ids @ new"
    and "ts_segment st = seg" "ts_segment_ascii st = list_all (\<lambda>c. c < 0x80) seg" "\<not> ts_truncated st"
    and "list_all (\<lambda>c. \<not> punct_cp (tc_model cfg) c) seg"
  shows "achieves cfg ids [act] seg (Inr (cap_after_append cfg st))"
proof (cases "over_limit cfg (ids @ new)")
  case True
  then show ?thesis
    using cap_after_append_over [of cfg st] assms by (auto simp: achieves_def capped_def)
next
  case False
  then show ?thesis
    using cap_after_append_within [of cfg st] assms by (auto simp: achieves_def sim_def)
qed

lemma append_wordpiece_performs:
  assumes ok: "model_ok (tc_model cfg)" "unk_only_root (tc_model cfg)" and sim: "sim cfg ids seg st"
    and w: "word_ok (tc_model cfg) w" "length w = 1 \<or> w = seg"
  shows "append_wordpiece cfg st w = oom \<and> may_fail (tc_env cfg) (length ids + length w) \<or>
    achieves cfg ids [Word w] seg (append_wordpiece cfg st w)"
proof -
  let ?m = "tc_model cfg" and ?ka = "if length w = 1 then hd w < 0x80 else ts_segment_ascii st"
  have ka: "?ka \<longrightarrow> list_all (\<lambda>c. c < 0x80) w"
  proof
    assume ka: ?ka
    show "list_all (\<lambda>c. c < 0x80) w"
    proof (cases "length w = 1")
      case True
      then obtain c where "w = [c]" by (auto simp: length_Suc_conv)
      then show ?thesis using ka by simp
    next
      case False
      then show ?thesis using ka w(2) sim by (auto simp: sim_def)
    qed
  qed
  from wordpiece_result [OF refl ok(1) ka, of st] obtain wp st' where
    run: "wordpiece cfg st w ?ka = Inr (wp, st')"
    and cases: "wp = WORDPIECE_OOM \<and> may_fail (tc_env cfg) (length (ts_ids st) + length w) \<or>
      word_effect ?m (length (ts_ids st)) st (word_outcome ?m w) (wp, st')"
    by (auto simp: word_result_def)
  have ids: "ts_ids st = ids" "tracks cfg st" using sim by (auto simp: sim_def)
  from cases show ?thesis
  proof
    assume "wp = WORDPIECE_OOM \<and> may_fail (tc_env cfg) (length (ts_ids st) + length w)"
    then show ?thesis using run ids by (simp add: append_wordpiece_def)
  next
    assume eff: "word_effect ?m (length (ts_ids st)) st (word_outcome ?m w) (wp, st')"
    show ?thesis
    proof (cases "word_outcome ?m w")
      case BadBoundary
      then show ?thesis using eff run by (simp add: word_effect_def append_wordpiece_def achieves_def action_ids_def)
    next
      case (Pieces toks)
      have nu: "mt_unk_id (md_meta ?m) \<notin> set toks" by (rule word_pieces_no_unk [OF ok w(1) Pieces])
      then have "filter (\<lambda>t. t = unk_of cfg) toks = []" by (auto simp: filter_empty_conv unk_of_def)
      moreover have "length (ts_ids st') < 2 ^ 32" using eff Pieces ids(2) by (auto simp: word_effect_def tracks_def)
      ultimately have "tracks cfg st'"
        using eff Pieces ids by (auto simp: word_effect_def same_tokens_def tracks_def)
      then show ?thesis
        using eff run Pieces ids sim
        by (auto simp: append_wordpiece_def word_effect_def same_tokens_def sim_def action_ids_def
            intro!: achieves_append)
    next
      case Unknown
      have "length (ts_ids st') < 2 ^ 32" using eff Unknown ids(2) by (auto simp: word_effect_def tracks_def)
      then have "tracks cfg st'"
        using eff Unknown ids by (auto simp: word_effect_def same_tokens_def tracks_def unk_of_def)
      then show ?thesis
        using eff run Unknown ids sim
        by (auto simp: append_wordpiece_def word_effect_def same_tokens_def sim_def action_ids_def
            intro!: achieves_append)
    qed
  qed
qed

lemma flush_segment_performs:
  assumes "model_ok (tc_model cfg)" "unk_only_root (tc_model cfg)" "sim cfg ids seg st"
  shows "performs cfg ids (flush_acts seg) [] (flush_segment cfg st)"
proof (cases "seg = []")
  case True
  then show ?thesis using assms(3) by (auto simp: flush_segment_def performs_def achieves_def sim_def)
next
  case False
  have "word_ok (tc_model cfg) seg" using assms(3) by (simp add: word_ok_def sim_def)
  then have p: "append_wordpiece cfg st seg = oom \<and> may_fail (tc_env cfg) (length ids + length seg) \<or>
    achieves cfg ids [Word seg] seg (append_wordpiece cfg st seg)"
    using assms by (intro append_wordpiece_performs) auto
  have st: "ts_segment st = seg" using assms(3) by (simp add: sim_def)
  have acts: "flush_acts seg = [Word seg]" using False by (simp add: flush_acts_def)
  have flush: "flush_segment cfg st = bindR (append_wordpiece cfg st seg) (\<lambda>(st, stop).
      Inr (st\<lparr>ts_segment := [], ts_segment_ascii := True\<rparr>, stop))"
    using False st by (simp add: flush_segment_def)
  from p show ?thesis
  proof
    assume "append_wordpiece cfg st seg = oom \<and> may_fail (tc_env cfg) (length ids + length seg)"
    then show ?thesis by (simp add: performs_def acts flush oom_def)
  next
    assume "achieves cfg ids [Word seg] seg (append_wordpiece cfg st seg)"
    then show ?thesis
      unfolding performs_def achieves_def acts flush
      by (cases "run_actions cfg ids [Word seg]") (auto simp: capped_def sim_def tracks_def)
  qed
qed

lemma append_direct_id_performs:
  assumes "sim cfg ids [] st"
  shows "performs cfg ids [Direct tok] [] (append_direct_id cfg st tok)"
  using push_id_cases [of cfg st tok]
proof (elim disjE exE conjE)
  assume "push_id cfg st tok = Inr None" "may_fail (tc_env cfg) (length (ts_ids st))"
  then show ?thesis
    using assms by (auto simp: append_direct_id_def performs_def sim_def elim: may_fail_mono)
next
  fix st' assume st': "push_id cfg st tok = Inr (Some st')"
    "same_tokens (st\<lparr>ts_ids := ts_ids st @ [tok]\<rparr>) st'" "length (ts_ids st) < 2 ^ 32 - 1"
  let ?st = "if tok = mt_unk_id (md_meta (tc_model cfg)) then st'\<lparr>ts_n_unk := ts_n_unk st' + 1\<rparr> else st'"
  have "achieves cfg ids [Direct tok] [] (Inr (cap_after_append cfg ?st))"
    using assms st'(2,3)
    by (intro achieves_append) (auto simp: action_ids_def sim_def tracks_def same_tokens_def unk_of_def)
  then show ?thesis using st'(1) by (simp add: append_direct_id_def performs_def)
qed

lemma append_segment_cp_performs:
  assumes "sim cfg ids seg st" "\<not> punct_cp (tc_model cfg) cp"
  shows "performs cfg ids [] (seg @ [cp])
    (case append_segment_cp cfg st cp of None \<Rightarrow> oom | Some st \<Rightarrow> Inr (st, False))"
proof -
  let ?n = "length seg" and ?cap = "sc_cps_cap (ts_scratch st)"
  let ?st = "if cp \<ge> 0x80 then st\<lparr>ts_segment_ascii := False\<rparr> else st"
  have st: "ts_segment st = seg" using assms(1) by (simp add: sim_def)
  obtain calls r where g: "grow_u32 (tc_env cfg) (ts_calls st) ?cap (word_of_nat ?n + 1) = (calls, r)"
    by (metis surj_pair)
  have big: "may_fail (tc_env cfg) (length ids + ?n + 1)" if "\<not> ?n + 1 < 2 ^ 60"
    using that by (auto simp: may_fail_def)
  show ?thesis
  proof (cases "append_segment_cp cfg st cp")
    case (Some st')
    then show ?thesis
      using g assms st
      by (auto simp: append_segment_cp_def Let_def performs_def achieves_def sim_def tracks_def
          split: if_splits option.splits)
  next
    case None
    have "may_fail (tc_env cfg) (length ids + ?n + 1)"
    proof (cases "?n + 1 < 2 ^ 60")
      case True
      then have n: "unat (word_of_nat ?n :: size_t) = ?n" by (intro unat_small_size) simp
      have "?n + 1 < 2 ^ 64" using True by simp
      from unat_small_size [OF this]
      have n1: "unat (word_of_nat ?n + 1 :: size_t) = ?n + 1" by (simp add: add.commute)
      then have nz: "(word_of_nat ?n + 1 :: size_t) \<noteq> 0" by (metis add_is_0 unsigned_0 zero_neq_one)
      have le: "unat (word_of_nat ?n + 1 :: size_t) \<le> 2 ^ 60" using n1 True by simp
      show ?thesis
      proof (cases r)
        case None
        then have "\<not> alloc_ok (tc_env cfg)" using g grow_u32_ok [OF _ nz le, of "tc_env cfg" "ts_calls st" ?cap] by auto
        then show ?thesis by (simp add: may_fail_def)
      next
        case (Some cap)
        then have "(word_of_nat ?n + 1 :: size_t) \<le> cap" using grow_u32_ge g by blast
        then have "\<not> cap \<le> word_of_nat ?n" using n n1 by (simp add: word_le_nat_alt)
        then show ?thesis
          using None g Some st by (auto simp: append_segment_cp_def Let_def split: if_splits)
      qed
    qed (rule big)
    then show ?thesis using None by (simp add: performs_def)
  qed
qed

subsection \<open>Normalization emits code points\<close>

text \<open>\<open>emits cfg cps f\<close>: in any running state \<open>f\<close> does what feeding \<open>cps\<close> to the segmentation does.\<close>

definition emits :: "token_cfg \<Rightarrow> u32 list \<Rightarrow> (token_state \<Rightarrow> step_result) \<Rightarrow> bool" where
  "emits cfg cps f =
     (\<forall>ids seg st. sim cfg ids seg st \<longrightarrow>
        performs cfg ids (fst (seg_cps (tc_model cfg) seg cps)) (snd (seg_cps (tc_model cfg) seg cps)) (f st))"

lemma emitsD:
  "emits cfg cps f \<Longrightarrow> sim cfg ids seg st \<Longrightarrow> seg_cps (tc_model cfg) seg cps = (a, s) \<Longrightarrow> performs cfg ids a s (f st)"
  unfolding emits_def by (metis fst_conv snd_conv)

lemma emits_nil: "emits cfg [] (\<lambda>st. Inr (st, False))"
  by (simp add: emits_def performs_def achieves_def)

lemma emits_append:
  assumes "emits cfg xs f" "emits cfg ys g"
  shows "emits cfg (xs @ ys) (\<lambda>st. unless_stop (f st) g)"
  unfolding emits_def
proof (intro allI impI)
  fix ids seg st assume sim: "sim cfg ids seg st"
  let ?m = "tc_model cfg"
  obtain a s where a: "seg_cps ?m seg xs = (a, s)" by (cases "seg_cps ?m seg xs")
  obtain b s' where b: "seg_cps ?m s ys = (b, s')" by (cases "seg_cps ?m s ys")
  have "performs cfg ids a s (f st)" by (rule emitsD [OF assms(1) sim a])
  moreover have "performs cfg ids' b s' (g st')" if "sim cfg ids' s st'" for ids' st'
    by (rule emitsD [OF assms(2) that b])
  moreover have "length s \<le> weight b + length s'" using seg_cps_weight [OF b] by simp
  ultimately have "performs cfg ids (a @ b) s' (unless_stop (f st) g)" by (rule performs_bind)
  then show "performs cfg ids (fst (seg_cps ?m seg (xs @ ys))) (snd (seg_cps ?m seg (xs @ ys))) (unless_stop (f st) g)"
    using a b by (simp add: seg_cps_append)
qed

lemma emits_until_stop:
  assumes "\<And>cp. cp \<in> set cps \<Longrightarrow> emits cfg (g cp) (f cp)"
  shows "emits cfg (concat (map g cps)) (until_stop f cps)"
  using assms
proof (induction cps)
  case Nil
  then show ?case using emits_nil [of cfg] by (simp add: emits_def)
next
  case (Cons cp cps)
  then have "emits cfg (g cp @ concat (map g cps)) (\<lambda>st. unless_stop (f cp st) (until_stop f cps))"
    by (intro emits_append) auto
  then show ?case by (simp add: emits_def)
qed

lemma emits_bind: "(\<And>st. r st = Inr x) \<Longrightarrow> emits cfg cps (f x) \<Longrightarrow> emits cfg cps (\<lambda>st. bindR (r st) (\<lambda>x. f x st))"
  by (simp add: emits_def)

text \<open>
  What the tokenizer needs of the loader: a model that validation accepted, and, for the result to be the
  specified one, tries in which the writer kept the unknown token to its own text.
\<close>

locale accepted_model =
  fixes cfg :: token_cfg
  assumes model: "model_ok (tc_model cfg)"
begin

lemma norm: "norm_tables_ok (md_norm (tc_model cfg))"
  using model by (simp add: model_ok_def)

lemmas classes = class_eqs [OF norm]

lemma entry_out_eq:
  assumes "lower_cp (tc_model cfg) cp = Some e \<or> nfd_cp (tc_model cfg) cp = Some e"
  shows "entry_out e = Inr (take (unat (me_len e)) (me_out e))"
  using class_entry_full [OF norm assms] by (simp add: entry_out_def)

end

locale loaded_model = accepted_model +
  assumes unk_root: "unk_only_root (tc_model cfg)"
begin

lemma feed_emits: "emits cfg [cp] (\<lambda>st. feed_token_cp cfg st cp)"
  unfolding emits_def
proof (intro allI impI)
  fix ids seg st assume sim: "sim cfg ids seg st"
  let ?m = "tc_model cfg"
  note flush = flush_segment_performs [OF model unk_root sim]
  have "performs cfg ids (fst (seg_cp ?m seg cp)) (snd (seg_cp ?m seg cp)) (feed_token_cp cfg st cp)"
  proof (cases "whitespace_cp ?m cp")
    case True
    then show ?thesis using flush by (simp add: seg_cp_def feed_token_cp_def classes)
  next
    case ws: False
    show ?thesis
    proof (cases "punct_cp ?m cp")
      case False
      then show ?thesis
        using append_segment_cp_performs [OF sim False] ws by (simp add: seg_cp_def feed_token_cp_def classes)
    next
      case True
      have "performs cfg ids (flush_acts seg @ [Word [cp]]) []
        (unless_stop (flush_segment cfg st) (\<lambda>st. append_wordpiece cfg st [cp]))"
      proof (rule performs_bind [OF flush])
        fix ids' st' assume "sim cfg ids' [] st'"
        from append_wordpiece_performs [OF model unk_root this, of "[cp]"]
        show "performs cfg ids' [Word [cp]] [] (append_wordpiece cfg st' [cp])"
          by (auto simp: performs_def word_ok_def)
      qed simp
      then show ?thesis using ws True by (simp add: seg_cp_def feed_token_cp_def classes)
    qed
  qed
  then show "performs cfg ids (fst (seg_cps ?m seg [cp])) (snd (seg_cps ?m seg [cp])) (feed_token_cp cfg st cp)"
    by (simp add: split_beta)
qed

lemma lowered_emits: "emits cfg (lowered (tc_model cfg) cp) (\<lambda>st. emit_lowered cfg st cp)"
proof (cases "mt_do_lower_case (md_meta (tc_model cfg)) \<noteq> 0 \<and> \<not> (cp \<ge> 0x41 \<and> cp \<le> 0x5A) \<and> cp \<ge> 0x80 \<and>
    lower_cp (tc_model cfg) cp \<noteq> None")
  case True
  then obtain e where e: "lower_cp (tc_model cfg) cp = Some e" by blast
  have out: "entry_out e = Inr (take (unat (me_len e)) (me_out e))" using entry_out_eq e by blast
  have "emits cfg (concat (map (\<lambda>c. [c]) (take (unat (me_len e)) (me_out e))))
      (until_stop (\<lambda>cp st. feed_token_cp cfg st cp) (take (unat (me_len e)) (me_out e)))"
    by (rule emits_until_stop) (rule feed_emits)
  moreover have "lowered (tc_model cfg) cp = concat (map (\<lambda>c. [c]) (take (unat (me_len e)) (me_out e)))"
    using True e by (auto simp: lowered_def)
  moreover have "(\<lambda>st. emit_lowered cfg st cp) =
      until_stop (\<lambda>cp st. feed_token_cp cfg st cp) (take (unat (me_len e)) (me_out e))"
    using True e out by (auto simp: emit_lowered_def classes fun_eq_iff)
  ultimately show ?thesis by simp
next
  case False
  let ?lc = "mt_do_lower_case (md_meta (tc_model cfg)) \<noteq> 0" and ?upper = "cp \<ge> 0x41 \<and> cp \<le> 0x5A"
  from False consider "\<not> ?lc" | "?lc" "?upper" | "?lc" "\<not> ?upper" "cp < 0x80"
    | "?lc" "\<not> ?upper" "\<not> cp < 0x80" "lower_cp (tc_model cfg) cp = None" by fastforce
  then have "lowered (tc_model cfg) cp = [cp] \<and> (\<forall>st. emit_lowered cfg st cp = feed_token_cp cfg st cp) \<or>
    lowered (tc_model cfg) cp = [cp + 32] \<and> (\<forall>st. emit_lowered cfg st cp = feed_token_cp cfg st (cp + 32))"
    by cases (simp_all only: lowered_def emit_lowered_def classes bindR_Inr, auto)
  then show ?thesis using feed_emits by auto
qed

lemma stripped_emits: "emits cfg (stripped (tc_model cfg) cp) (\<lambda>st. emit_stripped cfg st cp)"
proof (cases "mt_strip_accents (md_meta (tc_model cfg)) = 0 \<or> cp < 0x80")
  case True
  then show ?thesis using lowered_emits [of cp] by (simp add: stripped_def emit_stripped_def)
next
  case False
  have mn: "emits cfg (if mn_cp (tc_model cfg) d then [] else lowered (tc_model cfg) d)
     (\<lambda>st. bindR (is_mn (tc_model cfg) d) (\<lambda>mn. if mn then Inr (st, False) else emit_lowered cfg st d))" for d
    using emits_nil lowered_emits by (simp add: classes)
  show ?thesis
  proof (cases "nfd_cp (tc_model cfg) cp")
    case None
    then show ?thesis using False mn [of cp] by (simp add: stripped_def emit_stripped_def classes)
  next
    case (Some e)
    have out: "entry_out e = Inr (take (unat (me_len e)) (me_out e))" using entry_out_eq Some by blast
    have "emits cfg (concat (map (\<lambda>d. if mn_cp (tc_model cfg) d then [] else lowered (tc_model cfg) d)
        (take (unat (me_len e)) (me_out e))))
      (until_stop (\<lambda>d st. bindR (is_mn (tc_model cfg) d) (\<lambda>mn.
        if mn then Inr (st, False) else emit_lowered cfg st d)) (take (unat (me_len e)) (me_out e)))"
      by (rule emits_until_stop) (rule mn)
    then show ?thesis using False Some out by (simp add: stripped_def emit_stripped_def classes)
  qed
qed

lemma cleaned_emits: "emits cfg (cleaned (tc_model cfg) cp) (\<lambda>st. emit_cleaned cfg st cp)"
proof -
  have clean: "mt_clean_text (md_meta (tc_model cfg)) = 1" using model by (simp add: model_ok_def meta_ok_def)
  have cjk: "emits cfg (stripped (tc_model cfg) 32 @ stripped (tc_model cfg) c @ stripped (tc_model cfg) 32)
    (\<lambda>st. unless_stop (emit_stripped cfg st 32) (\<lambda>st.
       unless_stop (emit_stripped cfg st c) (\<lambda>st. emit_stripped cfg st 32)))" for c
    by (intro emits_append stripped_emits)
  let ?c = "if whitespace_cp (tc_model cfg) cp then 32 else cp"
  consider "cp = 0 \<or> cp = 0xFFFD \<or> control_cp (tc_model cfg) cp"
    | "\<not> (cp = 0 \<or> cp = 0xFFFD \<or> control_cp (tc_model cfg) cp)"
      "mt_handle_chinese_chars (md_meta (tc_model cfg)) \<noteq> 0 \<and> ?c \<ge> 0x3400 \<and> se_is_cjk ?c"
    | "\<not> (cp = 0 \<or> cp = 0xFFFD \<or> control_cp (tc_model cfg) cp)"
      "\<not> (mt_handle_chinese_chars (md_meta (tc_model cfg)) \<noteq> 0 \<and> ?c \<ge> 0x3400 \<and> se_is_cjk ?c)"
    by blast
  then show ?thesis
  proof cases
    case 1
    then have "cleaned (tc_model cfg) cp = []" "\<And>st. emit_cleaned cfg st cp = Inr (st, False)"
      using clean by (auto simp: cleaned_def emit_cleaned_def Let_def classes)
    then show ?thesis using emits_nil [of cfg] by simp
  next
    case 2
    have "cleaned (tc_model cfg) cp = stripped (tc_model cfg) 32 @ stripped (tc_model cfg) ?c @ stripped (tc_model cfg) 32"
      using 2 unfolding cleaned_def Let_def by (simp only: if_False simp_thms) simp
    moreover have "\<And>st. emit_cleaned cfg st cp = unless_stop (emit_stripped cfg st 32) (\<lambda>st.
       unless_stop (emit_stripped cfg st ?c) (\<lambda>st. emit_stripped cfg st 32))"
      using 2 clean unfolding emit_cleaned_def Let_def by (simp add: classes)
    ultimately show ?thesis using cjk [of ?c] by simp
  next
    case 3
    have "cleaned (tc_model cfg) cp = stripped (tc_model cfg) ?c"
      using 3 unfolding cleaned_def Let_def by (simp only: if_False simp_thms)
    moreover have "\<And>st. emit_cleaned cfg st cp = emit_stripped cfg st ?c"
      using 3 clean by (cases "whitespace_cp (tc_model cfg) cp") (auto simp: emit_cleaned_def Let_def classes)
    ultimately show ?thesis using stripped_emits [of ?c] by simp
  qed
qed

end

subsection \<open>ASCII bytes\<close>

definition ascii_row :: "nat \<Rightarrow> bool" where
  "ascii_row n =
     (let cp = word_of_nat n :: u32; l = (if cp \<ge> 0x41 \<and> cp \<le> 0x5A then cp + 32 else cp);
          c = SE_ASCII_CLASS ! n;
          drop = (cp = 0 \<or> ascii_control cp); ws = se_is_ascii_whitespace cp; p = se_is_ascii_punct cp in
      (if c = 0 then drop else \<not> drop \<and>
         (if c = 1 then ws else \<not> ws \<and>
            (if c = 2 then p \<and> l = cp
             else \<not> p \<and> l < 0x80 \<and> \<not> se_is_ascii_whitespace l \<and> \<not> se_is_ascii_punct l))))"

lemma ascii_rows: "list_all ascii_row [0..<128]"
  by code_simp

lemma ascii_class_eq:
  assumes "b < (0x80 :: u8)"
  shows "\<exists>c. ascii_class b = Inr c" "ascii_row (unat b)" "ucast b = (word_of_nat (unat b) :: u32)"
proof -
  have "unat b < 128" using assms by (simp add: word_less_nat_alt)
  moreover have "length SE_ASCII_CLASS = 128" by (simp add: SE_ASCII_CLASS_def)
  ultimately show "\<exists>c. ascii_class b = Inr c" "ascii_row (unat b)"
    using ascii_rows by (auto simp: ascii_class_def rdR_def list_all_iff)
qed simp

definition ascii_lower :: "se_model \<Rightarrow> u32 \<Rightarrow> u32" where
  "ascii_lower m cp = (if mt_do_lower_case (md_meta m) \<noteq> 0 \<and> cp \<ge> 0x41 \<and> cp \<le> 0x5A then cp + 32 else cp)"

text \<open>The table of ASCII classes agrees with the general normalization of an ASCII code point.\<close>

lemma ascii_class_cleaned:
  assumes b: "b < (0x80 :: u8)" and cls: "ascii_class b = Inr c"
  shows "c = SE_ASCII_DROP \<Longrightarrow> cleaned m (ucast b) = []"
    and "c = SE_ASCII_SPACE \<Longrightarrow> seg_cps m seg (cleaned m (ucast b)) = (flush_acts seg, [])"
    and "c = SE_ASCII_PUNCT \<Longrightarrow>
      seg_cps m seg (cleaned m (ucast b)) = (flush_acts seg @ [Word [ucast b]], [])"
    and "c = SE_ASCII_WORD \<Longrightarrow>
      seg_cps m seg (cleaned m (ucast b)) = ([], seg @ [ascii_lower m (ucast b)]) \<and>
      \<not> punct_cp m (ascii_lower m (ucast b)) \<and> ascii_lower m (ucast b) < 0x80"
proof -
  let ?cp = "ucast b :: u32"
  have lt: "?cp < 0x80" using b by (simp add: word_less_nat_alt unat_ucast_up)
  then have nocjk: "\<not> ?cp \<ge> 0x3400" by (auto simp: word_less_nat_alt word_le_nat_alt)
  have row: "ascii_row (unat b)" and cp: "?cp = word_of_nat (unat b)" using ascii_class_eq [OF b] by blast+
  have idx: "c = (if SE_ASCII_CLASS ! unat b = 0 then SE_ASCII_DROP else if SE_ASCII_CLASS ! unat b = 1 then SE_ASCII_SPACE
      else if SE_ASCII_CLASS ! unat b = 2 then SE_ASCII_PUNCT else SE_ASCII_WORD)"
    using cls by (auto simp: ascii_class_def rdR_def bindR_eq_Inr split: if_splits)
  have cl: "cleaned m ?cp = (if ?cp = 0 \<or> ascii_control ?cp then []
      else lowered m (if se_is_ascii_whitespace ?cp then 32 else ?cp))"
    using lt nocjk by (auto simp: cleaned_def control_cp_def whitespace_cp_def stripped_def Let_def)
  have low: "lowered m d = [ascii_lower m d]" if "d < 0x80" for d
    using that by (auto simp: lowered_def ascii_lower_def)
  note r = row [unfolded ascii_row_def Let_def, folded cp]
  show "c = SE_ASCII_DROP \<Longrightarrow> cleaned m ?cp = []"
    using r idx cl by (auto split: if_splits)
  show "c = SE_ASCII_SPACE \<Longrightarrow> seg_cps m seg (cleaned m ?cp) = (flush_acts seg, [])"
    using r idx cl low [of 32]
    by (auto simp: ascii_lower_def seg_cp_def whitespace_cp_def se_is_ascii_whitespace_def split: if_splits)
  show "c = SE_ASCII_PUNCT \<Longrightarrow>
      seg_cps m seg (cleaned m ?cp) = (flush_acts seg @ [Word [?cp]], [])"
    using r idx cl low [OF lt] lt
    by (auto simp: ascii_lower_def seg_cp_def whitespace_cp_def punct_cp_def split: if_splits)
  show "c = SE_ASCII_WORD \<Longrightarrow>
      seg_cps m seg (cleaned m ?cp) = ([], seg @ [ascii_lower m ?cp]) \<and>
      \<not> punct_cp m (ascii_lower m ?cp) \<and> ascii_lower m ?cp < 0x80"
    using r idx cl low [OF lt] lt
    by (auto simp: ascii_lower_def seg_cp_def whitespace_cp_def punct_cp_def split: if_splits)
qed

lemma reserve_run_eq:
  assumes "i + limit \<le> length input"
  shows "run \<le> limit \<Longrightarrow> \<exists>n. reserve_run input i limit run = Inr n \<and> run \<le> n \<and> n \<le> limit"
proof (induction "limit - run" arbitrary: run)
  case 0
  then show ?case by (subst reserve_run.simps) simp
next
  case (Suc k)
  then have run: "run < limit" by simp
  let ?b = "input ! (i + run)"
  have rd: "rdR input (i + run) = Inr ?b" using run assms by (simp add: rdR_def)
  show ?case
  proof (cases "?b < 0x80")
    case False
    then show ?thesis using run rd by (subst reserve_run.simps) simp
  next
    case True
    then obtain c where c: "ascii_class ?b = Inr c" using ascii_class_eq by blast
    show ?thesis
    proof (cases "c = SE_ASCII_WORD")
      case False
      then show ?thesis using run rd True c by (subst reserve_run.simps) simp
    next
      case w: True
      have "k = limit - (run + 1)" using Suc.hyps(2) by simp
      then obtain n where "reserve_run input i limit (run + 1) = Inr n" "run + 1 \<le> n" "n \<le> limit"
        using Suc.hyps(1) [of "run + 1"] run by auto
      then show ?thesis using run rd True c w by (subst reserve_run.simps) simp
    qed
  qed
qed

lemma ascii_word_reserve_len_eq:
  assumes "i < length input"
  shows "\<exists>n. ascii_word_reserve_len input i = Inr n \<and> 1 \<le> n \<and> n \<le> 1024"
proof -
  let ?limit = "if length input - i > 1024 then 1024 else length input - i"
  have "i + ?limit \<le> length input" "1 \<le> ?limit" using assms by auto
  from reserve_run_eq [OF this] obtain n where
    "reserve_run input i ?limit 1 = Inr n" "1 \<le> n" "n \<le> ?limit" by blast
  then show ?thesis by (auto simp: ascii_word_reserve_len_def Let_def split: if_splits)
qed

lemma append_ascii_word_performs:
  assumes sim: "sim cfg ids seg st" and i: "i < length input" and b: "b < 0x80"
    and l: "l = ascii_lower (tc_model cfg) (ucast b)" "\<not> punct_cp (tc_model cfg) l" "l < 0x80"
  shows "performs cfg ids [] (seg @ [l]) (bindR (append_ascii_word cfg st input i b) (\<lambda>st. Inr (st, False)))"
proof -
  let ?n = "word_of_nat (length seg) :: size_t" and ?sc = "ts_scratch st"
  have st: "ts_segment st = seg" using sim by (simp add: sim_def)
  obtain k where k: "ascii_word_reserve_len input i = Inr k" "1 \<le> k" "k \<le> 1024"
    using ascii_word_reserve_len_eq [OF i] by blast
  obtain calls r where g: "grow_u32 (tc_env cfg) (ts_calls st) (sc_cps_cap ?sc) (?n + word_of_nat k) = (calls, r)"
    by (metis surj_pair)
  have letter: "(if mt_do_lower_case (md_meta (tc_model cfg)) \<noteq> 0 \<and> b \<ge> 0x41 \<and> b \<le> 0x5A
      then ucast b + 32 else ucast b) = l"
    using l(1) by (simp add: ascii_lower_def word_le_nat_alt unat_ucast_up)
  have ok: "sim cfg ids (seg @ [l]) (st'\<lparr>ts_segment := ts_segment st' @ [l]\<rparr>)"
    if "same_tokens st st'" for st'
    using sim that l by (auto simp: sim_def same_tokens_def tracks_def)
  have small: "may_fail (tc_env cfg) (length ids + length seg + 1)" if "\<not> length seg < 2 ^ 59"
    using that by (auto simp: may_fail_def)
  show ?thesis
  proof (cases "?n \<ge> sc_cps_cap ?sc")
    case False
    then show ?thesis
      using ok [of st] letter st
      by (auto simp: append_ascii_word_def Let_def performs_def achieves_def)
  next
    case full: True
    have fails: "may_fail (tc_env cfg) (length ids + length seg + 1)"
      if none: "r = None \<or> (\<exists>cap. r = Some cap \<and> cap \<le> ?n)"
    proof (cases "length seg < 2 ^ 59")
      case True
      have s: "length seg + k < 2 ^ 60" using True k(3) by simp
      then have "length seg + k < 2 ^ 64" "length seg < 2 ^ 64" by simp_all
      note u = this [THEN unat_small_size]
      have need: "unat (?n + word_of_nat k) = length seg + k" using u(1) by simp
      have nz: "?n + word_of_nat k \<noteq> 0" using need k(2) by (metis add_is_0 not_one_le_zero unsigned_0)
      from none show ?thesis
      proof
        assume "r = None"
        then have "\<not> alloc_ok (tc_env cfg)"
          using g grow_u32_ok [OF _ nz, of "tc_env cfg" "ts_calls st" "sc_cps_cap ?sc"] need s by auto
        then show ?thesis by (simp add: may_fail_def)
      next
        assume "\<exists>cap. r = Some cap \<and> cap \<le> ?n"
        then obtain cap where "r = Some cap" "cap \<le> ?n" by blast
        then have "?n + word_of_nat k \<le> cap" using grow_u32_ge g by blast
        then have "?n + word_of_nat k \<le> ?n" using \<open>cap \<le> ?n\<close> by (rule order_trans)
        then show ?thesis using need u k(2) by (simp add: word_le_nat_alt)
      qed
    qed (rule small)
    show ?thesis
    proof (cases "r = None \<or> (\<exists>cap. r = Some cap \<and> cap \<le> ?n)")
      case True
      then show ?thesis
        using full st k g fails [OF True] by (auto simp: append_ascii_word_def Let_def performs_def oom_def)
    next
      case False
      then obtain cap where "r = Some cap" "\<not> cap \<le> ?n" by auto
      then show ?thesis
        using ok [of "st\<lparr>ts_calls := calls, ts_scratch := ?sc\<lparr>sc_cps_cap := cap\<rparr>\<rparr>"] full st k g letter
        by (auto simp: append_ascii_word_def Let_def performs_def achieves_def)
    qed
  qed
qed

end
