(* ===== verification/TokenizeRun.thy ===== *)
theory TokenizeRun
  imports TokenizeSpec
begin

text \<open>
  The loops of the tokenizer against the meaning of an input: the meaning of what is left, given the ids and
  the open segment so far, never changes until the loop ends with it.  The fast path for ASCII
  bytes and the general path are two implementations of the same step on items.
\<close>

subsection \<open>The meaning of an input\<close>

text \<open>
  An input is a sequence of code points and added tokens.  The second component of \<open>items\<close> says whether
  all of the input could be decoded.
\<close>

datatype item = Cp u32 | Added u32

lemma match_specs_le:
  "specs_at m input pos specs = Some (tok, len) \<Longrightarrow> len \<le> length input - pos"
  by (induction m input pos specs rule: specs_at.induct) (auto split: if_splits)

lemma match_added_token_le: "added_at m input i = Some (tok, len) \<Longrightarrow> i + len \<le> length input"
  by (auto simp: added_at_def split: if_splits dest!: match_specs_le)

function items :: "se_model \<Rightarrow> u8 list \<Rightarrow> nat \<Rightarrow> item list \<times> bool" where
  "items m input i =
     (if i < length input then
        (case added_at m input i of
           Some (tok, len) \<Rightarrow> (case items m input (i + len) of (its, valid) \<Rightarrow> (Added tok # its, valid))
         | None \<Rightarrow>
             (case decode_one input i of
                Inr (Some (cp, j)) \<Rightarrow> (case items m input j of (its, valid) \<Rightarrow> (Cp cp # its, valid))
              | _ \<Rightarrow> ([], False)))
      else ([], True))"
  by pat_completeness auto
termination
  by (relation "measure (\<lambda>(m, input, i). length input - i)")
    (auto dest: match_added_token_pos decode_one_progress)

declare items.simps [simp del]

definition item_step :: "se_model \<Rightarrow> u32 list \<Rightarrow> item \<Rightarrow> action list \<times> u32 list" where
  "item_step m seg it =
     (case it of Cp cp \<Rightarrow> seg_cps m seg (cleaned m cp) | Added tok \<Rightarrow> (flush_acts seg @ [Direct tok], []))"

fun item_steps :: "se_model \<Rightarrow> u32 list \<Rightarrow> item list \<Rightarrow> action list \<times> u32 list" where
  "item_steps m seg [] = ([], seg)"
| "item_steps m seg (it # its) =
     (case item_step m seg it of (a, seg) \<Rightarrow> case item_steps m seg its of (b, seg) \<Rightarrow> (a @ b, seg))"

definition conclude :: "bool \<Rightarrow> outcome \<Rightarrow> (u32 list \<times> bool) se_result" where
  "conclude valid r =
     (case r of
        Corrupt \<Rightarrow> Inl (SeError SE_ERR_INTERNAL ''invalid WordPiece byte boundary'')
      | Capped ids \<Rightarrow> Inr (ids, True)
      | Running ids \<Rightarrow>
          if valid then Inr (ids, False) else Inl (SeError SE_ERR_INVALID_UTF8 ''input is not valid UTF-8''))"

text \<open>What tokenization gives from position \<open>i\<close> on, with ids and a segment already collected.\<close>

definition meaning ::
  "token_cfg \<Rightarrow> u8 list \<Rightarrow> u32 list \<Rightarrow> u32 list \<Rightarrow> nat \<Rightarrow> (u32 list \<times> bool) se_result" where
  "meaning cfg input ids seg i =
     (case items (tc_model cfg) input i of (its, valid) \<Rightarrow>
        (case item_steps (tc_model cfg) seg its of (acts, seg') \<Rightarrow>
           conclude valid (run_actions cfg ids (acts @ (if valid then flush_acts seg' else [])))))"

lemma meaning_step:
  assumes "items (tc_model cfg) input i = (case items (tc_model cfg) input j of (its, valid) \<Rightarrow> (it # its, valid))"
    and "item_step (tc_model cfg) seg it = (acts, seg')"
  shows "meaning cfg input ids seg i =
    (case run_actions cfg ids acts of
       Running ids' \<Rightarrow> meaning cfg input ids' seg' j
     | Capped ids' \<Rightarrow> Inr (ids', True)
     | Corrupt \<Rightarrow> Inl (SeError SE_ERR_INTERNAL ''invalid WordPiece byte boundary''))"
  using assms
  by (auto simp: meaning_def run_actions_append conclude_def split: prod.splits outcome.splits)

lemma meaning_end:
  "length input \<le> i \<Longrightarrow> meaning cfg input ids seg i = conclude True (run_actions cfg ids (flush_acts seg))"
  by (simp add: meaning_def items.simps)

lemma meaning_invalid:
  assumes "i < length input" "added_at (tc_model cfg) input i = None" "decode_one input i = Inr None"
  shows "meaning cfg input ids seg i = Inl (SeError SE_ERR_INVALID_UTF8 ''input is not valid UTF-8'')"
  using assms by (simp add: meaning_def items.simps conclude_def)

lemma items_cp:
  assumes "i < length input" "added_at m input i = None" "decode_one input i = Inr (Some (cp, j))"
  shows "items m input i = (case items m input j of (its, valid) \<Rightarrow> (Cp cp # its, valid))"
  using assms by (subst items.simps) simp

lemma items_added:
  assumes "i < length input" "added_at m input i = Some (tok, len)"
  shows "items m input i = (case items m input (i + len) of (its, valid) \<Rightarrow> (Added tok # its, valid))"
  using assms by (subst items.simps) simp

text \<open>An upper bound on the elements the rest of the input can make.\<close>

definition load :: "u8 list \<Rightarrow> u32 list \<Rightarrow> u32 list \<Rightarrow> nat \<Rightarrow> nat" where
  "load input ids seg i = length ids + length seg + 18 * (length input - i)"

context loaded_model
begin

lemma lowered_length: "length (lowered (tc_model cfg) cp) \<le> 4"
proof (cases "lower_cp (tc_model cfg) cp")
  case (Some e)
  have "unat (me_len e) \<le> 4" using class_entry_full(1) [OF norm] Some by blast
  then show ?thesis using Some by (auto simp: lowered_def min.coboundedI2)
qed (simp add: lowered_def)

lemma stripped_length: "length (stripped (tc_model cfg) cp) \<le> 16"
proof -
  have "length (concat (map (\<lambda>d. if mn_cp (tc_model cfg) d then [] else lowered (tc_model cfg) d) ds)) \<le> 4 * length ds" for ds
  proof (induction ds)
    case (Cons d ds)
    then show ?case using lowered_length [of d] by (auto simp del: length_concat)
  qed simp
  note c = this
  show ?thesis
  proof (cases "nfd_cp (tc_model cfg) cp")
    case None
    then show ?thesis using lowered_length [of cp] by (auto simp: stripped_def)
  next
    case (Some e)
    have "unat (me_len e) \<le> 4" using class_entry_full(1) [OF norm] Some by blast
    then show ?thesis
      using lowered_length [of cp] c [of "take (unat (me_len e)) (me_out e)"] Some
      by (auto simp: stripped_def simp del: length_concat)
  qed
qed

lemma cleaned_length: "length (cleaned (tc_model cfg) cp) \<le> 18"
proof -
  have "length (stripped (tc_model cfg) 32) \<le> 1" by (simp add: stripped_def lowered_def)
  then show ?thesis
    using stripped_length [of cp] stripped_length [of 32] by (auto simp: cleaned_def Let_def)
qed

lemma item_step_weight:
  assumes "item_step (tc_model cfg) seg it = (acts, seg')"
  shows "weight acts + length seg' \<le> length seg + 18"
proof (cases it)
  case (Cp cp)
  then have "seg_cps (tc_model cfg) seg (cleaned (tc_model cfg) cp) = (acts, seg')"
    using assms by (simp add: item_step_def)
  from seg_cps_weight [OF this] cleaned_length [of cp] show ?thesis by linarith
next
  case (Added tok)
  then show ?thesis using assms by (auto simp: item_step_def)
qed

end

subsection \<open>Turns of the loops follow the meaning\<close>

definition fails_with :: "token_cfg \<Rightarrow> u8 list \<Rightarrow> u32 list \<Rightarrow> u32 list \<Rightarrow> nat \<Rightarrow> se_fault \<Rightarrow> bool" where
  "fails_with cfg input ids seg i e =
     (e = SeError SE_ERR_OOM ''out of memory while %s'' \<and> may_fail (tc_env cfg) (load input ids seg i) \<or>
      e = SeError SE_ERR_INTERNAL ''operation cancelled'' \<and> (\<exists>k. env_cancelled (tc_env cfg) k) \<or>
      meaning cfg input ids seg i = Inl e)"

definition goes_on :: "token_cfg \<Rightarrow> u8 list \<Rightarrow> u32 list \<Rightarrow> u32 list \<Rightarrow> nat \<Rightarrow> nat \<Rightarrow> token_state \<Rightarrow> bool" where
  "goes_on cfg input ids seg i j st =
     (\<exists>ids' seg'. sim cfg ids' seg' st \<and> j \<le> length input \<and>
        meaning cfg input ids' seg' j = meaning cfg input ids seg i \<and>
        load input ids' seg' j \<le> load input ids seg i)"

definition ends_with :: "token_cfg \<Rightarrow> u8 list \<Rightarrow> u32 list \<Rightarrow> u32 list \<Rightarrow> nat \<Rightarrow> token_state \<Rightarrow> bool" where
  "ends_with cfg input ids seg i st =
     (\<exists>ids'. capped cfg ids' st \<and> meaning cfg input ids seg i = Inr (ids', True))"

definition follows ::
  "token_cfg \<Rightarrow> u8 list \<Rightarrow> u32 list \<Rightarrow> u32 list \<Rightarrow> nat \<Rightarrow> 'c turn se_result \<Rightarrow> bool" where
  "follows cfg input ids seg i res =
     (case res of
        Inl e \<Rightarrow> fails_with cfg input ids seg i e
      | Inr (Leave j stop st) \<Rightarrow>
          (if stop then ends_with cfg input ids seg i st else goes_on cfg input ids seg i j st)
      | Inr (Again j c st) \<Rightarrow> goes_on cfg input ids seg i j st)"

lemma follows_simps:
  "follows cfg input ids seg i (Inl e) = fails_with cfg input ids seg i e"
  "follows cfg input ids seg i (Inr (Leave j True st)) = ends_with cfg input ids seg i st"
  "follows cfg input ids seg i (Inr (Leave j False st)) = goes_on cfg input ids seg i j st"
  "follows cfg input ids seg i (Inr (Again j c st)) = goes_on cfg input ids seg i j st"
  by (simp_all add: follows_def)

lemma trans_steps:
  assumes "meaning cfg input ids' seg' j = meaning cfg input ids seg i" "load input ids' seg' j \<le> load input ids seg i"
  shows "fails_with cfg input ids' seg' j e \<Longrightarrow> fails_with cfg input ids seg i e"
    and "goes_on cfg input ids' seg' j k st \<Longrightarrow> goes_on cfg input ids seg i k st"
    and "ends_with cfg input ids' seg' j st \<Longrightarrow> ends_with cfg input ids seg i st"
proof -
  show "fails_with cfg input ids' seg' j e \<Longrightarrow> fails_with cfg input ids seg i e"
    using may_fail_mono [OF _ assms(2)] unfolding fails_with_def assms(1) by blast
  show "goes_on cfg input ids' seg' j k st \<Longrightarrow> goes_on cfg input ids seg i k st"
    using order_trans [OF _ assms(2)] unfolding goes_on_def assms(1) by blast
  show "ends_with cfg input ids' seg' j st \<Longrightarrow> ends_with cfg input ids seg i st"
    unfolding ends_with_def assms(1) .
qed

lemma follows_trans:
  assumes "follows cfg input ids' seg' j res"
    and "meaning cfg input ids' seg' j = meaning cfg input ids seg i"
    and "load input ids' seg' j \<le> load input ids seg i"
  shows "follows cfg input ids seg i res"
  using assms(1) trans_steps [OF assms(2,3)]
  by (auto simp: follows_def split: sum.splits turn.splits if_splits)

text \<open>A turn that performs the step of one item.\<close>

lemma follows_item:
  assumes m: "loaded_model cfg"
    and item: "items (tc_model cfg) input i = (case items (tc_model cfg) input j of (its, valid) \<Rightarrow> (it # its, valid))"
      "i < j" "j \<le> length input"
    and step: "item_step (tc_model cfg) seg it = (acts, seg')"
    and p: "performs cfg ids acts seg' res"
    and again: "\<And>st. cont (st, False) = Inr (Again j c st)" and stop: "\<And>st. \<exists>k. cont (st, True) = Inr (Leave k True st)"
  shows "follows cfg input ids seg i (bindR res cont)"
proof -
  note weight = loaded_model.item_step_weight [OF m step]
  note mean = meaning_step [OF item(1) step]
  have load: "length ids + weight acts + length seg' + 18 * (length input - j) \<le> load input ids seg i"
    using weight item(2,3) by (simp add: load_def)
  show ?thesis
  proof (cases "res = oom \<and> may_fail (tc_env cfg) (length ids + weight acts + length seg')")
    case True
    then have "may_fail (tc_env cfg) (load input ids seg i)" using load by (auto elim: may_fail_mono)
    then show ?thesis using True by (simp add: follows_def fails_with_def oom_def)
  next
    case False
    then have ach: "achieves cfg ids acts seg' res" using p by (auto simp: performs_def)
    show ?thesis
    proof (cases "run_actions cfg ids acts")
      case Corrupt
      then show ?thesis using ach mean by (simp add: follows_def fails_with_def achieves_def)
    next
      case (Capped ids')
      then obtain st where st: "res = Inr (st, True)" "capped cfg ids' st" using ach by (auto simp: achieves_def)
      with stop [of st] mean Capped show ?thesis by (auto simp: follows_def ends_with_def)
    next
      case (Running ids')
      then obtain st where st: "res = Inr (st, False)" "sim cfg ids' seg' st" using ach by (auto simp: achieves_def)
      have "load input ids' seg' j \<le> load input ids seg i"
        using load run_actions_length [OF Running] by (simp add: load_def)
      moreover have "meaning cfg input ids' seg' j = meaning cfg input ids seg i" using mean Running by simp
      ultimately show ?thesis using st again [of st] item(3) unfolding follows_def goes_on_def by auto
    qed
  qed
qed


lemma sim_polls [simp]: "sim cfg ids seg (st\<lparr>ts_polls := n\<rparr>) = sim cfg ids seg st"
  by (simp add: sim_def tracks_def)

lemma token_cancelled_cases:
  assumes "token_cancelled cfg st = (st', cancelled)"
  shows "sim cfg ids seg st' = sim cfg ids seg st" "cancelled \<Longrightarrow> \<exists>k. env_cancelled (tc_env cfg) k"
  using assms by (auto simp: token_cancelled_def)

lemma follows_cancelled: "env_cancelled (tc_env cfg) k \<Longrightarrow> follows cfg input ids seg i operation_cancelled"
  by (auto simp: follows_def fails_with_def operation_cancelled_def)

context loaded_model
begin

lemma ascii_added_follows:
  assumes sim: "sim cfg ids seg st" and i: "i < length input"
    and added: "added_at (tc_model cfg) input i = Some (tok, len)"
  shows "follows cfg input ids seg i (ascii_added cfg st i check tok len)"
proof -
  have p: "performs cfg ids (flush_acts seg @ [Direct tok]) []
      (unless_stop (flush_segment cfg st) (\<lambda>st. append_direct_id cfg st tok))"
    by (rule performs_bind [OF flush_segment_performs [OF model unk_root sim]])
      (auto intro: append_direct_id_performs)
  have "follows cfg input ids seg i (bindR (unless_stop (flush_segment cfg st) (\<lambda>st. append_direct_id cfg st tok))
      (\<lambda>(st, stop). Inr (if stop then Leave (i + len) True st else Again (i + len) check st)))"
    using match_added_token_pos [OF added] match_added_token_le [OF added]
    by (intro follows_item [OF loaded_model_axioms items_added [OF i added] _ _ _ p, where c = check])
      (auto simp: item_step_def)
  then show ?thesis
    by (cases "flush_segment cfg st") (auto simp: ascii_added_def unless_stop_def follows_simps split: if_splits)
qed

lemma ascii_byte_follows:
  assumes sim: "sim cfg ids seg st" and i: "i < length input" and b: "input ! i = b" "b < 0x80"
    and none: "added_at (tc_model cfg) input i = None"
  shows "follows cfg input ids seg i (ascii_byte cfg st input i check b)"
proof -
  have "decode_one input i = Inr (Some (ucast b, i + 1))" using i b by (simp add: decode_one_def rdR_def)
  note item = items_cp [OF i none this]
  have turn: "follows cfg input ids seg i (bindR res (\<lambda>(st, stop). Inr (if stop then Leave (i + 1) True st else Again (i + 1) check st)))"
    if "seg_cps (tc_model cfg) seg (cleaned (tc_model cfg) (ucast b)) = (acts, seg')"
      "performs cfg ids acts seg' res" for acts seg' res
    by (rule follows_item [OF loaded_model_axioms item _ _ _ that(2), where c = check])
      (use i that(1) in \<open>auto simp: item_step_def\<close>)
  note flush = flush_segment_performs [OF model unk_root sim]
  obtain c where c: "ascii_class b = Inr c" using ascii_class_eq [OF b(2)] by blast
  note cls = ascii_class_cleaned [OF b(2) c, where m = "tc_model cfg"]
  show ?thesis
  proof (cases c)
    case SE_ASCII_DROP
    have "performs cfg ids [] seg (Inr (st, False))" using sim by (simp add: performs_def achieves_def)
    from turn [OF _ this] show ?thesis using cls(1) SE_ASCII_DROP c by (simp add: ascii_byte_def)
  next
    case SE_ASCII_WORD
    let ?l = "ascii_lower (tc_model cfg) (ucast b)"
    have "performs cfg ids [] (seg @ [?l]) (bindR (append_ascii_word cfg st input i b) (\<lambda>st. Inr (st, False)))"
      using cls(4) [OF SE_ASCII_WORD] by (intro append_ascii_word_performs [OF sim i b(2) refl]) auto
    from turn [OF _ this] show ?thesis
      using cls(4) [OF SE_ASCII_WORD] SE_ASCII_WORD c by (simp add: ascii_byte_def bindR_assoc)
  next
    case SE_ASCII_SPACE
    from turn [OF _ flush] have "follows cfg input ids seg i (bindR (flush_segment cfg st)
        (\<lambda>(st, stop). Inr (if stop then Leave (i + 1) True st else Again (i + 1) check st)))"
      using cls(2) [OF SE_ASCII_SPACE] by simp
    then show ?thesis
      using SE_ASCII_SPACE c
      by (cases "flush_segment cfg st") (auto simp: ascii_byte_def follows_def split: if_splits)
  next
    case SE_ASCII_PUNCT
    have "performs cfg ids (flush_acts seg @ [Word [ucast b]]) []
        (unless_stop (flush_segment cfg st) (\<lambda>st. append_wordpiece cfg st [ucast b]))"
    proof (rule performs_bind [OF flush])
      fix ids' st' assume "sim cfg ids' [] st'"
      from append_wordpiece_performs [OF model unk_root this, of "[ucast b]"]
      show "performs cfg ids' [Word [ucast b]] [] (append_wordpiece cfg st' [ucast b])"
        by (auto simp: performs_def word_ok_def)
    qed simp
    from turn [OF _ this] have "follows cfg input ids seg i
        (bindR (unless_stop (flush_segment cfg st) (\<lambda>st. append_wordpiece cfg st [ucast b]))
          (\<lambda>(st, stop). Inr (if stop then Leave (i + 1) True st else Again (i + 1) check st)))"
      using cls(3) [OF SE_ASCII_PUNCT] by simp
    then show ?thesis
      using SE_ASCII_PUNCT c
      by (cases "flush_segment cfg st") (auto simp: ascii_byte_def unless_stop_def follows_simps split: if_splits)
  qed
qed

lemma goes_on_here: "sim cfg ids seg st \<Longrightarrow> i \<le> length input \<Longrightarrow> goes_on cfg input ids seg i i st"
  by (auto simp: goes_on_def)

lemma ascii_turn_follows:
  assumes sim: "sim cfg ids seg st" and i: "i < length input"
  shows "follows cfg input ids seg i (ascii_turn cfg input i check st)"
proof (cases "input ! i \<ge> 0x80")
  case True
  then show ?thesis
    using i goes_on_here [OF sim] by (simp add: ascii_turn_def rdR_def follows_def)
next
  case False
  let ?b = "input ! i"
  have b: "?b < 0x80" using False by simp
  have opt: "(if ?b = 0x5B \<and> mt_added_token_mask (md_meta (tc_model cfg)) \<noteq> 0
      then match_added_token (tc_model cfg) input i else Inr None) = Inr (added_at (tc_model cfg) input i)"
    by (auto simp: added_at_def)
  show ?thesis
  proof (cases "added_at (tc_model cfg) input i")
    case (Some p)
    obtain tok len where p: "p = (tok, len)" by (cases p)
    show ?thesis
      using ascii_added_follows [OF sim i Some [unfolded p]] Some p i False
      unfolding ascii_turn_def rdR_Inr [OF i] bindR_Inr opt by simp
  next
    case None
    obtain st' cancelled where tc: "token_cancelled cfg st = (st', cancelled)" by (cases "token_cancelled cfg st")
    have "follows cfg input ids seg i (if cancelled then operation_cancelled else ascii_byte cfg st' input i (i + 1024) ?b)"
      using token_cancelled_cases [OF tc] sim follows_cancelled ascii_byte_follows [OF _ i refl b None] by auto
    moreover have "follows cfg input ids seg i (ascii_byte cfg st input i check ?b)"
      by (rule ascii_byte_follows [OF sim i refl b None])
    ultimately show ?thesis
      using None tc False unfolding ascii_turn_def rdR_Inr [OF i] bindR_Inr opt by simp
  qed
qed

lemma ascii_run_follows:
  "sim cfg ids seg st \<Longrightarrow> i \<le> length input \<Longrightarrow>
   follows cfg input ids seg i (bindR (ascii_run cfg input i check st) (\<lambda>(st, j, stop). Inr (Leave j stop st :: nat turn)))"
proof (induction "length input - i" arbitrary: ids seg i check st rule: less_induct)
  case less
  show ?case
  proof (cases "i < length input")
    case False
    then show ?thesis
      using goes_on_here [OF less.prems] by (subst ascii_run.simps) (simp add: follows_def)
  next
    case True
    note turn = ascii_turn_follows [OF less.prems(1) True, of check]
    show ?thesis
    proof (cases "ascii_turn cfg input i check st")
      case (Inl e)
      then show ?thesis using turn True by (subst ascii_run.simps) (simp add: follows_def)
    next
      case (Inr t)
      show ?thesis
      proof (cases t)
        case (Leave j stop st')
        then show ?thesis using turn True Inr by (subst ascii_run.simps) (simp add: follows_def)
      next
        case (Again j c st')
        then obtain ids' seg' where g: "sim cfg ids' seg' st'" "j \<le> length input"
          "meaning cfg input ids' seg' j = meaning cfg input ids seg i"
          "load input ids' seg' j \<le> load input ids seg i"
          using turn Inr by (auto simp: follows_def goes_on_def)
        have "length input - j < length input - i"
          using ascii_turn_pos [OF Inr [unfolded Again]] g(2) by simp
        from follows_trans [OF less.hyps [OF this g(1,2), of c] g(3,4)] show ?thesis
          using True Inr Again by (subst ascii_run.simps) simp
      qed
    qed
  qed
qed

end

context loaded_model
begin

lemma decode_turn_follows:
  assumes sim: "sim cfg ids seg st" and i: "i < length input" and none: "added_at (tc_model cfg) input i = None"
  shows "follows cfg input ids seg i (decode_turn cfg input i iterations st)"
proof -
  obtain r where r: "decode_one input i = Inr r" using decode_one_in_bounds [OF i] by blast
  show ?thesis
  proof (cases r)
    case None
    then show ?thesis using r meaning_invalid [OF i none] by (simp add: decode_turn_def follows_simps fails_with_def)
  next
    case (Some p)
    then obtain cp j where d: "decode_one input i = Inr (Some (cp, j))" using r by (cases p) auto
    obtain acts seg' where a: "seg_cps (tc_model cfg) seg (cleaned (tc_model cfg) cp) = (acts, seg')"
      by (metis surj_pair)
    have "performs cfg ids acts seg' (emit_cleaned cfg st cp)" by (rule emitsD [OF cleaned_emits sim a])
    then have "follows cfg input ids seg i (bindR (emit_cleaned cfg st cp)
        (\<lambda>(st, stop). Inr (if stop then Leave j True st else Again j iterations st)))"
      using decode_one_progress [OF d] a
      by (intro follows_item [OF loaded_model_axioms items_cp [OF i none d], where c = iterations])
        (auto simp: item_step_def)
    then show ?thesis using d by (simp add: decode_turn_def)
  qed
qed

lemma no_added_above: "i < length input \<Longrightarrow> \<not> input ! i < 0x80 \<Longrightarrow> added_at m input i = None"
  by (auto simp: added_at_def)

lemma ascii_run_leaves:
  "ascii_run cfg input i check st = Inr (st', j, False) \<Longrightarrow> j < length input \<Longrightarrow> \<not> input ! j < 0x80"
proof (induction cfg input i check st rule: ascii_run.induct)
  case (1 cfg input i check st)
  show ?case
  proof (cases "i < length input")
    case False
    then show ?thesis using "1.prems" by (simp add: ascii_run.simps [of cfg input i])
  next
    case True
    then obtain t where t: "ascii_turn cfg input i check st = Inr t"
      using "1.prems"(1) by (auto simp: ascii_run.simps [of cfg input i] bindR_eq_Inr)
    show ?thesis
    proof (cases t)
      case (Again k c s)
      then show ?thesis
        using "1.prems" "1.IH" [OF True t Again] True t by (simp add: ascii_run.simps [of cfg input i])
    next
      case (Leave k stop s)
      then have "t = Leave j False st'" using "1.prems" True t by (simp add: ascii_run.simps [of cfg input i])
      then show ?thesis
        using t "1.prems"(2) True
        by (auto simp: ascii_turn_def ascii_added_def ascii_byte_def bindR_eq_Inr rdR_def operation_cancelled_def
            split: if_splits option.splits prod.splits)
    qed
  qed
qed

lemma tokenize_turn_follows:
  assumes sim: "sim cfg ids seg st" and i: "i < length input"
  shows "follows cfg input ids seg i (tokenize_turn cfg input i iterations st)"
proof -
  obtain st1 cancelled where poll: "(if iterations AND 0x3FF = 0 then token_cancelled cfg st else (st, False)) = (st1, cancelled)"
    by (metis surj_pair)
  have sim1: "sim cfg ids seg st1" and c: "cancelled \<Longrightarrow> \<exists>k. env_cancelled (tc_env cfg) k"
    using poll token_cancelled_cases [of cfg st st1 cancelled] sim by (auto split: if_splits)
  show ?thesis
  proof (cases cancelled)
    case True
    then show ?thesis using poll c follows_cancelled by (auto simp: tokenize_turn_def Let_def)
  next
    case no: False
    show ?thesis
    proof (cases "input ! i < 0x80")
      case False
      then show ?thesis
        using decode_turn_follows [OF sim1 i no_added_above [OF i False]] poll no i
        by (simp add: tokenize_turn_def Let_def rdR_def)
    next
      case True
      have turn: "tokenize_turn cfg input i iterations st = bindR (ascii_run cfg input i (i + 1024) st1) (\<lambda>(st, i, stop).
            if stop then Inr (Leave i True st)
            else if i \<ge> length input then Inr (Leave i False st)
            else decode_turn cfg input i (iterations + 1) st)"
        using poll no True i by (simp add: tokenize_turn_def Let_def rdR_def tokenize_ascii_run_def)
      note run = ascii_run_follows [OF sim1 less_imp_le [OF i], of "i + 1024"]
      show ?thesis
      proof (cases "ascii_run cfg input i (i + 1024) st1")
        case (Inl e)
        then show ?thesis using run turn by (simp add: follows_simps)
      next
        case (Inr p)
        obtain st2 j stop where p: "p = (st2, j, stop)" by (cases p)
        show ?thesis
        proof (cases "stop \<or> length input \<le> j")
          case True
          then show ?thesis using run turn Inr p by (cases stop) (auto simp: follows_simps)
        next
          case go: False
          then have j: "j < length input" "\<not> stop" by auto
          then obtain ids' seg' where g: "sim cfg ids' seg' st2"
            "meaning cfg input ids' seg' j = meaning cfg input ids seg i"
            "load input ids' seg' j \<le> load input ids seg i"
            using run Inr p by (auto simp: follows_simps goes_on_def)
          have "\<not> input ! j < 0x80" using ascii_run_leaves [of input i "i + 1024" st1 st2 j] Inr p j by simp
          from decode_turn_follows [OF g(1) j(1) no_added_above [OF j(1) this]]
          have "follows cfg input ids' seg' j (decode_turn cfg input j (iterations + 1) st2)" .
          from follows_trans [OF this g(2,3)] show ?thesis using turn Inr p go by simp
        qed
      qed
    qed
  qed
qed

lemma tokenize_turn_leave:
  "tokenize_turn cfg input i iterations st = Inr (Leave j False st') \<Longrightarrow> length input \<le> j"
  by (auto simp: tokenize_turn_def decode_turn_def Let_def bindR_eq_Inr operation_cancelled_def
      split: if_splits option.splits prod.splits)

lemma tokenize_loop_follows:
  "sim cfg ids seg st \<Longrightarrow> i \<le> length input \<Longrightarrow>
   (case tokenize_loop cfg input i iterations st of
      Inl e \<Rightarrow> fails_with cfg input ids seg i e
    | Inr st' \<Rightarrow> ends_with cfg input ids seg i st' \<or> goes_on cfg input ids seg i (length input) st')"
proof (induction "length input - i" arbitrary: ids seg i iterations st rule: less_induct)
  case less
  show ?case
  proof (cases "i < length input")
    case False
    then show ?thesis
      using goes_on_here [OF less.prems] less.prems(2) by (subst tokenize_loop.simps) simp
  next
    case True
    note turn = tokenize_turn_follows [OF less.prems(1) True, of iterations]
    show ?thesis
    proof (cases "tokenize_turn cfg input i iterations st")
      case (Inl e)
      then show ?thesis using turn True by (subst tokenize_loop.simps) (simp add: follows_simps)
    next
      case (Inr t)
      show ?thesis
      proof (cases t)
        case (Leave j stop st')
        have "j = length input" if "\<not> stop"
          using tokenize_turn_leave [of input i iterations st j st'] turn that Inr Leave
          by (auto simp: follows_simps goes_on_def)
        then show ?thesis
          using turn True Inr Leave by (subst tokenize_loop.simps) (cases stop; auto simp: follows_simps)
      next
        case (Again j c st')
        then obtain ids' seg' where g: "sim cfg ids' seg' st'" "j \<le> length input"
          "meaning cfg input ids' seg' j = meaning cfg input ids seg i"
          "load input ids' seg' j \<le> load input ids seg i"
          using turn Inr by (auto simp: follows_simps goes_on_def)
        have "length input - j < length input - i"
          using tokenize_turn_pos [OF Inr [unfolded Again]] g(2) by simp
        from less.hyps [OF this g(1,2), of c] trans_steps [OF g(3,4)] show ?thesis
          using True Inr Again by (subst tokenize_loop.simps) (auto split: sum.splits)
      qed
    qed
  qed
qed

end

definition tokenize_spec :: "token_cfg \<Rightarrow> u8 list \<Rightarrow> (u32 list \<times> bool) se_result" where
  "tokenize_spec cfg input = meaning cfg input [] [] 0"



context loaded_model
begin

lemma sim_start: "sim cfg [] [] (token_start sc calls polls)"
  by (simp add: sim_def tracks_def token_start_def)

lemma tracks_final:
  assumes "tracks cfg st"
  shows "\<not> length (ts_ids st) > 0xFFFFFFFF" "\<not> ts_n_unk st > 0xFFFFFFFF"
    "unat (word_of_nat (length (ts_ids st)) :: u32) = length (ts_ids st)"
    "unat (ucast (ts_n_unk st) :: u32) = unks cfg (ts_ids st)"
proof -
  have len: "length (ts_ids st) < 2 ^ 32" using assms by (simp add: tracks_def)
  then have u: "unks cfg (ts_ids st) < 2 ^ 32" by (rule le_less_trans [OF length_filter_le])
  then have "unks cfg (ts_ids st) < 2 ^ 64" by simp
  from unat_small_size [OF this] have n: "unat (ts_n_unk st) = unks cfg (ts_ids st)"
    using assms by (simp add: tracks_def)
  show "\<not> length (ts_ids st) > 0xFFFFFFFF" using len by simp
  show "\<not> ts_n_unk st > 0xFFFFFFFF" using n u by (simp add: word_less_nat_alt)
  show "unat (word_of_nat (length (ts_ids st)) :: u32) = length (ts_ids st)" using len by (rule unat_small_u32)
  show "unat (ucast (ts_n_unk st) :: u32) = unks cfg (ts_ids st)"
    using n u by (simp add: unsigned_ucast_eq take_bit_nat_eq_self)
qed

lemma tokenize_refines:
  "case se_tokenize cfg sc calls polls input of
     Inl e \<Rightarrow> fails_with cfg input [] [] 0 e
   | Inr (st, stats) \<Rightarrow>
       tokenize_spec cfg input = Inr (ts_ids st, st_truncated stats) \<and>
       unat (st_token_count stats) = length (ts_ids st) \<and> unat (st_unk_count stats) = unks cfg (ts_ids st)"
proof -
  let ?loop = "tokenize_loop cfg input 0 0 (token_start sc calls polls)"
  note loop = tokenize_loop_follows [OF sim_start, of 0 input 0 sc calls polls]
  show ?thesis
  proof (cases ?loop)
    case (Inl e)
    then show ?thesis using loop by (simp add: se_tokenize_def)
  next
    case (Inr st)
    then have "ends_with cfg input [] [] 0 st \<or> goes_on cfg input [] [] 0 (length input) st" using loop by simp
    then show ?thesis
    proof
      assume "ends_with cfg input [] [] 0 st"
      then obtain ids where c: "capped cfg ids st" "meaning cfg input [] [] 0 = Inr (ids, True)"
        by (auto simp: ends_with_def)
      then have t: "tracks cfg st" "ts_truncated st" "ts_ids st = ids" by (auto simp: capped_def)
      note f = tracks_final [OF t(1)]
      show ?thesis
        using Inr t(2,3) c(2) f(1,2) f(3,4) by (simp add: se_tokenize_def tokenize_spec_def)
    next
      assume "goes_on cfg input [] [] 0 (length input) st"
      then obtain ids seg where s: "sim cfg ids seg st"
        and m: "meaning cfg input ids seg (length input) = meaning cfg input [] [] 0"
        and l: "load input ids seg (length input) \<le> load input [] [] 0" by (auto simp: goes_on_def)
      have nt: "\<not> ts_truncated st" using s by (simp add: sim_def)
      have mean: "meaning cfg input [] [] 0 = conclude True (run_actions cfg ids (flush_acts seg))"
        unfolding m [symmetric] by (simp add: meaning_end)
      note flush = flush_segment_performs [OF model unk_root s]
      show ?thesis
      proof (cases "flush_segment cfg st = oom \<and> may_fail (tc_env cfg) (length ids + length seg)")
        case True
        then have "may_fail (tc_env cfg) (load input [] [] 0)"
          using l by (auto simp: load_def elim: may_fail_mono)
        then show ?thesis using True Inr nt by (simp add: se_tokenize_def oom_def fails_with_def)
      next
        case False
        then have ach: "achieves cfg ids (flush_acts seg) [] (flush_segment cfg st)"
          using flush by (auto simp: performs_def)
        show ?thesis
        proof (cases "run_actions cfg ids (flush_acts seg)")
          case Corrupt
          then show ?thesis
            using ach Inr nt mean by (simp add: achieves_def se_tokenize_def fails_with_def conclude_def)
        next
          case (Capped ids')
          then obtain st' where st': "flush_segment cfg st = Inr (st', True)" "capped cfg ids' st'"
            using ach by (auto simp: achieves_def)
          then have t: "tracks cfg st'" "ts_truncated st'" "ts_ids st' = ids'" by (auto simp: capped_def)
          note f = tracks_final [OF t(1)]
          show ?thesis
            using Inr nt st'(1) t(2,3) f mean Capped by (simp add: se_tokenize_def tokenize_spec_def conclude_def)
        next
          case (Running ids')
          then obtain st' where st': "flush_segment cfg st = Inr (st', False)" "sim cfg ids' [] st'"
            using ach by (auto simp: achieves_def)
          then have t: "tracks cfg st'" "\<not> ts_truncated st'" "ts_ids st' = ids'" by (auto simp: sim_def)
          note f = tracks_final [OF t(1)]
          show ?thesis
            using Inr nt st'(1) t(2,3) f mean Running by (simp add: se_tokenize_def tokenize_spec_def conclude_def)
        qed
      qed
    qed
  qed
qed

end

end
