(* ===== verification/TokenizeProps.thy ===== *)
theory TokenizeProps
  imports TokenizeRun
begin

text \<open>
  The properties of \<^verbatim>\<open>se_tokenize\<close> on whole inputs: memory safety, the result, the token limit, and
  the encodings it accepts.
\<close>

subsection \<open>The token limit and the whole sequence\<close>

lemma run_actions_bounded:
  "\<not> over_limit cfg ids \<Longrightarrow>
   (case run_actions cfg ids acts of
      Running ids' \<Rightarrow> \<not> over_limit cfg ids'
    | Capped ids' \<Rightarrow> tc_max_tokens cfg \<noteq> 0 \<and> counted cfg ids' = unat (tc_max_tokens cfg)
    | Corrupt \<Rightarrow> True)"
proof (induction acts arbitrary: ids)
  case (Cons a acts)
  show ?case
  proof (cases "action_ids (tc_model cfg) a")
    case (Some new)
    show ?thesis
    proof (cases "over_limit cfg (ids @ new)")
      case True
      have "counted cfg (limit_ids cfg (ids @ new)) = unat (tc_max_tokens cfg)"
      proof (cases "drops_unk cfg")
        case dr: True
        have "unat (tc_max_tokens cfg) \<le> length (filter (\<lambda>t. t \<noteq> unk_of cfg) (ids @ new))"
          using True dr by (simp add: over_limit_def counted_def)
        from take_usable_usable [OF this] show ?thesis using dr by (simp add: counted_def limit_ids_def)
      next
        case False
        then show ?thesis using True by (auto simp: over_limit_def counted_def limit_ids_def min_def)
      qed
      then show ?thesis using Some True by (simp add: over_limit_def)
    next
      case False
      then show ?thesis using Cons.IH [OF False] Some by simp
    qed
  qed simp
qed simp

lemma run_actions_prefix: "run_actions cfg ids acts = Running ids' \<Longrightarrow> \<exists>ys. ids' = ids @ ys"
proof (induction acts arbitrary: ids)
  case (Cons a acts)
  then obtain new where "run_actions cfg (ids @ new) acts = Running ids'" by (auto split: option.splits if_splits)
  from Cons.IH [OF this] show ?case by auto
qed simp

lemma over_limit_none: "\<not> over_limit (cfg\<lparr>tc_max_tokens := 0\<rparr>) ids"
  by (simp add: over_limit_def)

text \<open>Cutting while running is cutting at the end.\<close>

lemma run_actions_limit:
  "\<not> over_limit cfg ids \<Longrightarrow> run_actions (cfg\<lparr>tc_max_tokens := 0\<rparr>) ids acts = Running ids' \<Longrightarrow>
   run_actions cfg ids acts = (if over_limit cfg ids' then Capped (limit_ids cfg ids') else Running ids')"
proof (induction acts arbitrary: ids)
  case (Cons a acts)
  then obtain new where new: "action_ids (tc_model cfg) a = Some new"
    and rest: "run_actions (cfg\<lparr>tc_max_tokens := 0\<rparr>) (ids @ new) acts = Running ids'"
    by (auto simp: over_limit_none split: option.splits)
  from run_actions_prefix [OF rest] obtain ys where ys: "ids' = (ids @ new) @ ys" by blast
  show ?case
  proof (cases "over_limit cfg (ids @ new)")
    case True
    then show ?thesis using new over_limit_append [OF True, of ys] limit_ids_append [OF True, of ys] ys by simp
  next
    case False
    then show ?thesis using Cons.IH [OF False rest] new by simp
  qed
qed simp

lemma spec_limit:
  assumes "tokenize_spec (cfg\<lparr>tc_max_tokens := 0\<rparr>) input = Inr (ids, tr)"
  shows "tokenize_spec cfg input = Inr (if over_limit cfg ids then (limit_ids cfg ids, True) else (ids, False))"
    and "\<not> tr"
proof -
  obtain its valid where its: "items (tc_model cfg) input 0 = (its, valid)" by (metis surj_pair)
  obtain acts seg where acts: "item_steps (tc_model cfg) [] its = (acts, seg)" by (metis surj_pair)
  let ?acts = "acts @ (if valid then flush_acts seg else [])"
  have run: "conclude valid (run_actions (cfg\<lparr>tc_max_tokens := 0\<rparr>) [] ?acts) = Inr (ids, tr)"
    using assms its acts by (simp add: tokenize_spec_def meaning_def)
  have "run_actions (cfg\<lparr>tc_max_tokens := 0\<rparr>) [] ?acts = Running ids \<and> valid \<and> \<not> tr"
    using run run_actions_bounded [OF over_limit_none, of cfg "[]" ?acts]
    by (auto simp: conclude_def split: outcome.splits if_splits)
  then have r: "run_actions (cfg\<lparr>tc_max_tokens := 0\<rparr>) [] ?acts = Running ids" and v: "valid" and "\<not> tr" by blast+
  have "\<not> over_limit cfg []" by (simp add: over_limit_def counted_def)
  from run_actions_limit [OF this r] v its acts
  show "tokenize_spec cfg input = Inr (if over_limit cfg ids then (limit_ids cfg ids, True) else (ids, False))"
    by (simp add: tokenize_spec_def meaning_def conclude_def)
  show "\<not> tr" by fact
qed

lemma spec_bounded:
  assumes "tokenize_spec cfg input = Inr (ids, tr)"
  shows "tc_max_tokens cfg \<noteq> 0 \<Longrightarrow> counted cfg ids \<le> unat (tc_max_tokens cfg)"
    and "tr \<Longrightarrow> tc_max_tokens cfg \<noteq> 0 \<and> counted cfg ids = unat (tc_max_tokens cfg)"
proof -
  have nil: "\<not> over_limit cfg []" by (simp add: over_limit_def counted_def)
  obtain valid acts where c: "conclude valid (run_actions cfg [] acts) = Inr (ids, tr)"
    using assms by (auto simp: tokenize_spec_def meaning_def split: prod.splits)
  note b = run_actions_bounded [OF nil, of acts]
  show "tc_max_tokens cfg \<noteq> 0 \<Longrightarrow> counted cfg ids \<le> unat (tc_max_tokens cfg)"
    using b c by (auto simp: conclude_def over_limit_def split: outcome.splits if_splits)
  show "tr \<Longrightarrow> tc_max_tokens cfg \<noteq> 0 \<and> counted cfg ids = unat (tc_max_tokens cfg)"
    using b c by (auto simp: conclude_def split: outcome.splits if_splits)
qed

subsection \<open>Encodings\<close>

definition valid_utf8 :: "u8 list \<Rightarrow> bool" where
  "valid_utf8 bs = (\<exists>cps. list_all valid_unicode_codepoint cps \<and> bs = utf8 cps)"

lemma valid_utf8_Nil [simp]: "valid_utf8 []"
  by (auto simp: valid_utf8_def intro: exI [of _ "[]"])

lemma utf8_encode_inj:
  assumes "se_utf8_encode c @ bs = se_utf8_encode d @ ds" "valid_unicode_codepoint c" "valid_unicode_codepoint d"
  shows "c = d \<and> bs = ds"
proof -
  have "decode_one (se_utf8_encode c @ bs) 0 = Inr (Some (c, 0 + length (se_utf8_encode c)))"
    by (rule decode_one_encode [OF assms(2)]) simp
  moreover have "decode_one (se_utf8_encode c @ bs) 0 = Inr (Some (d, 0 + length (se_utf8_encode d)))"
    unfolding assms(1) by (rule decode_one_encode [OF assms(3)]) simp
  ultimately show ?thesis using assms(1) by simp
qed

lemma valid_utf8_cons:
  assumes "valid_unicode_codepoint c"
  shows "valid_utf8 (se_utf8_encode c @ bs) = valid_utf8 bs"
proof
  assume "valid_utf8 (se_utf8_encode c @ bs)"
  then obtain cps where cps: "list_all valid_unicode_codepoint cps" "se_utf8_encode c @ bs = utf8 cps"
    by (auto simp: valid_utf8_def)
  then obtain d ds where "cps = d # ds" using utf8_encode_nonempty [of c] by (cases cps) auto
  then show "valid_utf8 bs" using cps utf8_encode_inj [of c bs d "utf8 ds"] assms by (auto simp: valid_utf8_def)
next
  assume "valid_utf8 bs"
  then obtain cps where "list_all valid_unicode_codepoint cps" "bs = utf8 cps" by (auto simp: valid_utf8_def)
  then show "valid_utf8 (se_utf8_encode c @ bs)"
    using assms by (auto simp: valid_utf8_def intro!: exI [of _ "c # cps"])
qed

lemma ascii_valid: "b < (0x80 :: u8) \<Longrightarrow> valid_unicode_codepoint (ucast b) \<and> se_utf8_encode (ucast b) = [b]"
proof -
  assume b: "b < 0x80"
  then have "(ucast b :: u32) < 0x80" by (simp add: word_less_nat_alt unat_ucast_up)
  moreover have "(ucast (ucast b :: u32) :: u8) = b" by transfer simp
  ultimately show ?thesis
    by (auto simp: se_utf8_encode_def valid_unicode_codepoint_def word_less_nat_alt word_le_nat_alt)
qed

lemma valid_utf8_ascii: "list_all (\<lambda>b. b < 0x80) tx \<Longrightarrow> valid_utf8 (tx @ bs) = valid_utf8 bs"
proof (induction tx)
  case (Cons b tx)
  then show ?case using ascii_valid [of b] valid_utf8_cons [of "ucast b" "tx @ bs"] by simp
qed simp

lemma match_specs_text:
  "specs_at m input pos specs = Some (tok, len) \<Longrightarrow>
     \<exists>b tx. (b, tx) \<in> set specs \<and> len = length tx \<and> take len (drop pos input) = tx"
  by (induction m input pos specs rule: specs_at.induct) (auto split: if_splits)

lemma match_added_ascii:
  assumes "added_at m input i = Some (tok, len)"
  shows "\<exists>tx. drop i input = tx @ drop (i + len) input \<and> list_all (\<lambda>b. b < 0x80) tx"
proof -
  from assms have "specs_at m input i SE_ADDED_TOKENS = Some (tok, len)"
    by (auto simp: added_at_def split: if_splits)
  from match_specs_text [OF this] obtain b tx where
    "(b, tx) \<in> set SE_ADDED_TOKENS" "take len (drop i input) = tx" by blast
  moreover have "list_all (\<lambda>(_, tx). list_all (\<lambda>b. b < 0x80) tx) SE_ADDED_TOKENS"
    by (simp add: SE_ADDED_TOKENS_def)
  ultimately show ?thesis
    by (intro exI [of _ tx]) (metis (mono_tags, lifting) add.commute append_take_drop_id case_prod_conv drop_drop list_all_iff)
qed

lemma items_valid: "snd (items m input i) = valid_utf8 (drop i input)"
proof (induction m input i rule: items.induct)
  case (1 m input i)
  show ?case
  proof (cases "i < length input")
    case False
    then show ?thesis by (subst items.simps) simp
  next
    case True
    show ?thesis
    proof (cases "added_at m input i")
      case (Some p)
      obtain tok len where p: "p = (tok, len)" by (cases p)
      have "snd (items m input i) = snd (items m input (i + len))"
        unfolding items_added [OF True Some [unfolded p]] by (simp add: split_beta)
      also have "\<dots> = valid_utf8 (drop (i + len) input)" using "1.IH"(2) [OF True Some p [symmetric]] p by auto
      also have "\<dots> = valid_utf8 (drop i input)"
        using match_added_ascii [OF Some [unfolded p]] valid_utf8_ascii by metis
      finally show ?thesis .
    next
      case None
      obtain r where r: "decode_one input i = Inr r" using decode_one_in_bounds [OF True] by blast
      show ?thesis
      proof (cases r)
        case none: None
        have "\<not> valid_utf8 (drop i input)"
        proof
          assume "valid_utf8 (drop i input)"
          then obtain cps where cps: "list_all valid_unicode_codepoint cps" "drop i input = utf8 cps"
            by (auto simp: valid_utf8_def)
          then obtain c cs where "cps = c # cs" using True by (cases cps) auto
          then have "decode_one input i = Inr (Some (c, i + length (se_utf8_encode c)))"
            using cps by (intro decode_one_encode) auto
          then show False using r none by simp
        qed
        then show ?thesis using True None r none by (subst items.simps) simp
      next
        case (Some p)
        then obtain cp j where d: "decode_one input i = Inr (Some (cp, j))" using r by (cases p) auto
        note s = decode_one_sound [OF d]
        have "snd (items m input i) = snd (items m input j)"
          unfolding items_cp [OF True None d] by (simp add: split_beta)
        also have "\<dots> = valid_utf8 (drop j input)" using "1.IH"(1) [OF True None d refl refl] by simp
        also have "\<dots> = valid_utf8 (drop i input)" using s valid_utf8_cons by metis
        finally show ?thesis .
      qed
    qed
  qed
qed

lemma spec_utf8:
  shows "tokenize_spec cfg input = Inr (ids, False) \<Longrightarrow> valid_utf8 input"
    and "tokenize_spec cfg input = Inl (SeError SE_ERR_INVALID_UTF8 msg) \<Longrightarrow> \<not> valid_utf8 input"
  using items_valid [of "tc_model cfg" input 0] run_actions_bounded
  by (auto simp: tokenize_spec_def meaning_def conclude_def split: prod.splits outcome.splits if_splits)

subsection \<open>Memory safety, whatever the tries hold\<close>

text \<open>
  The flag \<^verbatim>\<open>segment_ascii\<close> is what the step relies on when it writes one byte per code point.
\<close>

definition ascii_flag_ok :: "token_state \<Rightarrow> bool" where
  "ascii_flag_ok st = (ts_segment_ascii st \<longrightarrow> list_all (\<lambda>c. c < 0x80) (ts_segment st))"

definition safe :: "('a \<Rightarrow> token_state) \<Rightarrow> 'a se_result \<Rightarrow> bool" where
  "safe f res = (case res of Inl e \<Rightarrow> e \<noteq> OutOfBounds | Inr x \<Rightarrow> ascii_flag_ok (f x))"

lemma safe_Inr [simp]: "safe f (Inr x) = ascii_flag_ok (f x)"
  and safe_oom [simp]: "safe f oom" and safe_cancelled [simp]: "safe f operation_cancelled"
  by (simp_all add: safe_def oom_def operation_cancelled_def)

lemma bindR_oom [simp]: "bindR oom f = oom"
  by (simp add: oom_def)

lemma safe_bind: "safe f r \<Longrightarrow> (\<And>x. r = Inr x \<Longrightarrow> ascii_flag_ok (f x) \<Longrightarrow> safe g (k x)) \<Longrightarrow> safe g (bindR r k)"
  by (cases r) (auto simp: safe_def)

lemma safe_unless_stop:
  "safe fst r \<Longrightarrow> (\<And>st. ascii_flag_ok st \<Longrightarrow> safe fst (k st)) \<Longrightarrow> safe fst (unless_stop r k)"
  unfolding unless_stop_def by (erule safe_bind) (auto split: if_splits)

lemma cap_after_append_flag: "ascii_flag_ok (fst (cap_after_append cfg st)) = ascii_flag_ok st"
  by (auto simp: cap_after_append_def ascii_flag_ok_def Let_def split: prod.splits)

context accepted_model
begin

lemma append_wordpiece_safe:
  assumes flag: "ascii_flag_ok st" and w: "length w = 1 \<or> w = ts_segment st"
  shows "safe fst (append_wordpiece cfg st w)"
proof -
  let ?ka = "if length w = 1 then hd w < 0x80 else ts_segment_ascii st"
  have ka: "?ka \<longrightarrow> list_all (\<lambda>c. c < 0x80) w"
  proof
    assume ka: ?ka
    show "list_all (\<lambda>c. c < 0x80) w"
    proof (cases "length w = 1")
      case True
      then obtain c where "w = [c]" by (auto simp: length_Suc_conv)
      then show ?thesis using ka by simp
    next
      case False
      then show ?thesis using ka w flag by (auto simp: ascii_flag_ok_def)
    qed
  qed
  from wordpiece_result [OF refl model ka, of st] obtain wp st' where
    run: "wordpiece cfg st w ?ka = Inr (wp, st')"
    and eff: "wp = WORDPIECE_OOM \<or> word_effect (tc_model cfg) (length (ts_ids st)) st (word_outcome (tc_model cfg) w) (wp, st')"
    by (auto simp: word_result_def)
  have "ascii_flag_ok st'" if "wp = WORDPIECE_OK"
    using eff that flag
    by (auto simp: word_effect_def same_tokens_def ascii_flag_ok_def split: pieces.splits)
  then show ?thesis
    using run by (cases wp) (simp_all add: append_wordpiece_def cap_after_append_flag, simp add: safe_def)
qed

lemma flush_segment_safe: "ascii_flag_ok st \<Longrightarrow> safe fst (flush_segment cfg st)"
  unfolding flush_segment_def
  by (auto intro!: safe_bind [OF append_wordpiece_safe] simp: ascii_flag_ok_def)

lemma append_direct_id_safe:
  assumes "ascii_flag_ok st"
  shows "safe fst (append_direct_id cfg st tok)"
  using push_id_cases [of cfg st tok]
proof (elim disjE exE conjE)
  fix st' assume "push_id cfg st tok = Inr (Some st')" "same_tokens (st\<lparr>ts_ids := ts_ids st @ [tok]\<rparr>) st'"
  moreover from this(2) have "ascii_flag_ok st'" using assms by (simp add: ascii_flag_ok_def same_tokens_def)
  moreover from this have "ascii_flag_ok (st'\<lparr>ts_n_unk := n\<rparr>)" for n by (simp add: ascii_flag_ok_def)
  ultimately show ?thesis by (simp add: append_direct_id_def cap_after_append_flag)
qed (simp add: append_direct_id_def)

lemma append_segment_cp_safe:
  "ascii_flag_ok st \<Longrightarrow>
   safe fst (case append_segment_cp cfg st cp of None \<Rightarrow> oom | Some st \<Rightarrow> Inr (st, False))"
  by (auto simp: append_segment_cp_def Let_def ascii_flag_ok_def split: option.splits prod.splits if_splits)

lemma feed_token_cp_safe: "ascii_flag_ok st \<Longrightarrow> safe fst (feed_token_cp cfg st cp)"
  by (auto simp: feed_token_cp_def classes flush_segment_safe append_segment_cp_safe append_wordpiece_safe
      intro!: safe_unless_stop)

lemma until_stop_safe:
  "(\<And>cp st. ascii_flag_ok st \<Longrightarrow> safe fst (f cp st)) \<Longrightarrow> ascii_flag_ok st \<Longrightarrow> safe fst (until_stop f cps st)"
  by (induction cps arbitrary: st) (auto intro: safe_unless_stop)

lemma emit_lowered_safe: "ascii_flag_ok st \<Longrightarrow> safe fst (emit_lowered cfg st cp)"
  using entry_out_eq [OF disjI1, of cp]
  by (auto simp: emit_lowered_def classes feed_token_cp_safe split: option.splits intro: until_stop_safe)

lemma emit_stripped_safe: "ascii_flag_ok st \<Longrightarrow> safe fst (emit_stripped cfg st cp)"
  using entry_out_eq [OF disjI2, of cp]
  by (auto simp: emit_stripped_def classes emit_lowered_safe split: option.splits intro!: until_stop_safe)

lemma emit_cleaned_safe: "ascii_flag_ok st \<Longrightarrow> safe fst (emit_cleaned cfg st cp)"
  by (auto simp: emit_cleaned_def Let_def classes emit_stripped_safe intro!: safe_unless_stop)

end

definition turn_state :: "'c turn \<Rightarrow> token_state" where
  "turn_state t = (case t of Again i c st \<Rightarrow> st | Leave i stop st \<Rightarrow> st)"

lemma turn_state_simps [simp]: "turn_state (Again i c st) = st" "turn_state (Leave i stop st) = st"
  by (simp_all add: turn_state_def)

lemma token_cancelled_flag: "token_cancelled cfg st = (st', c) \<Longrightarrow> ascii_flag_ok st' = ascii_flag_ok st"
  by (auto simp: token_cancelled_def ascii_flag_ok_def)

context accepted_model
begin

lemma append_ascii_word_safe:
  assumes "ascii_flag_ok st" "i < length input" "b < 0x80" "ascii_class b = Inr SE_ASCII_WORD"
  shows "safe (\<lambda>st. st) (append_ascii_word cfg st input i b)"
proof -
  have "ascii_lower (tc_model cfg) (ucast b) < 0x80" using ascii_class_cleaned(4) [OF assms(3,4)] by blast
  moreover have "(if mt_do_lower_case (md_meta (tc_model cfg)) \<noteq> 0 \<and> b \<ge> 0x41 \<and> b \<le> 0x5A
      then ucast b + 32 else ucast b) = ascii_lower (tc_model cfg) (ucast b)"
    by (simp add: ascii_lower_def word_le_nat_alt unat_ucast_up)
  moreover obtain k where "ascii_word_reserve_len input i = Inr k"
    using ascii_word_reserve_len_eq [OF assms(2)] by blast
  ultimately show ?thesis
    using assms(1)
    by (auto simp: append_ascii_word_def Let_def ascii_flag_ok_def split: prod.splits option.splits)
qed

lemma ascii_added_safe: "ascii_flag_ok st \<Longrightarrow> safe turn_state (ascii_added cfg st i check tok len)"
  unfolding ascii_added_def
  by (auto intro!: safe_bind [OF flush_segment_safe] safe_bind [OF append_direct_id_safe])

lemma ascii_byte_safe:
  assumes "ascii_flag_ok st" "i < length input" "b < 0x80"
  shows "safe turn_state (ascii_byte cfg st input i check b)"
proof -
  obtain c where c: "ascii_class b = Inr c" using ascii_class_eq [OF assms(3)] by blast
  show ?thesis
  proof (cases "c = SE_ASCII_WORD")
    case True
    then show ?thesis
      using c by (auto simp: ascii_byte_def intro!: safe_bind [OF append_ascii_word_safe [OF assms c [unfolded True]]])
  next
    case False
    then show ?thesis
      using c assms(1) unfolding ascii_byte_def
      by (auto intro!: safe_bind [OF flush_segment_safe] safe_bind [OF append_wordpiece_safe])
  qed
qed

lemma ascii_turn_safe:
  assumes "ascii_flag_ok st" "i < length input"
  shows "safe turn_state (ascii_turn cfg input i check st)"
  using assms
  by (auto simp: ascii_turn_def rdR_def not_le ascii_added_safe ascii_byte_safe token_cancelled_flag
      split: option.splits prod.splits)

lemma ascii_run_safe: "ascii_flag_ok st \<Longrightarrow> safe fst (ascii_run cfg input i check st)"
proof (induction "length input - i" arbitrary: i check st rule: less_induct)
  case less
  show ?case
  proof (cases "i < length input")
    case False
    then show ?thesis using less.prems by (subst ascii_run.simps) simp
  next
    case True
    have "safe fst (case t of Again i' check' st' \<Rightarrow> ascii_run cfg input i' check' st' | Leave i' stop st' \<Rightarrow> Inr (st', i', stop))"
      if t: "ascii_turn cfg input i check st = Inr t" "ascii_flag_ok (turn_state t)" for t
      using t ascii_turn_pos [of cfg input i check st] True by (cases t) (auto intro!: less.hyps)
    from safe_bind [OF ascii_turn_safe [OF less.prems True] this] show ?thesis
      using True by (subst ascii_run.simps) simp
  qed
qed

lemma decode_turn_safe:
  assumes "ascii_flag_ok st" "i < length input"
  shows "safe turn_state (decode_turn cfg input i iterations st)"
proof -
  obtain r where r: "decode_one input i = Inr r" using decode_one_in_bounds [OF assms(2)] by blast
  show ?thesis
  proof (cases r)
    case None
    then show ?thesis using r by (simp add: decode_turn_def safe_def)
  next
    case (Some p)
    then show ?thesis
      using r assms(1) unfolding decode_turn_def
      by (cases p) (auto intro!: safe_bind [OF emit_cleaned_safe])
  qed
qed

lemma tokenize_turn_safe:
  assumes "ascii_flag_ok st" "i < length input"
  shows "safe turn_state (tokenize_turn cfg input i iterations st)"
proof -
  obtain st1 c where poll: "(if iterations AND 0x3FF = 0 then token_cancelled cfg st else (st, False)) = (st1, c)"
    by (metis surj_pair)
  then have "ascii_flag_ok st1" using assms(1) token_cancelled_flag [of cfg st st1 c] by (auto split: if_splits)
  then show ?thesis
    using poll assms(2) safe_bind [OF ascii_run_safe [of st1 input i "i + 1024"], of turn_state]
    by (auto simp: tokenize_turn_def tokenize_ascii_run_def Let_def rdR_def decode_turn_safe
        intro!: safe_bind [OF ascii_run_safe])
qed

lemma tokenize_loop_safe: "ascii_flag_ok st \<Longrightarrow> safe (\<lambda>st. st) (tokenize_loop cfg input i iterations st)"
proof (induction "length input - i" arbitrary: i iterations st rule: less_induct)
  case less
  show ?case
  proof (cases "i < length input")
    case False
    then show ?thesis using less.prems by (subst tokenize_loop.simps) simp
  next
    case True
    have "safe (\<lambda>st. st) (case t of Again i' iterations' st' \<Rightarrow> tokenize_loop cfg input i' iterations' st' | Leave i' stop st' \<Rightarrow> Inr st')"
      if t: "tokenize_turn cfg input i iterations st = Inr t" "ascii_flag_ok (turn_state t)" for t
      using t tokenize_turn_pos [of cfg input i iterations st] True by (cases t) (auto intro!: less.hyps)
    from safe_bind [OF tokenize_turn_safe [OF less.prems True] this] show ?thesis
      using True by (subst tokenize_loop.simps) simp
  qed
qed

lemma se_tokenize_safe: "se_tokenize cfg sc calls polls input \<noteq> Inl OutOfBounds"
proof -
  have flush: "safe (\<lambda>st. st) (if \<not> ts_truncated st then bindR (flush_segment cfg st) (\<lambda>(st, stop). Inr st) else Inr st)"
    if "ascii_flag_ok st" for st
    using that by (auto intro!: safe_bind [OF flush_segment_safe])
  have "ascii_flag_ok (token_start sc calls polls)" by (simp add: token_start_def ascii_flag_ok_def)
  note loop = tokenize_loop_safe [OF this, of input 0 0]
  have "safe fst (se_tokenize cfg sc calls polls input)"
    unfolding se_tokenize_def
    by (rule safe_bind [OF loop], rule safe_bind [OF flush], assumption) (simp add: safe_def)
  then show ?thesis by (auto simp: safe_def)
qed

end

subsection \<open>The example model\<close>

lemma word_from_token:
  assumes "trie_ok v t"
  shows "unat n < length (tr_nodes t) \<Longrightarrow> word_from t n bs = Some tok \<Longrightarrow>
    \<exists>node\<in>set (tr_nodes t). tn_token_id node = tok"
proof (induction bs arbitrary: n)
  case Nil
  then show ?case by (auto simp: token_at_def Let_def split: if_splits)
next
  case (Cons b bs)
  then obtain n' where "trie_step t n b = Some n'" "word_from t n' bs = Some tok" by (auto split: option.splits)
  with trie_step_bound [OF assms Cons.prems(1)] Cons.IH show ?case by blast
qed

lemma example_trie_not_unk:
  assumes "trie_ok v (example_trie b tok)" "tok \<noteq> 1"
  shows "trie_word (example_trie b tok) bs \<noteq> Some 1"
  using word_from_token [OF assms(1), of 0 bs 1] assms(2)
  by (auto simp: trie_word_def example_trie_def)

lemma example_unk_root: "unk_only_root example_model"
proof -
  have "trie_ok 4 (example_trie 0x61 2)" "trie_ok 4 (example_trie 0x62 3)"
    using example_model_ok by (auto simp: model_ok_def example_model_def example_base_def example_meta_def)
  then show ?thesis
    using example_trie_not_unk
    by (auto simp: unk_only_root_def example_model_def example_base_def example_meta_def)
qed

interpretation example_loaded: loaded_model example_cfg
  by unfold_locales (simp_all add: example_cfg_def example_model_ok example_unk_root)

lemma example_input: "items example_model [0x41, 0x62] 0 = ([Cp 0x41, Cp 0x62], True)"
  by (simp add: items.simps added_at_def decode_one_def rdR_def)

lemma example_seg: "item_steps example_model [] [Cp 0x41, Cp 0x62] = ([], [0x61, 0x62])"
  by (simp add: item_step_def cleaned_def stripped_def lowered_def control_cp_def ascii_control_def whitespace_cp_def
      punct_cp_def se_is_ascii_whitespace_def se_is_ascii_punct_def seg_cp_def example_model_def example_base_def example_meta_def
      word_le_nat_alt word_less_nat_alt)

lemma example_spec:
  "tokenize_spec (example_cfg\<lparr>tc_max_tokens := n\<rparr>) [0x41, 0x62] =
     (if n = 1 then Inr ([2], True) else Inr ([2, 3], False))"
proof -
  have unk: "unk_of (example_cfg\<lparr>tc_max_tokens := n\<rparr>) = 1"
    by (simp add: unk_of_def example_cfg_def example_model_def example_base_def example_meta_def)
  have cnt: "over_limit (example_cfg\<lparr>tc_max_tokens := n\<rparr>) [2, 3] = (n = 1)"
    by (auto simp: over_limit_def counted_def unk word_unat_eq_iff)
  show ?thesis
    using example_input example_seg example_pieces cnt unk
    by (auto simp: tokenize_spec_def meaning_def flush_acts_def action_ids_def conclude_def limit_ids_def
        example_cfg_def)
qed

lemma example_spec_cfg: "tokenize_spec example_cfg [0x41, 0x62] = Inr ([2, 3], False)"
  using example_spec [of 4] by (simp add: example_cfg_def)

lemma example_env_ok: "alloc_ok (tc_env example_cfg)" "\<not> env_cancelled (tc_env example_cfg) k"
  by (simp_all add: alloc_ok_def example_cfg_def example_env_def)

lemma loaded_modelI: "model_ok (tc_model cfg) \<Longrightarrow> unk_only_root (tc_model cfg) \<Longrightarrow> loaded_model cfg"
  by (simp add: loaded_model_def accepted_model_def loaded_model_axioms_def)

lemmas refines_at = loaded_model.tokenize_refines [OF loaded_modelI]

lemma example_run:
  "\<exists>st stats. se_tokenize (example_cfg\<lparr>tc_max_tokens := n\<rparr>) se_scratch_init 0 0 [0x41, 0x62] = Inr (st, stats) \<and>
     ts_ids st = (if n = 1 then [2] else [2, 3]) \<and> st_truncated stats = (n = 1)"
proof -
  let ?cfg = "example_cfg\<lparr>tc_max_tokens := n\<rparr>"
  have ok: "model_ok (tc_model ?cfg)" "unk_only_root (tc_model ?cfg)"
    by (simp_all add: example_cfg_def example_model_ok example_unk_root)
  have env: "alloc_ok (tc_env ?cfg)" "\<not> env_cancelled (tc_env ?cfg) k" for k using example_env_ok by simp_all
  note r = refines_at [OF ok, where sc = se_scratch_init and calls = 0 and polls = 0 and input = "[0x41, 0x62]"]
  show ?thesis
  proof (cases "se_tokenize ?cfg se_scratch_init 0 0 [0x41, 0x62]")
    case (Inl e)
    then show ?thesis
      using r env example_spec [of n]
      by (simp add: fails_with_def may_fail_def load_def tokenize_spec_def split: if_splits)
  next
    case (Inr p)
    then show ?thesis using r example_spec [of n] by (cases p) (auto split: if_splits)
  qed
qed

subsection \<open>Properties\<close>



text \<open>
  Property C3: \<^verbatim>\<open>se_tokenize\<close> computes its specification.  Whenever it returns ids, they are those of the
  specification on code points, with the right counts and truncation flag; the fast path for ASCII
  and the general path agree.  Whenever it returns an error, the specification has that error, or a
  cancellation was requested, or an allocation failed (or the input is beyond the stated size).
\<close>

theorem tokenize_exact:
  assumes "model_ok (tc_model cfg)" and "unk_only_root (tc_model cfg)"
  shows "case se_tokenize cfg sc calls polls input of
     Inr (st, stats) \<Rightarrow>
       tokenize_spec cfg input = Inr (ts_ids st, st_truncated stats) \<and>
       unat (st_token_count stats) = length (ts_ids st) \<and>
       unat (st_unk_count stats) = length (filter (\<lambda>t. t = unk_of cfg) (ts_ids st))
   | Inl e \<Rightarrow>
       tokenize_spec cfg input = Inl e \<or>
       e = SeError SE_ERR_INTERNAL ''operation cancelled'' \<and> (\<exists>k. env_cancelled (tc_env cfg) k) \<or>
       e = SeError SE_ERR_OOM ''out of memory while %s'' \<and>
         (alloc_ok (tc_env cfg) \<longrightarrow> 2 ^ 30 \<le> 18 * length input)"
  using refines_at [OF assms(1,2), where sc = sc and calls = calls and polls = polls and input = input]
  by (auto simp: fails_with_def load_def may_fail_def tokenize_spec_def split: sum.splits)

theorem tokenize_exact_witness:
  "\<exists>st stats. se_tokenize example_cfg se_scratch_init 0 0 [0x41, 0x62] = Inr (st, stats) \<and>
     ts_ids st = [2, 3] \<and> unat (st_token_count stats) = 2 \<and> unat (st_unk_count stats) = 0"
proof -
  have ok: "model_ok (tc_model example_cfg)" "unk_only_root (tc_model example_cfg)"
    by (simp_all add: example_cfg_def example_model_ok example_unk_root)
  have unk: "unk_of example_cfg = 1"
    by (simp add: unk_of_def example_cfg_def example_model_def example_base_def example_meta_def)
  have "example_cfg\<lparr>tc_max_tokens := 4\<rparr> = example_cfg" by (simp add: example_cfg_def)
  then obtain st stats where run: "se_tokenize example_cfg se_scratch_init 0 0 [0x41, 0x62] = Inr (st, stats)"
    and ids: "ts_ids st = [2, 3]" using example_run [of 4] by auto
  show ?thesis
    using tokenize_exact [OF ok, where sc = se_scratch_init and calls = 0 and polls = 0 and input = "[0x41, 0x62]"]
      run ids unk by simp
qed

text \<open>
  Property C12: tokenization succeeds when nothing outside goes wrong.  When no allocation fails, no
  cancellation is requested and the input has fewer than 2 ^ 25 bytes, \<^verbatim>\<open>se_tokenize\<close> returns exactly what
  the specification says, and in particular no call ends with an out-of-memory error.
\<close>

theorem tokenize_returns:
  assumes "model_ok (tc_model cfg)" and "unk_only_root (tc_model cfg)"
    and "alloc_ok (tc_env cfg)" and "\<And>k. \<not> env_cancelled (tc_env cfg) k" and "length input < 2 ^ 25"
  shows "case tokenize_spec cfg input of
     Inl e \<Rightarrow> se_tokenize cfg sc calls polls input = Inl e
   | Inr (ids, truncated) \<Rightarrow> \<exists>st stats. se_tokenize cfg sc calls polls input = Inr (st, stats) \<and>
       ts_ids st = ids \<and> st_truncated stats = truncated"
proof (cases "se_tokenize cfg sc calls polls input")
  case (Inl e)
  have "\<not> may_fail (tc_env cfg) (load input [] [] 0)"
    using assms(3,5) by (simp add: may_fail_def load_def)
  then have "tokenize_spec cfg input = Inl e"
    using refines_at [OF assms(1,2), where sc = sc and calls = calls and polls = polls and input = input] assms(4) Inl
    by (auto simp: fails_with_def tokenize_spec_def)
  then show ?thesis using Inl by simp
next
  case (Inr p)
  then show ?thesis
    using refines_at [OF assms(1,2), where sc = sc and calls = calls and polls = polls and input = input]
    by (cases p) auto
qed

theorem tokenize_returns_witness:
  "\<exists>st stats. se_tokenize (example_cfg\<lparr>tc_max_tokens := 1\<rparr>) se_scratch_init 0 0 [0x41, 0x62] = Inr (st, stats) \<and>
     ts_ids st = [2] \<and> st_truncated stats"
proof -
  have "model_ok (tc_model (example_cfg\<lparr>tc_max_tokens := 1\<rparr>))" "unk_only_root (tc_model (example_cfg\<lparr>tc_max_tokens := 1\<rparr>))"
    by (simp_all add: example_cfg_def example_model_ok example_unk_root)
  from tokenize_returns [OF this, of "[0x41, 0x62]" se_scratch_init 0 0] example_env_ok example_spec [of 1]
  show ?thesis by simp
qed

text \<open>
  Property C14: the token limit holds.  With a limit, at most that many ids are returned, or that many ids other
  than the unknown token when these are the ones counted; when the result is marked truncated, there
  are exactly that many.
\<close>

theorem tokenize_within_limit:
  assumes "model_ok (tc_model cfg)" and "unk_only_root (tc_model cfg)"
    and "se_tokenize cfg sc calls polls input = Inr (st, stats)" and "tc_max_tokens cfg \<noteq> 0"
  shows "counted cfg (ts_ids st) \<le> unat (tc_max_tokens cfg) \<and>
    (st_truncated stats \<longrightarrow> counted cfg (ts_ids st) = unat (tc_max_tokens cfg))"
proof -
  have "tokenize_spec cfg input = Inr (ts_ids st, st_truncated stats)"
    using refines_at [OF assms(1,2), where sc = sc and calls = calls and polls = polls and input = input] assms(3) by simp
  from spec_bounded [OF this] assms(4) show ?thesis by blast
qed

theorem tokenize_within_limit_witness:
  "\<exists>st stats. se_tokenize (example_cfg\<lparr>tc_max_tokens := 1\<rparr>) se_scratch_init 0 0 [0x41, 0x62] = Inr (st, stats) \<and>
     counted (example_cfg\<lparr>tc_max_tokens := 1\<rparr>) (ts_ids st) = 1"
proof -
  obtain st stats where run: "se_tokenize (example_cfg\<lparr>tc_max_tokens := 1\<rparr>) se_scratch_init 0 0 [0x41, 0x62] = Inr (st, stats)"
    and st: "ts_ids st = [2]" "st_truncated stats" using example_run [of 1] by auto
  have "model_ok (tc_model (example_cfg\<lparr>tc_max_tokens := 1\<rparr>))" "unk_only_root (tc_model (example_cfg\<lparr>tc_max_tokens := 1\<rparr>))"
    by (simp_all add: example_cfg_def example_model_ok example_unk_root)
  from tokenize_within_limit [OF this run] st run show ?thesis
    by (intro exI [of _ st] exI [of _ stats]) auto
qed

text \<open>
  Property C13: cutting while tokenizing is cutting at the end.  A run with a limit returns the ids of a run
  without one, cut by the limit (a prefix of \<open>max_tokens\<close> ids, or the shortest prefix with that many usable ones),
  and it is marked truncated exactly when the whole sequence is over the limit.
\<close>

theorem tokenize_cut:
  assumes "model_ok (tc_model cfg)" and "unk_only_root (tc_model cfg)"
    and "se_tokenize (cfg\<lparr>tc_max_tokens := 0\<rparr>) sc0 calls0 polls0 input = Inr (st0, stats0)"
    and "se_tokenize cfg sc calls polls input = Inr (st, stats)"
  shows "st_truncated stats = over_limit cfg (ts_ids st0) \<and>
    ts_ids st = (if over_limit cfg (ts_ids st0) then limit_ids cfg (ts_ids st0) else ts_ids st0)"
proof -
  let ?cfg = "cfg\<lparr>tc_max_tokens := 0\<rparr>"
  have l: "model_ok (tc_model ?cfg)" "unk_only_root (tc_model ?cfg)" using assms(1,2) by simp_all
  have "tokenize_spec cfg input = Inr (ts_ids st, st_truncated stats)"
    using refines_at [OF assms(1,2), where sc = sc and calls = calls and polls = polls and input = input] assms(4) by simp
  moreover have "tokenize_spec (cfg\<lparr>tc_max_tokens := 0\<rparr>) input = Inr (ts_ids st0, st_truncated stats0)"
    using refines_at [OF l, where sc = sc0 and calls = calls0 and polls = polls0 and input = input] assms(3) by simp
  ultimately show ?thesis using spec_limit(1) [of cfg input "ts_ids st0" "st_truncated stats0"] by (auto split: if_splits)
qed

theorem tokenize_cut_witness:
  "\<exists>st stats. se_tokenize (example_cfg\<lparr>tc_max_tokens := 1\<rparr>) se_scratch_init 0 0 [0x41, 0x62] = Inr (st, stats) \<and>
     ts_ids st = limit_ids (example_cfg\<lparr>tc_max_tokens := 1\<rparr>) [2, 3]"
proof -
  let ?cfg = "example_cfg\<lparr>tc_max_tokens := 1\<rparr>"
  obtain st stats where run: "se_tokenize ?cfg se_scratch_init 0 0 [0x41, 0x62] = Inr (st, stats)"
    and st: "st_truncated stats" using example_run [of 1] by auto
  obtain st0 stats0 where run0: "se_tokenize (?cfg\<lparr>tc_max_tokens := 0\<rparr>) se_scratch_init 0 0 [0x41, 0x62] = Inr (st0, stats0)"
    and st0: "ts_ids st0 = [2, 3]" using example_run [of 0] by auto
  have "model_ok (tc_model ?cfg)" "unk_only_root (tc_model ?cfg)"
    by (simp_all add: example_cfg_def example_model_ok example_unk_root)
  from tokenize_cut [OF this run0 run] st st0 run show ?thesis
    by (intro exI [of _ st] exI [of _ stats]) auto
qed

text \<open>
  Property C15: only UTF-8 passes.  When all of the input was consumed, it is the UTF-8 encoding of a sequence of
  Unicode scalar values, and when \<^verbatim>\<open>se_tokenize\<close> reports invalid UTF-8, it is not.
\<close>

theorem tokenize_utf8:
  assumes "model_ok (tc_model cfg)" and "unk_only_root (tc_model cfg)"
  shows "(\<forall>st stats. se_tokenize cfg sc calls polls input = Inr (st, stats) \<and> \<not> st_truncated stats \<longrightarrow> valid_utf8 input) \<and>
    (\<forall>msg. se_tokenize cfg sc calls polls input = Inl (SeError SE_ERR_INVALID_UTF8 msg) \<longrightarrow> \<not> valid_utf8 input)"
proof -
  note r = refines_at [OF assms(1,2), where sc = sc and calls = calls and polls = polls and input = input]
  have "valid_utf8 input" if "se_tokenize cfg sc calls polls input = Inr (st, stats)" "\<not> st_truncated stats" for st stats
    using r that spec_utf8(1) [of cfg input "ts_ids st"] by simp
  moreover have "\<not> valid_utf8 input" if "se_tokenize cfg sc calls polls input = Inl (SeError SE_ERR_INVALID_UTF8 msg)" for msg
    using r that spec_utf8(2) [of cfg input msg] by (simp add: fails_with_def tokenize_spec_def)
  ultimately show ?thesis by blast
qed

theorem tokenize_utf8_witness: "valid_utf8 [0x41, 0x62]"
proof -
  have "example_cfg\<lparr>tc_max_tokens := 4\<rparr> = example_cfg" by (simp add: example_cfg_def)
  then obtain st stats where run: "se_tokenize example_cfg se_scratch_init 0 0 [0x41, 0x62] = Inr (st, stats)"
    and st: "\<not> st_truncated stats" using example_run [of 4] by auto
  have "model_ok (tc_model example_cfg)" "unk_only_root (tc_model example_cfg)"
    by (simp_all add: example_cfg_def example_model_ok example_unk_root)
  from tokenize_utf8 [OF this, where sc = se_scratch_init and calls = 0 and polls = 0 and input = "[0x41, 0x62]"]
    run st show ?thesis by blast
qed

end
