(* ===== verification/Prefix.thy ===== *)
theory Prefix
  imports TokenizeProps
begin

text \<open>
  Where a long text may be cut before it is tokenized: \<^verbatim>\<open>normalization_stable\<close>,
  \<^verbatim>\<open>boundary_splits_added_token\<close> and \<^verbatim>\<open>se_prefix_boundary_len\<close> of \<^verbatim>\<open>se_tokenizer.c\<close>, and the proof that
  a prefix cut there has the tokens of the whole text, as long as no separator in the text is a character that
  cleaning removes.  Lengths and positions are natural numbers.
\<close>

subsection \<open>The boundary search\<close>

definition normalization_stable :: "se_model \<Rightarrow> u32 \<Rightarrow> bool se_result" where
  "normalization_stable m cp =
     (if cp < 0x80 then Inr True
      else bindR (if mt_do_lower_case (md_meta m) \<noteq> 0 then lower_entry m cp else Inr None) (\<lambda>lower.
        if lower \<noteq> None then Inr False
        else if mt_strip_accents (md_meta m) \<noteq> 0 then
          bindR (nfd_entry m cp) (\<lambda>nfd.
            if nfd \<noteq> None then Inr False
            else bindR (is_mn m cp) (\<lambda>mn. Inr (\<not> mn)))
        else Inr True))"

function splits_token :: "u8 list \<Rightarrow> nat \<Rightarrow> u8 list \<Rightarrow> nat \<Rightarrow> bool se_result" where
  "splits_token input boundary txt back =
     (if back < length txt \<and> back \<le> boundary then
        (let start = boundary - back in
         if start + length txt > length input then splits_token input boundary txt (back + 1)
         else bindR (rdR input start) (\<lambda>b.
           if b \<noteq> 0x5B then splits_token input boundary txt (back + 1)
           else bindR (memcmp_at input start txt (length txt)) (\<lambda>same.
             if same then Inr True else splits_token input boundary txt (back + 1))))
      else Inr False)"
  by pat_completeness auto
termination by (relation "measure (\<lambda>(input, boundary, txt, back). length txt - back)") auto

declare splits_token.simps [simp del]

fun splits_specs :: "se_model \<Rightarrow> u8 list \<Rightarrow> nat \<Rightarrow> (u32 \<times> u8 list) list \<Rightarrow> bool se_result" where
  "splits_specs model input boundary [] = Inr False"
| "splits_specs model input boundary ((added_bit, txt) # specs) =
     (if mt_added_token_mask (md_meta model) AND added_bit = 0 then splits_specs model input boundary specs
      else bindR (splits_token input boundary txt 1) (\<lambda>splits.
        if splits then Inr True else splits_specs model input boundary specs))"

definition boundary_splits_added_token :: "se_model \<Rightarrow> u8 list \<Rightarrow> nat \<Rightarrow> bool se_result" where
  "boundary_splits_added_token model input boundary =
     (if mt_added_token_mask (md_meta model) = 0 \<or> boundary = 0 \<or> boundary \<ge> length input then Inr False
      else splits_specs model input boundary SE_ADDED_TOKENS)"

abbreviation continuation_byte :: "u8 \<Rightarrow> bool" where
  "continuation_byte b \<equiv> b AND 0xC0 = 0x80"

text \<open>The inner loop steps back over continuation bytes.\<close>

fun retreat :: "u8 list \<Rightarrow> nat \<Rightarrow> nat \<Rightarrow> nat se_result" where
  "retreat input low 0 = Inr 0"
| "retreat input low (Suc pos) =
     (if Suc pos > low then
        bindR (rdR input (Suc pos)) (\<lambda>b. if continuation_byte b then retreat input low pos else Inr (Suc pos))
      else Inr (Suc pos))"

datatype scan = Continue nat | Return nat

text \<open>The test behind \<^verbatim>\<open>&&\<close>: the boundary is only checked when the first part holds.\<close>

definition cut_at :: "se_model \<Rightarrow> u8 list \<Rightarrow> bool \<Rightarrow> nat \<Rightarrow> scan se_result \<Rightarrow> scan se_result" where
  "cut_at model input test boundary otherwise =
     (if test then bindR (boundary_splits_added_token model input boundary) (\<lambda>splits.
        if splits then otherwise else Inr (Return boundary))
      else otherwise)"

text \<open>One round of the outer loop, entered with \<open>pos > floor\<close>: what follows the decoding of \<open>cp\<close>, and the whole.\<close>

definition separator_cut :: "se_model \<Rightarrow> u8 list \<Rightarrow> nat \<Rightarrow> nat \<Rightarrow> u32 \<Rightarrow> nat \<Rightarrow> scan se_result" where
  "separator_cut model input target pos cp after =
     bindR (normalization_stable model cp) (\<lambda>stable.
       if \<not> stable then Inr (Continue pos)
       else if cp_is_cjk_segment model cp then
         cut_at model input (after \<le> target) after
           (cut_at model input (pos > 0) pos (Inr (Continue pos)))
       else bindR (is_whitespace model cp) (\<lambda>ws.
            bindR (if ws then Inr True else is_punct model cp) (\<lambda>sep.
              cut_at model input (sep \<and> after \<le> target) after (Inr (Continue pos)))))"

definition prefix_round :: "se_model \<Rightarrow> u8 list \<Rightarrow> nat \<Rightarrow> nat \<Rightarrow> nat \<Rightarrow> scan se_result" where
  "prefix_round model input target low pos =
     bindR (retreat input low (pos - 1)) (\<lambda>pos.
     bindR (rdR input pos) (\<lambda>b.
       if continuation_byte b then Inr (Return 0)
       else bindR (decode_one input pos) (\<lambda>r. case r of
           None \<Rightarrow> Inr (Return 0)
         | Some (cp, after) \<Rightarrow> separator_cut model input target pos cp after)))"

lemma retreat_le: "retreat input low pos = Inr pos' \<Longrightarrow> pos' \<le> pos"
  by (induction pos) (auto simp: bindR_eq_Inr split: if_splits dest!: le_Suc_eq [THEN iffD2, OF disjI1])

lemma cut_at_cases:
  "cut_at model input test boundary otherwise = Inr r \<Longrightarrow>
     test \<and> boundary_splits_added_token model input boundary = Inr False \<and> r = Return boundary \<or>
     otherwise = Inr r"
  by (auto simp: cut_at_def bindR_eq_Inr split: if_splits)

lemma separator_cut_Continue:
  "separator_cut model input target pos cp after = Inr (Continue p) \<Longrightarrow> p = pos"
  by (auto simp: separator_cut_def bindR_eq_Inr split: if_splits dest!: cut_at_cases)

lemma prefix_round_Inr:
  assumes "prefix_round model input target low pos = Inr r"
  shows "\<exists>p b. p \<le> pos - 1 \<and> rdR input p = Inr b \<and>
    (r = Return 0 \<or> \<not> continuation_byte b \<and> (\<exists>cp after. decode_one input p = Inr (Some (cp, after)) \<and>
       separator_cut model input target p cp after = Inr r))"
proof -
  obtain p b where p: "retreat input low (pos - 1) = Inr p" "rdR input p = Inr b"
    and r: "(if continuation_byte b then Inr (Return 0)
       else bindR (decode_one input p) (\<lambda>r. case r of
           None \<Rightarrow> Inr (Return 0)
         | Some (cp, after) \<Rightarrow> separator_cut model input target p cp after)) = Inr r"
    using assms by (auto simp: prefix_round_def bindR_eq_Inr)
  have "p \<le> pos - 1" using retreat_le [OF p(1)] .
  then show ?thesis using p(2) r
    by (intro exI [of _ p] exI [of _ b]) (auto simp: bindR_eq_Inr split: if_splits option.splits)
qed

lemma prefix_round_less:
  "prefix_round model input target low pos = Inr (Continue pos') \<Longrightarrow> low < pos \<Longrightarrow> pos' < pos"
  by (auto dest!: prefix_round_Inr separator_cut_Continue)

function prefix_loop :: "se_model \<Rightarrow> u8 list \<Rightarrow> nat \<Rightarrow> nat \<Rightarrow> nat \<Rightarrow> nat se_result" where
  "prefix_loop model input target low pos =
     (if pos > low then
        bindR (prefix_round model input target low pos) (\<lambda>r. case r of
            Continue pos' \<Rightarrow> prefix_loop model input target low pos'
          | Return n \<Rightarrow> Inr n)
      else Inr 0)"
  by pat_completeness auto
termination
  by (relation "measure (\<lambda>(model, input, target, low, pos). pos)") (auto dest: prefix_round_less)

declare prefix_loop.simps [simp del]

definition se_prefix_boundary_len :: "se_model \<Rightarrow> u8 list \<Rightarrow> nat \<Rightarrow> nat \<Rightarrow> nat se_result" where
  "se_prefix_boundary_len model input target backscan =
     (if target \<ge> length input then Inr (length input)
      else if target = 0 then Inr 0
      else let low = (if target > backscan then target - backscan else 0)
           in prefix_loop model input target low target)"

subsection \<open>Separators end words\<close>

definition stable_cp :: "se_model \<Rightarrow> u32 \<Rightarrow> bool" where
  "stable_cp m cp =
     (cp < 0x80 \<or>
      (mt_do_lower_case (md_meta m) \<noteq> 0 \<longrightarrow> lower_cp m cp = None) \<and>
      (mt_strip_accents (md_meta m) \<noteq> 0 \<longrightarrow> nfd_cp m cp = None \<and> \<not> mn_cp m cp))"

lemma normalization_stable_eq:
  assumes "norm_tables_ok (md_norm m)"
  shows "normalization_stable m cp = Inr (stable_cp m cp)"
  by (auto simp: normalization_stable_def stable_cp_def lower_entry_eq [OF assms] nfd_entry_eq [OF assms]
      is_mn_eq [OF assms])

lemma stripped_stable:
  assumes "stable_cp m cp" "\<not> (cp \<ge> 0x41 \<and> cp \<le> 0x5A)"
  shows "stripped m cp = [cp]"
  using assms by (auto simp: stripped_def lowered_def stable_cp_def split: option.splits)

text \<open>
  A separator on which cleaning and the search for a boundary agree: cleaning does not remove it.  The tables that are
  shipped make U+0085 a separator that is removed, and no other one; so the condition is one on the text.
\<close>

definition separator_kept :: "se_model \<Rightarrow> u32 \<Rightarrow> bool" where
  "separator_kept m cp =
     (whitespace_cp m cp \<or> punct_cp m cp \<or> cp_is_cjk_segment m cp \<longrightarrow> cp \<noteq> 0 \<and> cp \<noteq> 0xFFFD \<and> \<not> control_cp m cp)"

definition separators_kept :: "se_model \<Rightarrow> u8 list \<Rightarrow> bool" where
  "separators_kept m input =
     list_all (\<lambda>pos. case decode_one input pos of Inr (Some (cp, _)) \<Rightarrow> separator_kept m cp | _ \<Rightarrow> True) [0..<length input]"

lemma separators_kept_at:
  assumes "separators_kept m input" "decode_one input pos = Inr (Some (cp, j))"
  shows "separator_kept m cp"
proof -
  have "pos < length input" using decode_one_progress [OF assms(2)] by simp
  then have "case decode_one input pos of Inr (Some (cp, _)) \<Rightarrow> separator_kept m cp | _ \<Rightarrow> True"
    using assms(1) unfolding separators_kept_def list_all_iff by simp
  then show ?thesis using assms(2) by simp
qed

lemma separators_kept_from:
  "(\<And>pos cp j. decode_one input pos = Inr (Some (cp, j)) \<Longrightarrow> separator_kept m cp) \<Longrightarrow> separators_kept m input"
  by (auto simp: separators_kept_def list_all_iff split: sum.split option.split)

text \<open>With tables like the shipped ones, a text without U+0085 meets the condition.\<close>

definition only_nel_removed :: "se_model \<Rightarrow> bool" where
  "only_nel_removed m = (\<forall>cp. cp \<noteq> 0x85 \<longrightarrow> separator_kept m cp)"

lemma separators_kept_without_nel:
  assumes "only_nel_removed m" "\<And>pos j. decode_one input pos \<noteq> Inr (Some (0x85, j))"
  shows "separators_kept m input"
proof (rule separators_kept_from)
  fix pos cp j
  assume d: "decode_one input pos = Inr (Some (cp, j))"
  then have "cp \<noteq> 0x85" using assms(2) by blast
  then show "separator_kept m cp" using assms(1) by (simp add: only_nel_removed_def)
qed

definition closes_word :: "se_model \<Rightarrow> item \<Rightarrow> bool" where
  "closes_word m it = (\<exists>acts. \<forall>seg. item_step m seg it = (flush_acts seg @ acts, []))"

definition opens_word :: "se_model \<Rightarrow> item \<Rightarrow> bool" where
  "opens_word m it = (\<exists>acts seg'. \<forall>seg. item_step m seg it = (flush_acts seg @ acts, seg'))"

lemma closed_opens: "closes_word m it \<Longrightarrow> opens_word m it"
  unfolding closes_word_def opens_word_def by blast

lemma closes_added: "closes_word m (Added tok)"
  by (simp add: closes_word_def item_step_def)

lemma space_32: "whitespace_cp m 32" "stripped m 32 = [32]" "seg_cp m seg 32 = (flush_acts seg, [])"
proof -
  show ws: "whitespace_cp m 32" by (simp add: whitespace_cp_def se_is_ascii_whitespace_def)
  show "stripped m 32 = [32]" by (rule stripped_stable) (simp_all add: stable_cp_def)
  show "seg_cp m seg 32 = (flush_acts seg, [])" using ws by (simp add: seg_cp_def)
qed

lemma closes_space: "cleaned m cp = [32] \<Longrightarrow> closes_word m (Cp cp)"
  by (simp add: closes_word_def item_step_def space_32)

lemma closes_cjk:
  assumes "separator_kept m cp" "cp_is_cjk_segment m cp"
  shows "closes_word m (Cp cp)"
proof -
  have kept: "cp \<noteq> 0" "cp \<noteq> 0xFFFD" "\<not> control_cp m cp" using assms by (auto simp: separator_kept_def)
  have cjk: "mt_handle_chinese_chars (md_meta m) \<noteq> 0" "cp \<ge> 0x3400" "se_is_cjk cp"
    using assms(2) by (auto simp: cp_is_cjk_segment_def)
  show ?thesis
  proof (cases "whitespace_cp m cp")
    case True
    then have "cleaned m cp = [32]" using kept by (simp add: cleaned_def space_32 Let_def)
    then show ?thesis by (rule closes_space)
  next
    case False
    then have c: "cleaned m cp = 32 # stripped m cp @ [32]" using kept cjk by (simp add: cleaned_def space_32 Let_def)
    obtain a s where "seg_cps m [] (stripped m cp) = (a, s)" by (metis surj_pair)
    then show ?thesis by (simp add: closes_word_def item_step_def c space_32 seg_cps_append)
  qed
qed

lemma closes_separator:
  assumes "separator_kept m cp" "stable_cp m cp" "whitespace_cp m cp \<or> punct_cp m cp" "\<not> cp_is_cjk_segment m cp"
  shows "closes_word m (Cp cp)"
proof -
  have kept: "cp \<noteq> 0" "cp \<noteq> 0xFFFD" "\<not> control_cp m cp" using assms(1,3) by (auto simp: separator_kept_def)
  show ?thesis
  proof (cases "whitespace_cp m cp")
    case True
    then have "cleaned m cp = [32]" using kept by (simp add: cleaned_def space_32 Let_def)
    then show ?thesis by (rule closes_space)
  next
    case False
    then have p: "punct_cp m cp" using assms(3) by blast
    have "\<not> (cp \<ge> 0x41 \<and> cp \<le> 0x5A)"
      using p by (auto simp: punct_cp_def se_is_ascii_punct_def word_le_nat_alt word_less_nat_alt split: if_splits)
    then have "cleaned m cp = [cp]"
      using kept False assms(4) stripped_stable [OF assms(2)]
      by (auto simp: cleaned_def Let_def cp_is_cjk_segment_def)
    then show ?thesis using False p by (auto simp: closes_word_def item_step_def seg_cp_def)
  qed
qed

subsection \<open>Items of a prefix\<close>

lemma item_steps_append:
  "item_steps m seg (xs @ ys) =
     (case item_steps m seg xs of (a, s) \<Rightarrow> case item_steps m s ys of (b, s') \<Rightarrow> (a @ b, s'))"
  by (induction xs arbitrary: seg) (auto split: prod.splits)

lemma item_steps_closed:
  assumes "xs \<noteq> []" "closes_word m (last xs)"
  shows "snd (item_steps m seg xs) = []"
proof -
  have xs: "xs = butlast xs @ [last xs]" using assms(1) by simp
  show ?thesis using assms(2) by (subst xs) (auto simp: item_steps_append closes_word_def split: prod.splits)
qed

lemma item_steps_opens:
  assumes "opens_word m it"
  shows "\<exists>acts seg'. \<forall>seg. item_steps m seg (it # its) = (flush_acts seg @ acts, seg')"
proof -
  obtain acts s where "\<And>seg. item_step m seg it = (flush_acts seg @ acts, s)" using assms by (auto simp: opens_word_def)
  moreover obtain b s' where "item_steps m s its = (b, s')" by (metis surj_pair)
  ultimately show ?thesis by (intro exI [of _ "acts @ b"] exI [of _ s']) simp
qed

text \<open>\<open>uncrossed m input n\<close>: no code point and no added token begins before \<open>n\<close> and ends behind it.\<close>

definition uncrossed :: "se_model \<Rightarrow> u8 list \<Rightarrow> nat \<Rightarrow> bool" where
  "uncrossed m input n =
     (\<forall>i<n. (\<forall>tok len. added_at m input i = Some (tok, len) \<longrightarrow> i + len \<le> n) \<and>
            (\<forall>cp j. decode_one input i = Inr (Some (cp, j)) \<longrightarrow> j \<le> n))"

lemma decode_one_take:
  assumes "i < n" "n \<le> length input" and un: "\<forall>cp j. decode_one input i = Inr (Some (cp, j)) \<longrightarrow> j \<le> n"
  shows "decode_one (take n input) i = decode_one input i"
proof -
  have i: "i < length input" "i < length (take n input)" using assms(1,2) by simp_all
  obtain r r' where r: "decode_one input i = Inr r" "decode_one (take n input) i = Inr r'"
    using i [THEN decode_one_in_bounds] by blast
  have fwd: "r' = Some (cp, j)" if "r = Some (cp, j)" for cp j
  proof -
    note d = decode_one_sound [OF r(1) [unfolded that]]
    have "j \<le> n" using un r(1) that by simp
    have j: "j = i + length (se_utf8_encode cp)" and src: "drop i input = se_utf8_encode cp @ drop j input"
      and v: "valid_unicode_codepoint cp" using d by blast+
    have "drop i (take n input) = take (n - i) (se_utf8_encode cp @ drop j input)"
      unfolding drop_take src ..
    also have "\<dots> = se_utf8_encode cp @ take (n - j) (drop j input)"
      using \<open>j \<le> n\<close> j by simp
    finally have "drop i (take n input) = se_utf8_encode cp @ take (n - j) (drop j input)" .
    from decode_one_encode [OF v this] r(2) j show ?thesis by simp
  qed
  have "r = Some (cp, j)" if "r' = Some (cp, j)" for cp j
  proof -
    note d = decode_one_sound [OF r(2) [unfolded that]]
    have j: "j = i + length (se_utf8_encode cp)" and v: "valid_unicode_codepoint cp"
      and src: "drop i (take n input) = se_utf8_encode cp @ drop j (take n input)" using d by blast+
    have "drop i (take n input @ drop n input) = drop i (take n input) @ drop n input"
      using assms(1,2) by (subst drop_append) simp
    then have "drop i input = se_utf8_encode cp @ (drop j (take n input) @ drop n input)"
      unfolding append_take_drop_id src by simp
    from decode_one_encode [OF v this] r(1) j show ?thesis by simp
  qed
  with fwd have "r' = r" by (metis not_None_eq surj_pair)
  then show ?thesis using r by simp
qed

lemma match_specs_take:
  assumes "i < n" "n \<le> length input"
  shows "(\<And>tok len. specs_at m input i specs = Some (tok, len) \<Longrightarrow> i + len \<le> n) \<Longrightarrow>
    specs_at m (take n input) i specs = specs_at m input i specs"
proof (induction specs)
  case (Cons sp specs)
  obtain b tx where sp: "sp = (b, tx)" by (cases sp)
  have len: "length (take n input) = n" using assms(2) by simp
  show ?case
  proof (cases "mt_added_token_mask (md_meta m) AND b = 0 \<or> length tx > length input - i \<or>
      take (length tx) (drop i input) \<noteq> tx")
    case True
    then have full: "specs_at m input i (sp # specs) = specs_at m input i specs" by (auto simp: sp)
    moreover have "specs_at m (take n input) i (sp # specs) = specs_at m (take n input) i specs"
      using True assms by (auto simp: sp drop_take min_def)
    ultimately show ?thesis using Cons by simp
  next
    case False
    then have "specs_at m input i (sp # specs) = Some (added_token_id m b, length tx)" by (simp add: sp)
    moreover from Cons.prems [OF this] have "i + length tx \<le> n" .
    ultimately show ?thesis using False assms by (auto simp: sp drop_take min_def)
  qed
qed simp

lemma match_added_token_take:
  assumes "i < n" "n \<le> length input"
    and "\<forall>tok len. added_at m input i = Some (tok, len) \<longrightarrow> i + len \<le> n"
  shows "added_at m (take n input) i = added_at m input i"
proof (cases "mt_added_token_mask (md_meta m) = 0 \<or> input ! i \<noteq> 0x5B")
  case True
  then show ?thesis using assms(1,2) by (auto simp: added_at_def)
next
  case False
  then have eq: "added_at m xs i = specs_at m xs i SE_ADDED_TOKENS"
    if "xs = input \<or> xs = take n input" for xs
    using assms(1,2) that by (auto simp: added_at_def)
  show ?thesis using match_specs_take [OF assms(1,2), of m SE_ADDED_TOKENS] assms(3) eq by auto
qed

lemma items_take:
  assumes "n \<le> length input" "uncrossed m input n"
  shows "i \<le> n \<Longrightarrow> items m input i =
    (case items m (take n input) i of (its, valid) \<Rightarrow>
       if valid then (case items m input n of (its', valid') \<Rightarrow> (its @ its', valid')) else (its, False))"
proof (induction "n - i" arbitrary: i rule: less_induct)
  case less
  show ?case
  proof (cases "i = n")
    case True
    then show ?thesis using assms(1) by (subst (2) items.simps) simp
  next
    case False
    then have i: "i < n" "i < length input" "i < length (take n input)" using less.prems assms(1) by auto
    have un: "\<forall>tok len. added_at m input i = Some (tok, len) \<longrightarrow> i + len \<le> n"
      "\<forall>cp j. decode_one input i = Inr (Some (cp, j)) \<longrightarrow> j \<le> n"
      using assms(2) i(1) by (auto simp: uncrossed_def)
    note madd = match_added_token_take [OF i(1) assms(1) un(1)] and dec = decode_one_take [OF i(1) assms(1) un(2)]
    show ?thesis
    proof (cases "added_at m input i")
      case (Some p)
      obtain tok len where p: "p = (tok, len)" by (cases p)
      note s = Some [unfolded p]
      have "0 < len" using match_added_token_pos [OF s] .
      then have IH: "items m input (i + len) = (case items m (take n input) (i + len) of (its, valid) \<Rightarrow>
         if valid then (case items m input n of (its', valid') \<Rightarrow> (its @ its', valid')) else (its, False))"
        using un(1) s i by (intro less.hyps) auto
      show ?thesis
        unfolding items_added [OF i(2) s] items_added [OF i(3) madd [unfolded s]] IH
        by (auto split: prod.splits)
    next
      case None
      obtain r where r: "decode_one input i = Inr r" using decode_one_in_bounds [OF i(2)] by blast
      show ?thesis
      proof (cases r)
        case none: None
        then show ?thesis using r None madd dec i
          by (subst items.simps, subst (2) items.simps) simp
      next
        case (Some p)
        then obtain cp j where d: "decode_one input i = Inr (Some (cp, j))" using r by (cases p) auto
        have "i < j" "j \<le> n" using decode_one_progress [OF d] un(2) d by auto
        then have IH: "items m input j = (case items m (take n input) j of (its, valid) \<Rightarrow>
           if valid then (case items m input n of (its', valid') \<Rightarrow> (its @ its', valid')) else (its, False))"
          using i by (intro less.hyps) auto
        show ?thesis
          unfolding items_cp [OF i(2) None d] items_cp [OF i(3) madd [unfolded None] dec [unfolded d]] IH
          by (auto split: prod.splits)
      qed
    qed
  qed
qed

subsection \<open>Boundaries the code accepts\<close>

lemma decode_one_bytes:
  assumes "decode_one src i = Inr (Some (cp, j))"
  shows "\<not> tail_byte (src ! i)" and "i < k \<Longrightarrow> k < j \<Longrightarrow> tail_byte (src ! k)"
proof -
  have i: "i < length src" using assms decode_one_Inl [of src i] decode_one_progress [OF assms] by simp
  note d = assms [unfolded decode_one_eq [OF i]]
  show "\<not> tail_byte (src ! i)"
    using d by (auto simp: tail_byte_nat decode_lead_eq Let_def split: if_splits)
  show "tail_byte (src ! k)" if k: "i < k" "k < j"
  proof -
    obtain need where need: "j = i + (need + 1)" "list_all tail_byte (map (\<lambda>j. src ! (i + j)) [1..<Suc need])"
      using d k by (auto simp: Let_def split: if_splits option.splits)
    then have "k - i \<in> set [1..<Suc need]" using k by auto
    then have "tail_byte (src ! (i + (k - i)))" using need(2) by (auto simp: list_all_iff)
    then show ?thesis using k(1) by simp
  qed
qed

lemma splits_token_eq:
  "splits_token input boundary lit k = Inr False \<Longrightarrow> k \<le> b \<Longrightarrow> b < length lit \<Longrightarrow> b \<le> boundary \<Longrightarrow>
   boundary - b + length lit \<le> length input \<Longrightarrow> input ! (boundary - b) = 0x5B \<Longrightarrow>
   take (length lit) (drop (boundary - b) input) \<noteq> lit"
proof (induction input boundary lit k rule: splits_token.induct)
  case (1 input boundary lit k)
  let ?start = "boundary - k"
  have c: "k < length lit \<and> k \<le> boundary" using 1 by linarith
  have "splits_token input boundary lit (k + 1) = Inr False \<or> ?start + length lit > length input"
    using "1.prems"(1) c by (subst (asm) splits_token.simps) (auto simp: Let_def bindR_eq_Inr split: if_splits)
  show ?case
  proof (cases "b = k")
    case True
    then have "?start + length lit \<le> length input" "rdR input ?start = Inr 0x5B"
      using "1.prems" c by (auto simp: rdR_def)
    then show ?thesis
      using "1.prems"(1) c True by (subst (asm) splits_token.simps) (auto simp: Let_def memcmp_at_Inr split: if_splits)
  next
    case False
    then have b: "k + 1 \<le> b" using "1.prems"(2) by simp
    show ?thesis
    proof (cases "?start + length lit > length input")
      case True
      then have "splits_token input boundary lit (k + 1) = Inr False"
        using "1.prems"(1) c by (subst (asm) splits_token.simps) simp
      from "1.IH"(1) [OF c refl True this b] "1.prems" show ?thesis by simp
    next
      case f: False
      then obtain y where y: "rdR input ?start = Inr y" "splits_token input boundary lit (k + 1) = Inr False"
        using "1.prems"(1) c by (subst (asm) splits_token.simps) (auto simp: Let_def bindR_eq_Inr split: if_splits)
      show ?thesis
      proof (cases "y = 0x5B")
        case False
        from "1.IH"(2) [OF c refl f y(1) False y(2) b] "1.prems" show ?thesis by simp
      next
        case True
        have cmp: "memcmp_at input ?start lit (length lit) = Inr False"
          using "1.prems"(1) c f y(1) True by (subst (asm) splits_token.simps) (auto simp: memcmp_at_Inr split: if_splits)
        from "1.IH"(3) [OF c refl f y(1) _ cmp _ y(2) b] True "1.prems" show ?thesis by simp
      qed
    qed
  qed
qed

lemma splits_specs_eq:
  assumes "splits_specs m input boundary specs = Inr False" "(b, lit) \<in> set specs"
    "mt_added_token_mask (md_meta m) AND b \<noteq> 0"
  shows "splits_token input boundary lit 1 = Inr False"
  using assms(1,2)
proof (induction specs)
  case (Cons sp specs)
  then show ?case using assms(3) by (cases sp) (auto simp: bindR_eq_Inr split: if_splits)
qed simp

lemma match_specs_spec:
  "specs_at m input pos specs = Some (tok, len) \<Longrightarrow>
     \<exists>b tx. (b, tx) \<in> set specs \<and> mt_added_token_mask (md_meta m) AND b \<noteq> 0 \<and>
       len = length tx \<and> take len (drop pos input) = tx"
  by (induction m input pos specs rule: specs_at.induct) (auto split: if_splits)

lemma not_split:
  assumes "boundary_splits_added_token m input n = Inr False" "added_at m input i = Some (tok, len)" "i < n"
    "n \<le> length input"
  shows "i + len \<le> n"
proof (rule ccontr)
  assume cross: "\<not> i + len \<le> n"
  have br: "input ! i = 0x5B" and mask: "mt_added_token_mask (md_meta m) \<noteq> 0"
    and "specs_at m input i SE_ADDED_TOKENS = Some (tok, len)"
    using assms(2) by (auto simp: added_at_def split: if_splits)
  from match_specs_spec [OF this(3)] obtain b tx where
    tx: "(b, tx) \<in> set SE_ADDED_TOKENS" "mt_added_token_mask (md_meta m) AND b \<noteq> 0" "len = length tx"
      "take len (drop i input) = tx" by blast
  have le: "i + len \<le> length input" using match_added_token_le [OF assms(2)] .
  then have "splits_specs m input n SE_ADDED_TOKENS = Inr False"
    using assms(1,3) mask cross by (auto simp: boundary_splits_added_token_def split: if_splits)
  from splits_specs_eq [OF this tx(1,2)] have "splits_token input n tx 1 = Inr False" .
  from splits_token_eq [OF this, of "n - i"] show False
    using assms(3,4) cross le br tx by auto
qed

text \<open>A code point at \<open>pos\<close> keeps every other code point from crossing its two ends.\<close>

lemma uncrossed_at:
  assumes "decode_one input pos = Inr (Some (cp, after))" "n = pos \<or> n = after"
    "boundary_splits_added_token m input n = Inr False"
  shows "uncrossed m input n"
  unfolding uncrossed_def
proof (intro allI impI conjI)
  fix i assume i: "i < n"
  note p = decode_one_progress [OF assms(1)] and bytes = decode_one_bytes [OF assms(1)]
  have n: "n \<le> length input" using p assms(2) by auto
  show "i + len \<le> n" if "added_at m input i = Some (tok, len)" for tok len
    using not_split [OF assms(3) that i n] .
  show "j \<le> n" if d: "decode_one input i = Inr (Some (cp', j))" for cp' j
  proof (rule ccontr)
    assume "\<not> j \<le> n"
    moreover have "i = pos \<Longrightarrow> j = after" using d assms(1) by simp
    moreover have "i < pos \<Longrightarrow> pos < j \<Longrightarrow> False" using decode_one_bytes(2) [OF d] bytes(1) by blast
    moreover have "pos < i \<Longrightarrow> i < after \<Longrightarrow> False" using decode_one_bytes(1) [OF d] bytes(2) by blast
    ultimately show False using assms(2) i p(1) by linarith
  qed
qed

lemma last_item:
  "items m input i = (its, True) \<Longrightarrow> i < length input \<Longrightarrow>
   its \<noteq> [] \<and> ((\<exists>tok. last its = Added tok) \<or>
     (\<exists>k cp. i \<le> k \<and> decode_one input k = Inr (Some (cp, length input)) \<and> last its = Cp cp))"
proof (induction "length input - i" arbitrary: i its rule: less_induct)
  case less
  have tail: ?case if step: "items m input i = (case items m input j of (r, v) \<Rightarrow> (it # r, v))" and j: "i < j" "j \<le> length input"
    and it: "j = length input \<Longrightarrow> (\<exists>tok. it = Added tok) \<or> (\<exists>cp. decode_one input i = Inr (Some (cp, length input)) \<and> it = Cp cp)"
    for it j
  proof -
    obtain r where r: "items m input j = (r, True)" "its = it # r" using less.prems(1) step by (auto split: prod.splits)
    show ?thesis
    proof (cases "j = length input")
      case True
      then have "r = []" using r(1) by (simp add: items.simps)
      then show ?thesis using it [OF True] r(2) by auto
    next
      case False
      then have "r \<noteq> [] \<and> ((\<exists>tok. last r = Added tok) \<or>
          (\<exists>k cp. j \<le> k \<and> decode_one input k = Inr (Some (cp, length input)) \<and> last r = Cp cp))"
        using j less.prems(2) by (intro less.hyps [OF _ r(1)]) auto
      then show ?thesis using r(2) j(1) by (auto intro: less_imp_le order_trans)
    qed
  qed
  show ?case
  proof (cases "added_at m input i")
    case (Some p)
    obtain tok len where p: "p = (tok, len)" by (cases p)
    note s = Some [unfolded p]
    show ?thesis
      using match_added_token_pos [OF s] match_added_token_le [OF s]
      by (intro tail [OF items_added [OF less.prems(2) s]]) auto
  next
    case None
    obtain cp j where d: "decode_one input i = Inr (Some (cp, j))"
      using less.prems None by (subst (asm) items.simps) (auto split: sum.splits option.splits)
    show ?thesis
      using decode_one_progress [OF d] d by (intro tail [OF items_cp [OF less.prems(2) None d]]) auto
  qed
qed

subsection \<open>The loop\<close>

text \<open>What is known of a boundary that the loop returns.\<close>

definition word_boundary :: "se_model \<Rightarrow> u8 list \<Rightarrow> nat \<Rightarrow> nat \<Rightarrow> bool" where
  "word_boundary m input target n =
     (n \<le> target \<and>
      (\<exists>pos cp after. decode_one input pos = Inr (Some (cp, after)) \<and>
         boundary_splits_added_token m input n = Inr False \<and>
         (n = after \<and> stable_cp m cp \<and> (whitespace_cp m cp \<or> punct_cp m cp \<or> cp_is_cjk_segment m cp) \<or>
          n = pos \<and> cp_is_cjk_segment m cp)))"

lemma retreat_total: "pos < length input \<Longrightarrow> \<exists>p. retreat input low pos = Inr p"
  by (induction pos) (auto simp: rdR_Inr)

lemma splits_token_total: "lit \<noteq> [] \<Longrightarrow> \<exists>r. splits_token input boundary lit k = Inr r"
proof (induction input boundary lit k rule: splits_token.induct)
  case (1 input boundary lit k)
  show ?case
  proof (cases "k < length lit \<and> k \<le> boundary")
    case True
    show ?thesis
    proof (cases "boundary - k + length lit > length input")
      case over: True
      then show ?thesis using "1.IH"(1) [OF True refl over "1.prems"] True by (subst splits_token.simps) simp
    next
      case False
      then have i: "boundary - k < length input" using "1.prems" by (cases lit) auto
      note rd = rdR_Inr [OF i]
      have cmp: "memcmp_at input (boundary - k) lit (length lit) = Inr (take (length lit) (drop (boundary - k) input) = lit)"
        using False by (simp add: memcmp_at_Inr)
      show ?thesis
        using "1.IH"(2) [OF True refl False rd _ "1.prems"] "1.IH"(3) [OF True refl False rd _ cmp _ "1.prems"] True False rd cmp
        by (subst splits_token.simps) (auto simp: Let_def)
    qed
  next
    case False
    then have "splits_token input boundary lit k = Inr False" by (subst splits_token.simps) auto
    then show ?thesis by blast
  qed
qed

lemma splits_specs_total: "\<forall>(b, lit)\<in>set specs. lit \<noteq> [] \<Longrightarrow> \<exists>r. splits_specs m input n specs = Inr r"
proof (induction specs)
  case Nil
  show ?case by (intro exI) (rule splits_specs.simps(1))
next
  case (Cons sp specs)
  obtain b lit where sp: "sp = (b, lit)" by (cases sp)
  obtain r where "splits_token input n lit 1 = Inr r" using splits_token_total Cons.prems sp by fastforce
  then show ?case using Cons sp by auto
qed

lemma boundary_total: "\<exists>r. boundary_splits_added_token m input n = Inr r"
  using splits_specs_total [of SE_ADDED_TOKENS m input n]
  by (auto simp: boundary_splits_added_token_def SE_ADDED_TOKENS_def)

lemma cut_at_total: "\<exists>r. otherwise = Inr r \<Longrightarrow> \<exists>r. cut_at m input test n otherwise = Inr r"
  using boundary_total [of m input n] by (auto simp: cut_at_def)

lemma separator_cut_total:
  assumes "norm_tables_ok (md_norm m)"
  shows "\<exists>r. separator_cut m input target pos cp after = Inr r"
  by (auto simp: separator_cut_def normalization_stable_eq [OF assms] is_whitespace_eq [OF assms]
      is_punct_eq [OF assms] intro!: cut_at_total)

lemma separator_cut_Return:
  assumes "norm_tables_ok (md_norm m)" "separator_cut m input target pos cp after = Inr (Return n)"
    "decode_one input pos = Inr (Some (cp, after))" "pos < target"
  shows "word_boundary m input target n"
proof -
  have stable: "stable_cp m cp" and cut: "if cp_is_cjk_segment m cp then
         cut_at m input (after \<le> target) after (cut_at m input (pos > 0) pos (Inr (Continue pos))) = Inr (Return n)
       else cut_at m input ((whitespace_cp m cp \<or> punct_cp m cp) \<and> after \<le> target) after (Inr (Continue pos)) = Inr (Return n)"
    using assms(2) by (auto simp: separator_cut_def normalization_stable_eq [OF assms(1)]
        is_whitespace_eq [OF assms(1)] is_punct_eq [OF assms(1)] split: if_splits)
  show ?thesis
  proof (cases "cp_is_cjk_segment m cp")
    case True
    with cut consider "after \<le> target" "boundary_splits_added_token m input after = Inr False" "n = after"
      | "boundary_splits_added_token m input pos = Inr False" "n = pos"
      by (auto dest!: cut_at_cases)
    then show ?thesis using True stable assms(3,4) unfolding word_boundary_def by cases (fastforce, fastforce)
  next
    case False
    with cut have "whitespace_cp m cp \<or> punct_cp m cp" "after \<le> target"
      "boundary_splits_added_token m input after = Inr False" "n = after" by (auto dest!: cut_at_cases)
    then show ?thesis using stable assms(3) unfolding word_boundary_def by fastforce
  qed
qed

lemma prefix_round_total:
  assumes "norm_tables_ok (md_norm m)" "0 < pos" "pos \<le> length input"
  shows "\<exists>r. prefix_round m input target low pos = Inr r"
proof -
  have "pos - 1 < length input" using assms(2,3) by simp
  then obtain p where p: "retreat input low (pos - 1) = Inr p" using retreat_total by blast
  have i: "p < length input" using retreat_le [OF p] \<open>pos - 1 < length input\<close> by simp
  obtain r where "decode_one input p = Inr r" using decode_one_in_bounds [OF i] by blast
  then show ?thesis
    using p rdR_Inr [OF i] separator_cut_total [OF assms(1)] by (auto simp: prefix_round_def split: option.split)
qed

lemma prefix_loop_correct:
  assumes "norm_tables_ok (md_norm m)" "target \<le> length input"
  shows "pos \<le> target \<Longrightarrow>
    \<exists>n. prefix_loop m input target low pos = Inr n \<and> (n = 0 \<or> word_boundary m input target n)"
proof (induction pos rule: less_induct)
  case (less pos)
  show ?case
  proof (cases "pos > low")
    case False
    then show ?thesis by (subst prefix_loop.simps) simp
  next
    case True
    obtain r where r: "prefix_round m input target low pos = Inr r"
      using prefix_round_total [OF assms(1)] True less.prems assms(2) by (metis gr_implies_not0 le_trans neq0_conv)
    show ?thesis
    proof (cases r)
      case (Continue pos')
      then have "pos' < pos" using prefix_round_less r True by blast
      then show ?thesis
        using less.IH [of pos'] less.prems r True Continue by (subst prefix_loop.simps) simp
    next
      case (Return n)
      have "n = 0 \<or> word_boundary m input target n"
        using prefix_round_Inr [OF r] True less.prems
        by (auto simp: Return intro: separator_cut_Return [OF assms(1)])
      then show ?thesis using r True Return by (subst prefix_loop.simps) simp
    qed
  qed
qed

lemma boundary_correct:
  assumes "norm_tables_ok (md_norm m)"
  shows "\<exists>n. se_prefix_boundary_len m input target backscan = Inr n \<and>
    (n = 0 \<or> n = length input \<and> length input \<le> target \<or> target < length input \<and> word_boundary m input target n)"
proof (cases "target \<ge> length input \<or> target = 0")
  case True
  then show ?thesis by (auto simp: se_prefix_boundary_len_def)
next
  case False
  then show ?thesis
    using prefix_loop_correct [OF assms, of target input target "if target > backscan then target - backscan else 0"]
    by (auto simp: se_prefix_boundary_len_def Let_def)
qed

subsection \<open>The tokens of a prefix\<close>

text \<open>The actions of an input, and whether all of it could be decoded.\<close>

definition acts_of :: "se_model \<Rightarrow> u8 list \<Rightarrow> action list \<times> bool" where
  "acts_of m input =
     (case items m input 0 of (its, valid) \<Rightarrow> case item_steps m [] its of (acts, seg) \<Rightarrow>
        (acts @ (if valid then flush_acts seg else []), valid))"

lemma tokenize_spec_acts:
  "tokenize_spec cfg input =
     (case acts_of (tc_model cfg) input of (acts, valid) \<Rightarrow> conclude valid (run_actions cfg [] acts))"
  by (simp add: tokenize_spec_def meaning_def acts_of_def split: prod.splits)

lemma boundary_acts:
  assumes "separators_kept m input" "word_boundary m input target n" "0 < n"
  shows "\<exists>acts valid. acts_of m (take n input) = (acts, valid) \<and>
    (if valid then \<exists>rest valid'. acts_of m input = (acts @ rest, valid') else acts_of m input = (acts, False))"
proof -
  obtain pos cp after where d: "decode_one input pos = Inr (Some (cp, after))"
    and nsplit: "boundary_splits_added_token m input n = Inr False"
    and n: "n = after \<and> stable_cp m cp \<and> (whitespace_cp m cp \<or> punct_cp m cp \<or> cp_is_cjk_segment m cp) \<or>
      n = pos \<and> cp_is_cjk_segment m cp"
    using assms(2) by (auto simp: word_boundary_def)
  note p = decode_one_progress [OF d] and kept = separators_kept_at [OF assms(1) d]
  have le: "n \<le> length input" using n p by auto
  have un: "uncrossed m input n" using uncrossed_at [OF d _ nsplit] n by blast
  obtain its valid where pre: "items m (take n input) 0 = (its, valid)" by (metis surj_pair)
  obtain acts seg where st: "item_steps m [] its = (acts, seg)" by (metis surj_pair)
  note whole = items_take [OF le un, of 0, unfolded pre]
  show ?thesis
  proof (cases valid)
    case False
    then show ?thesis using pre st whole by (intro exI [of _ acts] exI [of _ False]) (simp add: acts_of_def)
  next
    case True
    obtain its' valid' where rest: "items m input n = (its', valid')" by (metis surj_pair)
    have it: "items m input 0 = (its @ its', valid')" using whole True rest by simp
    have "\<exists>acts' seg'. item_steps m seg its' = (flush_acts seg @ acts', seg')"
      using n
    proof
      assume a: "n = after \<and> stable_cp m cp \<and> (whitespace_cp m cp \<or> punct_cp m cp \<or> cp_is_cjk_segment m cp)"
      have cl: "closes_word m (Cp cp)"
        using a kept closes_cjk closes_separator by blast
      have len: "length (take n input) = n" using le by simp
      have last: "its \<noteq> []" "(\<exists>tok. last its = Added tok) \<or>
          (\<exists>k c. decode_one (take n input) k = Inr (Some (c, n)) \<and> last its = Cp c)"
        using last_item [of "m" "take n input" 0 its, unfolded len] pre True assms(3) by simp_all
      have "closes_word m (last its)"
        using last(2)
      proof
        assume "\<exists>k c. decode_one (take n input) k = Inr (Some (c, n)) \<and> last its = Cp c"
        then obtain k c where k: "decode_one (take n input) k = Inr (Some (c, n))" "last its = Cp c" by blast
        note kp = decode_one_progress [OF k(1)]
        have dk: "decode_one input k = Inr (Some (c, n))"
          using decode_one_take [of k n input] un kp(1) le k(1) by (auto simp: uncrossed_def)
        have "\<not> k < pos" using decode_one_bytes(2) [OF dk, of pos] decode_one_bytes(1) [OF d] a p by auto
        moreover have "\<not> pos < k" using decode_one_bytes(2) [OF d, of k] decode_one_bytes(1) [OF dk] a kp by auto
        ultimately have "k = pos" by simp
        then show ?thesis using dk d k(2) cl by simp
      qed (auto simp: closes_added)
      from item_steps_closed [OF last(1) this, of "[]"] have "seg = []" using st by simp
      then show ?thesis by (simp add: flush_acts_def)
    next
      assume a: "n = pos \<and> cp_is_cjk_segment m cp"
      have i: "n < length input" using a p by simp
      have "0x3400 \<le> cp" using a by (simp add: cp_is_cjk_segment_def)
      then have "input ! pos \<noteq> 0x5B" using d i a by (auto simp: decode_one_def rdR_def)
      then have "added_at m input n = None" using a by (simp add: added_at_def)
      from items_cp [OF i this] d a rest obtain its'' where "its' = Cp cp # its''" by (auto split: prod.splits)
      then show ?thesis using item_steps_opens [OF closed_opens, OF closes_cjk, OF kept] a by metis
    qed
    then obtain acts' seg' where "item_steps m seg its' = (flush_acts seg @ acts', seg')" by blast
    then show ?thesis using pre st it True
      by (intro exI [of _ "acts @ flush_acts seg"] exI [of _ True]) (simp add: acts_of_def item_steps_append)
  qed
qed

text \<open>
  The run on a prefix decides the run on the input, except when it ends without reaching the limit or at
  bytes that are cut off.
\<close>

lemma conclude_extend:
  assumes "conclude valid (run_actions cfg ids acts) = r"
  shows "r = Inr (ids', True) \<Longrightarrow> conclude valid' (run_actions cfg ids (acts @ rest)) = r"
    and "r = Inl e \<Longrightarrow> e \<noteq> SeError SE_ERR_INVALID_UTF8 ''input is not valid UTF-8'' \<Longrightarrow>
      conclude valid' (run_actions cfg ids (acts @ rest)) = r"
  using assms by (auto simp: conclude_def run_actions_append split: outcome.splits if_splits)

lemma prefix_spec:
  assumes "norm_tables_ok (md_norm (tc_model cfg))" "separators_kept (tc_model cfg) input"
    and "se_prefix_boundary_len (tc_model cfg) input target backscan = Inr n" "0 < n"
  shows "tokenize_spec cfg (take n input) = Inr (ids, True) \<Longrightarrow> tokenize_spec cfg input = Inr (ids, True)"
    and "tokenize_spec cfg (take n input) = Inl e \<Longrightarrow> e \<noteq> SeError SE_ERR_INVALID_UTF8 ''input is not valid UTF-8'' \<Longrightarrow>
      tokenize_spec cfg input = Inl e"
proof -
  let ?m = "tc_model cfg"
  have b: "n = length input \<or> word_boundary ?m input target n"
    using boundary_correct [OF assms(1), of input target backscan] assms(3,4) by auto
  obtain acts valid where pre: "acts_of ?m (take n input) = (acts, valid)"
    and all: "if valid then \<exists>rest valid'. acts_of ?m input = (acts @ rest, valid') else acts_of ?m input = (acts, False)"
  proof (cases "n = length input")
    case True
    obtain a v where "acts_of ?m input = (a, v)" by (metis surj_pair)
    with True show ?thesis by (intro that [of a v]) (auto intro: exI [of _ "[]"])
  next
    case False
    then show ?thesis using boundary_acts [OF assms(2) _ assms(4)] b that by blast
  qed
  have ext: "\<exists>rest valid'. acts_of ?m input = (acts @ rest, valid')"
    using all by (auto split: if_splits intro: exI [of _ "[]"])
  show "tokenize_spec cfg input = Inr (ids, True)" if "tokenize_spec cfg (take n input) = Inr (ids, True)"
    using ext that conclude_extend(1) [of valid cfg "[]" acts] pre by (auto simp: tokenize_spec_acts)
  show "tokenize_spec cfg input = Inl e" if "tokenize_spec cfg (take n input) = Inl e"
    "e \<noteq> SeError SE_ERR_INVALID_UTF8 ''input is not valid UTF-8''"
    using ext that conclude_extend(2) [of valid cfg "[]" acts] pre by (auto simp: tokenize_spec_acts)
qed

lemma model_norm: "model_ok m \<Longrightarrow> norm_tables_ok (md_norm m)"
  by (simp add: model_ok_def)

subsection \<open>Examples\<close>

lemma example_separators: "separators_kept example_model input"
  by (rule separators_kept_from)
    (auto simp: separator_kept_def whitespace_cp_def punct_cp_def control_cp_def cp_is_cjk_segment_def
      ascii_control_def se_is_ascii_whitespace_def se_is_ascii_punct_def se_is_cjk_def range_mem_def
      example_model_def example_norm_def norm_fast_tables_def word_le_nat_alt word_less_nat_alt
      split: if_splits)

lemma retreat_here: "pos < length input \<Longrightarrow> \<not> continuation_byte (input ! pos) \<Longrightarrow> retreat input low pos = Inr pos"
  by (cases pos) (simp_all add: rdR_Inr)

lemma example_fields: "md_meta example_model = example_meta" "md_norm example_model = example_norm"
  by (simp_all add: example_model_def example_base_def)

lemma space_boundary:
  assumes "decode_one input pos = Inr (Some (0x20, pos + 1))" "\<not> continuation_byte (input ! pos)"
    "boundary_splits_added_token m input (pos + 1) = Inr False" "pos + 1 < length input"
    "backscan \<noteq> 0"
  shows "se_prefix_boundary_len m input (pos + 1) backscan = Inr (pos + 1)"
  using assms retreat_here [of pos input]
  by (simp add: se_prefix_boundary_len_def Let_def prefix_loop.simps [of m input "Suc pos" _ "Suc pos"] prefix_round_def
      rdR_Inr separator_cut_def normalization_stable_def cp_is_cjk_segment_def is_whitespace_def
      se_is_ascii_whitespace_def cut_at_def)

text \<open>A model like \<open>example_model\<close> in which U+0085 is whitespace and a control character, as in the tables that are shipped.\<close>

definition nel_norm :: se_norm_tables where
  "nel_norm = norm_fast_tables (example_norm\<lparr>nt_whitespace := [\<lparr>rg_lo = 0x85, rg_hi = 0x85\<rparr>]\<rparr>)"

definition nel_model :: se_model where
  "nel_model = example_model\<lparr>md_norm := nel_norm\<rparr>"

lemma nel_norm_ok: "norm_tables_ok nel_norm"
proof -
  have "norm_tables_ok example_norm" using example_model_ok by (simp add: model_ok_def example_model_def)
  then show ?thesis
    by (simp add: norm_tables_ok_def nel_norm_def prepare_idem)
       (simp add: norm_fast_tables_def norm_ranges_ok_def valid_unicode_codepoint_def word_le_nat_alt)
qed

lemma norm_frame:
  "slot_ok (m\<lparr>md_norm := nt\<rparr>) = slot_ok m" "vocab_find (m\<lparr>md_norm := nt\<rparr>) = vocab_find m"
  by (simp_all add: fun_eq_iff slot_ok_def slot_string_def vocab_find_def probe_slots_def)

lemma nel_ok: "model_ok nel_model"
  using example_model_ok nel_norm_ok by (simp add: model_ok_def nel_model_def hash_table_ok_def norm_frame)

lemma nel_unk_root: "unk_only_root nel_model"
  using example_unk_root by (simp add: unk_only_root_def nel_model_def)

lemma nel_decode: "decode_one ([0x61, 0x62, 0xC2, 0x85] @ xs) 2 = Inr (Some (0x85, 4))"
proof -
  have e: "se_utf8_encode 0x85 = [0xC2, 0x85]" by (simp add: se_utf8_encode_def)
  show ?thesis
    using decode_one_encode [of "0x85" 2 "[0x61, 0x62, 0xC2, 0x85] @ xs" xs]
    by (simp add: e valid_unicode_codepoint_def word_le_nat_alt)
qed

lemma nel_boundary: "se_prefix_boundary_len nel_model [0x61, 0x62, 0xC2, 0x85, 0x63] 4 8192 = Inr 4"
proof -
  have m: "md_meta nel_model = example_meta" "md_norm nel_model = nel_norm"
    by (simp_all add: nel_model_def example_fields)
  have r: "retreat [0x61, 0x62, 0xC2, 0x85, 0x63] 0 3 = Inr 2"
    using retreat.simps(2) [of "[0x61, 0x62, 0xC2, 0x85, 0x63]" 0 2] by (simp add: rdR_def retreat_here)
  have d: "decode_one [0x61, 0x62, 0xC2, 0x85, 0x63] 2 = Inr (Some (0x85, 4))" using nel_decode [of "[0x63]"] by simp
  have classes: "normalization_stable nel_model 0x85 = Inr True" "is_whitespace nel_model 0x85 = Inr True"
    using nel_norm_ok
    by (simp_all add: normalization_stable_eq is_whitespace_eq m)
       (simp_all add: stable_cp_def lower_cp_def nfd_cp_def mn_cp_def whitespace_cp_def m nel_norm_def example_norm_def
         norm_fast_tables_def range_mem_def map_find_def)
  show ?thesis
    using r d classes
    by (simp add: se_prefix_boundary_len_def prefix_loop.simps [of _ _ 4 _ 4] prefix_round_def rdR_def separator_cut_def
        cp_is_cjk_segment_def cut_at_def boundary_splits_added_token_def SE_ADDED_TOKENS_def splits_token.simps
        m example_meta_def)
qed

lemma nel_items:
  "items nel_model [0x61, 0x62, 0xC2, 0x85, 0x63] 0 = ([Cp 0x61, Cp 0x62, Cp 0x85, Cp 0x63], True)"
  "items nel_model [0x61, 0x62, 0xC2, 0x85] 0 = ([Cp 0x61, Cp 0x62, Cp 0x85], True)"
proof -
  have a: "decode_one xs k = Inr (Some (ucast (xs ! k), k + 1))" if "k < length xs" "xs ! k < 0x80" for k and xs :: "u8 list"
    using that by (simp add: decode_one_def rdR_def)
  show "items nel_model [0x61, 0x62, 0xC2, 0x85, 0x63] 0 = ([Cp 0x61, Cp 0x62, Cp 0x85, Cp 0x63], True)"
    "items nel_model [0x61, 0x62, 0xC2, 0x85] 0 = ([Cp 0x61, Cp 0x62, Cp 0x85], True)"
    using nel_decode [of "[0x63]", unfolded numeral_2_eq_2] nel_decode [of "[]", unfolded numeral_2_eq_2]
    by (simp_all add: items.simps added_at_def a)
qed

lemma nel_meta: "md_meta nel_model = example_meta" "md_norm nel_model = nel_norm"
  by (simp_all add: nel_model_def example_fields)

lemma nel_steps:
  "item_steps nel_model [] [Cp 0x61, Cp 0x62, Cp 0x85, Cp 0x63] = ([], [0x61, 0x62, 0x63])"
  "item_steps nel_model [] [Cp 0x61, Cp 0x62, Cp 0x85] = ([], [0x61, 0x62])"
  by (simp_all add: item_step_def cleaned_def stripped_def lowered_def control_cp_def ascii_control_def whitespace_cp_def
      punct_cp_def se_is_ascii_whitespace_def se_is_ascii_punct_def seg_cp_def nel_meta example_meta_def nel_norm_def
      example_norm_def norm_fast_tables_def range_mem_def word_le_nat_alt word_less_nat_alt)

lemma nel_words: "word_outcome nel_model [0x61, 0x62] = Pieces [2, 3]" "word_outcome nel_model [0x61, 0x62, 0x63] = Unknown"
  by (simp_all add: word_outcome_def utf8_def se_utf8_encode_def greedy_pieces.simps(2) longest_word_def trie_word_def
    token_at_def trie_step_def child_of_def node_edges_def nel_model_def example_model_def example_base_def example_meta_def
    example_trie_def upt_rec char_boundary_def Let_def vocab_find_def se_hash_bytes_def probe_slots_def
    example_slots_def slot_used_def slot_string_def example_strings_def)

lemma nel_spec:
  "tokenize_spec (example_cfg\<lparr>tc_model := nel_model, tc_max_tokens := 1\<rparr>) [0x61, 0x62, 0xC2, 0x85] = Inr ([2], True)"
  "tokenize_spec (example_cfg\<lparr>tc_model := nel_model, tc_max_tokens := 1\<rparr>) [0x61, 0x62, 0xC2, 0x85, 0x63] = Inr ([1], False)"
proof -
  let ?cfg = "example_cfg\<lparr>tc_model := nel_model, tc_max_tokens := 1\<rparr>"
  have d: "drops_unk ?cfg" "unk_of ?cfg = 1"
    by (simp_all add: drops_unk_def unk_of_def example_cfg_def nel_meta example_meta_def)
  show "tokenize_spec ?cfg [0x61, 0x62, 0xC2, 0x85] = Inr ([2], True)"
    "tokenize_spec ?cfg [0x61, 0x62, 0xC2, 0x85, 0x63] = Inr ([1], False)"
    using d by (simp_all add: tokenize_spec_acts acts_of_def nel_items nel_steps nel_words flush_acts_def action_ids_def
        over_limit_def counted_def limit_ids_def conclude_def nel_meta example_meta_def del: item_steps.simps)
qed

text \<open>The same model on a text without U+0085.\<close>

lemma nel_only: "only_nel_removed nel_model"
  by (auto simp: only_nel_removed_def separator_kept_def whitespace_cp_def punct_cp_def control_cp_def cp_is_cjk_segment_def
      ascii_control_def se_is_ascii_whitespace_def se_is_ascii_punct_def se_is_cjk_def range_mem_def nel_meta
      nel_norm_def example_norm_def norm_fast_tables_def word_le_nat_alt word_less_nat_alt word_unat_eq_iff
      split: if_splits)

lemma ascii_items: "list_all (\<lambda>b. b < 0x80) xs \<Longrightarrow> decode_one xs pos \<noteq> Inr (Some (0x85, j))"
proof
  assume a: "list_all (\<lambda>b. b < 0x80) xs" and d: "decode_one xs pos = Inr (Some (0x85, j))"
  then have i: "pos < length xs" using decode_one_progress [OF d] by simp
  then have "xs ! pos < 0x80" using a by (simp add: list_all_length)
  then have "ucast (xs ! pos) = (0x85 :: u32)" using d i by (simp add: decode_one_def rdR_def)
  then have "unat (ucast (xs ! pos) :: u32) = 0x85" by simp
  then show False using \<open>xs ! pos < 0x80\<close> by (simp add: unat_ucast_up word_less_nat_alt)
qed

lemma nel_separators: "separators_kept nel_model [0x61, 0x62, 0x20, 0x62]"
  by (rule separators_kept_without_nel [OF nel_only ascii_items]) simp

lemma nel_space_boundary: "se_prefix_boundary_len nel_model [0x61, 0x62, 0x20, 0x62] 3 8192 = Inr 3"
  using space_boundary [of "[0x61, 0x62, 0x20, 0x62]" 2 nel_model 8192]
  by (simp add: decode_one_def boundary_splits_added_token_def SE_ADDED_TOKENS_def splits_token.simps rdR_def
      nel_meta example_meta_def)

lemma nel_space_items:
  "items nel_model [0x61, 0x62, 0x20, 0x62] 0 = ([Cp 0x61, Cp 0x62, Cp 0x20, Cp 0x62], True)"
  "items nel_model [0x61, 0x62, 0x20] 0 = ([Cp 0x61, Cp 0x62, Cp 0x20], True)"
  by (simp_all add: items.simps added_at_def decode_one_def rdR_def)

lemma nel_space_spec:
  "tokenize_spec (example_cfg\<lparr>tc_model := nel_model, tc_max_tokens := 1\<rparr>) [0x61, 0x62, 0x20] = Inr ([2], True)"
  "tokenize_spec (example_cfg\<lparr>tc_model := nel_model, tc_max_tokens := 1\<rparr>) [0x61, 0x62, 0x20, 0x62] = Inr ([2], True)"
proof -
  let ?cfg = "example_cfg\<lparr>tc_model := nel_model, tc_max_tokens := 1\<rparr>"
  have d: "drops_unk ?cfg" "unk_of ?cfg = 1"
    by (simp_all add: drops_unk_def unk_of_def example_cfg_def nel_meta example_meta_def)
  have steps: "item_steps nel_model [] [Cp 0x61, Cp 0x62, Cp 0x20] = ([Word [0x61, 0x62]], [])"
    "item_steps nel_model [] [Cp 0x61, Cp 0x62, Cp 0x20, Cp 0x62] = ([Word [0x61, 0x62]], [0x62])"
    by (simp_all add: item_step_def cleaned_def stripped_def lowered_def control_cp_def ascii_control_def whitespace_cp_def
      punct_cp_def se_is_ascii_whitespace_def se_is_ascii_punct_def seg_cp_def nel_meta example_meta_def
      flush_acts_def word_le_nat_alt word_less_nat_alt)
  show "tokenize_spec ?cfg [0x61, 0x62, 0x20] = Inr ([2], True)"
    "tokenize_spec ?cfg [0x61, 0x62, 0x20, 0x62] = Inr ([2], True)"
    using d by (simp_all add: tokenize_spec_acts acts_of_def nel_space_items steps nel_words
        action_ids_def over_limit_def counted_def limit_ids_def conclude_def del: item_steps.simps)
qed

text \<open>When nothing outside fails, the specification is what a run returns.\<close>

lemma spec_run:
  assumes "model_ok (tc_model cfg)" "unk_only_root (tc_model cfg)"
    and "alloc_ok (tc_env cfg)" "\<And>k. \<not> env_cancelled (tc_env cfg) k" "length input < 2 ^ 25"
    and "tokenize_spec cfg input = Inr (ids, tr)"
  shows "\<exists>st stats. se_tokenize cfg sc calls polls input = Inr (st, stats) \<and> ts_ids st = ids \<and> st_truncated stats = tr"
proof -
  note r = refines_at [OF assms(1,2), where sc = sc and calls = calls and polls = polls and input = input]
  show ?thesis
  proof (cases "se_tokenize cfg sc calls polls input")
    case (Inl e)
    have "\<not> may_fail (tc_env cfg) (load input [] [] 0)"
      using assms(3,5) by (simp add: may_fail_def load_def)
    then show ?thesis using r Inl assms(4,6) by (simp add: fails_with_def tokenize_spec_def)
  next
    case (Inr p)
    then show ?thesis using r assms(6) by (cases p) simp
  qed
qed

subsection \<open>Properties\<close>

text \<open>
  Property C18: the search for a boundary is total and stays in bounds.  Whatever the input, the target and the
  distance to search are, \<^verbatim>\<open>se_prefix_boundary_len\<close> reads only inside the input and the tables and returns a
  length that is at most the target, or the whole length when the target is not inside the input.
\<close>

theorem prefix_boundary_bounds:
  assumes "model_ok m"
  shows "\<exists>n \<le> length input. se_prefix_boundary_len m input target backscan = Inr n \<and>
    (target < length input \<longrightarrow> n \<le> target)"
  using boundary_correct [OF model_norm [OF assms], of input target backscan]
  by (auto simp: word_boundary_def)

theorem prefix_boundary_bounds_witness:
  "\<exists>n. se_prefix_boundary_len example_model [0x61, 0x62, 0x20, 0x62] 3 8192 = Inr n \<and> n \<le> 3"
  using prefix_boundary_bounds [OF example_model_ok, of "[0x61, 0x62, 0x20, 0x62]" 3 8192] by auto

text \<open>
  Property C8: cutting at a boundary does not change the tokens.  When the boundary search returns a length and
  tokenizing that prefix reaches the token limit, the ids are those of the whole input; and when it ends with an
  error other than invalid UTF-8, so does the whole input.  The input must not contain a character that the tables
  classify both as a separator and as one that cleaning removes; with the shipped tables that is U+0085 alone, and the
  witness has such tables.
\<close>

theorem prefix_tokens_exact:
  assumes "model_ok (tc_model cfg)" and "unk_only_root (tc_model cfg)" and "separators_kept (tc_model cfg) input"
    and "se_prefix_boundary_len (tc_model cfg) input target backscan = Inr n" and "0 < n"
    and "se_tokenize cfg sc calls polls (take n input) = Inr (st, stats)" and "st_truncated stats"
    and "se_tokenize cfg sc' calls' polls' input = Inr (st', stats')"
  shows "ts_ids st' = ts_ids st \<and> st_truncated stats' \<and> st_token_count stats' = st_token_count stats \<and>
    st_unk_count stats' = st_unk_count stats"
proof -
  note r = refines_at [OF assms(1,2), where sc = sc and calls = calls and polls = polls and input = "take n input"]
    and r' = refines_at [OF assms(1,2), where sc = sc' and calls = calls' and polls = polls' and input = input]
  have "tokenize_spec cfg input = Inr (ts_ids st, True)"
    using r assms(6,7) by (intro prefix_spec(1) [OF model_norm [OF assms(1)] assms(3,4,5)]) simp
  then show ?thesis using r r' assms(6,8) by (simp add: word_unat_eq_iff)
qed

theorem prefix_tokens_exact_witness:
  "\<exists>st stats. se_tokenize (example_cfg\<lparr>tc_model := nel_model, tc_max_tokens := 1\<rparr>) se_scratch_init 0 0
       [0x61, 0x62, 0x20, 0x62] = Inr (st, stats) \<and> ts_ids st = [2] \<and> st_truncated stats"
proof -
  let ?cfg = "example_cfg\<lparr>tc_model := nel_model, tc_max_tokens := 1\<rparr>" and ?input = "[0x61, 0x62, 0x20, 0x62]"
  have ok: "model_ok (tc_model ?cfg)" "unk_only_root (tc_model ?cfg)" "separators_kept (tc_model ?cfg) ?input"
    and env: "alloc_ok (tc_env ?cfg)" "\<And>k. \<not> env_cancelled (tc_env ?cfg) k"
    and bd: "se_prefix_boundary_len (tc_model ?cfg) ?input 3 8192 = Inr 3"
    using example_env_ok by (simp_all add: nel_ok nel_unk_root nel_separators nel_space_boundary)
  obtain st stats where p: "se_tokenize ?cfg se_scratch_init 0 0 (take 3 ?input) = Inr (st, stats)"
    "ts_ids st = [2]" "st_truncated stats"
    using spec_run [OF ok(1,2) env _ nel_space_spec(1), of se_scratch_init 0 0] by auto
  obtain st' stats' where w: "se_tokenize ?cfg se_scratch_init 0 0 ?input = Inr (st', stats')"
    using spec_run [OF ok(1,2) env _ nel_space_spec(2), of se_scratch_init 0 0] by auto
  show ?thesis using prefix_tokens_exact [OF ok bd _ p(1,3) w] p(2) w by auto
qed

text \<open>
  Property C28: the condition on the text is needed.  U+0085 is in the whitespace and in the control table of the files that
  are shipped.  The boundary search takes it for the end of a word, tokenizing deletes it, and the ids differ.
\<close>

theorem prefix_cuts_word_at_nel:
  "\<exists>st stats st' stats'. model_ok nel_model \<and> unk_only_root nel_model \<and>
     se_prefix_boundary_len nel_model [0x61, 0x62, 0xC2, 0x85, 0x63] 4 8192 = Inr 4 \<and>
     se_tokenize (example_cfg\<lparr>tc_model := nel_model, tc_max_tokens := 1\<rparr>) se_scratch_init 0 0
       [0x61, 0x62, 0xC2, 0x85] = Inr (st, stats) \<and> ts_ids st = [2] \<and> st_truncated stats \<and>
     se_tokenize (example_cfg\<lparr>tc_model := nel_model, tc_max_tokens := 1\<rparr>) se_scratch_init 0 0
       [0x61, 0x62, 0xC2, 0x85, 0x63] = Inr (st', stats') \<and> ts_ids st' = [1] \<and> \<not> st_truncated stats'"
proof -
  let ?cfg = "example_cfg\<lparr>tc_model := nel_model, tc_max_tokens := 1\<rparr>"
  have ok: "model_ok (tc_model ?cfg)" "unk_only_root (tc_model ?cfg)"
    and env: "alloc_ok (tc_env ?cfg)" "\<And>k. \<not> env_cancelled (tc_env ?cfg) k"
    using example_env_ok by (simp_all add: nel_ok nel_unk_root)
  show ?thesis
    using spec_run [OF ok env _ nel_spec(1), of se_scratch_init 0 0]
      spec_run [OF ok env _ nel_spec(2), of se_scratch_init 0 0] nel_ok nel_unk_root nel_boundary
    by fastforce
qed

end
