(* ===== verification/Floats.thy ===== *)
theory Floats
  imports SeBase
begin

text \<open>
  Floating-point numbers as the machine keeps them.  A \<^verbatim>\<open>float\<close> is its 32 bits and a \<^verbatim>\<open>double\<close> its
  64, and the operations of the sources (addition, multiplication, division, square root, conversion and
  comparison) are those of IEEE 754: the exact result, rounded to nearest with ties to even.  What the
  standard leaves open is fixed in two ways: every NaN that an operation returns is the same one, and
  each operation rounds to its own type (no fused multiply-add, no wider intermediate results).
\<close>

subsection \<open>Fields\<close>

text \<open>A number of \<open>p\<close> mantissa bits and \<open>q\<close> exponent bits as sign, exponent and mantissa.\<close>

lemma fields_split:
  fixes n :: nat
  shows "n = n div 2 ^ (p + q) * 2 ^ (p + q) + n div 2 ^ p mod 2 ^ q * 2 ^ p + n mod 2 ^ p"
proof -
  let ?d = "n div 2 ^ p"
  have "n div 2 ^ (p + q) = ?d div 2 ^ q" by (simp add: power_add div_mult2_eq)
  then have "n div 2 ^ (p + q) * 2 ^ (p + q) + ?d mod 2 ^ q * 2 ^ p = (?d div 2 ^ q * 2 ^ q + ?d mod 2 ^ q) * 2 ^ p"
    by (simp add: power_add add_mult_distrib)
  also have "\<dots> = ?d * 2 ^ p" by (simp only: div_mult_mod_eq)
  finally show ?thesis using div_mult_mod_eq [of n "2 ^ p"] by linarith
qed

lemma fields_join:
  fixes s e t :: nat
  assumes "e < 2 ^ q" "t < 2 ^ p"
  shows "(s * 2 ^ (p + q) + e * 2 ^ p + t) div 2 ^ (p + q) = s"
    and "(s * 2 ^ (p + q) + e * 2 ^ p + t) div 2 ^ p mod 2 ^ q = e"
    and "(s * 2 ^ (p + q) + e * 2 ^ p + t) mod 2 ^ p = t"
proof -
  let ?n = "s * 2 ^ (p + q) + e * 2 ^ p + t"
  have n: "?n = (s * 2 ^ q + e) * 2 ^ p + t" by (simp add: power_add algebra_simps)
  show m: "?n mod 2 ^ p = t" unfolding n using assms(2) by simp
  have d: "?n div 2 ^ p = s * 2 ^ q + e" unfolding n using assms(2) by (simp add: div_mult_self3)
  then show "?n div 2 ^ p mod 2 ^ q = e" using assms(1) by simp
  have "?n div 2 ^ (p + q) = ?n div 2 ^ p div 2 ^ q" by (simp add: power_add div_mult2_eq)
  then show "?n div 2 ^ (p + q) = s" using assms(1) unfolding d by simp
qed

lemma or_fields:
  fixes s e t :: nat
  assumes "e < 2 ^ q" "t < 2 ^ p"
  shows "s * 2 ^ (p + q) OR e * 2 ^ p OR t = s * 2 ^ (p + q) + e * 2 ^ p + t"
proof -
  have "e * 2 ^ p OR t = e * 2 ^ p + t" using assms(2) by (rule nat_or_shift)
  moreover have "e * 2 ^ p + t < 2 ^ (p + q)"
  proof -
    have "e * 2 ^ p + t < (e + 1) * 2 ^ p" using assms(2) by simp
    also have "\<dots> \<le> 2 ^ q * 2 ^ p" using assms(1) by (intro mult_le_mono1) simp
    finally show ?thesis by (simp add: power_add mult.commute)
  qed
  ultimately show ?thesis using nat_or_shift [of "e * 2 ^ p + t" "p + q" s] by simp
qed

definition f32_sign :: "u32 \<Rightarrow> nat" where "f32_sign x = unat x div 2 ^ 31"
definition f32_exp :: "u32 \<Rightarrow> nat" where "f32_exp x = unat x div 2 ^ 23 mod 2 ^ 8"
definition f32_mant :: "u32 \<Rightarrow> nat" where "f32_mant x = unat x mod 2 ^ 23"

lemma f32_bounds: "f32_sign x < 2" "f32_exp x < 2 ^ 8" "f32_mant x < 2 ^ 23"
  using u32_bound [of x] by (simp_all add: f32_sign_def f32_exp_def f32_mant_def less_mult_imp_div_less)

lemma f32_fields: "unat x = f32_sign x * 2 ^ 31 + f32_exp x * 2 ^ 23 + f32_mant x"
  using fields_split [of "unat x" 23 8] by (simp add: f32_sign_def f32_exp_def f32_mant_def)

lemma f32_of_fields:
  assumes "unat y = s * 2 ^ 31 + e * 2 ^ 23 + t" "e < 2 ^ 8" "t < 2 ^ 23"
  shows "f32_sign y = s" "f32_exp y = e" "f32_mant y = t"
  using fields_join [OF assms(2,3), of s] assms(1) by (simp_all add: f32_sign_def f32_exp_def f32_mant_def)

subsection \<open>Magnitudes\<close>

text \<open>
  The magnitude of a finite number with \<open>p\<close> mantissa bits, in units of its smallest subnormal: units of
  \<open>2 ^ -24\<close> for half precision and of \<open>2 ^ -149\<close> for single precision.
\<close>

definition magnitude :: "nat \<Rightarrow> nat \<Rightarrow> nat \<Rightarrow> nat" where
  "magnitude p e t = (if e = 0 then t else (2 ^ p + t) * 2 ^ (e - 1))"

definition f32_magnitude :: "u32 \<Rightarrow> nat" where
  "f32_magnitude x = magnitude 23 (f32_exp x) (f32_mant x)"

text \<open>The magnitude of the number whose bits below the sign are \<open>n\<close>; the infinity continues the grid.\<close>

definition grid :: "nat \<Rightarrow> nat \<Rightarrow> nat" where
  "grid p n = magnitude p (n div 2 ^ p) (n mod 2 ^ p)"

lemma grid_field: "t \<le> 2 ^ p \<Longrightarrow> grid p (Suc e * 2 ^ p + t) = (2 ^ p + t) * 2 ^ e"
proof -
  assume "t \<le> 2 ^ p"
  then consider "t < 2 ^ p" | "t = 2 ^ p" by linarith
  then show ?thesis
  proof cases
    case 1
    have "(Suc e * 2 ^ p + t) div 2 ^ p = Suc e" by (subst div_mult_self3) (use 1 in simp_all)
    moreover have "(Suc e * 2 ^ p + t) mod 2 ^ p = t" by (subst mod_mult_self3) (use 1 in simp_all)
    ultimately show ?thesis by (simp add: grid_def magnitude_def)
  next
    case 2
    then have "Suc e * 2 ^ p + t = Suc (Suc e) * 2 ^ p" by simp
    then have "(Suc e * 2 ^ p + t) div 2 ^ p = Suc (Suc e)" "(Suc e * 2 ^ p + t) mod 2 ^ p = 0"
      by (simp_all only:) simp_all
    then show ?thesis using 2 by (simp add: grid_def magnitude_def)
  qed
qed

lemma grid_small: "t \<le> 2 ^ p \<Longrightarrow> grid p t = t"
  using grid_field [of "t - 2 ^ p" 0]
  by (cases "t < 2 ^ p") (simp_all add: grid_def magnitude_def)

lemma grid_Suc: "grid p (Suc n) = grid p n + 2 ^ (n div 2 ^ p - 1)"
proof -
  have n: "n = n div 2 ^ p * 2 ^ p + n mod 2 ^ p" by (rule div_mult_mod_eq [symmetric])
  have lt: "n mod 2 ^ p < 2 ^ p" by simp
  show ?thesis
  proof (cases "n div 2 ^ p")
    case 0
    then have "n < 2 ^ p" by (simp add: div_eq_0_iff)
    then show ?thesis using grid_small [of n] grid_small [of "Suc n"] 0 by simp
  next
    case (Suc e)
    then have e: "n = Suc e * 2 ^ p + n mod 2 ^ p" using n by simp
    then have s: "Suc n = Suc e * 2 ^ p + Suc (n mod 2 ^ p)" by linarith
    have "grid p n = (2 ^ p + n mod 2 ^ p) * 2 ^ e" using lt by (subst e) (rule grid_field, simp)
    moreover have "grid p (Suc n) = (2 ^ p + Suc (n mod 2 ^ p)) * 2 ^ e"
      by (subst s) (rule grid_field, rule Suc_leI [OF lt])
    ultimately show ?thesis using Suc by (simp add: algebra_simps)
  qed
qed

lemma grid_mono: "strict_mono (grid p)"
  by (simp add: strict_mono_Suc_iff grid_Suc)

subsection \<open>Numbers\<close>

text \<open>
  A number of a binary format with \<open>p\<close> mantissa and \<open>q\<close> exponent bits; \<open>Fin s m e\<close> is \<open>m * 2 ^ e\<close>, negative
  when \<open>s\<close> holds.  Single precision has \<open>p = 23\<close> and \<open>q = 8\<close>, double precision \<open>p = 52\<close> and \<open>q = 11\<close>.
\<close>

datatype fnum = NotANumber | Inf bool | Fin bool nat int

definition least_exp :: "nat \<Rightarrow> nat \<Rightarrow> int" where
  "least_exp p q = 2 - 2 ^ (q - 1) - int p"

definition num_of :: "nat \<Rightarrow> nat \<Rightarrow> nat \<Rightarrow> fnum" where
  "num_of p q n =
     (let s = (n div 2 ^ (p + q) mod 2 = 1); e = n div 2 ^ p mod 2 ^ q; t = n mod 2 ^ p
      in if e = 2 ^ q - 1 then (if t = 0 then Inf s else NotANumber)
         else if e = 0 then Fin s t (least_exp p q)
         else Fin s (2 ^ p + t) (least_exp p q + int e - 1))"

fun bit_length :: "nat \<Rightarrow> nat" where
  "bit_length n = (if n = 0 then 0 else Suc (bit_length (n div 2)))"

declare bit_length.simps [simp del]

text \<open>Division by \<open>2 ^ k\<close>, to the nearest integer, ties to even.\<close>

definition round_even :: "nat \<Rightarrow> nat \<Rightarrow> nat" where
  "round_even m k =
     (let d = m div 2 ^ k; r = m mod 2 ^ k
      in if 2 * r > 2 ^ k \<or> 2 * r = 2 ^ k \<and> odd d then d + 1 else d)"

definition round_magnitude :: "nat \<Rightarrow> nat \<Rightarrow> nat \<Rightarrow> int \<Rightarrow> nat" where
  "round_magnitude p q m e =
     (if m = 0 then 0
      else let x = max (least_exp p q) (e + int (bit_length m) - int (p + 1));
               t = (if x \<le> e then m * 2 ^ nat (e - x) else round_even m (nat (x - e)))
           in min (nat (x - least_exp p q) * 2 ^ p + t) ((2 ^ q - 1) * 2 ^ p))"

text \<open>One NaN stands for all that an operation may return.\<close>

definition bits_of :: "nat \<Rightarrow> nat \<Rightarrow> fnum \<Rightarrow> nat" where
  "bits_of p q x =
     (case x of
        NotANumber \<Rightarrow> (2 ^ q - 1) * 2 ^ p + 2 ^ (p - 1)
      | Inf s \<Rightarrow> of_bool s * 2 ^ (p + q) + (2 ^ q - 1) * 2 ^ p
      | Fin s m e \<Rightarrow> of_bool s * 2 ^ (p + q) + round_magnitude p q m e)"

subsection \<open>Operations\<close>

definition signed_nat :: "bool \<Rightarrow> nat \<Rightarrow> int" where
  "signed_nat s m = (if s then - int m else int m)"

fun num_add :: "fnum \<Rightarrow> fnum \<Rightarrow> fnum" where
  "num_add (Fin s m e) (Fin t k f) =
     (let g = min e f;
          c = signed_nat s (m * 2 ^ nat (e - g)) + signed_nat t (k * 2 ^ nat (f - g))
      in if c = 0 then Fin (s \<and> t) 0 g else Fin (c < 0) (nat \<bar>c\<bar>) g)"
| "num_add (Inf s) (Inf t) = (if s = t then Inf s else NotANumber)"
| "num_add (Inf s) (Fin t k f) = Inf s"
| "num_add (Fin s m e) (Inf t) = Inf t"
| "num_add x y = NotANumber"

fun num_mul :: "fnum \<Rightarrow> fnum \<Rightarrow> fnum" where
  "num_mul (Fin s m e) (Fin t k f) = Fin (s \<noteq> t) (m * k) (e + f)"
| "num_mul (Inf s) (Inf t) = Inf (s \<noteq> t)"
| "num_mul (Inf s) (Fin t k f) = (if k = 0 then NotANumber else Inf (s \<noteq> t))"
| "num_mul (Fin s m e) (Inf t) = (if m = 0 then NotANumber else Inf (s \<noteq> t))"
| "num_mul x y = NotANumber"

text \<open>A quotient or a root is cut after more digits than any format keeps, with a last digit that is set when the rest is not 0.\<close>

definition sticky :: "nat \<Rightarrow> bool \<Rightarrow> nat" where
  "sticky d exact = 2 * d + (if exact then 0 else 1)"

fun num_div :: "fnum \<Rightarrow> fnum \<Rightarrow> fnum" where
  "num_div (Fin s m e) (Fin t k f) =
     (if k = 0 then (if m = 0 then NotANumber else Inf (s \<noteq> t))
      else let w = 60 + bit_length k
           in Fin (s \<noteq> t) (sticky (m * 2 ^ w div k) (m * 2 ^ w mod k = 0)) (e - f - int w - 1))"
| "num_div (Inf s) (Fin t k f) = Inf (s \<noteq> t)"
| "num_div (Fin s m e) (Inf t) = Fin (s \<noteq> t) 0 0"
| "num_div x y = NotANumber"

fun int_sqrt :: "nat \<Rightarrow> nat" where
  "int_sqrt n =
     (if n = 0 then 0
      else let r = 2 * int_sqrt (n div 4) in if (r + 1) * (r + 1) \<le> n then r + 1 else r)"

declare int_sqrt.simps [simp del]

fun num_sqrt :: "fnum \<Rightarrow> fnum" where
  "num_sqrt (Fin s m e) =
     (if m = 0 then Fin s 0 e
      else if s then NotANumber
      else let a = (if even e then m else 2 * m) * 4 ^ 60; r = int_sqrt a
           in Fin False (sticky r (r * r = a)) ((if even e then e else e - 1) div 2 - 61))"
| "num_sqrt (Inf s) = (if s then NotANumber else Inf s)"
| "num_sqrt NotANumber = NotANumber"

subsection \<open>Single and double precision\<close>

definition f32_num :: "u32 \<Rightarrow> fnum" where "f32_num x = num_of 23 8 (unat x)"
definition f32_bits :: "fnum \<Rightarrow> u32" where "f32_bits x = word_of_nat (bits_of 23 8 x)"
definition f64_num :: "u64 \<Rightarrow> fnum" where "f64_num x = num_of 52 11 (unat x)"
definition f64_bits :: "fnum \<Rightarrow> u64" where "f64_bits x = word_of_nat (bits_of 52 11 x)"

definition f32_add :: "u32 \<Rightarrow> u32 \<Rightarrow> u32" where "f32_add x y = f32_bits (num_add (f32_num x) (f32_num y))"
definition f32_mul :: "u32 \<Rightarrow> u32 \<Rightarrow> u32" where "f32_mul x y = f32_bits (num_mul (f32_num x) (f32_num y))"
definition f32_div :: "u32 \<Rightarrow> u32 \<Rightarrow> u32" where "f32_div x y = f32_bits (num_div (f32_num x) (f32_num y))"
definition f32_sqrt :: "u32 \<Rightarrow> u32" where "f32_sqrt x = f32_bits (num_sqrt (f32_num x))"
definition f32_of_nat :: "nat \<Rightarrow> u32" where "f32_of_nat n = f32_bits (Fin False n 0)"

definition f64_add :: "u64 \<Rightarrow> u64 \<Rightarrow> u64" where "f64_add x y = f64_bits (num_add (f64_num x) (f64_num y))"
definition f64_mul :: "u64 \<Rightarrow> u64 \<Rightarrow> u64" where "f64_mul x y = f64_bits (num_mul (f64_num x) (f64_num y))"
definition f64_div :: "u64 \<Rightarrow> u64 \<Rightarrow> u64" where "f64_div x y = f64_bits (num_div (f64_num x) (f64_num y))"
definition f64_sqrt :: "u64 \<Rightarrow> u64" where "f64_sqrt x = f64_bits (num_sqrt (f64_num x))"

definition f64_of_f32 :: "u32 \<Rightarrow> u64" where "f64_of_f32 x = f64_bits (f32_num x)"
definition f32_of_f64 :: "u64 \<Rightarrow> u32" where "f32_of_f64 x = f32_bits (f64_num x)"

definition f32_one :: u32 where "f32_one = 0x3F800000"
definition f64_one :: u64 where "f64_one = 0x3FF0000000000000"
definition f32_minus_infinity :: u32 where "f32_minus_infinity = 0xFF800000"
definition f32_nan :: u32 where "f32_nan = 0x7FC00000"

text \<open>The order: the bits below the sign are ordered as the magnitudes are.\<close>

definition f32_is_nan :: "u32 \<Rightarrow> bool" where
  "f32_is_nan x = (unat x mod 2 ^ 31 > 255 * 2 ^ 23)"

definition f32_key :: "u32 \<Rightarrow> int" where
  "f32_key x = signed_nat (2 ^ 31 \<le> unat x) (unat x mod 2 ^ 31)"

definition f32_less :: "u32 \<Rightarrow> u32 \<Rightarrow> bool" where
  "f32_less x y = (\<not> f32_is_nan x \<and> \<not> f32_is_nan y \<and> f32_key x < f32_key y)"

definition f32_eq :: "u32 \<Rightarrow> u32 \<Rightarrow> bool" where
  "f32_eq x y = (\<not> f32_is_nan x \<and> \<not> f32_is_nan y \<and> f32_key x = f32_key y)"

definition f64_not_positive :: "u64 \<Rightarrow> bool" where
  "f64_not_positive x = (unat x = 0 \<or> 2 ^ 63 \<le> unat x \<and> unat x \<le> 2 ^ 63 + 2047 * 2 ^ 52)"

subsection \<open>Rounding keeps what can be stored\<close>

lemma bit_length_eq: "2 ^ k \<le> m \<Longrightarrow> m < 2 ^ Suc k \<Longrightarrow> bit_length m = Suc k"
proof (induction k arbitrary: m)
  case 0
  then have "m = 1" by simp
  then show ?case by (simp add: bit_length.simps)
next
  case (Suc k)
  then have "bit_length (m div 2) = Suc k" by (intro Suc.IH) simp_all
  moreover have "m \<noteq> 0" using Suc.prems(1) by (cases m) simp_all
  ultimately show ?case by (simp add: bit_length.simps [of m])
qed

lemma bit_length_le: "m < 2 ^ k \<Longrightarrow> bit_length m \<le> k"
proof (induction k arbitrary: m)
  case 0
  then show ?case by (simp add: bit_length.simps)
next
  case (Suc k)
  then have "bit_length (m div 2) \<le> k" by (intro Suc.IH) simp
  then show ?case by (simp add: bit_length.simps [of m])
qed

lemma exponent_bound:
  fixes e t :: nat
  assumes "e < 2 ^ q - 1" "t < 2 ^ p"
  shows "e * 2 ^ p + t \<le> (2 ^ q - 1) * 2 ^ p"
proof -
  have "e * 2 ^ p + t \<le> (e + 1) * 2 ^ p" using assms(2) by simp
  also have "\<dots> \<le> (2 ^ q - 1) * 2 ^ p" using assms(1) by (intro mult_le_mono1) simp
  finally show ?thesis .
qed

lemma round_stored:
  assumes "e < 2 ^ q - 1" "t < 2 ^ p"
  shows "round_magnitude p q (if e = 0 then t else 2 ^ p + t)
     (if e = 0 then least_exp p q else least_exp p q + int e - 1) = e * 2 ^ p + t"
proof (cases "e = 0")
  case True
  show ?thesis
  proof (cases "t = 0")
    case False
    have "bit_length t \<le> p" using assms(2) by (rule bit_length_le)
    then have "max (least_exp p q) (least_exp p q + int (bit_length t) - int (p + 1)) = least_exp p q" by simp
    then show ?thesis using True False exponent_bound [OF assms] by (simp add: round_magnitude_def)
  qed (use True in \<open>simp add: round_magnitude_def\<close>)
next
  case False
  have b: "bit_length (2 ^ p + t) = Suc p" using assms(2) by (intro bit_length_eq) simp_all
  have x: "max (least_exp p q) (least_exp p q + int e - 1 + int (Suc p) - int (p + 1)) = least_exp p q + int e - 1"
    using False by simp
  have "nat (least_exp p q + int e - 1 - least_exp p q) = e - 1" by simp
  moreover have "(e - 1) * 2 ^ p + (2 ^ p + t) = e * 2 ^ p + t" using False by (cases e) simp_all
  ultimately have "round_magnitude p q (2 ^ p + t) (least_exp p q + int e - 1) = e * 2 ^ p + t"
    using exponent_bound [OF assms] unfolding round_magnitude_def Let_def b x by simp
  then show ?thesis using False by simp
qed

lemma bits_of_num_of:
  assumes "n < 2 ^ (p + q + 1)" "num_of p q n \<noteq> NotANumber"
  shows "bits_of p q (num_of p q n) = n"
proof -
  define s e t where "s = n div 2 ^ (p + q)" and "e = n div 2 ^ p mod 2 ^ q" and "t = n mod 2 ^ p"
  have n: "n = s * 2 ^ (p + q) + e * 2 ^ p + t" unfolding s_def e_def t_def by (rule fields_split)
  have "s < 2" using assms(1) by (simp add: s_def less_mult_imp_div_less)
  then have sign: "of_bool (s mod 2 = 1) = s" by (cases "s = 0") simp_all
  have b: "e < 2 ^ q" "t < 2 ^ p" by (simp_all add: e_def t_def)
  have num: "num_of p q n = (if e = 2 ^ q - 1 then (if t = 0 then Inf (s mod 2 = 1) else NotANumber)
      else if e = 0 then Fin (s mod 2 = 1) t (least_exp p q) else Fin (s mod 2 = 1) (2 ^ p + t) (least_exp p q + int e - 1))"
    by (simp add: num_of_def Let_def s_def e_def t_def)
  show ?thesis
  proof (cases "e = 2 ^ q - 1")
    case True
    then have "num_of p q n = Inf (s mod 2 = 1)" "t = 0" using num assms(2) by (auto split: if_splits)
    then show ?thesis using n True sign by (simp add: bits_of_def)
  next
    case False
    then have "e < 2 ^ q - 1" using b(1) by linarith
    from round_stored [OF this b(2)] show ?thesis
      using num n False sign by (simp add: bits_of_def split: if_splits)
  qed
qed

lemma f32_stored: "f32_num x \<noteq> NotANumber \<Longrightarrow> f32_bits (f32_num x) = x"
  using bits_of_num_of [of "unat x" 23 8] u32_bound [of x] by (simp add: f32_bits_def f32_num_def)

subsection \<open>The order\<close>

lemma f32_magnitude_grid: "f32_magnitude x = grid 23 (unat x mod 2 ^ 31)"
proof -
  let ?n = "unat x mod 2 ^ 31"
  have "f32_exp x * 2 ^ 23 + f32_mant x < 2 ^ 31" using f32_bounds [of x] by simp
  then have "(f32_sign x * 2 ^ 31 + (f32_exp x * 2 ^ 23 + f32_mant x)) mod 2 ^ 31 = f32_exp x * 2 ^ 23 + f32_mant x"
    by (simp only: mod_mult_self3 mod_less)
  then have "?n = f32_exp x * 2 ^ 23 + f32_mant x" by (simp only: f32_fields [of x] add.assoc)
  then have "?n div 2 ^ 23 = f32_exp x" "?n mod 2 ^ 23 = f32_mant x"
    using f32_bounds(3) [of x] by (simp_all only: div_mult_self3 mod_mult_self3) simp_all
  then show ?thesis by (simp only: f32_magnitude_def grid_def)
qed

definition f32_value :: "u32 \<Rightarrow> int" where
  "f32_value x = signed_nat (f32_sign x = 1) (f32_magnitude x)"

lemma f32_key_sign: "f32_key x = signed_nat (f32_sign x = 1) (unat x mod 2 ^ 31)"
proof -
  have "f32_sign x = 1 \<longleftrightarrow> 2 ^ 31 \<le> unat x"
    using u32_bound [of x] unfolding f32_sign_def by (auto simp: div_nat_eqI dest: div_less)
  then show ?thesis by (simp add: f32_key_def)
qed

lemma grid_0: "grid p 0 = 0"
  using grid_small [of 0 p] by simp

lemma signed_nat_less:
  assumes "strict_mono g" "g 0 = 0"
  shows "signed_nat s (g a) < signed_nat t (g b) \<longleftrightarrow> signed_nat s a < signed_nat t (b :: nat)"
proof -
  have m: "g a < g b \<longleftrightarrow> a < b" "g b < g a \<longleftrightarrow> b < a" using assms(1) by (simp_all add: strict_mono_less)
  have z: "g n = 0 \<longleftrightarrow> n = 0" for n using strict_mono_eq [OF assms(1), of n 0] assms(2) by simp
  show ?thesis using m z [of a] z [of b] by (cases s; cases t) (auto simp: signed_nat_def)
qed

text \<open>On numbers, \<open>f32_less\<close> is the order of the values, in units of \<open>2 ^ -149\<close>, the infinities beyond all others.\<close>

lemma f32_less_value:
  assumes "\<not> f32_is_nan x" "\<not> f32_is_nan y"
  shows "f32_less x y \<longleftrightarrow> f32_value x < f32_value y"
  using assms signed_nat_less [OF grid_mono [of 23] grid_0]
  by (simp only: f32_less_def f32_value_def f32_key_sign f32_magnitude_grid simp_thms)

lemma f32_less_trans: "f32_less x y \<Longrightarrow> f32_less y z \<Longrightarrow> f32_less x z"
  and f32_less_irrefl: "\<not> f32_less x x"
  by (auto simp: f32_less_def)

end
