(* ===== verification/F16.thy ===== *)
theory F16
  imports Floats Bytes
begin

text \<open>
  Half precision, \<^verbatim>\<open>se_f16.c\<close>: the conversions between half and single precision, the little-endian
  arrays of half-precision numbers, and the choice of the kernel that reads them.  A half-precision number
  is its 16 bits.  The kernels themselves are in \<open>Dot\<close>; those for AArch64 are not modelled, and a build
  for another processor is one without the x86 kernels.
\<close>

subsection \<open>Conversions\<close>

definition se_float_to_f16_bits :: "u32 \<Rightarrow> u16" where
  "se_float_to_f16_bits bits =
     (let sign = drop_bit 16 bits AND 0x8000;
          exp = drop_bit 23 bits AND 0xFF;
          mant = bits AND 0x7FFFFF
      in if exp = 0xFF then
           (if mant = 0 then ucast (sign OR 0x7C00)
            else let mant = drop_bit 13 mant
                 in ucast (sign OR 0x7C00 OR mant OR (if mant = 0 then 1 else 0)))
         else let half_exp = int (unat exp) - 127 + 15 in
           if half_exp \<ge> 31 then ucast (sign OR 0x7C00)
           else if half_exp \<le> 0 then
             (if half_exp < -10 then ucast sign
              else let mant = mant OR 0x800000;
                       shift = nat (14 - half_exp);
                       rounded = drop_bit shift (mant + push_bit (shift - 1) 1)
                   in ucast (sign OR rounded))
           else let mant = mant + 0x1000 in
             if mant AND 0x800000 \<noteq> 0 then
               (let half_exp = half_exp + 1 in
                if half_exp \<ge> 31 then ucast (sign OR 0x7C00)
                else ucast (sign OR push_bit 10 (word_of_int half_exp) OR drop_bit 13 0))
             else ucast (sign OR push_bit 10 (word_of_int half_exp) OR drop_bit 13 mant))"

text \<open>The loop that normalizes a subnormal mantissa; it has no bound of its own.\<close>

partial_function (option) normalize_loop :: "u32 \<Rightarrow> u32 \<Rightarrow> (u32 \<times> u32) option" where
  "normalize_loop exp mant =
     (if mant AND 0x400 = 0 then normalize_loop (exp - 1) (push_bit 1 mant) else Some (exp, mant))"

definition se_f16_bits_to_float :: "u16 \<Rightarrow> u32 option" where
  "se_f16_bits_to_float half =
     (let sign = push_bit 16 (ucast half AND 0x8000);
          exp = drop_bit 10 (ucast half) AND 0x1F;
          mant = ucast half AND 0x3FF
      in if exp = 0 then
           (if mant = 0 then Some sign
            else case normalize_loop 1 mant of
                None \<Rightarrow> None
              | Some (exp, mant) \<Rightarrow>
                  Some (sign OR push_bit 23 (exp + (127 - 15)) OR push_bit 13 (mant AND 0x3FF)))
         else if exp = 31 then Some (sign OR 0x7F800000 OR push_bit 13 mant)
         else Some (sign OR push_bit 23 (exp + (127 - 15)) OR push_bit 13 mant))"

subsection \<open>Fields of a number\<close>

lemma unat_and_shifted:
  fixes x :: "'a::len word"
  assumes "n + k \<le> LENGTH('a)"
  shows "unat (x AND push_bit n (mask k)) = unat x div 2 ^ n mod 2 ^ k * 2 ^ n"
proof -
  have eq: "x AND push_bit n (mask k) = push_bit n (drop_bit n x AND mask k)"
    by (auto simp: bit_eq_iff bit_simps)
  have "unat (drop_bit n x AND mask k) = unat x div 2 ^ n mod 2 ^ k" by (simp add: unat_and_mask unat_drop_bit)
  moreover have "unat x div 2 ^ n mod 2 ^ k * 2 ^ n < 2 ^ LENGTH('a)"
  proof -
    have "unat x div 2 ^ n mod 2 ^ k < 2 ^ k" by simp
    then have "unat x div 2 ^ n mod 2 ^ k * 2 ^ n < 2 ^ k * 2 ^ n" by simp
    also have "(2::nat) ^ k * 2 ^ n \<le> 2 ^ LENGTH('a)" using assms by (simp flip: power_add add: add.commute)
    finally show ?thesis .
  qed
  ultimately show ?thesis
    unfolding eq using unat_push_bit [of "drop_bit n x AND mask k" n] by (simp del: push_bit_and)
qed

lemma unat_and_f16 [word_nat]:
  fixes x :: u32
  shows "unat (x AND 0x8000) = unat x div 2 ^ 15 mod 2 * 2 ^ 15"
    and "unat (x AND 0x7FFFFF) = unat x mod 2 ^ 23"
    and "unat (x AND 0x800000) = unat x div 2 ^ 23 mod 2 * 2 ^ 23"
    and "unat (x AND 0x400) = unat x div 2 ^ 10 mod 2 * 2 ^ 10"
proof -
  have "(0x8000 :: u32) = push_bit 15 (mask 1)" "(0x800000 :: u32) = push_bit 23 (mask 1)"
    "(0x400 :: u32) = push_bit 10 (mask 1)" by (simp_all add: mask_eq_exp_minus_1)
  then show "unat (x AND 0x8000) = unat x div 2 ^ 15 mod 2 * 2 ^ 15"
    "unat (x AND 0x800000) = unat x div 2 ^ 23 mod 2 * 2 ^ 23" "unat (x AND 0x400) = unat x div 2 ^ 10 mod 2 * 2 ^ 10"
    using unat_and_shifted [of 15 1 x] unat_and_shifted [of 23 1 x] unat_and_shifted [of 10 1 x] by simp_all
  have "(0x7FFFFF :: u32) = mask 23" by (simp add: mask_eq_exp_minus_1)
  then show "unat (x AND 0x7FFFFF) = unat x mod 2 ^ 23" by (simp only: unat_and_mask)
qed

lemma unat_or_fields:
  fixes a b c :: u32
  assumes "unat a = s * 2 ^ 31" "unat b = e * 2 ^ 23" "unat c = t" "e < 2 ^ 8" "t < 2 ^ 23"
  shows "unat (a OR b OR c) = s * 2 ^ 31 + e * 2 ^ 23 + t"
  using or_fields [of e 8 t 23 s] assms by (simp add: unsigned_or_eq)

subsection \<open>Decoding\<close>

lemma normalize_loop_eq:
  assumes "0 < unat mant" "unat mant < 2 ^ 11"
  shows "\<exists>k. normalize_loop exp mant = Some (exp - word_of_nat k, word_of_nat (unat mant * 2 ^ k)) \<and>
    2 ^ 10 \<le> unat mant * 2 ^ k \<and> unat mant * 2 ^ k < 2 ^ 11"
  using assms
proof (induction "2 ^ 11 - unat mant" arbitrary: mant exp rule: less_induct)
  case less
  have b: "(mant AND 0x400 = 0) = (unat mant < 2 ^ 10)"
  proof -
    have "unat (mant AND 0x400) = unat mant div 2 ^ 10 mod 2 * 2 ^ 10" by (rule unat_and_f16)
    moreover have "unat mant div 2 ^ 10 < 2" using less.prems(2) by (simp add: less_mult_imp_div_less)
    moreover have "unat mant < 2 ^ 10 \<longleftrightarrow> unat mant div 2 ^ 10 = 0" by (simp add: div_eq_0_iff)
    ultimately show ?thesis by (simp add: word_unat_eq_iff)
  qed
  show ?case
  proof (cases "unat mant < 2 ^ 10")
    case False
    then show ?thesis using b less.prems by (subst normalize_loop.simps) (auto intro!: exI [of _ 0])
  next
    case True
    then have p: "unat (push_bit 1 mant) = unat mant * 2" using unat_push_bit [of mant 1] by simp
    have "2 ^ 11 - unat mant * 2 < 2 ^ 11 - unat mant" "0 < unat mant * 2" "unat mant * 2 < 2 ^ 11"
      using True less.prems by simp_all
    from less.hyps [of "push_bit 1 mant" "exp - 1", unfolded p, OF this] obtain k where
      k: "normalize_loop (exp - 1) (push_bit 1 mant) = Some (exp - 1 - word_of_nat k, word_of_nat (unat mant * 2 * 2 ^ k))"
      "2 ^ 10 \<le> unat mant * 2 * 2 ^ k" "unat mant * 2 * 2 ^ k < 2 ^ 11" by blast
    then show ?thesis using True b
      by (subst normalize_loop.simps) (auto intro!: exI [of _ "Suc k"] simp: algebra_simps)
  qed
qed

definition half_sign :: "u16 \<Rightarrow> nat" where "half_sign h = unat h div 2 ^ 15"
definition half_exp :: "u16 \<Rightarrow> nat" where "half_exp h = unat h div 2 ^ 10 mod 2 ^ 5"
definition half_mant :: "u16 \<Rightarrow> nat" where "half_mant h = unat h mod 2 ^ 10"

lemma half_bounds: "half_sign h < 2" "half_exp h < 2 ^ 5" "half_mant h < 2 ^ 10"
proof -
  have "unat h < 2 ^ 16" using unsigned_less [of h, where ?'a = nat] by simp
  then show "half_sign h < 2" by (simp add: half_sign_def less_mult_imp_div_less)
qed (simp_all add: half_exp_def half_mant_def)

lemma half_fields:
  fixes h :: u16
  shows "unat (push_bit 16 (ucast h AND 0x8000) :: u32) = half_sign h * 2 ^ 31"
    and "unat (drop_bit 10 (ucast h) AND 0x1F :: u32) = half_exp h"
    and "unat (ucast h AND 0x3FF :: u32) = half_mant h"
proof -
  have u: "unat (ucast h :: u32) = unat h" by (simp add: unat_ucast_up)
  have "unat h div 2 ^ 15 < 2" using half_bounds(1) [of h] by (simp add: half_sign_def)
  then have s: "unat (ucast h AND 0x8000 :: u32) = half_sign h * 2 ^ 15"
    by (simp add: unat_and_f16 u half_sign_def)
  have "unat (ucast h AND 0x8000 :: u32) * 2 ^ 16 < 2 ^ LENGTH(32)"
    using half_bounds(1) [of h] by (simp add: s)
  from unat_push_bit [OF this] show "unat (push_bit 16 (ucast h AND 0x8000) :: u32) = half_sign h * 2 ^ 31"
    by (simp add: s)
  show "unat (drop_bit 10 (ucast h) AND 0x1F :: u32) = half_exp h"
    by (simp add: word_nat u half_exp_def)
  show "unat (ucast h AND 0x3FF :: u32) = half_mant h"
    by (simp add: word_nat u half_mant_def)
qed

text \<open>The value of a decoded number, in its three fields; \<open>k\<close> is the shift of a subnormal mantissa.\<close>

lemma decode_half:
  "\<exists>y. se_f16_bits_to_float h = Some y \<and>
     (if half_exp h = 0 then
        (if half_mant h = 0 then unat y = half_sign h * 2 ^ 31
         else \<exists>k \<le> 10. 2 ^ 10 \<le> half_mant h * 2 ^ k \<and> half_mant h * 2 ^ k < 2 ^ 11 \<and>
           unat y = half_sign h * 2 ^ 31 + (113 - k) * 2 ^ 23 + (half_mant h * 2 ^ k - 2 ^ 10) * 2 ^ 13)
      else if half_exp h = 31 then unat y = half_sign h * 2 ^ 31 + 255 * 2 ^ 23 + half_mant h * 2 ^ 13
      else unat y = half_sign h * 2 ^ 31 + (half_exp h + 112) * 2 ^ 23 + half_mant h * 2 ^ 13)"
proof -
  let ?sign = "push_bit 16 (ucast h AND 0x8000) :: u32" and ?exp = "drop_bit 10 (ucast h) AND 0x1F :: u32"
    and ?mant = "ucast h AND 0x3FF :: u32"
  note f = half_fields [of h] and b = half_bounds [of h]
  have e0: "?exp = 0 \<longleftrightarrow> half_exp h = 0" and e31: "?exp = 31 \<longleftrightarrow> half_exp h = 31" and m0: "?mant = 0 \<longleftrightarrow> half_mant h = 0"
    using f(2,3) by (simp_all add: word_unat_eq_iff [of "_ AND _"])
  have bits: "unat (?sign OR push_bit 23 x OR push_bit 13 t) = half_sign h * 2 ^ 31 + e * 2 ^ 23 + unat t * 2 ^ 13"
    if "unat x = e" "e < 2 ^ 8" "unat t < 2 ^ 10" for x t :: u32 and e
  proof (rule unat_or_fields [OF f(1)])
    show "unat (push_bit 23 x) = e * 2 ^ 23" using that by (subst unat_push_bit) auto
    show "unat (push_bit 13 t) = unat t * 2 ^ 13" using that by (subst unat_push_bit) auto
  qed (use that in auto)
  have exp: "unat (?exp + (127 - 15)) = half_exp h + 112" using b(2) by (simp add: unat_word_ariths f(2))
  have inf: "unat (?sign OR 0x7F800000 OR push_bit 13 ?mant) = half_sign h * 2 ^ 31 + 255 * 2 ^ 23 + half_mant h * 2 ^ 13"
    using bits [of 255 255 ?mant] b(3) by (simp add: f(3))
  have norm: "unat (?sign OR push_bit 23 (?exp + (127 - 15)) OR push_bit 13 ?mant) =
      half_sign h * 2 ^ 31 + (half_exp h + 112) * 2 ^ 23 + half_mant h * 2 ^ 13"
    using bits [OF exp, of ?mant] b(2,3) by (simp add: f(3))
  show ?thesis
  proof (cases "half_exp h = 0 \<and> half_mant h \<noteq> 0")
    case False
    then show ?thesis using f(1) inf norm e0 e31 m0 by (auto simp: se_f16_bits_to_float_def Let_def)
  next
    case True
    then have "0 < unat ?mant" "unat ?mant < 2 ^ 11" using b(3) by (simp_all add: f(3))
    from normalize_loop_eq [OF this, of 1] obtain k where
      k: "normalize_loop 1 ?mant = Some (1 - word_of_nat k, word_of_nat (half_mant h * 2 ^ k))"
      "2 ^ 10 \<le> half_mant h * 2 ^ k" "half_mant h * 2 ^ k < 2 ^ 11" unfolding f(3) by blast
    have "k \<le> 10"
    proof (rule ccontr)
      assume "\<not> k \<le> 10"
      then have "(2::nat) ^ 11 \<le> 2 ^ k" by (intro power_increasing) auto
      also have "\<dots> \<le> half_mant h * 2 ^ k" using True by simp
      finally show False using k(3) by simp
    qed
    have x: "unat (1 - word_of_nat k + (127 - 15) :: u32) = 113 - k"
    proof -
      have "(1 - word_of_nat k + (127 - 15) :: u32) = word_of_nat (113 - k)" using \<open>k \<le> 10\<close> by simp
      then show ?thesis using unat_small_u32 [of "113 - k"] by simp
    qed
    have t: "unat (word_of_nat (half_mant h * 2 ^ k) AND 0x3FF :: u32) = half_mant h * 2 ^ k - 2 ^ 10"
    proof -
      have "unat (word_of_nat (half_mant h * 2 ^ k) :: u32) = half_mant h * 2 ^ k" using k(3) by (intro unat_small_u32) simp
      then have "unat (word_of_nat (half_mant h * 2 ^ k) AND 0x3FF :: u32) = half_mant h * 2 ^ k mod 2 ^ 10"
        by (simp add: word_nat)
      also have "\<dots> = half_mant h * 2 ^ k - 2 ^ 10" using k(2,3) by (subst mod_if, subst mod_less) simp_all
      finally show ?thesis .
    qed
    have "unat (?sign OR push_bit 23 (1 - word_of_nat k + (127 - 15)) OR
        push_bit 13 (word_of_nat (half_mant h * 2 ^ k) AND 0x3FF)) =
      half_sign h * 2 ^ 31 + (113 - k) * 2 ^ 23 + (half_mant h * 2 ^ k - 2 ^ 10) * 2 ^ 13"
    proof -
      have "113 - k < 2 ^ 8" by simp
      moreover have "unat (word_of_nat (half_mant h * 2 ^ k) AND 0x3FF :: u32) < 2 ^ 10" unfolding t using k(3) by simp
      ultimately show ?thesis by (simp only: bits [OF x] t)
    qed
    then show ?thesis
      using True k(2,3) \<open>k \<le> 10\<close> e0 m0 by (auto simp: se_f16_bits_to_float_def Let_def k(1))
  qed
qed

subsection \<open>Encoding\<close>

text \<open>The 15 low bits of the result.\<close>

definition encoded_magnitude :: "nat \<Rightarrow> nat \<Rightarrow> nat" where
  "encoded_magnitude e t =
     (if e = 255 then 31 * 2 ^ 10 + (if t = 0 then 0 else if t div 2 ^ 13 = 0 then 1 else t div 2 ^ 13)
      else if e \<ge> 143 then 31 * 2 ^ 10
      else if e \<le> 112 then (if e < 102 then 0 else (2 ^ 23 + t + 2 ^ (125 - e)) div 2 ^ (126 - e))
      else (e - 112) * 2 ^ 10 + (t + 2 ^ 12) div 2 ^ 13)"

lemma half_join:
  fixes a b :: u32
  assumes "unat a = s * 2 ^ 15" "unat b = r" "s < 2" "r < 2 ^ 15"
  shows "unat (ucast (a OR b) :: u16) = s * 2 ^ 15 + r"
proof -
  have "unat (a OR b) = s * 2 ^ 15 + r"
    using nat_or_shift [OF assms(4), of s] by (simp add: unsigned_or_eq assms(1,2))
  moreover have "s * 2 ^ 15 + r < 2 ^ 16" using assms(3,4) by simp
  ultimately show ?thesis by (simp add: unat_ucast_mod)
qed

lemma half_exp_int: "113 \<le> e \<Longrightarrow> word_of_int (int e - 127 + 15) = (word_of_nat (e - 112) :: u32)"
proof -
  assume "113 \<le> e"
  then have "int e - 127 + 15 = int (e - 112)" by simp
  then show ?thesis by (simp only: of_int_of_nat_eq)
qed

lemma encode_nat: "unat (se_float_to_f16_bits x) = f32_sign x * 2 ^ 15 + encoded_magnitude (f32_exp x) (f32_mant x)"
proof -
  let ?s = "drop_bit 16 x AND 0x8000" and ?e = "drop_bit 23 x AND 0xFF" and ?t = "x AND 0x7FFFFF"
  let ?E = "f32_exp x" and ?M = "f32_mant x"
  note b = f32_bounds [of x]
  have "unat x div 65536 div 32768 = unat x div 2147483648" by (simp add: div_mult2_eq [symmetric])
  moreover have "unat x div 2147483648 mod 2 = unat x div 2147483648"
    using b(1) by (simp add: f32_sign_def)
  ultimately have s: "unat ?s = f32_sign x * 2 ^ 15" by (simp add: word_nat f32_sign_def)
  have e: "unat ?e = ?E" by (simp add: word_nat f32_exp_def)
  have t: "unat ?t = ?M" by (simp add: word_nat f32_mant_def)
  have e255: "?e = 0xFF \<longleftrightarrow> ?E = 255" using e by (simp add: word_unat_eq_iff)
  have t0: "?t = 0 \<longleftrightarrow> ?M = 0" using t by (simp add: word_unat_eq_iff)
  note join = half_join [OF s _ b(1)]
  show ?thesis
  proof (cases "?E = 255")
    case True
    have d: "unat (drop_bit 13 ?t) = ?M div 2 ^ 13" by (simp only: unat_drop_bit t)
    have lt: "?M div 2 ^ 13 < 2 ^ 10" using b(3) by (simp add: less_mult_imp_div_less)
    have c: "unat (0x7C00 OR drop_bit 13 ?t OR (if drop_bit 13 ?t = 0 then 1 else 0)) =
        31 * 2 ^ 10 + (if ?M div 2 ^ 13 = 0 then 1 else ?M div 2 ^ 13)"
    proof (cases "?M div 2 ^ 13 = 0")
      case True
      then have "drop_bit 13 ?t = 0" using d by (simp add: word_unat_eq_iff)
      then show ?thesis using True by simp
    next
      case False
      then have "drop_bit 13 ?t \<noteq> 0" using d by (metis unat_0)
      then show ?thesis using False d nat_or_shift [OF lt, of 31] by (simp add: unsigned_or_eq)
    qed
    have m0: "drop_bit 13 ?t = 0 \<longleftrightarrow> ?M div 2 ^ 13 = 0" using d by (simp add: word_unat_eq_iff)
    show ?thesis
    proof (cases "?M = 0")
      case zero: True
      then show ?thesis using join [where b = "0x7C00" and r = "31 * 2 ^ 10"] True e255 t0
        by (simp add: se_float_to_f16_bits_def Let_def encoded_magnitude_def)
    next
      case False
      have "se_float_to_f16_bits x = ucast (?s OR 0x7C00 OR drop_bit 13 ?t OR (if drop_bit 13 ?t = 0 then 1 else 0))"
        using True e255 False t0 by (simp add: se_float_to_f16_bits_def Let_def)
      then show ?thesis using join [OF c] lt True False by (simp add: encoded_magnitude_def)
    qed
  next
    case E: False
    have h: "int (unat ?e) - 127 + 15 = int ?E - 112" by (simp add: e)
    have body: "se_float_to_f16_bits x =
      (if int ?E - 112 \<ge> 31 then ucast (?s OR 0x7C00)
       else if int ?E - 112 \<le> 0 then
         (if int ?E - 112 < -10 then ucast ?s
          else ucast (?s OR drop_bit (126 - ?E) ((?t OR 0x800000) + push_bit (125 - ?E) 1)))
       else if (?t + 0x1000) AND 0x800000 \<noteq> 0 then
         (if int ?E - 112 + 1 \<ge> 31 then ucast (?s OR 0x7C00)
          else ucast (?s OR push_bit 10 (word_of_int (int ?E - 112 + 1)) OR drop_bit 13 0))
       else ucast (?s OR push_bit 10 (word_of_int (int ?E - 112)) OR drop_bit 13 (?t + 0x1000)))"
      using E e255 unfolding se_float_to_f16_bits_def Let_def h by (auto simp: nat_diff_distrib' algebra_simps)
    consider (big) "143 \<le> ?E" | (tiny) "?E < 102" | (sub) "102 \<le> ?E" "?E \<le> 112" | (norm) "113 \<le> ?E" "?E < 143"
      by linarith
    then show ?thesis
    proof cases
      case big
      then show ?thesis using body join [where b = "0x7C00" and r = "31 * 2 ^ 10"] E by (simp add: encoded_magnitude_def)
    next
      case tiny
      then have "se_float_to_f16_bits x = ucast ?s" using body by simp
      then show ?thesis using join [where b = 0 and r = 0] tiny E by (simp add: encoded_magnitude_def)
    next
      case sub
      let ?r = "(2 ^ 23 + ?M + 2 ^ (125 - ?E)) div 2 ^ (126 - ?E)"
      have or: "unat (?t OR 0x800000) = 2 ^ 23 + ?M"
      proof -
        have "unat (?t OR 0x800000) = 1 * 2 ^ 23 OR ?M" by (simp only: unsigned_or_eq t or.commute) simp
        then show ?thesis using nat_or_shift [OF b(3), of 1] by simp
      qed
      have p: "unat (push_bit (125 - ?E) 1 :: u32) = 2 ^ (125 - ?E)"
      proof -
        have "(2::nat) ^ (125 - ?E) \<le> 2 ^ 23" using sub by (intro power_increasing) auto
        then show ?thesis by (subst unat_push_bit) simp_all
      qed
      have le: "(2::nat) ^ (125 - ?E) \<le> 2 ^ 23" using sub by (intro power_increasing) auto
      have sum: "unat ((?t OR 0x800000) + push_bit (125 - ?E) 1) = 2 ^ 23 + ?M + 2 ^ (125 - ?E)"
        using b(3) le by (simp add: unat_word_ariths or p del: push_bit_of_1)
      have r: "unat (drop_bit (126 - ?E) ((?t OR 0x800000) + push_bit (125 - ?E) 1)) = ?r"
        by (simp only: unat_drop_bit sum)
      have lt: "?r < 2 ^ 15"
      proof -
        have "(2::nat) ^ 14 \<le> 2 ^ (126 - ?E)" using sub by (intro power_increasing) auto
        then have "?r \<le> (2 ^ 23 + ?M + 2 ^ (125 - ?E)) div 2 ^ 14" by (intro div_le_mono2) simp_all
        also have "\<dots> < 2 ^ 15" using b(3) le by (simp add: less_mult_imp_div_less)
        finally show ?thesis .
      qed
      have "se_float_to_f16_bits x = ucast (?s OR drop_bit (126 - ?E) ((?t OR 0x800000) + push_bit (125 - ?E) 1))"
        using sub body by simp
      then show ?thesis using join [OF r lt] sub by (simp add: encoded_magnitude_def)
    next
      case norm
      let ?q = "(?M + 2 ^ 12) div 2 ^ 13"
      have t': "unat (?t + 0x1000) = ?M + 2 ^ 12" using b(3) by (simp add: unat_word_ariths t)
      have q: "?q \<le> 2 ^ 10" using b(3) by simp
      have c: "(?t + 0x1000) AND 0x800000 \<noteq> 0 \<longleftrightarrow> ?q = 2 ^ 10"
      proof -
        have "unat ((?t + 0x1000) AND 0x800000) = (?M + 2 ^ 12) div 2 ^ 23 mod 2 * 2 ^ 23"
          by (simp only: unat_and_f16 t')
        moreover have "(?M + 2 ^ 12) div 2 ^ 23 = ?q div 2 ^ 10" by (simp add: div_mult2_eq [symmetric])
        moreover have "?q div 2 ^ 10 mod 2 \<noteq> 0 \<longleftrightarrow> ?q = 2 ^ 10"
          using q by (cases "?q = 2 ^ 10") (simp_all add: div_less)
        ultimately show ?thesis by (simp add: word_unat_eq_iff [of "_ AND _"])
      qed
      have full: "unat (push_bit 10 (word_of_nat h) OR drop_bit 13 y :: u32) = h * 2 ^ 10 + r"
        if "h < 2 ^ 5" "unat y div 2 ^ 13 = r" "r < 2 ^ 10" for h r and y :: u32
      proof -
        have "unat (word_of_nat h :: u32) = h" using that by (intro unat_small_u32) simp
        moreover have "unat (drop_bit 13 y) = r" using that by (simp only: unat_drop_bit)
        ultimately show ?thesis
          using unat_shift_or [of "word_of_nat h :: u32" 10 "drop_bit 13 y"] that by simp
      qed
      show ?thesis
      proof (cases "?q = 2 ^ 10")
        case True
        have mag: "encoded_magnitude ?E ?M = (?E - 111) * 2 ^ 10"
          using norm True by (simp add: encoded_magnitude_def algebra_simps) linarith?
        show ?thesis
        proof (cases "?E = 142")
          case top: True
          then have "se_float_to_f16_bits x = ucast (?s OR 0x7C00)" using body c True by simp
          then show ?thesis using join [where b = "0x7C00" and r = "31 * 2 ^ 10"] mag top by simp
        next
          case False
          have i: "word_of_int (int ?E - 112 + 1) = (word_of_nat (?E - 111) :: u32)"
          proof -
            have "int ?E - 112 + 1 = int (?E - 111)" using norm by simp
            then show ?thesis by (simp only: of_int_of_nat_eq)
          qed
          have "se_float_to_f16_bits x = ucast (?s OR push_bit 10 (word_of_nat (?E - 111)) OR drop_bit 13 0)"
            unfolding body i using norm c True False by simp
          moreover have "unat (push_bit 10 (word_of_nat (?E - 111)) OR drop_bit 13 0 :: u32) = (?E - 111) * 2 ^ 10 + 0"
            using norm False by (intro full) auto
          ultimately show ?thesis using join [where r = "(?E - 111) * 2 ^ 10"] mag norm False by simp
        qed
      next
        case False
        have i: "word_of_int (int ?E - 112) = (word_of_nat (?E - 112) :: u32)"
        proof -
          have "int ?E - 112 = int (?E - 112)" using norm by simp
          then show ?thesis by (simp only: of_int_of_nat_eq)
        qed
        have "se_float_to_f16_bits x = ucast (?s OR push_bit 10 (word_of_nat (?E - 112)) OR drop_bit 13 (?t + 0x1000))"
          unfolding body i using norm c False by simp
        moreover have "unat (push_bit 10 (word_of_nat (?E - 112)) OR drop_bit 13 (?t + 0x1000) :: u32) =
            (?E - 112) * 2 ^ 10 + ?q"
          using norm q False t' by (intro full) auto
        moreover have "(?E - 112) * 2 ^ 10 + ?q < 2 ^ 15" using norm q by simp
        ultimately show ?thesis using join norm E by (simp add: encoded_magnitude_def)
      qed
    qed
  qed
qed

subsection \<open>Values\<close>

lemma decode_value:
  assumes "half_exp h \<noteq> 31"
  shows "\<exists>y. se_f16_bits_to_float h = Some y \<and> f32_sign y = half_sign h \<and> f32_exp y \<noteq> 255 \<and>
    f32_magnitude y = magnitude 10 (half_exp h) (half_mant h) * 2 ^ 125"
proof -
  note b = half_bounds [of h]
  obtain y where y: "se_f16_bits_to_float h = Some y"
    and c: "if half_exp h = 0 then
        (if half_mant h = 0 then unat y = half_sign h * 2 ^ 31
         else \<exists>k \<le> 10. 2 ^ 10 \<le> half_mant h * 2 ^ k \<and> half_mant h * 2 ^ k < 2 ^ 11 \<and>
           unat y = half_sign h * 2 ^ 31 + (113 - k) * 2 ^ 23 + (half_mant h * 2 ^ k - 2 ^ 10) * 2 ^ 13)
      else unat y = half_sign h * 2 ^ 31 + (half_exp h + 112) * 2 ^ 23 + half_mant h * 2 ^ 13"
    using decode_half [of h] assms by metis
  consider (zero) "half_exp h = 0" "half_mant h = 0" | (sub) "half_exp h = 0" "half_mant h \<noteq> 0" | (norm) "half_exp h \<noteq> 0"
    by blast
  then show ?thesis
  proof cases
    case zero
    then have "unat y = half_sign h * 2 ^ 31 + 0 * 2 ^ 23 + 0" using c by simp
    from f32_of_fields [OF this] show ?thesis using y zero by (simp add: f32_magnitude_def magnitude_def)
  next
    case sub
    then obtain k where k: "k \<le> 10" "2 ^ 10 \<le> half_mant h * 2 ^ k" "half_mant h * 2 ^ k < 2 ^ 11"
      "unat y = half_sign h * 2 ^ 31 + (113 - k) * 2 ^ 23 + (half_mant h * 2 ^ k - 2 ^ 10) * 2 ^ 13"
      using c by auto
    have "113 - k < 2 ^ 8" "(half_mant h * 2 ^ k - 2 ^ 10) * 2 ^ 13 < 2 ^ 23" using k(2,3) by simp_all
    note f = f32_of_fields [OF k(4) this]
    have "2 ^ 23 + (half_mant h * 2 ^ k - 2 ^ 10) * 2 ^ 13 = half_mant h * 2 ^ k * 2 ^ 13" using k(2) by simp
    then have "f32_magnitude y = half_mant h * 2 ^ k * 2 ^ 13 * 2 ^ (112 - k)"
      using k(1) f by (simp add: f32_magnitude_def magnitude_def)
    also have "\<dots> = half_mant h * 2 ^ (k + 13 + (112 - k))" by (simp only: power_add mult.assoc)
    also have "k + 13 + (112 - k) = 125" using k(1) by simp
    finally show ?thesis using y f k(1) sub by (auto simp: magnitude_def)
  next
    case norm
    then have u: "unat y = half_sign h * 2 ^ 31 + (half_exp h + 112) * 2 ^ 23 + half_mant h * 2 ^ 13" using c by simp
    have "half_exp h + 112 < 2 ^ 8" "half_mant h * 2 ^ 13 < 2 ^ 23" using b by simp_all
    note f = f32_of_fields [OF u this]
    have "f32_magnitude y = (2 ^ 10 + half_mant h) * 2 ^ 13 * 2 ^ (half_exp h + 111)"
      using f by (simp add: f32_magnitude_def magnitude_def)
    also have "\<dots> = (2 ^ 10 + half_mant h) * 2 ^ (13 + (half_exp h + 111))" by (simp only: power_add mult.assoc)
    also have "13 + (half_exp h + 111) = (half_exp h - 1) + 125" using norm by simp
    finally show ?thesis using y f norm b(2) assms by (cases "half_exp h") (auto simp: magnitude_def power_add)
  qed
qed

lemma decode_special:
  assumes "half_exp h = 31"
  shows "\<exists>y. se_f16_bits_to_float h = Some y \<and> f32_sign y = half_sign h \<and> f32_exp y = 255 \<and>
    f32_mant y = half_mant h * 2 ^ 13"
proof -
  obtain y where y: "se_f16_bits_to_float h = Some y" "unat y = half_sign h * 2 ^ 31 + 255 * 2 ^ 23 + half_mant h * 2 ^ 13"
    using decode_half [of h] assms by auto
  have "half_mant h * 2 ^ 13 < 2 ^ 23" using half_bounds(3) [of h] by simp
  from f32_of_fields [OF y(2) _ this] show ?thesis using y(1) by simp
qed

lemma half_split: "unat h = half_sign h * 2 ^ 15 + half_exp h * 2 ^ 10 + half_mant h"
  using fields_split [of "unat h" 10 5] by (simp add: half_sign_def half_exp_def half_mant_def)

lemma roundtrip_half: "\<exists>y. se_f16_bits_to_float h = Some y \<and> se_float_to_f16_bits y = h"
proof -
  note b = half_bounds [of h]
  obtain y where y: "se_f16_bits_to_float h = Some y"
    and c: "if half_exp h = 0 then
        (if half_mant h = 0 then unat y = half_sign h * 2 ^ 31
         else \<exists>k \<le> 10. 2 ^ 10 \<le> half_mant h * 2 ^ k \<and> half_mant h * 2 ^ k < 2 ^ 11 \<and>
           unat y = half_sign h * 2 ^ 31 + (113 - k) * 2 ^ 23 + (half_mant h * 2 ^ k - 2 ^ 10) * 2 ^ 13)
      else if half_exp h = 31 then unat y = half_sign h * 2 ^ 31 + 255 * 2 ^ 23 + half_mant h * 2 ^ 13
      else unat y = half_sign h * 2 ^ 31 + (half_exp h + 112) * 2 ^ 23 + half_mant h * 2 ^ 13"
    using decode_half [of h] by blast
  have "f32_sign y = half_sign h \<and> encoded_magnitude (f32_exp y) (f32_mant y) = half_exp h * 2 ^ 10 + half_mant h"
  proof (cases "half_exp h = 0")
    case True
    show ?thesis
    proof (cases "half_mant h = 0")
      case zero: True
      then have "unat y = half_sign h * 2 ^ 31 + 0 * 2 ^ 23 + 0" using c True by simp
      from f32_of_fields [OF this] show ?thesis using zero True by (simp add: encoded_magnitude_def)
    next
      case False
      then obtain k where k: "k \<le> 10" "2 ^ 10 \<le> half_mant h * 2 ^ k" "half_mant h * 2 ^ k < 2 ^ 11"
        "unat y = half_sign h * 2 ^ 31 + (113 - k) * 2 ^ 23 + (half_mant h * 2 ^ k - 2 ^ 10) * 2 ^ 13"
        using c True by auto
      have "113 - k < 2 ^ 8" "(half_mant h * 2 ^ k - 2 ^ 10) * 2 ^ 13 < 2 ^ 23" using k(2,3) by simp_all
      note f = f32_of_fields [OF k(4) this]
      have "k \<noteq> 0" using k(2) b(3) by (intro notI) simp
      have e: "113 - k \<noteq> 255" "\<not> 143 \<le> 113 - k" "113 - k \<le> 112" "\<not> 113 - k < 102"
        using k(1) \<open>k \<noteq> 0\<close> by simp_all
      have x: "126 - (113 - k) = Suc (k + 12)" "125 - (113 - k) = k + 12" using k(1) by simp_all
      have "(2::nat) ^ Suc (k + 12) = 2 ^ k * 2 ^ 13" by (simp add: power_add)
      then have m: "2 ^ 23 + (half_mant h * 2 ^ k - 2 ^ 10) * 2 ^ 13 = half_mant h * 2 ^ Suc (k + 12)" using k(2) by simp
      have "(half_mant h * 2 ^ Suc (k + 12) + 2 ^ (k + 12)) div 2 ^ Suc (k + 12) = half_mant h"
        by (subst div_mult_self3) simp_all
      then have "encoded_magnitude (113 - k) ((half_mant h * 2 ^ k - 2 ^ 10) * 2 ^ 13) = half_mant h"
        unfolding encoded_magnitude_def x m using e by simp
      then show ?thesis using f True by simp
    qed
  next
    case False
    let ?e = "if half_exp h = 31 then 255 else half_exp h + 112"
    have u: "unat y = half_sign h * 2 ^ 31 + ?e * 2 ^ 23 + half_mant h * 2 ^ 13" using c False by auto
    have "?e < 2 ^ 8" "half_mant h * 2 ^ 13 < 2 ^ 23" using b by simp_all
    note f = f32_of_fields [OF u this]
    have "(half_mant h * 2 ^ 13 + 2 ^ 12) div 2 ^ 13 = half_mant h" by simp
    then show ?thesis using f False b(2) by (auto simp: encoded_magnitude_def)
  qed
  then have "unat (se_float_to_f16_bits y) = unat h" using encode_nat [of y] half_split [of h] by simp
  then have "se_float_to_f16_bits y = h" by (simp only: word_unat_eq_iff)
  then show ?thesis using y by blast
qed

subsection \<open>Rounding\<close>

text \<open>A grid point is nearest when the value is within half of the gap on either side.\<close>

lemma nearest_on_grid:
  fixes g :: "nat \<Rightarrow> nat" and v :: nat
  assumes "strict_mono g" "n \<le> l"
    and above: "n < l \<longrightarrow> 2 * v < g n + g (Suc n)"
    and below: "0 < n \<longrightarrow> g (n - 1) + g n \<le> 2 * v"
    and k: "k \<le> l" "k \<noteq> n"
  shows "\<bar>int (g n) - int v\<bar> < \<bar>int (g k) - int v\<bar> \<or> \<bar>int (g n) - int v\<bar> = \<bar>int (g k) - int v\<bar> \<and> k < n"
proof -
  have "k < n \<or> n < k" using k(2) by linarith
  then show ?thesis
  proof
    assume lt: "k < n"
    then have "g k \<le> g (n - 1)" using assms(1) by (simp add: strict_mono_less_eq)
    moreover have "g k < g n" using assms(1) lt by (simp add: strict_mono_less)
    ultimately show ?thesis using below lt by linarith
  next
    assume lt: "n < k"
    then have "g (Suc n) \<le> g k" using assms(1) by (simp add: strict_mono_less_eq)
    moreover have "g n < g k" using assms(1) lt by (simp add: strict_mono_less)
    ultimately show ?thesis using above lt k(1) by linarith
  qed
qed

lemma encoded_gap:
  assumes "e < 255" "t < 2 ^ 23"
  defines "n \<equiv> encoded_magnitude e t" and "v \<equiv> magnitude 23 e t"
  shows "n \<le> 31 * 2 ^ 10"
    and "n < 31 * 2 ^ 10 \<longrightarrow> 2 * v < grid 10 n * 2 ^ 125 + grid 10 (Suc n) * 2 ^ 125"
    and "0 < n \<longrightarrow> grid 10 (n - 1) * 2 ^ 125 + grid 10 n * 2 ^ 125 \<le> 2 * v"
proof -
  have less: "grid 10 (n - 1) \<le> grid 10 n" using grid_mono by (simp add: strict_mono_less_eq)
  have "n \<le> 31 * 2 ^ 10 \<and>
    (n < 31 * 2 ^ 10 \<longrightarrow> 2 * v < grid 10 n * 2 ^ 125 + grid 10 (Suc n) * 2 ^ 125) \<and>
    (0 < n \<longrightarrow> grid 10 (n - 1) * 2 ^ 125 + grid 10 n * 2 ^ 125 \<le> 2 * v)"
  proof -
    consider (big) "143 \<le> e" | (tiny) "e < 102" | (sub) "102 \<le> e" "e \<le> 112" | (norm) "113 \<le> e" "e < 143"
      by linarith
    then show ?thesis
    proof cases
      case big
      then have n: "n = 31 * 2 ^ 10" using assms(1) by (simp add: n_def encoded_magnitude_def)
      have g: "grid 10 n = 2 ^ 40" using grid_field [of 0 10 30] n by simp
      have "(2::nat) ^ 23 * 2 ^ 142 \<le> (2 ^ 23 + t) * 2 ^ (e - 1)"
        using big by (intro mult_le_mono power_increasing) auto
      then have "grid 10 n * 2 ^ 125 \<le> v" using big g by (simp add: v_def magnitude_def)
      moreover have "grid 10 (n - 1) * 2 ^ 125 \<le> grid 10 n * 2 ^ 125" using less by simp
      ultimately show ?thesis using n by linarith
    next
      case tiny
      then have n: "n = 0" by (simp add: n_def encoded_magnitude_def)
      have "v < 2 ^ 24 * 2 ^ 100"
      proof (cases "e = 0")
        case True
        then show ?thesis using assms(2) by (simp add: v_def magnitude_def)
      next
        case False
        have "v = (2 ^ 23 + t) * 2 ^ (e - 1)" using False by (simp add: v_def magnitude_def)
        also have "\<dots> \<le> (2 ^ 23 + t) * 2 ^ 100" using tiny by (intro mult_le_mono power_increasing) auto
        also have "\<dots> < 2 ^ 24 * 2 ^ 100" using assms(2) by simp
        finally show ?thesis .
      qed
      moreover have "grid 10 0 = 0" "grid 10 (Suc 0) = 1"
        using grid_small [of 0 10] grid_small [of 1 10] by simp_all
      ultimately show ?thesis by (simp add: n)
    next
      case sub
      let ?B = "2 ^ (126 - e) :: nat" and ?U = "2 ^ (e - 1) :: nat" and ?H = "2 ^ (125 - e) :: nat"
      have B: "?B = 2 * ?H"
      proof -
        have "126 - e = Suc (125 - e)" using sub by simp
        then show ?thesis by (simp only: power_Suc)
      qed
      have BU: "?B * ?U = 2 ^ 125"
      proof -
        have "126 - e + (e - 1) = 125" using sub by simp
        then show ?thesis by (metis power_add)
      qed
      have n: "n = (2 ^ 23 + t + ?H) div ?B" using sub by (simp add: n_def encoded_magnitude_def)
      have v: "v = (2 ^ 23 + t) * ?U" using sub by (simp add: v_def magnitude_def)
      have lo: "n * ?B \<le> 2 ^ 23 + t + ?H" unfolding n by simp
      have hi: "2 ^ 23 + t + ?H < Suc n * ?B" unfolding n by (metis dividend_less_times_div mult.commute mult_Suc_right power_not_zero zero_less_numeral zero_less_power)
      have "(2::nat) ^ 14 \<le> ?B" using sub by (intro power_increasing) auto
      then have B14: "16384 \<le> ?B" by simp
      have n10: "n \<le> 2 ^ 10"
      proof (rule ccontr)
        assume "\<not> n \<le> 2 ^ 10"
        have p23: "(2::nat) ^ 23 = 8388608" by simp
        have "1025 * ?B \<le> n * ?B" using \<open>\<not> n \<le> 2 ^ 10\<close> by (intro mult_le_mono1) simp
        moreover have "t < 8388608" using assms(2) by simp
        moreover have "n * ?B \<le> 8388608 + t + ?H" using lo unfolding p23 .
        ultimately show False using B14 B by linarith
      qed
      have vals: "grid 10 n = n" "n + 1 \<le> grid 10 (Suc n)" "grid 10 (n - 1) = n - 1"
        using grid_small [of n 10] grid_small [of "n - 1" 10] grid_Suc [of 10 n] n10 by simp_all
      have "2 * v < (n + (n + 1)) * 2 ^ 125"
      proof -
        have "2 * (2 ^ 23 + t) < (n + (n + 1)) * ?B" using hi B by (simp add: algebra_simps)
        then have "2 * (2 ^ 23 + t) * ?U < (n + (n + 1)) * ?B * ?U" by simp
        then show ?thesis unfolding v BU [symmetric] by (simp add: algebra_simps)
      qed
      moreover have "(n + (n + 1)) * 2 ^ 125 \<le> grid 10 n * 2 ^ 125 + grid 10 (Suc n) * 2 ^ 125"
        using vals(1,2) unfolding add_mult_distrib [symmetric] by (intro mult_le_mono1) linarith
      moreover have "0 < n \<longrightarrow> grid 10 (n - 1) * 2 ^ 125 + grid 10 n * 2 ^ 125 \<le> 2 * v"
      proof
        assume "0 < n"
        then have "(n - 1 + n) * ?B \<le> 2 * (2 ^ 23 + t)" using lo B by (cases n) (simp_all add: algebra_simps)
        then have "(n - 1 + n) * ?B * ?U \<le> 2 * (2 ^ 23 + t) * ?U" by simp
        then show "grid 10 (n - 1) * 2 ^ 125 + grid 10 n * 2 ^ 125 \<le> 2 * v"
          unfolding v BU [symmetric] vals(1,3) by (simp add: algebra_simps)
      qed
      ultimately show ?thesis using n10 by linarith
    next
      case norm
      define h where "h = e - 113"
      have h: "e = h + 113" "h < 30" using norm by (simp_all add: h_def)
      let ?U = "2 ^ (h + 112) :: nat"
      define q where "q = (t + 2 ^ 12) div 2 ^ 13"
      have q: "q \<le> 2 ^ 10" using assms(2) by (simp add: q_def)
      have n: "n = Suc h * 2 ^ 10 + q" using h by (simp add: n_def encoded_magnitude_def q_def)
      have v: "v = (2 ^ 23 + t) * ?U" using h by (simp add: v_def magnitude_def)
      have U: "2 ^ h * 2 ^ 125 = 2 ^ 13 * ?U" by (simp add: power_add)
      have lo: "q * 2 ^ 13 \<le> t + 2 ^ 12" unfolding q_def by simp
      have hi: "t + 2 ^ 12 < (q + 1) * 2 ^ 13" unfolding q_def by simp
      have vn: "grid 10 n = (2 ^ 10 + q) * 2 ^ h" unfolding n using q by (rule grid_field)
      have "h \<le> n div 2 ^ 10 - 1" unfolding n by (subst div_mult_self3) simp_all
      then have "(2::nat) ^ h \<le> 2 ^ (n div 2 ^ 10 - 1)" by (intro power_increasing) simp_all
      moreover have "(2 ^ 10 + q + 1) * 2 ^ h = (2 ^ 10 + q) * 2 ^ h + 2 ^ h" by (simp only: add_mult_distrib mult_1)
      ultimately have vs: "(2 ^ 10 + q + 1) * 2 ^ h \<le> grid 10 (Suc n)"
        using grid_Suc [of 10 n] vn by linarith
      have n31: "n \<le> 31 * 2 ^ 10" using n q h(2) by simp
      have "2 * v < (2 ^ 10 + q + (2 ^ 10 + q + 1)) * (2 ^ h * 2 ^ 125)"
        unfolding v U using hi by simp
      also have "\<dots> \<le> grid 10 n * 2 ^ 125 + grid 10 (Suc n) * 2 ^ 125"
        using vs unfolding vn by (simp add: algebra_simps)
      finally have up: "2 * v < grid 10 n * 2 ^ 125 + grid 10 (Suc n) * 2 ^ 125" .
      have "grid 10 (n - 1) * 2 ^ 125 + grid 10 n * 2 ^ 125 \<le> 2 * v"
      proof (cases q)
        case 0
        then have "grid 10 n * 2 ^ 125 \<le> v" unfolding vn v using U by (simp add: algebra_simps)
        moreover have "grid 10 (n - 1) * 2 ^ 125 \<le> grid 10 n * 2 ^ 125" using less by simp
        ultimately show ?thesis by linarith
      next
        case (Suc q')
        then have "n - 1 = Suc h * 2 ^ 10 + q'" using n by simp
        then have "grid 10 (n - 1) = (2 ^ 10 + q') * 2 ^ h" using grid_field [of q' 10 h] q Suc by simp
        then have "grid 10 (n - 1) * 2 ^ 125 + grid 10 n * 2 ^ 125 = (2 ^ 10 + q' + (2 ^ 10 + q)) * (2 ^ h * 2 ^ 125)"
          unfolding vn by (simp add: algebra_simps)
        also have "\<dots> \<le> 2 * v" unfolding v U using lo Suc by simp
        finally show ?thesis .
      qed
      then show ?thesis using up n31 by blast
    qed
  qed
  then show "n \<le> 31 * 2 ^ 10"
    and "n < 31 * 2 ^ 10 \<longrightarrow> 2 * v < grid 10 n * 2 ^ 125 + grid 10 (Suc n) * 2 ^ 125"
    and "0 < n \<longrightarrow> grid 10 (n - 1) * 2 ^ 125 + grid 10 n * 2 ^ 125 \<le> 2 * v" by blast+
qed

subsection \<open>Arrays of half-precision numbers\<close>

text \<open>The conversion always returns (\<open>decode_value\<close>, \<open>decode_special\<close>), so its value can be named.\<close>

definition half_float :: "u16 \<Rightarrow> u32" where
  "half_float h = the (se_f16_bits_to_float h)"

definition write_u16le :: "u8 list \<Rightarrow> nat \<Rightarrow> u16 \<Rightarrow> u8 list se_result" where
  "write_u16le mem dst v =
     bindR (wrR mem dst (ucast (v AND 0xFF))) (\<lambda>mem. wrR mem (dst + 1) (ucast (drop_bit 8 v)))"

definition read_u16le :: "u8 list \<Rightarrow> nat \<Rightarrow> u16 se_result" where
  "read_u16le mem src =
     bindR (rdR mem src) (\<lambda>b0. bindR (rdR mem (src + 1)) (\<lambda>b1.
       Inr (ucast b0 OR push_bit 8 (ucast b1))))"

definition se_write_f16le :: "u8 list \<Rightarrow> nat \<Rightarrow> u32 \<Rightarrow> u8 list se_result" where
  "se_write_f16le mem dst value = write_u16le mem dst (se_float_to_f16_bits value)"

definition se_read_f16le :: "u8 list \<Rightarrow> nat \<Rightarrow> u32 se_result" where
  "se_read_f16le mem src = bindR (read_u16le mem src) (\<lambda>h. Inr (half_float h))"

text \<open>Both arrays lie in one memory, so that the encoding of an array into itself is covered.\<close>

definition se_encode_f16_from_floats :: "u8 list \<Rightarrow> nat \<Rightarrow> nat \<Rightarrow> nat \<Rightarrow> u8 list se_result" where
  "se_encode_f16_from_floats mem dst src count =
     foldR (\<lambda>mem i. bindR (read_u32 mem (src + i * 4)) (\<lambda>x.
       write_u16le mem (dst + i * 2) (se_float_to_f16_bits x))) mem [0..<count]"

text \<open>The floats that are stored, in order; the destination is an array of its own.\<close>

definition se_decode_f16_to_floats :: "u8 list \<Rightarrow> nat \<Rightarrow> nat \<Rightarrow> u32 list se_result" where
  "se_decode_f16_to_floats mem src count =
     mapR (\<lambda>i. bindR (read_u16le mem (src + i * 2)) (\<lambda>h. Inr (half_float h))) [0..<count]"

lemma half_float_eq: "se_f16_bits_to_float h = Some (half_float h)"
  using roundtrip_half [of h] by (auto simp: half_float_def)

lemma half_float_encode: "se_float_to_f16_bits (half_float h) = h"
  using roundtrip_half [of h] by (auto simp: half_float_def)

lemma write_u16le_Inr:
  "dst + 2 \<le> length mem \<Longrightarrow>
     write_u16le mem dst v = Inr (mem[dst := ucast v, dst + 1 := ucast (drop_bit 8 v)])"
proof -
  have "(0xFF :: u16) = mask 8" by (simp add: mask_eq_exp_minus_1)
  then have "(ucast (v AND 0xFF) :: u8) = ucast v" by (auto simp: bit_eq_iff bit_simps)
  then show "dst + 2 \<le> length mem \<Longrightarrow>
     write_u16le mem dst v = Inr (mem[dst := ucast v, dst + 1 := ucast (drop_bit 8 v)])"
    by (simp add: write_u16le_def read_simps)
qed

lemma read_u16le_Inr:
  "src + 2 \<le> length mem \<Longrightarrow>
     read_u16le mem src = Inr (ucast (mem ! src) OR push_bit 8 (ucast (mem ! (src + 1))))"
  by (simp add: read_u16le_def read_simps)

lemma join_u16: "ucast (ucast v :: u8) OR push_bit 8 (ucast (ucast (drop_bit 8 v) :: u8)) = (v :: u16)"
  by (auto simp: bit_eq_iff bit_simps not_less)

lemma read_u16le_cong:
  "length mem' = length mem \<Longrightarrow> mem' ! src = mem ! src \<Longrightarrow> mem' ! (src + 1) = mem ! (src + 1) \<Longrightarrow>
     read_u16le mem' src = read_u16le mem src"
  by (simp add: read_u16le_def rdR_def)

lemma read_u32_cong:
  assumes "length mem' = length mem" "\<And>k. k < 4 \<Longrightarrow> mem' ! (off + k) = mem ! (off + k)"
  shows "read_u32 mem' off = read_u32 mem off"
  using assms(1) assms(2) [of 0] assms(2) [of 1] assms(2) [of 2] assms(2) [of 3]
  by (simp add: read_u32_def rdR_def)

lemma encode_run:
  assumes "dst \<le> src" "src + count * 4 \<le> length mem"
  shows "\<exists>mem'. se_encode_f16_from_floats mem dst src count = Inr mem' \<and> length mem' = length mem \<and>
    (\<forall>i. i < dst \<or> dst + count * 2 \<le> i \<longrightarrow> mem' ! i = mem ! i) \<and>
    (\<forall>i < count. \<exists>x. read_u32 mem (src + i * 4) = Inr x \<and>
       read_u16le mem' (dst + i * 2) = Inr (se_float_to_f16_bits x))"
  using assms(2)
proof (induction count)
  case 0
  then show ?case by (simp add: se_encode_f16_from_floats_def)
next
  case (Suc n)
  then obtain m where m: "se_encode_f16_from_floats mem dst src n = Inr m" "length m = length mem"
    "\<And>i. i < dst \<or> dst + n * 2 \<le> i \<Longrightarrow> m ! i = mem ! i"
    "\<And>i. i < n \<Longrightarrow> \<exists>x. read_u32 mem (src + i * 4) = Inr x \<and>
       read_u16le m (dst + i * 2) = Inr (se_float_to_f16_bits x)" by auto
  have "read_u32 m (src + n * 4) = read_u32 mem (src + n * 4)"
    using m(2) assms(1) by (intro read_u32_cong m(3)) auto
  moreover obtain x where x: "read_u32 mem (src + n * 4) = Inr x"
    using read_u32_total [of "src + n * 4" mem] Suc.prems by auto
  ultimately have r: "read_u32 m (src + n * 4) = Inr x" by simp
  define v where "v = se_float_to_f16_bits x"
  define m' where "m' = m[dst + n * 2 := ucast v, dst + n * 2 + 1 := ucast (drop_bit 8 v)]"
  have w: "write_u16le m (dst + n * 2) v = Inr m'"
    using Suc.prems assms(1) m(2) unfolding m'_def by (intro write_u16le_Inr) simp
  have "se_encode_f16_from_floats mem dst src (Suc n) = Inr m'"
    using m(1) r w by (simp add: se_encode_f16_from_floats_def foldR_append v_def)
  moreover have "length m' = length mem" using m(2) by (simp add: m'_def)
  moreover have "m' ! i = mem ! i" if "i < dst \<or> dst + Suc n * 2 \<le> i" for i
    using that m(3) [of i] by (auto simp: m'_def)
  moreover have "\<exists>x. read_u32 mem (src + i * 4) = Inr x \<and> read_u16le m' (dst + i * 2) = Inr (se_float_to_f16_bits x)"
    if "i < Suc n" for i
  proof (cases "i = n")
    case True
    have "read_u16le m' (dst + n * 2) = Inr v"
      using Suc.prems assms(1) m(2) by (subst read_u16le_Inr) (simp_all add: m'_def join_u16)
    then show ?thesis using x True by (simp add: v_def)
  next
    case False
    then have "read_u16le m' (dst + i * 2) = read_u16le m (dst + i * 2)"
      using that by (intro read_u16le_cong) (auto simp: m'_def)
    then show ?thesis using m(4) [of i] that False by simp
  qed
  ultimately show ?case by auto
qed

subsection \<open>Formats and backends\<close>

datatype se_vector_format = SE_VECTOR_FORMAT_F32 | SE_VECTOR_FORMAT_F16

definition se_vector_format_element_bytes :: "se_vector_format \<Rightarrow> size_t" where
  "se_vector_format_element_bytes format = (if format = SE_VECTOR_FORMAT_F16 then 2 else 4)"

datatype se_f16_backend = SE_F16_BACKEND_LUT | SE_F16_BACKEND_NEON_FP16 | SE_F16_BACKEND_F16C

text \<open>The static variables of the file.\<close>

record f16_state =
  fs_backend :: se_f16_backend
  fs_lut :: "u32 list"

definition f16_start :: f16_state where
  "f16_start = \<lparr>fs_backend = SE_F16_BACKEND_LUT, fs_lut = replicate 65536 0\<rparr>"

text \<open>
  What the processor reports: register \<^verbatim>\<open>ecx\<close> of leaf 1, if the leaf is supported, and the low word of
  the extended control register.
\<close>

record x86_cpu =
  cpu_leaf1_ecx :: "u32 option"
  cpu_xcr0_lo :: u32

definition detect_x86_f16c :: "x86_cpu \<Rightarrow> bool" where
  "detect_x86_f16c cpu =
     (case cpu_leaf1_ecx cpu of
        None \<Rightarrow> False
      | Some ecx \<Rightarrow>
          if ecx AND push_bit 27 1 = 0 \<or> ecx AND push_bit 28 1 = 0 \<or> ecx AND push_bit 29 1 = 0 then False
          else cpu_xcr0_lo cpu AND 0x6 = 0x6)"

definition init_f16_lut :: "f16_state \<Rightarrow> f16_state" where
  "init_f16_lut st =
     st\<lparr>fs_lut := fold (\<lambda>i lut. lut[i := half_float (word_of_nat i)]) [0..<0x10000] (fs_lut st)\<rparr>"

text \<open>\<open>None\<close> is a build without the kernels for this processor.\<close>

definition se_select_f16_backend :: "x86_cpu option \<Rightarrow> f16_state \<Rightarrow> f16_state" where
  "se_select_f16_backend target st =
     (if (case target of None \<Rightarrow> False | Some cpu \<Rightarrow> detect_x86_f16c cpu)
      then st\<lparr>fs_backend := SE_F16_BACKEND_F16C\<rparr>
      else init_f16_lut (st\<lparr>fs_backend := SE_F16_BACKEND_LUT\<rparr>))"

definition se_current_f16_backend :: "f16_state \<Rightarrow> se_f16_backend" where
  "se_current_f16_backend st = fs_backend st"

text \<open>What a selection establishes: the table is only read when it is filled.\<close>

definition f16_ready :: "f16_state \<Rightarrow> bool" where
  "f16_ready st = (fs_backend st = SE_F16_BACKEND_F16C \<or>
     fs_backend st = SE_F16_BACKEND_LUT \<and> fs_lut st = map (\<lambda>i. half_float (word_of_nat i)) [0..<65536])"

lemma fold_update_map:
  "n \<le> length xs \<Longrightarrow> fold (\<lambda>i xs. xs[i := f i]) [0..<n] xs = map f [0..<n] @ drop n xs"
proof (induction n)
  case (Suc n)
  then have "fold (\<lambda>i xs. xs[i := f i]) [0..<Suc n] xs = (map f [0..<n] @ drop n xs)[n := f n]" by simp
  also have "drop n xs = xs ! n # drop (Suc n) xs" using Suc.prems by (simp add: Cons_nth_drop_Suc)
  finally show ?case by (simp add: list_update_append)
qed simp

lemma f16_start_length: "length (fs_lut f16_start) = 65536"
  by (simp add: f16_start_def)

lemma select_length: "length (fs_lut (se_select_f16_backend target st)) = length (fs_lut st)"
proof -
  have "length (fold (\<lambda>i xs. xs[i := f i]) is xs) = length (xs :: u32 list)" for f and "is" :: "nat list" and xs
    by (induction "is" arbitrary: xs) simp_all
  then show ?thesis by (simp add: se_select_f16_backend_def init_f16_lut_def del: upt_conv_Cons)
qed

lemma select_ready: "length (fs_lut st) = 65536 \<Longrightarrow> f16_ready (se_select_f16_backend target st)"
  using fold_update_map [of 65536 "fs_lut st"]
  by (simp add: se_select_f16_backend_def f16_ready_def init_f16_lut_def del: upt_conv_Cons)

lemma lut_read:
  assumes "f16_ready st" "fs_backend st \<noteq> SE_F16_BACKEND_F16C"
  shows "rdR (fs_lut st) (unat h) = Inr (half_float h)"
proof -
  have "unat h < 65536" using unsigned_less [of h, where ?'a = nat] by simp
  then show ?thesis using assms by (simp add: f16_ready_def rdR_def del: upt_conv_Cons)
qed

subsection \<open>Properties\<close>

text \<open>
  Property C30: the conversion to single precision always returns, although its loop has no bound; the number
  it returns has the sign and the exact value of the half-precision number, an infinity stays one, and a NaN
  keeps its payload.
\<close>

theorem half_decode_exact:
  "\<exists>y. se_f16_bits_to_float h = Some y \<and> f32_sign y = half_sign h \<and>
     (if half_exp h = 31 then f32_exp y = 255 \<and> f32_mant y = half_mant h * 2 ^ 13
      else f32_exp y \<noteq> 255 \<and> f32_magnitude y = magnitude 10 (half_exp h) (half_mant h) * 2 ^ 125)"
  using decode_value [of h] decode_special [of h] by (cases "half_exp h = 31") auto

text \<open>
  Property C31: every one of the 65536 half-precision numbers, NaNs and subnormals included, comes back from
  single precision bit for bit.
\<close>

theorem half_roundtrip: "\<exists>y. se_f16_bits_to_float h = Some y \<and> se_float_to_f16_bits y = h"
  by (rule roundtrip_half)

text \<open>
  Property C11: a finite number is encoded with its sign as a nearest half-precision number, the infinity
  counting as the next number after the largest; of two nearest ones it is the one of larger magnitude.
\<close>

theorem half_encode_nearest:
  assumes "f32_exp x \<noteq> 255"
  shows "\<exists>n \<le> 31 * 2 ^ 10. unat (se_float_to_f16_bits x) = f32_sign x * 2 ^ 15 + n \<and>
    (\<forall>k \<le> 31 * 2 ^ 10. k \<noteq> n \<longrightarrow>
       (let d = (\<lambda>i. \<bar>int (grid 10 i * 2 ^ 125) - int (f32_magnitude x)\<bar>)
        in d n < d k \<or> d n = d k \<and> k < n))"
proof -
  let ?n = "encoded_magnitude (f32_exp x) (f32_mant x)"
  have e: "f32_exp x < 255" using f32_bounds(2) [of x] assms by simp
  note gap = encoded_gap [OF e f32_bounds(3) [of x], folded f32_magnitude_def]
  have "strict_mono (\<lambda>i. grid 10 i * 2 ^ 125)" using grid_mono [of 10] by (simp add: strict_mono_def)
  note near = nearest_on_grid [OF this gap]
  show ?thesis unfolding Let_def
  proof (intro exI [of _ ?n] conjI allI impI)
    show "?n \<le> 31 * 2 ^ 10" by (rule gap(1))
    show "unat (se_float_to_f16_bits x) = f32_sign x * 2 ^ 15 + ?n" by (rule encode_nat)
  qed (rule near)
qed

lemma half_encode_nearest_witness:
  "f32_exp (0x3F801000 :: u32) \<noteq> 255 \<and> (\<exists>n \<le> 31 * 2 ^ 10.
     unat (se_float_to_f16_bits 0x3F801000) = f32_sign 0x3F801000 * 2 ^ 15 + n)"
proof -
  have "f32_exp (0x3F801000 :: u32) \<noteq> 255" by (simp add: f32_exp_def)
  from half_encode_nearest [OF this] this show ?thesis by blast
qed

text \<open>
  Property C32: encoding an array of floats, into another place or into its own beginning as
  \<^verbatim>\<open>binary_string_from_floats\<close> does, stays in the buffer, writes the encoding of each of the original
  floats at its place, and changes no other byte.
\<close>

theorem encode_in_place:
  assumes "dst \<le> src" "src + count * 4 \<le> length mem"
  shows "\<exists>mem'. se_encode_f16_from_floats mem dst src count = Inr mem' \<and> length mem' = length mem \<and>
    (\<forall>i. i < dst \<or> dst + count * 2 \<le> i \<longrightarrow> mem' ! i = mem ! i) \<and>
    (\<forall>i < count. \<exists>x. read_u32 mem (src + i * 4) = Inr x \<and>
       read_u16le mem' (dst + i * 2) = Inr (se_float_to_f16_bits x))"
  using assms by (rule encode_run)

lemma encode_in_place_witness:
  "\<exists>mem'. se_encode_f16_from_floats [0, 0, 0x80, 0x3F, 0, 0, 0, 0xC0] 0 0 2 = Inr mem' \<and>
     read_u16le mem' 0 = Inr 0x3C00 \<and> read_u16le mem' 2 = Inr 0xC000"
proof -
  let ?mem = "[0, 0, 0x80, 0x3F, 0, 0, 0, 0xC0] :: u8 list"
  have r: "read_u32 ?mem (0 + 0 * 4) = Inr 0x3F800000" "read_u32 ?mem (0 + 1 * 4) = Inr 0xC0000000"
    by (simp_all add: read_u32_def rdR_def join_u32_def)
  have e: "se_float_to_f16_bits 0x3F800000 = 0x3C00" "se_float_to_f16_bits 0xC0000000 = 0xC000"
    by (simp_all add: se_float_to_f16_bits_def Let_def)
  obtain mem' where "se_encode_f16_from_floats ?mem 0 0 2 = Inr mem'"
    and h: "\<And>i. i < 2 \<Longrightarrow> \<exists>x. read_u32 ?mem (0 + i * 4) = Inr x \<and>
       read_u16le mem' (0 + i * 2) = Inr (se_float_to_f16_bits x)"
    using encode_in_place [of 0 0 2 ?mem] by auto
  then show ?thesis using h [of 0] h [of 1] r e by (auto simp: numeral_2_eq_2)
qed

end
