(* ===== verification/Dot.thy ===== *)
theory Dot
  imports F16 "HOL-Library.Multiset"
begin

text \<open>
  The dot products of \<^verbatim>\<open>se_topk.c\<close> and \<^verbatim>\<open>se_f16.c\<close>.  What differs between the kernels is the order in
  which the products are added, so that order is modelled once, over any addition: with the addition of
  numbers it gives \<^verbatim>\<open>dot\<close>, with the componentwise addition of pairs it gives \<^verbatim>\<open>dot\<close> and \<^verbatim>\<open>row_sq\<close>
  together.  Over an exact addition every kernel is the sum of all products.
\<close>

subsection \<open>The shapes of the sums\<close>

text \<open>
  A loop that adds to \<open>k\<close> accumulators in turn while \<open>k\<close> elements are left; \<open>term j\<close> is the product at
  index \<open>j\<close>.  The result holds the first index that is left.  A vector register is its list of lanes.
\<close>

function lanes_loop ::
  "('v \<Rightarrow> 'v \<Rightarrow> 'v) \<Rightarrow> (nat \<Rightarrow> 'v se_result) \<Rightarrow> nat \<Rightarrow> nat \<Rightarrow> nat \<Rightarrow> 'v list \<Rightarrow> (nat \<times> 'v list) se_result" where
  "lanes_loop add p k dim j acc =
     (if 0 < k \<and> j + (k - 1) < dim then
        bindR (mapR p [j..<j + k]) (\<lambda>ps. lanes_loop add p k dim (j + k) (map2 add acc ps))
      else Inr (j, acc))"
  by pat_completeness auto
termination by (relation "measure (\<lambda>(add, p, k, dim, j, acc). dim - j)") auto

declare lanes_loop.simps [simp del]

function tail_loop :: "('v \<Rightarrow> 'v \<Rightarrow> 'v) \<Rightarrow> (nat \<Rightarrow> 'v se_result) \<Rightarrow> nat \<Rightarrow> nat \<Rightarrow> 'v \<Rightarrow> 'v se_result" where
  "tail_loop add p dim j dot =
     (if j < dim then bindR (p j) (\<lambda>x. tail_loop add p dim (j + 1) (add dot x)) else Inr dot)"
  by pat_completeness auto
termination by (relation "measure (\<lambda>(add, p, dim, j, dot). dim - j)") auto

declare tail_loop.simps [simp del]

definition hsum4 :: "('v \<Rightarrow> 'v \<Rightarrow> 'v) \<Rightarrow> 'v list \<Rightarrow> 'v" where
  "hsum4 add v = add (add (v ! 0) (v ! 1)) (add (v ! 2) (v ! 3))"

definition hsum256_f16c :: "('v \<Rightarrow> 'v \<Rightarrow> 'v) \<Rightarrow> 'v list \<Rightarrow> 'v" where
  "hsum256_f16c add v = hsum4 add (map2 add (take 4 v) (drop 4 v))"

text \<open>Four scalar accumulators.\<close>

definition dot_by_4 :: "('v \<Rightarrow> 'v \<Rightarrow> 'v) \<Rightarrow> 'v \<Rightarrow> (nat \<Rightarrow> 'v se_result) \<Rightarrow> nat \<Rightarrow> 'v se_result" where
  "dot_by_4 add zero p dim =
     bindR (lanes_loop add p 4 dim 0 (replicate 4 zero)) (\<lambda>(j, s). tail_loop add p dim j (hsum4 add s))"

text \<open>Eight scalar accumulators.\<close>

definition dot_by_8 :: "('v \<Rightarrow> 'v \<Rightarrow> 'v) \<Rightarrow> 'v \<Rightarrow> (nat \<Rightarrow> 'v se_result) \<Rightarrow> nat \<Rightarrow> 'v se_result" where
  "dot_by_8 add zero p dim =
     bindR (lanes_loop add p 8 dim 0 (replicate 8 zero)) (\<lambda>(j, s).
       tail_loop add p dim j
         (add (add (add (add (s ! 0) (s ! 1)) (add (s ! 2) (s ! 3))) (add (s ! 4) (s ! 5))) (add (s ! 6) (s ! 7))))"

text \<open>SSE: four registers of four lanes.\<close>

definition dot_sse :: "('v \<Rightarrow> 'v \<Rightarrow> 'v) \<Rightarrow> 'v \<Rightarrow> (nat \<Rightarrow> 'v se_result) \<Rightarrow> nat \<Rightarrow> 'v se_result" where
  "dot_sse add zero p dim =
     bindR (lanes_loop add p 16 dim 0 (replicate 16 zero)) (\<lambda>(j, a).
       let sumv = map2 add (map2 add (take 4 a) (take 4 (drop 4 a))) (map2 add (take 4 (drop 8 a)) (take 4 (drop 12 a)))
       in tail_loop add p dim j (hsum4 add sumv))"

text \<open>AVX and F16C: two registers of eight lanes, then one register at a time, then single elements.\<close>

function f16c_loop :: "('v \<Rightarrow> 'v \<Rightarrow> 'v) \<Rightarrow> (nat \<Rightarrow> 'v se_result) \<Rightarrow> nat \<Rightarrow> nat \<Rightarrow> 'v \<Rightarrow> (nat \<times> 'v) se_result" where
  "f16c_loop add p dim j dot =
     (if j + 7 < dim then
        bindR (mapR p [j..<j + 8]) (\<lambda>ps. f16c_loop add p dim (j + 8) (add dot (hsum256_f16c add ps)))
      else Inr (j, dot))"
  by pat_completeness auto
termination by (relation "measure (\<lambda>(add, p, dim, j, dot). dim - j)") auto

declare f16c_loop.simps [simp del]

definition dot_f16c :: "('v \<Rightarrow> 'v \<Rightarrow> 'v) \<Rightarrow> 'v \<Rightarrow> (nat \<Rightarrow> 'v se_result) \<Rightarrow> nat \<Rightarrow> 'v se_result" where
  "dot_f16c add zero p dim =
     bindR (lanes_loop add p 16 dim 0 (replicate 16 zero)) (\<lambda>(j, a).
     bindR (f16c_loop add p dim j (hsum256_f16c add (map2 add (take 8 a) (drop 8 a)))) (\<lambda>(j, dot).
       tail_loop add p dim j dot))"

lemma sum_list_map2:
  fixes xs ys :: "'a::comm_monoid_add list"
  shows "length xs = length ys \<Longrightarrow> sum_list (map2 (+) xs ys) = sum_list xs + sum_list ys"
  by (induction xs ys rule: list_induct2) (simp_all add: algebra_simps)

lemma split_sum: "sum_list (take k v) + sum_list (drop k v) = sum_list (v :: 'a::comm_monoid_add list)"
  by (metis append_take_drop_id sum_list_append)

subsection \<open>Every product is added once\<close>

text \<open>The values that some order of additions of the products at the indices \<open>A\<close> gives.\<close>

inductive added :: "('v \<Rightarrow> 'v \<Rightarrow> 'v) \<Rightarrow> 'v \<Rightarrow> (nat \<Rightarrow> 'v) \<Rightarrow> nat multiset \<Rightarrow> 'v \<Rightarrow> bool"
  for add zero f where
  added_zero: "added add zero f {#} zero"
| added_one: "added add zero f {#j#} (f j)"
| added_both: "added add zero f A x \<Longrightarrow> added add zero f B y \<Longrightarrow> added add zero f (A + B) (add x y)"

text \<open>What the kernels need of an addition: \<open>sums A x\<close> when \<open>x\<close> is a sum of the products at \<open>A\<close>.\<close>

locale summation =
  fixes add :: "'v \<Rightarrow> 'v \<Rightarrow> 'v" and zero :: 'v and sums :: "nat multiset \<Rightarrow> 'v \<Rightarrow> bool"
  assumes zero: "sums {#} zero"
    and add: "sums A x \<Longrightarrow> sums B y \<Longrightarrow> sums (A + B) (add x y)"
begin

lemma zeros: "list_all2 sums (replicate k {#}) (replicate k zero)"
  by (simp add: list_all2_conv_all_nth zero)

lemma map2_sums:
  "list_all2 sums As xs \<Longrightarrow> list_all2 sums Bs ys \<Longrightarrow> list_all2 sums (map2 (+) As Bs) (map2 add xs ys)"
  by (auto simp: list_all2_conv_all_nth add)

lemma hsum4_sums:
  assumes "list_all2 sums As v" "length v = 4"
  shows "sums (sum_list As) (hsum4 add v)"
proof -
  obtain a b c d where v: "v = [a, b, c, d]" using assms(2) by (auto simp: numeral_eq_Suc length_Suc_conv)
  then obtain A B C D where "As = [A, B, C, D]" "sums A a" "sums B b" "sums C c" "sums D d"
    using assms(1) by (auto simp: list_all2_Cons2)
  then show ?thesis using add [OF add [of A a B b] add [of C c D d]] by (simp add: hsum4_def v add.assoc)
qed

lemma halves_sums:
  assumes "list_all2 sums As v" "length v = 2 * k"
  shows "\<exists>Bs. list_all2 sums Bs (map2 add (take k v) (drop k v)) \<and> sum_list Bs = sum_list As"
proof (intro exI conjI)
  have l: "length As = length v" using assms(1) by (rule list_all2_lengthD)
  show "list_all2 sums (map2 (+) (take k As) (drop k As)) (map2 add (take k v) (drop k v))"
    using assms(1) by (intro map2_sums) (simp_all add: list_all2_takeI list_all2_dropI)
  show "sum_list (map2 (+) (take k As) (drop k As)) = sum_list As"
    using l assms(2) by (simp add: sum_list_map2 split_sum)
qed

lemma hsum256_sums:
  assumes "list_all2 sums As v" "length v = 8"
  shows "sums (sum_list As) (hsum256_f16c add v)"
proof -
  obtain Bs where "list_all2 sums Bs (map2 add (take 4 v) (drop 4 v))" "sum_list Bs = sum_list As"
    using halves_sums [OF assms(1), of 4] assms(2) by auto
  then show ?thesis using hsum4_sums [of Bs "map2 add (take 4 v) (drop 4 v)"] assms(2)
    by (simp add: hsum256_f16c_def)
qed

lemma products:
  assumes "\<forall>j < dim. \<exists>x. p j = Inr x \<and> sums {#j#} x" "j + k \<le> dim"
  shows "\<exists>ps. mapR p [j..<j + k] = Inr ps \<and> length ps = k \<and>
    list_all2 sums (map (\<lambda>j. {#j#}) [j..<j + k]) ps"
proof -
  obtain f where f: "\<And>j. j < dim \<Longrightarrow> p j = Inr (f j) \<and> sums {#j#} (f j)" using assms(1) by metis
  have "mapR p [j..<j + k] = Inr (map f [j..<j + k])" using f assms(2) by (intro mapR_Inr) auto
  then show ?thesis using f assms(2) by (auto simp: list_all2_conv_all_nth)
qed

lemma lanes_sums:
  assumes p: "\<forall>j < dim. \<exists>x. p j = Inr x \<and> sums {#j#} x"
  shows "list_all2 sums As acc \<Longrightarrow> length acc = k \<Longrightarrow> sum_list As = mset [0..<j] \<Longrightarrow> j \<le> dim \<Longrightarrow>
    \<exists>j' acc' As'. lanes_loop add p k dim j acc = Inr (j', acc') \<and> j' \<le> dim \<and> length acc' = k \<and>
      list_all2 sums As' acc' \<and> sum_list As' = mset [0..<j']"
proof (induction "dim - j" arbitrary: j acc As rule: less_induct)
  case less
  show ?case
  proof (cases "0 < k \<and> j + (k - 1) < dim")
    case False
    then have "lanes_loop add p k dim j acc = Inr (j, acc)" by (subst lanes_loop.simps) auto
    then show ?thesis using less.prems by blast
  next
    case True
    then have step: "j + k \<le> dim" "dim - (j + k) < dim - j" by linarith+
    obtain ps where ps: "mapR p [j..<j + k] = Inr ps" "length ps = k"
      "list_all2 sums (map (\<lambda>j. {#j#}) [j..<j + k]) ps" using products [OF p step(1)] by blast
    let ?As = "map2 (+) As (map (\<lambda>j. {#j#}) [j..<j + k])"
    have "length As = k" using less.prems by (auto dest: list_all2_lengthD)
    moreover have "sum_list (map (\<lambda>j. {#j#}) js) = mset js" for js :: "nat list" by (induction js) simp_all
    ultimately have "sum_list ?As = mset [0..<j] + mset [j..<j + k]" using less.prems(3) by (simp add: sum_list_map2)
    also have "\<dots> = mset [0..<j + k]" by (simp only: mset_append [symmetric] upt_add_eq_append [OF le0])
    finally have "sum_list ?As = mset [0..<j + k]" .
    from less.hyps [OF step(2) map2_sums [OF less.prems(1) ps(3)] _ this step(1)] ps(2) less.prems(2)
    have "\<exists>j' acc' As'. lanes_loop add p k dim (j + k) (map2 add acc ps) = Inr (j', acc') \<and> j' \<le> dim \<and> length acc' = k \<and>
      list_all2 sums As' acc' \<and> sum_list As' = mset [0..<j']" by simp
    moreover have "lanes_loop add p k dim j acc = lanes_loop add p k dim (j + k) (map2 add acc ps)"
      by (subst lanes_loop.simps, subst if_P [OF True]) (simp add: ps(1))
    ultimately show ?thesis by simp
  qed
qed

lemma lanes_start:
  assumes "\<forall>j < dim. \<exists>x. p j = Inr x \<and> sums {#j#} x"
  obtains j acc As where "lanes_loop add p k dim 0 (replicate k zero) = Inr (j, acc)" "j \<le> dim" "length acc = k"
    "list_all2 sums As acc" "sum_list As = mset [0..<j]"
proof -
  have "sum_list (replicate k {#}) = mset [0..<0]" by (induction k) simp_all
  from lanes_sums [OF assms zeros length_replicate this le0] that show ?thesis by blast
qed

lemma tail_sums:
  assumes p: "\<forall>j < dim. \<exists>x. p j = Inr x \<and> sums {#j#} x"
  shows "j \<le> dim \<Longrightarrow> sums (mset [0..<j]) dot \<Longrightarrow>
    \<exists>x. tail_loop add p dim j dot = Inr x \<and> sums (mset [0..<dim]) x"
proof (induction "dim - j" arbitrary: j dot rule: less_induct)
  case less
  show ?case
  proof (cases "j < dim")
    case True
    then obtain y where y: "p j = Inr y" "sums {#j#} y" using p by blast
    have "sums (mset [0..<j + 1]) (add dot y)" using add [OF less.prems(2) y(2)] by simp
    then have "\<exists>x. tail_loop add p dim (j + 1) (add dot y) = Inr x \<and> sums (mset [0..<dim]) x"
      using True by (intro less.hyps) auto
    then show ?thesis using True y by (subst tail_loop.simps) simp
  next
    case False
    then have "j = dim" using less.prems by simp
    then show ?thesis using less.prems by (subst tail_loop.simps) simp
  qed
qed

lemma f16c_sums:
  assumes p: "\<forall>j < dim. \<exists>x. p j = Inr x \<and> sums {#j#} x"
  shows "j \<le> dim \<Longrightarrow> sums (mset [0..<j]) dot \<Longrightarrow>
    \<exists>j' x. f16c_loop add p dim j dot = Inr (j', x) \<and> j' \<le> dim \<and> sums (mset [0..<j']) x"
proof (induction "dim - j" arbitrary: j dot rule: less_induct)
  case less
  show ?case
  proof (cases "j + 7 < dim")
    case False
    then show ?thesis using less.prems by (subst f16c_loop.simps) simp
  next
    case True
    then obtain ps where ps: "mapR p [j..<j + 8] = Inr ps" "length ps = 8"
      "list_all2 sums (map (\<lambda>j. {#j#}) [j..<j + 8]) ps" using products [OF p, of j 8] by auto
    have m: "sum_list (map (\<lambda>j. {#j#}) js) = mset js" for js :: "nat list" by (induction js) simp_all
    have "sums (mset [0..<j] + mset [j..<j + 8]) (add dot (hsum256_f16c add ps))"
      using add [OF less.prems(2) hsum256_sums [OF ps(3,2)]] by (simp only: m)
    also have "mset [0..<j] + mset [j..<j + 8] = mset [0..<j + 8]"
      by (simp only: mset_append [symmetric] upt_add_eq_append [OF le0])
    finally have "\<exists>j' x. f16c_loop add p dim (j + 8) (add dot (hsum256_f16c add ps)) = Inr (j', x) \<and> j' \<le> dim \<and> sums (mset [0..<j']) x"
      using True by (intro less.hyps) auto
    then show ?thesis using True ps by (subst f16c_loop.simps) simp
  qed
qed

lemma dot_by_4_sums:
  assumes p: "\<forall>j < dim. \<exists>x. p j = Inr x \<and> sums {#j#} x"
  shows "\<exists>x. dot_by_4 add zero p dim = Inr x \<and> sums (mset [0..<dim]) x"
proof -
  obtain j acc As where l: "lanes_loop add p 4 dim 0 (replicate 4 zero) = Inr (j, acc)" "j \<le> dim" "length acc = 4"
    "list_all2 sums As acc" "sum_list As = mset [0..<j]" by (rule lanes_start [OF p])
  from tail_sums [OF p l(2), of "hsum4 add acc"] hsum4_sums [OF l(4,3)] l show ?thesis by (simp add: dot_by_4_def)
qed

lemma dot_by_8_sums:
  assumes p: "\<forall>j < dim. \<exists>x. p j = Inr x \<and> sums {#j#} x"
  shows "\<exists>x. dot_by_8 add zero p dim = Inr x \<and> sums (mset [0..<dim]) x"
proof -
  obtain j acc As where l: "lanes_loop add p 8 dim 0 (replicate 8 zero) = Inr (j, acc)" "j \<le> dim" "length acc = 8"
    "list_all2 sums As acc" "sum_list As = mset [0..<j]" by (rule lanes_start [OF p])
  obtain a b c d e f g h where v: "acc = [a, b, c, d, e, f, g, h]"
    using l(3) by (auto simp: numeral_eq_Suc length_Suc_conv)
  then obtain A B C D E F G H where As: "As = [A, B, C, D, E, F, G, H]" "sums A a" "sums B b" "sums C c" "sums D d"
    "sums E e" "sums F f" "sums G g" "sums H h" using l(4) by (auto simp: list_all2_Cons2)
  have "sums (A + B + (C + D) + (E + F) + (G + H)) (add (add (add (add a b) (add c d)) (add e f)) (add g h))"
    by (intro add As)
  moreover have "A + B + (C + D) + (E + F) + (G + H) = mset [0..<j]" using l(5) As(1) by (simp add: add.assoc)
  ultimately show ?thesis using tail_sums [OF p l(2)] l(1) by (simp add: dot_by_8_def v)
qed

lemma dot_sse_sums:
  assumes p: "\<forall>j < dim. \<exists>x. p j = Inr x \<and> sums {#j#} x"
  shows "\<exists>x. dot_sse add zero p dim = Inr x \<and> sums (mset [0..<dim]) x"
proof -
  obtain j acc As where l: "lanes_loop add p 16 dim 0 (replicate 16 zero) = Inr (j, acc)" "j \<le> dim" "length acc = 16"
    "list_all2 sums As acc" "sum_list As = mset [0..<j]" by (rule lanes_start [OF p])
  let ?a = "\<lambda>k. take 4 (drop k acc)" and ?A = "\<lambda>k. take 4 (drop k As)"
  let ?s = "map2 add (map2 add (?a 0) (?a 4)) (map2 add (?a 8) (?a 12))"
  let ?S = "map2 (+) (map2 (+) (?A 0) (?A 4)) (map2 (+) (?A 8) (?A 12))"
  have part: "list_all2 sums (?A k) (?a k)" for k using l(4) by (simp add: list_all2_takeI list_all2_dropI)
  have len: "length As = 16" using l(3,4) by (simp add: list_all2_lengthD)
  have "As = ?A 0 @ ?A 4 @ ?A 8 @ ?A 12"
    using append_take_drop_id [of 4 As] append_take_drop_id [of 4 "drop 4 As"] append_take_drop_id [of 4 "drop 8 As"] len
    by simp
  then have "sum_list As = sum_list (?A 0) + sum_list (?A 4) + (sum_list (?A 8) + sum_list (?A 12))"
    by (metis add.assoc sum_list_append)
  then have "sum_list ?S = mset [0..<j]" using l(5) len by (simp add: sum_list_map2)
  moreover have "sums (sum_list ?S) (hsum4 add ?s)" using l(3) by (intro hsum4_sums map2_sums part) simp
  ultimately show ?thesis using tail_sums [OF p l(2), of "hsum4 add ?s"] l(1,3) by (simp add: dot_sse_def Let_def)
qed

lemma dot_f16c_sums:
  assumes p: "\<forall>j < dim. \<exists>x. p j = Inr x \<and> sums {#j#} x"
  shows "\<exists>x. dot_f16c add zero p dim = Inr x \<and> sums (mset [0..<dim]) x"
proof -
  obtain j acc As where l: "lanes_loop add p 16 dim 0 (replicate 16 zero) = Inr (j, acc)" "j \<le> dim" "length acc = 16"
    "list_all2 sums As acc" "sum_list As = mset [0..<j]" by (rule lanes_start [OF p])
  let ?v = "map2 add (take 8 acc) (drop 8 acc)"
  obtain Bs where "list_all2 sums Bs ?v" "sum_list Bs = sum_list As" using halves_sums [OF l(4), of 8] l(3) by auto
  then have "sums (mset [0..<j]) (hsum256_f16c add ?v)" using hsum256_sums [of Bs ?v] l(3,5) by simp
  from f16c_sums [OF p l(2) this] obtain j' x where "f16c_loop add p dim j (hsum256_f16c add ?v) = Inr (j', x)"
    "j' \<le> dim" "sums (mset [0..<j']) x" by blast
  then show ?thesis using tail_sums [OF p, of j' x] l(1) by (simp add: dot_f16c_def)
qed

end

interpretation some_order: summation add zero "added add zero f" for add zero f
  by unfold_locales (auto intro: added.intros)

subsection \<open>The kernels\<close>

definition f32_product :: "u32 list \<Rightarrow> u32 list \<Rightarrow> nat \<Rightarrow> u32 se_result" where
  "f32_product q row j = bindR (rdR q j) (\<lambda>x. bindR (rdR row j) (\<lambda>r. Inr (f32_mul x r)))"

text \<open>The addition of \<^verbatim>\<open>dot\<close> and \<^verbatim>\<open>row_sq\<close> at once.\<close>

definition pair_add :: "u32 \<times> u32 \<Rightarrow> u32 \<times> u32 \<Rightarrow> u32 \<times> u32" where
  "pair_add x y = (f32_add (fst x) (fst y), f32_add (snd x) (snd y))"

definition f32_product_and_sq :: "u32 list \<Rightarrow> u32 list \<Rightarrow> nat \<Rightarrow> (u32 \<times> u32) se_result" where
  "f32_product_and_sq q row j =
     bindR (rdR q j) (\<lambda>x. bindR (rdR row j) (\<lambda>r. Inr (f32_mul x r, f32_mul r r)))"

text \<open>\<open>sse\<close> tells whether the build has \<^verbatim>\<open>SE_HAVE_SSE\<close>.\<close>

definition se_dot_product_f32 :: "bool \<Rightarrow> u32 list \<Rightarrow> u32 list \<Rightarrow> nat \<Rightarrow> u32 se_result" where
  "se_dot_product_f32 sse q row dim =
     (if sse then dot_sse f32_add 0 (f32_product q row) dim
      else dot_by_8 f32_add 0 (f32_product q row) dim)"

definition se_dot_and_row_sq_f32 :: "bool \<Rightarrow> u32 list \<Rightarrow> u32 list \<Rightarrow> nat \<Rightarrow> (u32 \<times> u32) se_result" where
  "se_dot_and_row_sq_f32 sse q row dim =
     (if sse then dot_sse pair_add (0, 0) (f32_product_and_sq q row) dim
      else dot_by_4 pair_add (0, 0) (f32_product_and_sq q row) dim)"

text \<open>
  A row of half-precision numbers is its bytes; \<open>decode\<close> is how the kernel converts one number.  The
  instruction that converts eight numbers at once differs from the conversion by the sources only in the
  payload of a NaN, which the product drops.
\<close>

definition f16_product :: "(u16 \<Rightarrow> u32 se_result) \<Rightarrow> u32 list \<Rightarrow> u8 list \<Rightarrow> nat \<Rightarrow> u32 se_result" where
  "f16_product decode q row j =
     bindR (rdR q j) (\<lambda>x. bindR (read_u16le row (j * 2)) (\<lambda>h. bindR (decode h) (\<lambda>r. Inr (f32_mul x r))))"

definition f16_product_and_sq :: "(u16 \<Rightarrow> u32 se_result) \<Rightarrow> u32 list \<Rightarrow> u8 list \<Rightarrow> nat \<Rightarrow> (u32 \<times> u32) se_result" where
  "f16_product_and_sq decode q row j =
     bindR (rdR q j) (\<lambda>x. bindR (read_u16le row (j * 2)) (\<lambda>h. bindR (decode h) (\<lambda>r.
       Inr (f32_mul x r, f32_mul r r))))"

definition lut_float :: "f16_state \<Rightarrow> u16 \<Rightarrow> u32 se_result" where
  "lut_float st h = rdR (fs_lut st) (unat h)"

definition dot_product_f16_lut :: "f16_state \<Rightarrow> u32 list \<Rightarrow> u8 list \<Rightarrow> nat \<Rightarrow> u32 se_result" where
  "dot_product_f16_lut st q row dim = dot_by_4 f32_add 0 (f16_product (lut_float st) q row) dim"

definition dot_and_row_sq_f16_lut :: "f16_state \<Rightarrow> u32 list \<Rightarrow> u8 list \<Rightarrow> nat \<Rightarrow> (u32 \<times> u32) se_result" where
  "dot_and_row_sq_f16_lut st q row dim =
     dot_by_4 pair_add (0, 0) (f16_product_and_sq (lut_float st) q row) dim"

definition dot_product_f16_f16c :: "u32 list \<Rightarrow> u8 list \<Rightarrow> nat \<Rightarrow> u32 se_result" where
  "dot_product_f16_f16c q row dim = dot_f16c f32_add 0 (f16_product (\<lambda>h. Inr (half_float h)) q row) dim"

definition dot_and_row_sq_f16_f16c :: "u32 list \<Rightarrow> u8 list \<Rightarrow> nat \<Rightarrow> (u32 \<times> u32) se_result" where
  "dot_and_row_sq_f16_f16c q row dim =
     dot_f16c pair_add (0, 0) (f16_product_and_sq (\<lambda>h. Inr (half_float h)) q row) dim"

definition se_dot_product_f16 :: "f16_state \<Rightarrow> u32 list \<Rightarrow> u8 list \<Rightarrow> nat \<Rightarrow> u32 se_result" where
  "se_dot_product_f16 st q row dim =
     (if fs_backend st = SE_F16_BACKEND_F16C then dot_product_f16_f16c q row dim
      else dot_product_f16_lut st q row dim)"

definition se_dot_and_row_sq_f16 :: "f16_state \<Rightarrow> u32 list \<Rightarrow> u8 list \<Rightarrow> nat \<Rightarrow> (u32 \<times> u32) se_result" where
  "se_dot_and_row_sq_f16 st q row dim =
     (if fs_backend st = SE_F16_BACKEND_F16C then dot_and_row_sq_f16_f16c q row dim
      else dot_and_row_sq_f16_lut st q row dim)"

subsection \<open>The sums they return\<close>

text \<open>\<open>dot_of q r dim x\<close>: \<open>x\<close> is a sum, in some order, of the products of \<open>q\<close> with the numbers \<open>r\<close>.\<close>

definition dot_of :: "(nat \<Rightarrow> u32) \<Rightarrow> (nat \<Rightarrow> u32) \<Rightarrow> nat \<Rightarrow> u32 \<Rightarrow> bool" where
  "dot_of q r dim x = added f32_add 0 (\<lambda>j. f32_mul (q j) (r j)) (mset [0..<dim]) x"

lemma added_pair:
  "added pair_add (0, 0) f A x \<Longrightarrow>
     added f32_add 0 (\<lambda>j. fst (f j)) A (fst x) \<and> added f32_add 0 (\<lambda>j. snd (f j)) A (snd x)"
proof (induction rule: added.induct)
  case (added_one j)
  then show ?case using added.added_one [of f32_add 0 "\<lambda>j. fst (f j)"] added.added_one [of f32_add 0 "\<lambda>j. snd (f j)"] by blast
next
  case (added_both A x B y)
  then show ?case by (auto simp: pair_add_def intro: added.added_both)
qed (auto intro: added.added_zero)

lemma dot_of_pair:
  "added pair_add (0, 0) (\<lambda>j. (f32_mul (q j) (r j), f32_mul (r j) (r j))) (mset [0..<dim]) x \<Longrightarrow>
     dot_of q r dim (fst x) \<and> dot_of r r dim (snd x)"
  by (drule added_pair) (simp only: dot_of_def fst_conv snd_conv simp_thms)

text \<open>The numbers of a row of bytes.\<close>

definition f16_at :: "u8 list \<Rightarrow> nat \<Rightarrow> u32" where
  "f16_at row j = half_float (ucast (row ! (j * 2)) OR push_bit 8 (ucast (row ! (j * 2 + 1))))"

lemma one_product: "p = Inr (f j) \<Longrightarrow> \<exists>x. p = Inr x \<and> added add zero f {#j#} x"
  by (auto intro: added.added_one)

lemmas kernel_sums = some_order.dot_sse_sums some_order.dot_by_8_sums some_order.dot_by_4_sums
  some_order.dot_f16c_sums

lemma f32_kernels:
  assumes "dim \<le> length q" "dim \<le> length row"
  shows "\<exists>x. se_dot_product_f32 sse q row dim = Inr x \<and> dot_of ((!) q) ((!) row) dim x"
    and "\<exists>x s. se_dot_and_row_sq_f32 sse q row dim = Inr (x, s) \<and> dot_of ((!) q) ((!) row) dim x \<and>
      dot_of ((!) row) ((!) row) dim s"
proof -
  have p: "\<forall>j < dim. \<exists>x. f32_product q row j = Inr x \<and> added f32_add 0 (\<lambda>j. f32_mul (q ! j) (row ! j)) {#j#} x"
    by (intro allI impI one_product) (use assms in \<open>simp add: f32_product_def read_simps\<close>)
  show "\<exists>x. se_dot_product_f32 sse q row dim = Inr x \<and> dot_of ((!) q) ((!) row) dim x"
    using kernel_sums(1,2) [OF p] by (cases sse) (simp_all only: se_dot_product_f32_def dot_of_def if_True if_False)
  have "\<forall>j < dim. \<exists>x. f32_product_and_sq q row j = Inr x \<and>
      added pair_add (0, 0) (\<lambda>j. (f32_mul (q ! j) (row ! j), f32_mul (row ! j) (row ! j))) {#j#} x"
    by (intro allI impI one_product) (use assms in \<open>simp add: f32_product_and_sq_def read_simps\<close>)
  from kernel_sums(1,3) [OF this] obtain x where x:
    "se_dot_and_row_sq_f32 sse q row dim = Inr x" "added pair_add (0, 0)
      (\<lambda>j. (f32_mul (q ! j) (row ! j), f32_mul (row ! j) (row ! j))) (mset [0..<dim]) x"
    by (cases sse) (simp_all only: se_dot_and_row_sq_f32_def if_True if_False, blast+)
  from x(1) dot_of_pair [OF x(2)] show "\<exists>x s. se_dot_and_row_sq_f32 sse q row dim = Inr (x, s) \<and> dot_of ((!) q) ((!) row) dim x \<and>
      dot_of ((!) row) ((!) row) dim s"
    by (cases x) simp
qed

lemma f16_kernels:
  assumes "f16_ready st" "dim \<le> length q" "dim * 2 \<le> length row"
  shows "\<exists>x. se_dot_product_f16 st q row dim = Inr x \<and> dot_of ((!) q) (f16_at row) dim x"
    and "\<exists>x s. se_dot_and_row_sq_f16 st q row dim = Inr (x, s) \<and> dot_of ((!) q) (f16_at row) dim x \<and>
      dot_of (f16_at row) (f16_at row) dim s"
proof -
  let ?d = "if fs_backend st = SE_F16_BACKEND_F16C then (\<lambda>h. Inr (half_float h)) else lut_float st"
  have d: "?d h = Inr (half_float h)" for h using lut_read [OF assms(1), of h] by (simp add: lut_float_def)
  have p: "\<forall>j < dim. \<exists>x. f16_product ?d q row j = Inr x \<and> added f32_add 0 (\<lambda>j. f32_mul (q ! j) (f16_at row j)) {#j#} x"
    by (intro allI impI one_product) (use assms(2,3) d in \<open>simp add: f16_product_def read_simps read_u16le_Inr f16_at_def\<close>)
  have p2: "\<forall>j < dim. \<exists>x. f16_product_and_sq ?d q row j = Inr x \<and>
      added pair_add (0, 0) (\<lambda>j. (f32_mul (q ! j) (f16_at row j), f32_mul (f16_at row j) (f16_at row j))) {#j#} x"
    by (intro allI impI one_product) (use assms(2,3) d in \<open>simp add: f16_product_and_sq_def read_simps read_u16le_Inr f16_at_def\<close>)
  show "\<exists>x. se_dot_product_f16 st q row dim = Inr x \<and> dot_of ((!) q) (f16_at row) dim x"
    using kernel_sums(3,4) [OF p] unfolding se_dot_product_f16_def dot_product_f16_f16c_def dot_product_f16_lut_def dot_of_def
    by (cases "fs_backend st = SE_F16_BACKEND_F16C") (simp_all del: mset_upt)
  obtain x where x:
    "se_dot_and_row_sq_f16 st q row dim = Inr x" "added pair_add (0, 0)
      (\<lambda>j. (f32_mul (q ! j) (f16_at row j), f32_mul (f16_at row j) (f16_at row j))) (mset [0..<dim]) x"
    using kernel_sums(3,4) [OF p2]
    unfolding se_dot_and_row_sq_f16_def dot_and_row_sq_f16_f16c_def dot_and_row_sq_f16_lut_def
    by (cases "fs_backend st = SE_F16_BACKEND_F16C") (auto simp del: mset_upt)
  from x(1) dot_of_pair [OF x(2)] show "\<exists>x s. se_dot_and_row_sq_f16 st q row dim = Inr (x, s) \<and> dot_of ((!) q) (f16_at row) dim x \<and>
      dot_of (f16_at row) (f16_at row) dim s"
    by (cases x) simp
qed

subsection \<open>Exact sums\<close>

text \<open>The float is the integer \<open>n\<close>.\<close>

definition f32_int :: "u32 \<Rightarrow> int \<Rightarrow> bool" where
  "f32_int x n = (\<exists>s m e. f32_num x = Fin s m e \<and> e \<le> 0 \<and> signed_nat s m = n * 2 ^ nat (- e))"

lemma bit_length_bounds: "n \<noteq> 0 \<Longrightarrow> \<exists>l. bit_length n = Suc l \<and> 2 ^ l \<le> n \<and> n < 2 ^ Suc l"
proof (induction n rule: less_induct)
  case (less n)
  show ?case
  proof (cases "n = 1")
    case True
    then show ?thesis by (simp add: bit_length.simps)
  next
    case False
    then have "n div 2 < n" "n div 2 \<noteq> 0" using less.prems by (auto simp: div_eq_0_iff)
    then obtain l where "bit_length (n div 2) = Suc l" "2 ^ l \<le> n div 2" "n div 2 < 2 ^ Suc l"
      using less.IH by blast
    then show ?thesis using less.prems by (intro exI [of _ "Suc l"]) (auto simp: bit_length.simps [of n])
  qed
qed

lemma bit_length_shift: "n \<noteq> 0 \<Longrightarrow> bit_length (n * 2 ^ k) = bit_length n + k"
proof (induction k)
  case (Suc k)
  have "n * 2 ^ Suc k div 2 = n * 2 ^ k" by simp
  then show ?case using Suc by (subst bit_length.simps) simp
qed simp

lemma round_even_exact: "round_even (t * 2 ^ k) k = t"
  by (simp add: round_even_def Let_def)

lemma num_of_fields:
  assumes "s < 2" "0 < e" "e < 255" "t < 2 ^ 23"
  shows "f32_num (word_of_nat (s * 2 ^ 31 + e * 2 ^ 23 + t)) = Fin (s = 1) (2 ^ 23 + t) (int e - 150)"
proof -
  let ?n = "s * 2 ^ 31 + e * 2 ^ 23 + t"
  have f: "?n div 2 ^ (23 + 8) = s" "?n div 2 ^ 23 mod 2 ^ 8 = e" "?n mod 2 ^ 23 = t"
    using fields_join [of e 8 t 23 s] assms by simp_all
  have "?n < 2 ^ 32" using assms by simp
  then have "unat (word_of_nat ?n :: u32) = ?n" by (rule unat_small_u32)
  then have "f32_num (word_of_nat ?n) = num_of 23 8 ?n" by (simp only: f32_num_def)
  also have "\<dots> = Fin (s = 1) (2 ^ 23 + t) (int e - 150)"
    unfolding num_of_def Let_def f using assms(1-3) by (simp add: least_exp_def)
  finally show ?thesis .
qed

lemma store_int:
  assumes "N \<noteq> 0" "N < 2 ^ 24"
  shows "\<exists>m e. f32_num (f32_bits (Fin s (N * 2 ^ k) (- int k))) = Fin s m (- int e) \<and> m = N * 2 ^ e"
proof -
  obtain l where l: "bit_length N = Suc l" "2 ^ l \<le> N" "N < 2 ^ Suc l" using bit_length_bounds [OF assms(1)] by blast
  have "l < 24"
  proof (rule ccontr)
    assume "\<not> l < 24"
    then have "(2::nat) ^ 24 \<le> 2 ^ l" by (intro power_increasing) auto
    then show False using l(2) assms(2) by linarith
  qed
  define d where "d = 23 - l"
  have d: "l + d = 23" using \<open>l < 24\<close> by (simp add: d_def)
  have pos: "(0::nat) < 2 ^ d" by simp
  have lo: "2 ^ 23 \<le> N * 2 ^ d"
    using mult_le_mono1 [OF l(2), of "2 ^ d"] by (simp only: power_add [symmetric] d)
  have "2 ^ Suc l * 2 ^ d = (2::nat) ^ 24" using d by (simp only: power_add [symmetric]) simp
  then have hi: "N * 2 ^ d < 2 ^ 24" using mult_strict_right_mono [OF l(3) pos] by (simp only:)
  have b: "- int k + int (bit_length (N * 2 ^ k)) - int (23 + 1) = - int d"
    using bit_length_shift [OF assms(1), of k] l(1) d by simp
  have x: "max (least_exp 23 8) (- int k + int (bit_length (N * 2 ^ k)) - int (23 + 1)) = - int d"
    unfolding b using d by (simp add: least_exp_def)
  have t: "(if - int d \<le> - int k then N * 2 ^ k * 2 ^ nat (- int k - - int d)
      else round_even (N * 2 ^ k) (nat (- int d - - int k))) = N * 2 ^ d"
  proof (cases "k \<le> d")
    case True
    then have "nat (- int k - - int d) = d - k" by simp
    moreover have "2 ^ k * 2 ^ (d - k) = (2::nat) ^ d" using True by (simp flip: power_add)
    ultimately show ?thesis using True by (simp add: mult.assoc)
  next
    case False
    then have n: "nat (- int d - - int k) = k - d" by simp
    have "N * 2 ^ k = N * 2 ^ d * 2 ^ (k - d)" using False by (simp add: mult.assoc flip: power_add)
    then have "round_even (N * 2 ^ k) (k - d) = N * 2 ^ d" by (simp only: round_even_exact)
    then show ?thesis using False n by simp
  qed
  have f: "nat (- int d - least_exp 23 8) = 149 - d" using d by (simp add: least_exp_def nat_diff_distrib')
  have r: "round_magnitude 23 8 (N * 2 ^ k) (- int k) = (150 - d) * 2 ^ 23 + (N * 2 ^ d - 2 ^ 23)"
    using assms(1) lo hi d unfolding round_magnitude_def Let_def x t f by simp
  have "f32_num (f32_bits (Fin s (N * 2 ^ k) (- int k))) =
      Fin (of_bool s = (1::nat)) (2 ^ 23 + (N * 2 ^ d - 2 ^ 23)) (int (150 - d) - 150)"
    unfolding f32_bits_def bits_of_def fnum.case r add.assoc [symmetric]
    using num_of_fields [of "of_bool s" "150 - d" "N * 2 ^ d - 2 ^ 23"] hi lo d by simp
  then show ?thesis using lo d by (intro exI [of _ "N * 2 ^ d"] exI [of _ d]) simp
qed

lemma store_zero: "f32_num (f32_bits (Fin s 0 g)) = Fin s 0 (- 149)"
proof (cases s)
  case True
  have "unat (word_of_nat (2 ^ 31) :: u32) = 2 ^ 31" by (rule unat_small_u32) simp
  then show ?thesis using True by (simp add: f32_bits_def bits_of_def round_magnitude_def f32_num_def num_of_def least_exp_def)
qed (simp add: f32_bits_def bits_of_def round_magnitude_def f32_num_def num_of_def least_exp_def)

text \<open>An integer below \<open>2 ^ 24\<close> is stored exactly, whatever the exponent it was computed with.\<close>

lemma f32_int_stored:
  assumes "g \<le> 0" "signed_nat s m = n * 2 ^ nat (- g)" "\<bar>n\<bar> < 2 ^ 24"
  shows "f32_int (f32_bits (Fin s m g)) n"
proof (cases "n = 0")
  case True
  then have "m = 0" using assms(2) by (simp add: signed_nat_def split: if_splits)
  then show ?thesis using True store_zero [of s g] unfolding f32_int_def by (auto simp: signed_nat_def)
next
  case False
  let ?N = "nat \<bar>n\<bar>"
  have g: "g = - int (nat (- g))" using assms(1) by simp
  have m: "m = ?N * 2 ^ nat (- g)"
  proof -
    have "\<bar>signed_nat s m\<bar> = int m" by (simp add: signed_nat_def)
    then have "int m = \<bar>n\<bar> * 2 ^ nat (- g)" using assms(2) by (simp add: abs_mult)
    also have "\<dots> = int (?N * 2 ^ nat (- g))" by simp
    finally show ?thesis by (simp only: of_nat_eq_iff)
  qed
  have sg: "s \<longleftrightarrow> n < 0"
  proof (cases s)
    case True
    then have "n * 2 ^ nat (- g) \<le> 0" using assms(2) by (simp add: signed_nat_def)
    then show ?thesis using True False by (simp add: mult_le_0_iff)
  next
    case pos: False
    then have "0 \<le> n * 2 ^ nat (- g)" using assms(2) [symmetric] by (simp add: signed_nat_def)
    then show ?thesis using pos by (simp add: zero_le_mult_iff)
  qed
  have "?N \<noteq> 0" "?N < 2 ^ 24" using False assms(3) by auto
  from store_int [OF this, of s "nat (- g)"] obtain e where
    "f32_num (f32_bits (Fin s m g)) = Fin s (?N * 2 ^ e) (- int e)" using m g by metis
  moreover have "signed_nat s (?N * 2 ^ e) = n * 2 ^ e" using sg by (auto simp: signed_nat_def)
  ultimately show ?thesis unfolding f32_int_def by simp
qed

lemma int_scaled: "signed_nat s m = n * 2 ^ nat (- e) \<Longrightarrow> e \<le> 0 \<Longrightarrow> g \<le> e \<Longrightarrow>
    signed_nat s (m * 2 ^ nat (e - g)) = n * 2 ^ nat (- g)"
proof -
  assume a: "signed_nat s m = n * 2 ^ nat (- e)" "e \<le> 0" "g \<le> e"
  then have "nat (- g) = nat (- e) + nat (e - g)" by simp
  then have "n * 2 ^ nat (- g) = signed_nat s m * 2 ^ nat (e - g)" using a(1) by (simp add: power_add)
  then show ?thesis by (simp add: signed_nat_def)
qed

lemma f32_int_add:
  assumes "f32_int x a" "f32_int y b" "\<bar>a + b\<bar> < 2 ^ 24"
  shows "f32_int (f32_add x y) (a + b)"
proof -
  obtain s m e t k f where x: "f32_num x = Fin s m e" "e \<le> 0" "signed_nat s m = a * 2 ^ nat (- e)"
    and y: "f32_num y = Fin t k f" "f \<le> 0" "signed_nat t k = b * 2 ^ nat (- f)"
    using assms(1,2) unfolding f32_int_def by blast
  let ?g = "min e f"
  let ?c = "signed_nat s (m * 2 ^ nat (e - ?g)) + signed_nat t (k * 2 ^ nat (f - ?g))"
  have c: "?c = (a + b) * 2 ^ nat (- ?g)"
    using int_scaled [OF x(3,2), of ?g] int_scaled [OF y(3,2), of ?g] by (simp only: distrib_right min.cobounded1 min.cobounded2)
  have g: "?g \<le> 0" using x(2) by simp
  have "num_add (f32_num x) (f32_num y) = (if ?c = 0 then Fin (s \<and> t) 0 ?g else Fin (?c < 0) (nat \<bar>?c\<bar>) ?g)"
    using x(1) y(1) by (simp add: Let_def)
  moreover have "f32_int (f32_bits (if ?c = 0 then Fin (s \<and> t) 0 ?g else Fin (?c < 0) (nat \<bar>?c\<bar>) ?g)) (a + b)"
  proof (cases "?c = 0")
    case True
    then have "signed_nat (s \<and> t) 0 = (a + b) * 2 ^ nat (- ?g)" using c by (simp add: signed_nat_def)
    from f32_int_stored [OF g this assms(3)] show ?thesis using True by simp
  next
    case False
    have "signed_nat (?c < 0) (nat \<bar>?c\<bar>) = (a + b) * 2 ^ nat (- ?g)" using c by (simp add: signed_nat_def)
    from f32_int_stored [OF g this assms(3)] show ?thesis using False by simp
  qed
  ultimately show ?thesis by (simp only: f32_add_def)
qed

lemma f32_int_mul:
  assumes "f32_int x a" "f32_int y b" "\<bar>a * b\<bar> < 2 ^ 24"
  shows "f32_int (f32_mul x y) (a * b)"
proof -
  obtain s m e t k f where x: "f32_num x = Fin s m e" "e \<le> 0" "signed_nat s m = a * 2 ^ nat (- e)"
    and y: "f32_num y = Fin t k f" "f \<le> 0" "signed_nat t k = b * 2 ^ nat (- f)"
    using assms(1,2) unfolding f32_int_def by blast
  have "nat (- (e + f)) = nat (- e) + nat (- f)" using x(2) y(2) by simp
  then have "a * b * 2 ^ nat (- (e + f)) = signed_nat s m * signed_nat t k" using x(3) y(3) by (simp add: power_add)
  also have "\<dots> = signed_nat (s \<noteq> t) (m * k)" by (simp add: signed_nat_def)
  finally have "f32_int (f32_bits (Fin (s \<noteq> t) (m * k) (e + f))) (a * b)"
    using x(2) y(2) assms(3) by (intro f32_int_stored) simp_all
  then show ?thesis using x(1) y(1) by (simp add: f32_mul_def)
qed

lemma added_int:
  assumes "added f32_add 0 f A x"
  shows "(\<forall>j. j \<in># A \<longrightarrow> f32_int (f j) (a j)) \<Longrightarrow> (\<Sum>j\<in>#A. \<bar>a j\<bar>) < 2 ^ 24 \<Longrightarrow> f32_int x (\<Sum>j\<in>#A. a j)"
  using assms
proof (induction rule: added.induct)
  case added_zero
  have "f32_num 0 = Fin False 0 (- 149)" by (simp add: f32_num_def num_of_def least_exp_def)
  then show ?case by (auto simp: f32_int_def signed_nat_def)
next
  case (added_both A x B y)
  have nn: "0 \<le> (\<Sum>j\<in>#C. \<bar>a j\<bar>)" for C by (induction C) simp_all
  have abs: "\<bar>\<Sum>j\<in>#C. a j\<bar> \<le> (\<Sum>j\<in>#C. \<bar>a j\<bar>)" for C by (induction C) simp_all
  have s: "(\<Sum>j\<in>#A. \<bar>a j\<bar>) + (\<Sum>j\<in>#B. \<bar>a j\<bar>) < 2 ^ 24" using added_both.prems(2) by simp
  have "f32_int x (\<Sum>j\<in>#A. a j)" "f32_int y (\<Sum>j\<in>#B. a j)"
    using s nn [of A] nn [of B] added_both.prems(1) by (intro added_both.IH; simp)+
  moreover have "\<bar>(\<Sum>j\<in>#A. a j) + (\<Sum>j\<in>#B. a j)\<bar> < 2 ^ 24" using s abs [of A] abs [of B] by linarith
  ultimately show ?case using f32_int_add by simp
qed simp

lemma dot_of_int:
  assumes "dot_of q r dim x" "\<And>j. j < dim \<Longrightarrow> f32_int (q j) (a j) \<and> f32_int (r j) (b j)"
    and "(\<Sum>j<dim. \<bar>a j * b j\<bar>) < 2 ^ 24"
  shows "f32_int x (\<Sum>j<dim. a j * b j)"
proof -
  have m: "(\<Sum>j\<in>#mset [0..<dim]. g j) = (\<Sum>j<dim. g j)" for g :: "nat \<Rightarrow> int"
    by (simp add: sum_unfold_sum_mset lessThan_atLeast0)
  have "f32_int (f32_mul (q j) (r j)) (a j * b j)" if "j < dim" for j
  proof (rule f32_int_mul)
    have "\<bar>a j * b j\<bar> \<le> (\<Sum>j<dim. \<bar>a j * b j\<bar>)" using that by (intro member_le_sum) auto
    then show "\<bar>a j * b j\<bar> < 2 ^ 24" using assms(3) by linarith
  qed (use assms(2) that in blast)+
  then have "\<forall>j. j \<in># mset [0..<dim] \<longrightarrow> f32_int (f32_mul (q j) (r j)) (a j * b j)" by simp
  from added_int [OF assms(1) [unfolded dot_of_def] this] show ?thesis using assms(3) by (simp only: m)
qed

subsection \<open>Properties\<close>

text \<open>
  Property C29: with arrays that hold \<open>dim\<close> numbers, the four kernels stay in them and always return; each
  result is a sum, in some order and rounded at each step, in which every one of the \<open>dim\<close> products occurs
  exactly once, whatever the build and the backend.
\<close>

theorem dot_products_each_once:
  assumes "f16_ready st" "dim \<le> length q" "dim \<le> length row" "dim * 2 \<le> length bytes"
  shows "(\<exists>x. se_dot_product_f32 sse q row dim = Inr x \<and> dot_of ((!) q) ((!) row) dim x) \<and>
    (\<exists>x s. se_dot_and_row_sq_f32 sse q row dim = Inr (x, s) \<and> dot_of ((!) q) ((!) row) dim x \<and>
      dot_of ((!) row) ((!) row) dim s) \<and>
    (\<exists>x. se_dot_product_f16 st q bytes dim = Inr x \<and> dot_of ((!) q) (f16_at bytes) dim x) \<and>
    (\<exists>x s. se_dot_and_row_sq_f16 st q bytes dim = Inr (x, s) \<and> dot_of ((!) q) (f16_at bytes) dim x \<and>
      dot_of (f16_at bytes) (f16_at bytes) dim s)"
  by (intro conjI f32_kernels f16_kernels assms)

definition f16c_state :: f16_state where
  "f16c_state = f16_start\<lparr>fs_backend := SE_F16_BACKEND_F16C\<rparr>"

lemma f16c_ready: "f16_ready f16c_state"
  by (simp add: f16_ready_def f16c_state_def)

lemma dot_products_each_once_witness:
  "(\<exists>x. se_dot_product_f32 True [f32_one] [f32_one] 1 = Inr x) \<and>
   (\<exists>x. se_dot_product_f16 f16c_state [f32_one] [0, 0x3C] 1 = Inr x)"
  using dot_products_each_once [OF f16c_ready, of 1 "[f32_one]" "[f32_one]" "[0, 0x3C]" True] by auto

text \<open>
  Property C10: on vectors of integers whose absolute products and whose squares each sum to less than \<open>2 ^ 24\<close> no
  step rounds, so that the scalar, SSE, table and F16C kernels return exactly the dot product, and the square of the
  norm of the row with it.  The NEON kernels are not modelled.
\<close>

theorem dot_products_exact:
  assumes "f16_ready st" "dim \<le> length q" "dim \<le> length row" "dim * 2 \<le> length bytes"
    and "\<And>j. j < dim \<Longrightarrow> f32_int (q ! j) (a j) \<and> f32_int (row ! j) (b j) \<and> f32_int (f16_at bytes j) (b j)"
    and "(\<Sum>j<dim. \<bar>a j * b j\<bar>) < 2 ^ 24" "(\<Sum>j<dim. \<bar>b j * b j\<bar>) < 2 ^ 24"
  shows "\<exists>x x' s y y' t. se_dot_product_f32 sse q row dim = Inr x \<and> se_dot_and_row_sq_f32 sse q row dim = Inr (x', s) \<and>
    se_dot_product_f16 st q bytes dim = Inr y \<and> se_dot_and_row_sq_f16 st q bytes dim = Inr (y', t) \<and>
    list_all (\<lambda>v. f32_int v (\<Sum>j<dim. a j * b j)) [x, x', y, y'] \<and>
    list_all (\<lambda>v. f32_int v (\<Sum>j<dim. b j * b j)) [s, t]"
proof -
  note k = f32_kernels [OF assms(2,3), of sse] f16_kernels [OF assms(1,2,4)]
  obtain x x' s where f32: "se_dot_product_f32 sse q row dim = Inr x" "se_dot_and_row_sq_f32 sse q row dim = Inr (x', s)"
    "dot_of ((!) q) ((!) row) dim x" "dot_of ((!) q) ((!) row) dim x'" "dot_of ((!) row) ((!) row) dim s"
    using k(1,2) by blast
  obtain y y' t where f16: "se_dot_product_f16 st q bytes dim = Inr y" "se_dot_and_row_sq_f16 st q bytes dim = Inr (y', t)"
    "dot_of ((!) q) (f16_at bytes) dim y" "dot_of ((!) q) (f16_at bytes) dim y'" "dot_of (f16_at bytes) (f16_at bytes) dim t"
    using k(3,4) by blast
  have "f32_int v (\<Sum>j<dim. a j * b j)" if "v \<in> {x, x'}" for v
    using that f32(3,4) assms(5,6) by (auto intro!: dot_of_int [of "(!) q" "(!) row"])
  moreover have "f32_int v (\<Sum>j<dim. a j * b j)" if "v \<in> {y, y'}" for v
    using that f16(3,4) assms(5,6) by (auto intro!: dot_of_int [of "(!) q" "f16_at bytes"])
  moreover have "f32_int s (\<Sum>j<dim. b j * b j)" using assms(5,7) by (intro dot_of_int [OF f32(5)]) auto
  moreover have "f32_int t (\<Sum>j<dim. b j * b j)" using assms(5,7) by (intro dot_of_int [OF f16(5)]) auto
  ultimately show ?thesis using f32(1,2) f16(1,2) by auto
qed

lemma f32_int_one: "f32_int f32_one 1"
proof -
  have "f32_num f32_one = Fin False (2 ^ 23) (- 23)" by (simp add: f32_num_def f32_one_def num_of_def least_exp_def)
  then show ?thesis unfolding f32_int_def by (intro exI conjI, assumption) (simp_all add: signed_nat_def)
qed

lemma half_one: "f16_at [0, 0x3C] 0 = f32_one"
proof -
  have "se_f16_bits_to_float 0x3C00 = Some f32_one" by (simp add: se_f16_bits_to_float_def f32_one_def)
  then show ?thesis by (simp add: f16_at_def half_float_def)
qed

lemma dot_products_exact_witness:
  "\<exists>x y. se_dot_product_f32 True [f32_one] [f32_one] 1 = Inr x \<and>
     se_dot_product_f16 f16c_state [f32_one] [0, 0x3C] 1 = Inr y \<and> f32_int x 1 \<and> f32_int y 1"
proof -
  have "f32_int ([f32_one] ! j) 1 \<and> f32_int ([f32_one] ! j) 1 \<and> f32_int (f16_at [0, 0x3C] j) 1" if "j < 1" for j
    using that f32_int_one half_one by simp
  from dot_products_exact [OF f16c_ready _ _ _ this, of 1 True] show ?thesis by auto
qed

end
