(* ===== verification/TopK.thy ===== *)
theory TopK
  imports Dot
begin

text \<open>
  The exhaustive scan of \<^verbatim>\<open>se_topk.c\<close>: the score of a row, the insertion into the two best lists, and the
  loop over the rows with its cancellation point at every 1024th row.  Row and byte numbers are natural
  numbers: they index a string that exists, so their products do not wrap.  The specification is a stable
  sort of the rows by score.
\<close>

subsection \<open>A scan\<close>

text \<open>
  The matrix is its bytes.  The two best lists are arrays of their own, so they are a part of the job.  The
  cancel flag is no field: \<open>cancelled r\<close> is the value its read at row \<open>r\<close> sees.
\<close>

record se_topk_job =
  tj_q :: "u32 list"
  tj_m :: "u8 list"
  tj_format :: se_vector_format
  tj_dim :: nat
  tj_rows :: nat
  tj_k :: nat
  tj_best_idx :: "nat list"
  tj_best_score :: "u32 list"
  tj_cosine :: bool
  tj_inv_query_norm :: u32

definition cosine_score :: "u32 \<Rightarrow> u32 \<Rightarrow> u32 \<Rightarrow> u32" where
  "cosine_score dot row_sq inv_query_norm =
     (if f32_less 0 row_sq then f32_div (f32_mul dot inv_query_norm) (f32_sqrt row_sq)
      else if f32_eq row_sq 0 then 0
      else f32_nan)"

text \<open>Row \<open>r\<close> of a matrix of floats.\<close>

definition f32_row :: "u8 list \<Rightarrow> nat \<Rightarrow> nat \<Rightarrow> u32 list se_result" where
  "f32_row m dim r = mapR (\<lambda>j. read_u32 m ((r * dim + j) * 4)) [0..<dim]"

definition f16_row :: "u8 list \<Rightarrow> nat \<Rightarrow> nat \<Rightarrow> u8 list" where
  "f16_row m dim r = drop (r * dim * 2) m"

definition row_score :: "bool \<Rightarrow> f16_state \<Rightarrow> se_topk_job \<Rightarrow> nat \<Rightarrow> u32 se_result" where
  "row_score sse st job r =
     (if tj_format job = SE_VECTOR_FORMAT_F16 then
        (let row = f16_row (tj_m job) (tj_dim job) r
         in if tj_cosine job then
              bindR (se_dot_and_row_sq_f16 st (tj_q job) row (tj_dim job)) (\<lambda>(score, row_sq).
                Inr (cosine_score score row_sq (tj_inv_query_norm job)))
            else se_dot_product_f16 st (tj_q job) row (tj_dim job))
      else
        bindR (f32_row (tj_m job) (tj_dim job) r) (\<lambda>row.
          if tj_cosine job then
            bindR (se_dot_and_row_sq_f32 sse (tj_q job) row (tj_dim job)) (\<lambda>(score, row_sq).
              Inr (cosine_score score row_sq (tj_inv_query_norm job)))
          else se_dot_product_f32 sse (tj_q job) row (tj_dim job)))"

text \<open>The loop that moves smaller scores down; it returns the free position.\<close>

fun shift_down :: "u32 \<Rightarrow> nat \<Rightarrow> u32 list \<Rightarrow> nat list \<Rightarrow> (nat \<times> u32 list \<times> nat list) se_result" where
  "shift_down score 0 scores idx = Inr (0, scores, idx)"
| "shift_down score (Suc p) scores idx =
     bindR (rdR scores p) (\<lambda>b.
       if f32_less b score then
         bindR (wrR scores (Suc p) b) (\<lambda>scores. bindR (rdR idx p) (\<lambda>i. bindR (wrR idx (Suc p) i) (\<lambda>idx.
           shift_down score p scores idx)))
       else Inr (Suc p, scores, idx))"

definition insert_score :: "nat \<Rightarrow> u32 \<Rightarrow> nat \<Rightarrow> u32 list \<Rightarrow> nat list \<Rightarrow> (u32 list \<times> nat list) se_result" where
  "insert_score k score r scores idx =
     bindR (rdR scores (k - 1)) (\<lambda>worst.
       if \<not> f32_less worst score then Inr (scores, idx)
       else bindR (shift_down score (k - 1) scores idx) (\<lambda>(pos, scores, idx).
         bindR (wrR scores pos score) (\<lambda>scores. bindR (wrR idx pos r) (\<lambda>idx. Inr (scores, idx)))))"

definition topk_row :: "bool \<Rightarrow> f16_state \<Rightarrow> se_topk_job \<Rightarrow> nat \<Rightarrow> se_topk_job se_result" where
  "topk_row sse st job r =
     bindR (row_score sse st job r) (\<lambda>score.
     bindR (insert_score (tj_k job) score r (tj_best_score job) (tj_best_idx job)) (\<lambda>(scores, idx).
       Inr (job\<lparr>tj_best_score := scores, tj_best_idx := idx\<rparr>)))"

function topk_loop :: "bool \<Rightarrow> f16_state \<Rightarrow> (nat \<Rightarrow> bool) \<Rightarrow> nat \<Rightarrow> se_topk_job \<Rightarrow> nat \<Rightarrow> se_topk_job se_result" where
  "topk_loop sse st cancelled rows job r =
     (if r < rows then
        (if r mod 1024 = 0 \<and> cancelled r then Inr job
         else bindR (topk_row sse st job r) (\<lambda>job. topk_loop sse st cancelled rows job (r + 1)))
      else Inr job)"
  by pat_completeness auto
termination by (relation "measure (\<lambda>(sse, st, cancelled, rows, job, r). rows - r)") auto

declare topk_loop.simps [simp del]

definition se_topk_execute :: "bool \<Rightarrow> f16_state \<Rightarrow> (nat \<Rightarrow> bool) \<Rightarrow> se_topk_job \<Rightarrow> se_topk_job se_result" where
  "se_topk_execute sse st cancelled job = topk_loop sse st cancelled (tj_rows job) job 0"

subsection \<open>Specification\<close>

text \<open>
  The rows that can be hits, in the order of their scores, the higher first and of equal scores the lower
  row first; \<open>sort_key\<close> is stable.
\<close>

definition is_hit :: "u32 \<Rightarrow> bool" where
  "is_hit x = f32_less f32_minus_infinity x"

definition ranking :: "(nat \<Rightarrow> u32) \<Rightarrow> nat \<Rightarrow> nat list" where
  "ranking s n = sort_key (\<lambda>r. - f32_key (s r)) (filter (\<lambda>r. is_hit (s r)) [0..<n])"

text \<open>
  The best lists that hold the first \<open>k\<close> rows of a ranking; a place that is free has the score
  \<^verbatim>\<open>-INFINITY\<close> and any index.
\<close>

definition holds_best :: "(nat \<Rightarrow> u32) \<Rightarrow> nat list \<Rightarrow> nat \<Rightarrow> u32 list \<Rightarrow> nat list \<Rightarrow> bool" where
  "holds_best s rs k scores idx =
     (scores = take k (map s rs @ replicate k f32_minus_infinity) \<and>
      (\<exists>free. length free = k \<and> idx = take k (rs @ free)))"

lemma sorted_middle:
  "sorted (map f t @ map f d) \<Longrightarrow> \<forall>y \<in> set t. f y \<le> f x \<Longrightarrow> \<forall>y \<in> set d. f x < f y \<Longrightarrow>
     sorted (map f (t @ x # d))" for f :: "'a \<Rightarrow> 'b::linorder"
  by (auto simp: sorted_append less_imp_le intro: order_trans [OF _ less_imp_le])

lemma dropWhile_sorted:
  assumes "sorted (map f xs)" "y \<in> set (dropWhile (\<lambda>y. f y \<le> c) xs)"
  shows "c < f y"
proof -
  let ?d = "dropWhile (\<lambda>y. f y \<le> c) xs"
  have "sorted (map f (takeWhile (\<lambda>y. f y \<le> c) xs) @ map f ?d)"
    using assms(1) by (metis takeWhile_dropWhile_id map_append)
  then have "sorted (map f ?d)" by (simp only: sorted_append)
  moreover obtain z zs where d: "?d = z # zs" using assms(2) by (cases ?d) auto
  moreover have "\<not> f z \<le> c" using d by (metis hd_dropWhile list.distinct(1) list.sel(1))
  ultimately show ?thesis using assms(2) by (auto simp: d)
qed

lemma sort_key_snoc:
  "sort_key f (xs @ [x]) =
     (let ys = sort_key f xs in takeWhile (\<lambda>y. f y \<le> f x) ys @ x # dropWhile (\<lambda>y. f y \<le> f x) ys)"
proof -
  let ?ys = "sort_key f xs"
  let ?t = "takeWhile (\<lambda>y. f y \<le> f x) ?ys" and ?d = "dropWhile (\<lambda>y. f y \<le> f x) ?ys"
  have ys: "?t @ ?d = ?ys" by simp
  have srt: "sorted (map f ?t @ map f ?d)" using sorted_sort_key [of f xs] by (metis ys map_append)
  have t: "\<forall>y \<in> set ?t. f y \<le> f x" by (auto dest: set_takeWhileD)
  have d: "\<forall>y \<in> set ?d. f x < f y" by (intro ballI dropWhile_sorted [OF sorted_sort_key])
  have "sort_key f (xs @ [x]) = ?t @ x # ?d"
  proof (rule properties_for_sort_key)
    show "mset (?t @ x # ?d) = mset (xs @ [x])"
    proof -
      have "mset ?t + mset ?d = mset xs" by (metis mset_append mset_sort ys)
      then show ?thesis by simp
    qed
    show "filter (\<lambda>z. f k = f z) (?t @ x # ?d) = filter (\<lambda>z. f k = f z) (xs @ [x])" for k
    proof -
      have "filter (\<lambda>z. f k = f z) ?ys = filter (\<lambda>z. f k = f z) xs"
        unfolding eq_commute [of "f k"] by (rule sort_key_stable)
      then have e: "filter (\<lambda>z. f k = f z) ?t @ filter (\<lambda>z. f k = f z) ?d = filter (\<lambda>z. f k = f z) xs"
        by (metis ys filter_append)
      show ?thesis
      proof (cases "f k = f x")
        case True
        then have "filter (\<lambda>z. f k = f z) ?d = []" using d by (auto simp: filter_empty_conv)
        then show ?thesis using e True by simp
      next
        case False
        then show ?thesis using e by simp
      qed
    qed
    show "sorted (map f (?t @ x # ?d))" by (rule sorted_middle [OF srt t d])
  qed
  then show ?thesis by (simp add: Let_def)
qed

lemma shift_down_eq:
  "p < length scores \<Longrightarrow> length idx = length scores \<Longrightarrow>
   \<exists>pos scores' idx'. shift_down score p scores idx = Inr (pos, scores', idx') \<and> pos \<le> p \<and>
     (pos = 0 \<or> \<not> f32_less (scores ! (pos - 1)) score) \<and> (\<forall>i. pos \<le> i \<and> i < p \<longrightarrow> f32_less (scores ! i) score) \<and>
     scores'[pos := score] = take pos scores @ score # take (p - pos) (drop pos scores) @ drop (Suc p) scores \<and>
     idx'[pos := r] = take pos idx @ r # take (p - pos) (drop pos idx) @ drop (Suc p) idx \<and>
     length scores' = length scores \<and> length idx' = length idx"
proof (induction p arbitrary: scores idx)
  case 0
  then show ?case by (cases scores; cases idx) auto
next
  case (Suc p)
  have p: "p < length scores" "p < length idx" "Suc p < length idx" using Suc.prems by simp_all
  show ?case
  proof (cases "f32_less (scores ! p) score")
    case False
    then show ?thesis using Suc.prems p by (auto simp: read_simps upd_conv_take_nth_drop)
  next
    case True
    let ?s = "scores[Suc p := scores ! p]" and ?i = "idx[Suc p := idx ! p]"
    obtain pos s' i' where IH: "shift_down score p ?s ?i = Inr (pos, s', i')" "pos \<le> p"
      "pos = 0 \<or> \<not> f32_less (?s ! (pos - 1)) score" "\<And>i. pos \<le> i \<and> i < p \<Longrightarrow> f32_less (?s ! i) score"
      "s'[pos := score] = take pos ?s @ score # take (p - pos) (drop pos ?s) @ drop (Suc p) ?s"
      "i'[pos := r] = take pos ?i @ r # take (p - pos) (drop pos ?i) @ drop (Suc p) ?i"
      "length s' = length scores" "length i' = length idx"
      using Suc.IH [of ?s ?i] p Suc.prems by auto
    have shift: "take (p - pos) (drop pos (xs[Suc p := xs ! p])) @ drop (Suc p) (xs[Suc p := xs ! p]) =
        take (Suc p - pos) (drop pos xs) @ drop (Suc (Suc p)) xs" if "Suc p < length xs" for xs :: "'x list"
    proof -
      have "drop (Suc p) (xs[Suc p := xs ! p]) = xs ! p # drop (Suc (Suc p)) xs"
        using that by (simp add: Cons_nth_drop_Suc [symmetric, of "Suc p"])
      moreover have "take (p - pos) (drop pos (xs[Suc p := xs ! p])) = take (p - pos) (drop pos xs)"
        using IH(2) by (simp add: take_drop)
      moreover have "take (Suc p - pos) (drop pos xs) = take (p - pos) (drop pos xs) @ [xs ! p]"
        using IH(2) that by (simp add: Suc_diff_le take_Suc_conv_app_nth)
      ultimately show ?thesis by simp
    qed
    have "s'[pos := score] = take pos scores @ score # take (Suc p - pos) (drop pos scores) @ drop (Suc (Suc p)) scores"
      using IH(2,5) shift [of scores] Suc.prems by simp
    moreover have "i'[pos := r] = take pos idx @ r # take (Suc p - pos) (drop pos idx) @ drop (Suc (Suc p)) idx"
      using IH(2,6) shift [of idx] p by simp
    moreover have "f32_less (scores ! i) score" if "pos \<le> i \<and> i < Suc p" for i
      using IH(4) [of i] that True by (cases "i = p") auto
    moreover have "pos = 0 \<or> \<not> f32_less (scores ! (pos - 1)) score" using IH(2,3) by auto
    ultimately show ?thesis using True IH(1,2,7,8) Suc.prems p by (auto simp: read_simps)
  qed
qed

subsection \<open>One row\<close>

lemma hit_facts:
  "is_hit x \<Longrightarrow> \<not> f32_is_nan x" "\<not> is_hit f32_minus_infinity"
  "is_hit x \<Longrightarrow> f32_less x y \<Longrightarrow> is_hit y"
  by (auto simp: is_hit_def f32_less_def)

lemma hit_less: "is_hit x \<Longrightarrow> is_hit y \<Longrightarrow> f32_less x y \<longleftrightarrow> f32_key x < f32_key y"
  by (simp add: is_hit_def f32_less_def)

lemma ranking_hits: "r \<in> set (ranking s n) \<Longrightarrow> is_hit (s r) \<and> r < n"
  by (simp add: ranking_def)

lemma ranking_Suc:
  "ranking s (Suc n) =
     (if is_hit (s n)
      then takeWhile (\<lambda>r. f32_key (s n) \<le> f32_key (s r)) (ranking s n) @
        n # dropWhile (\<lambda>r. f32_key (s n) \<le> f32_key (s r)) (ranking s n)
      else ranking s n)"
proof (cases "is_hit (s n)")
  case True
  then have "filter (\<lambda>r. is_hit (s r)) [0..<Suc n] = filter (\<lambda>r. is_hit (s r)) [0..<n] @ [n]" by simp
  then show ?thesis using True sort_key_snoc [of "\<lambda>r. - f32_key (s r)" "filter (\<lambda>r. is_hit (s r)) [0..<n]" n]
    by (simp only: ranking_def Let_def neg_le_iff_le if_True)
qed (simp add: ranking_def)

lemma ranking_sorted: "sorted (map (\<lambda>r. - f32_key (s r)) (ranking s n))"
  by (simp add: ranking_def)

lemma insert_take:
  assumes "length W < k"
  shows "take (length W) (take k (W @ R)) @ x # take (k - 1 - length W) (drop (length W) (take k (W @ R))) @
    drop (Suc (k - 1)) (take k (W @ R)) = take k (W @ x # R)"
proof -
  obtain d where d: "k = length W + Suc d" using assms by (metis less_iff_Suc_add add_Suc_right)
  show ?thesis unfolding d by (simp add: drop_take)
qed

lemma less_than_score:
  assumes "is_hit (s n)" "i < k"
  defines "W \<equiv> takeWhile (\<lambda>r. f32_key (s n) \<le> f32_key (s r)) (ranking s n)"
  shows "f32_less (take k (map s (ranking s n) @ replicate k f32_minus_infinity) ! i) (s n) \<longleftrightarrow> length W \<le> i"
proof -
  let ?L = "ranking s n"
  have le: "length W \<le> length ?L" unfolding W_def by (rule length_takeWhile_le)
  show ?thesis
  proof (cases "i < length ?L")
    case False
    then have "take k (map s ?L @ replicate k f32_minus_infinity) ! i = f32_minus_infinity"
      using assms(2) by (simp add: nth_append)
    then show ?thesis using assms(1) False le by (simp add: is_hit_def)
  next
    case True
    then have nth: "take k (map s ?L @ replicate k f32_minus_infinity) ! i = s (?L ! i)"
      using assms(2) by (simp add: nth_append)
    have less: "f32_less (s (?L ! i)) (s n) \<longleftrightarrow> f32_key (s (?L ! i)) < f32_key (s n)"
      using ranking_hits [of "?L ! i" s n] assms(1) True by (simp add: hit_less)
    show ?thesis
    proof (cases "i < length W")
      case True
      then have "?L ! i \<in> set W" using le unfolding W_def by (metis nth_mem takeWhile_nth)
      then have "f32_key (s n) \<le> f32_key (s (?L ! i))" unfolding W_def by (auto dest: set_takeWhileD)
      then show ?thesis using True nth less by simp
    next
      case False
      let ?D = "dropWhile (\<lambda>r. - f32_key (s r) \<le> - f32_key (s n)) ?L"
      have "?D = drop (length W) ?L" unfolding W_def neg_le_iff_le by (rule dropWhile_eq_drop)
      moreover have "?L ! i = drop (length W) ?L ! (i - length W)" using False le by simp
      moreover have "i - length W < length (drop (length W) ?L)" using False True by simp
      ultimately have "?L ! i \<in> set ?D" by (metis nth_mem)
      from dropWhile_sorted [OF ranking_sorted this] show ?thesis using False nth less by simp
    qed
  qed
qed

lemma insert_best:
  assumes "holds_best s (ranking s n) k scores idx" "0 < k"
  shows "\<exists>scores' idx'. insert_score k (s n) n scores idx = Inr (scores', idx') \<and>
    holds_best s (ranking s (Suc n)) k scores' idx'"
proof -
  let ?L = "ranking s n" and ?rep = "replicate k f32_minus_infinity"
  obtain free where scores: "scores = take k (map s ?L @ ?rep)" and free: "length free = k" "idx = take k (?L @ free)"
    using assms(1) by (auto simp: holds_best_def)
  have len: "length scores = k" "length idx = k" using scores free by simp_all
  then have worst: "rdR scores (k - 1) = Inr (scores ! (k - 1))" using assms(2) by (simp add: rdR_def)
  show ?thesis
  proof (cases "is_hit (s n)")
    case False
    have "\<not> f32_less (scores ! (k - 1)) (s n)"
    proof
      assume less: "f32_less (scores ! (k - 1)) (s n)"
      have "scores ! (k - 1) \<in> set scores" using len assms(2) by simp
      then have "scores ! (k - 1) \<in> s ` set ?L \<union> {f32_minus_infinity}"
        unfolding scores by (auto dest: in_set_takeD)
      then consider r where "r \<in> set ?L" "scores ! (k - 1) = s r" | "scores ! (k - 1) = f32_minus_infinity" by blast
      then show False
      proof cases
        case 1
        then show ?thesis using ranking_hits [of r s n] hit_facts(3) [of "s r" "s n"] less False by simp
      next
        case 2
        then show ?thesis using less False by (simp add: is_hit_def)
      qed
    qed
    then show ?thesis using worst assms(1) False by (simp add: insert_score_def ranking_Suc)
  next
    case hit: True
    define W D where "W = takeWhile (\<lambda>r. f32_key (s n) \<le> f32_key (s r)) ?L"
      and "D = dropWhile (\<lambda>r. f32_key (s n) \<le> f32_key (s r)) ?L"
    have L: "?L = W @ D" by (simp add: W_def D_def)
    have new: "ranking s (Suc n) = W @ n # D" using hit by (simp add: ranking_Suc W_def D_def)
    have less: "f32_less (scores ! i) (s n) \<longleftrightarrow> length W \<le> i" if "i < k" for i
      unfolding scores W_def by (rule less_than_score [where s = s and n = n, OF hit that])
    show ?thesis
    proof (cases "length W \<le> k - 1")
      case False
      then have "take k (W @ X) = take k (W @ Y)" for X Y :: "nat list" by simp
      moreover have "take k (map s W @ X) = take k (map s W @ Y)" for X Y using False by simp
      ultimately have "holds_best s (ranking s (Suc n)) k scores idx"
        unfolding holds_best_def new scores free(2) L using free(1)
        by (metis append.assoc append_Cons map_append)
      then show ?thesis using worst less [of "k - 1"] False assms(2) by (auto simp: insert_score_def)
    next
      case True
      then have W: "length W < k" using assms(2) by simp
      obtain pos scores' idx' where sd: "shift_down (s n) (k - 1) scores idx = Inr (pos, scores', idx')"
        and pos: "pos \<le> k - 1" "pos = 0 \<or> \<not> f32_less (scores ! (pos - 1)) (s n)"
          "\<And>i. pos \<le> i \<Longrightarrow> i < k - 1 \<Longrightarrow> f32_less (scores ! i) (s n)"
        and upd: "scores'[pos := s n] = take pos scores @ s n # take (k - 1 - pos) (drop pos scores) @ drop (Suc (k - 1)) scores"
          "idx'[pos := n] = take pos idx @ n # take (k - 1 - pos) (drop pos idx) @ drop (Suc (k - 1)) idx"
          "length scores' = length scores" "length idx' = length idx"
        using shift_down_eq [of "k - 1" scores idx "s n" n] len assms(2) by auto
      have "pos \<le> length W"
      proof (cases "pos = 0")
        case False
        then have "\<not> length W \<le> pos - 1" using pos(1,2) less [of "pos - 1"] by auto
        then show ?thesis by linarith
      qed simp
      moreover have "length W \<le> pos"
      proof (cases "pos < k - 1")
        case True
        then show ?thesis using pos(3) [of pos] less [of pos] by auto
      qed (use \<open>length W \<le> k - 1\<close> pos(1) in simp)
      ultimately have p: "pos = length W" by simp
      have "scores'[pos := s n] = take k (map s W @ s n # map s D @ ?rep)"
        using insert_take [of "map s W" k "map s D @ ?rep" "s n"] W upd(1) p scores L by simp
      moreover have "idx'[pos := n] = take k (W @ n # D @ free)"
        using insert_take [of W k "D @ free" n] W upd(2) p free(2) L by simp
      ultimately have "holds_best s (ranking s (Suc n)) k (scores'[pos := s n]) (idx'[pos := n])"
        unfolding holds_best_def new using free(1) by auto
      moreover have "insert_score k (s n) n scores idx = Inr (scores'[pos := s n], idx'[pos := n])"
        using worst less [of "k - 1"] True sd upd(3,4) len pos(1) assms(2)
        by (simp add: insert_score_def wrR_def)
      ultimately show ?thesis by blast
    qed
  qed
qed

subsection \<open>All rows\<close>

text \<open>A job that the caller has set up: the arrays hold what the sizes promise.\<close>

definition topk_job_ok :: "f16_state \<Rightarrow> se_topk_job \<Rightarrow> bool" where
  "topk_job_ok st job =
     (f16_ready st \<and> 0 < tj_k job \<and> tj_dim job \<le> length (tj_q job) \<and>
      tj_rows job * tj_dim job * unat (se_vector_format_element_bytes (tj_format job)) \<le> length (tj_m job) \<and>
      tj_best_score job = replicate (tj_k job) f32_minus_infinity \<and> length (tj_best_idx job) = tj_k job)"

text \<open>Component \<open>j\<close> of row \<open>r\<close>.\<close>

definition component :: "se_topk_job \<Rightarrow> nat \<Rightarrow> nat \<Rightarrow> u32" where
  "component job r j =
     (if tj_format job = SE_VECTOR_FORMAT_F16 then f16_at (f16_row (tj_m job) (tj_dim job) r) j
      else let at = (r * tj_dim job + j) * 4
           in join_u32 (tj_m job ! at) (tj_m job ! (at + 1)) (tj_m job ! (at + 2)) (tj_m job ! (at + 3)))"

definition score_of :: "se_topk_job \<Rightarrow> nat \<Rightarrow> u32 \<Rightarrow> bool" where
  "score_of job r x =
     (if tj_cosine job
      then \<exists>d sq. dot_of ((!) (tj_q job)) (component job r) (tj_dim job) d \<and>
             dot_of (component job r) (component job r) (tj_dim job) sq \<and>
             x = cosine_score d sq (tj_inv_query_norm job)
      else dot_of ((!) (tj_q job)) (component job r) (tj_dim job) x)"

lemma row_end: "r < rows \<Longrightarrow> j < dim \<Longrightarrow> r * dim + j + 1 \<le> rows * (dim :: nat)"
proof -
  assume "r < rows" "j < dim"
  then have "r * dim + j + 1 \<le> (r + 1) * dim" by simp
  also have "\<dots> \<le> rows * dim" using \<open>r < rows\<close> by (intro mult_le_mono1) simp
  finally show ?thesis .
qed

lemma dot_of_cong:
  "(\<And>j. j < dim \<Longrightarrow> q j = q' j \<and> r j = r' j) \<Longrightarrow> dot_of q r dim x \<Longrightarrow> dot_of q' r' dim x"
proof -
  have same: "added add zero f A x \<Longrightarrow> (\<forall>j \<in># A. f j = g j) \<Longrightarrow> added add zero g A x"
    for add and zero x :: 'v and f g A
  proof (induction rule: added.induct)
    case (added_one j)
    then show ?case using added.added_one [of add zero g j] by simp
  qed (auto intro: added.intros)
  show "(\<And>j. j < dim \<Longrightarrow> q j = q' j \<and> r j = r' j) \<Longrightarrow> dot_of q r dim x \<Longrightarrow> dot_of q' r' dim x"
    unfolding dot_of_def by (erule same) simp
qed

lemma row_score_ok:
  assumes ok: "topk_job_ok st job" and r: "r < tj_rows job"
  shows "\<exists>x. row_score sse st job r = Inr x \<and> score_of job r x"
proof (cases "tj_format job")
  case SE_VECTOR_FORMAT_F16
  let ?row = "f16_row (tj_m job) (tj_dim job) r"
  have "(r + 1) * tj_dim job * 2 \<le> tj_rows job * tj_dim job * 2" using r by (intro mult_le_mono1) simp
  also have "\<dots> \<le> length (tj_m job)"
    using ok SE_VECTOR_FORMAT_F16 by (simp add: topk_job_ok_def se_vector_format_element_bytes_def)
  finally have "tj_dim job * 2 \<le> length ?row" by (simp add: f16_row_def algebra_simps)
  moreover have "component job r = f16_at ?row" using SE_VECTOR_FORMAT_F16 by (auto simp: component_def)
  ultimately show ?thesis
    using f16_kernels [of st "tj_dim job" "tj_q job" ?row] ok SE_VECTOR_FORMAT_F16
    by (fastforce simp: row_score_def score_of_def topk_job_ok_def Let_def)
next
  case SE_VECTOR_FORMAT_F32
  let ?dim = "tj_dim job"
  have m: "tj_rows job * ?dim * 4 \<le> length (tj_m job)"
    using ok SE_VECTOR_FORMAT_F32 by (simp add: topk_job_ok_def se_vector_format_element_bytes_def)
  have "read_u32 (tj_m job) ((r * ?dim + j) * 4) = Inr (component job r j)" if "j < ?dim" for j
  proof -
    have "(r * ?dim + j + 1) * 4 \<le> tj_rows job * ?dim * 4" by (intro mult_le_mono1 row_end r that)
    then show ?thesis using m SE_VECTOR_FORMAT_F32 by (subst read_u32_Inr) (simp_all add: component_def Let_def)
  qed
  then have row: "f32_row (tj_m job) ?dim r = Inr (map (component job r) [0..<?dim])"
    unfolding f32_row_def by (intro mapR_Inr) auto
  have len: "?dim \<le> length (tj_q job)" using ok by (simp add: topk_job_ok_def)
  have nth: "dot_of q ((!) (map (component job r) [0..<?dim])) ?dim x \<Longrightarrow> dot_of q (component job r) ?dim x" for q x
    by (erule dot_of_cong [rotated]) simp
  have nth2: "dot_of ((!) (map (component job r) [0..<?dim])) ((!) (map (component job r) [0..<?dim])) ?dim x \<Longrightarrow>
      dot_of (component job r) (component job r) ?dim x" for x
    by (erule dot_of_cong [rotated]) simp
  note k = f32_kernels [of ?dim "tj_q job" "map (component job r) [0..<?dim]" sse, OF len]
  show ?thesis
  proof (cases "tj_cosine job")
    case True
    obtain d sq where "se_dot_and_row_sq_f32 sse (tj_q job) (map (component job r) [0..<?dim]) ?dim = Inr (d, sq)"
      "dot_of ((!) (tj_q job)) (component job r) ?dim d" "dot_of (component job r) (component job r) ?dim sq"
      using k(2) nth nth2 by auto
    then show ?thesis using True row SE_VECTOR_FORMAT_F32 unfolding row_score_def score_of_def by auto
  next
    case False
    obtain d where "se_dot_product_f32 sse (tj_q job) (map (component job r) [0..<?dim]) ?dim = Inr d"
      "dot_of ((!) (tj_q job)) (component job r) ?dim d" using k(1) nth by auto
    then show ?thesis using False row SE_VECTOR_FORMAT_F32 unfolding row_score_def score_of_def by auto
  qed
qed

definition score_at :: "bool \<Rightarrow> f16_state \<Rightarrow> se_topk_job \<Rightarrow> nat \<Rightarrow> u32" where
  "score_at sse st job r = (case row_score sse st job r of Inl _ \<Rightarrow> 0 | Inr x \<Rightarrow> x)"

lemma score_at_ok:
  "topk_job_ok st job \<Longrightarrow> r < tj_rows job \<Longrightarrow>
     row_score sse st job r = Inr (score_at sse st job r) \<and> score_of job r (score_at sse st job r)"
  using row_score_ok [of st job r sse] by (auto simp: score_at_def)

lemma row_score_update:
  "row_score sse st (job\<lparr>tj_best_score := a, tj_best_idx := b\<rparr>) r = row_score sse st job r"
  by (cases "tj_format job"; cases "tj_cosine job") (simp_all add: row_score_def)

lemma topk_loop_best:
  fixes sse :: bool
  assumes ok: "topk_job_ok st job"
  defines "s \<equiv> score_at sse st job"
  shows "r \<le> tj_rows job \<Longrightarrow> holds_best s (ranking s r) (tj_k job) scores idx \<Longrightarrow>
    \<exists>n scores' idx'. topk_loop sse st cancelled (tj_rows job) (job\<lparr>tj_best_score := scores, tj_best_idx := idx\<rparr>) r =
        Inr (job\<lparr>tj_best_score := scores', tj_best_idx := idx'\<rparr>) \<and>
      r \<le> n \<and> n \<le> tj_rows job \<and> (n < tj_rows job \<longrightarrow> n mod 1024 = 0 \<and> cancelled n) \<and>
      (\<forall>i. r \<le> i \<and> i < n \<and> i mod 1024 = 0 \<longrightarrow> \<not> cancelled i) \<and>
      holds_best s (ranking s n) (tj_k job) scores' idx'"
proof (induction "tj_rows job - r" arbitrary: r scores idx rule: less_induct)
  case less
  let ?job = "job\<lparr>tj_best_score := scores, tj_best_idx := idx\<rparr>"
  consider (finished) "r = tj_rows job" | (stop) "r < tj_rows job" "r mod 1024 = 0 \<and> cancelled r"
    | (step) "r < tj_rows job" "\<not> (r mod 1024 = 0 \<and> cancelled r)" using less.prems(1) by linarith
  then show ?case
  proof cases
    case finished
    then have "topk_loop sse st cancelled (tj_rows job) ?job r = Inr ?job" by (subst topk_loop.simps) simp
    then show ?thesis using less.prems finished by (intro exI [of _ r] exI) auto
  next
    case stop
    then have "topk_loop sse st cancelled (tj_rows job) ?job r = Inr ?job" by (subst topk_loop.simps) simp
    then show ?thesis using less.prems stop by (intro exI [of _ r] exI) auto
  next
    case step
    have k: "0 < tj_k job" using ok by (simp add: topk_job_ok_def)
    obtain scores2 idx2 where i: "insert_score (tj_k job) (s r) r scores idx = Inr (scores2, idx2)"
      "holds_best s (ranking s (Suc r)) (tj_k job) scores2 idx2"
      using insert_best [OF less.prems(2) k] by blast
    have "topk_row sse st ?job r = Inr (job\<lparr>tj_best_score := scores2, tj_best_idx := idx2\<rparr>)"
      using score_at_ok [OF ok step(1), of sse] i(1) by (simp add: topk_row_def row_score_update s_def)
    then have run: "topk_loop sse st cancelled (tj_rows job) ?job r =
        topk_loop sse st cancelled (tj_rows job) (job\<lparr>tj_best_score := scores2, tj_best_idx := idx2\<rparr>) (Suc r)"
      using step by (subst topk_loop.simps) auto
    have dec: "tj_rows job - Suc r < tj_rows job - r" "Suc r \<le> tj_rows job" using step(1) by simp_all
    obtain n scores' idx' where n: "topk_loop sse st cancelled (tj_rows job) ?job r =
        Inr (job\<lparr>tj_best_score := scores', tj_best_idx := idx'\<rparr>)"
      "Suc r \<le> n" "n \<le> tj_rows job" "n < tj_rows job \<longrightarrow> n mod 1024 = 0 \<and> cancelled n"
      "\<forall>i. Suc r \<le> i \<and> i < n \<and> i mod 1024 = 0 \<longrightarrow> \<not> cancelled i"
      "holds_best s (ranking s n) (tj_k job) scores' idx'"
      using less.hyps [OF dec i(2)] unfolding run by (elim exE conjE)
    have "\<not> cancelled i" if "r \<le> i \<and> i < n \<and> i mod 1024 = 0" for i
      using n(5) step(2) that by (cases "i = r") auto
    moreover have "r \<le> n" using n(2) by simp
    ultimately show ?thesis
      using n(1,3,4,6) by (intro exI [of _ n] exI [of _ scores'] exI [of _ idx'] conjI allI impI) auto
  qed
qed

lemma execute_best:
  fixes sse :: bool
  assumes ok: "topk_job_ok st job"
  defines "s \<equiv> score_at sse st job"
  shows "\<exists>n scores idx. se_topk_execute sse st cancelled job = Inr (job\<lparr>tj_best_score := scores, tj_best_idx := idx\<rparr>) \<and>
    n \<le> tj_rows job \<and> (n < tj_rows job \<longrightarrow> n mod 1024 = 0 \<and> cancelled n) \<and>
    (\<forall>i. i < n \<and> i mod 1024 = 0 \<longrightarrow> \<not> cancelled i) \<and>
    holds_best s (ranking s n) (tj_k job) scores idx"
proof -
  have "holds_best s (ranking s 0) (tj_k job) (tj_best_score job) (tj_best_idx job)"
    using ok by (auto simp: holds_best_def ranking_def topk_job_ok_def)
  from topk_loop_best [OF ok, where sse = sse, folded s_def, OF le0 this] show ?thesis
    by (simp add: se_topk_execute_def)
qed

subsection \<open>Properties\<close>

text \<open>
  Property C5: a scan stays in its arrays and always returns.  Without a cancel request it leaves the first
  \<open>k\<close> rows of the ranking in the best lists: the rows with a score above \<^verbatim>\<open>-INFINITY\<close>, no NaN among them,
  the higher score first and the lower row first among equals; the scores are those the kernels give.  A
  cancel request is seen at a multiple of 1024 rows, and the lists then hold the best of the rows before.
\<close>

theorem topk_scan_ranks:
  assumes "topk_job_ok st job"
  shows "\<exists>n s scores idx. se_topk_execute sse st cancelled job =
      Inr (job\<lparr>tj_best_score := scores, tj_best_idx := idx\<rparr>) \<and>
    n \<le> tj_rows job \<and> (n < tj_rows job \<longrightarrow> n mod 1024 = 0 \<and> cancelled n) \<and>
    (\<forall>i. i < n \<and> i mod 1024 = 0 \<longrightarrow> \<not> cancelled i) \<and>
    (\<forall>r < n. row_score sse st job r = Inr (s r) \<and> score_of job r (s r)) \<and>
    holds_best s (ranking s n) (tj_k job) scores idx"
proof -
  obtain n scores idx where e: "se_topk_execute sse st cancelled job =
      Inr (job\<lparr>tj_best_score := scores, tj_best_idx := idx\<rparr>)"
    "n \<le> tj_rows job" "n < tj_rows job \<longrightarrow> n mod 1024 = 0 \<and> cancelled n"
    "\<forall>i. i < n \<and> i mod 1024 = 0 \<longrightarrow> \<not> cancelled i"
    "holds_best (score_at sse st job) (ranking (score_at sse st job) n) (tj_k job) scores idx"
    using execute_best [OF assms, of sse cancelled] by (elim exE conjE)
  have "\<forall>r < n. row_score sse st job r = Inr (score_at sse st job r) \<and> score_of job r (score_at sse st job r)"
    using score_at_ok [OF assms, of _ sse] e(2) by (meson less_le_trans)
  with e show ?thesis
    by (intro exI [of _ n] exI [of _ "score_at sse st job"] exI [of _ scores] exI [of _ idx] conjI) simp_all
qed

definition example_job :: se_topk_job where
  "example_job = \<lparr>tj_q = [f32_one], tj_m = [0, 0, 0x80, 0x3F], tj_format = SE_VECTOR_FORMAT_F32, tj_dim = 1,
     tj_rows = 1, tj_k = 1, tj_best_idx = [0], tj_best_score = [f32_minus_infinity], tj_cosine = False,
     tj_inv_query_norm = f32_one\<rparr>"

lemma example_job_ok: "topk_job_ok f16c_state example_job"
  by (simp add: topk_job_ok_def example_job_def f16c_ready se_vector_format_element_bytes_def)

lemma topk_scan_ranks_witness:
  "\<exists>job. se_topk_execute True f16c_state (\<lambda>_. False) example_job = Inr job"
  using topk_scan_ranks [OF example_job_ok, of True "\<lambda>_. False"] by blast

lemma sorted_key_nth:
  assumes "sorted (map f xs)" "i < j" "j < length xs"
  shows "f (xs ! i) \<le> (f (xs ! j) :: 'a::linorder)"
  using sorted_nth_mono [OF assms(1), of i j] assms(2,3) by simp

text \<open>The ranking lists each hit once, by score and then by row.\<close>

lemma ranking_set: "set (ranking s n) = {r. r < n \<and> is_hit (s r)}"
  by (auto simp: ranking_def)

lemma ranking_distinct: "distinct (ranking s n)"
  by (simp add: ranking_def)

lemma ranking_order:
  "i < j \<Longrightarrow> j < length (ranking s n) \<Longrightarrow>
     f32_key (s (ranking s n ! j)) < f32_key (s (ranking s n ! i)) \<or>
     f32_key (s (ranking s n ! j)) = f32_key (s (ranking s n ! i)) \<and> ranking s n ! i < ranking s n ! j"
proof -
  let ?f = "\<lambda>r. - f32_key (s r)" and ?L = "ranking s n"
  assume ij: "i < j" "j < length ?L"
  have le: "?f (?L ! i) \<le> ?f (?L ! j)" using sorted_key_nth [OF ranking_sorted ij] .
  have "?L ! i < ?L ! j" if eq: "?f (?L ! i) = ?f (?L ! j)"
  proof -
    let ?P = "\<lambda>r. ?f r = ?f (?L ! i)"
    have stable: "filter ?P ?L = filter ?P (filter (\<lambda>r. is_hit (s r)) [0..<n])"
      unfolding ranking_def by (rule sort_key_stable)
    then have srt: "sorted_wrt (<) (filter ?P ?L)" by (simp add: sorted_wrt_filter)
    have split: "?L = take j ?L @ ?L ! j # drop (Suc j) ?L" using ij(2) by (rule id_take_nth_drop)
    have "?L ! i \<in> set (filter ?P (take j ?L))" using ij by (auto simp: in_set_conv_nth)
    moreover have "filter ?P ?L = filter ?P (take j ?L) @ ?L ! j # filter ?P (drop (Suc j) ?L)"
      by (subst split) (simp add: eq)
    ultimately show ?thesis using srt by (auto simp: sorted_wrt_append)
  qed
  with le show ?thesis by force
qed

text \<open>
  No better row is left out.  After a scan that was not cancelled, a row that could be a hit
  and is not listed has, against each listed row, a lower score, or the same score and a higher index.
\<close>

lemma topk_scan_optimal:
  assumes "topk_job_ok st job" "\<And>i. \<not> cancelled i"
  shows "\<exists>s scores idx h. se_topk_execute sse st cancelled job =
      Inr (job\<lparr>tj_best_score := scores, tj_best_idx := idx\<rparr>) \<and>
    (\<forall>r < tj_rows job. row_score sse st job r = Inr (s r)) \<and>
    h = min (tj_k job) (card {r. r < tj_rows job \<and> is_hit (s r)}) \<and>
    distinct (take h idx) \<and> map s (take h idx) = take h scores \<and>
    (\<forall>r \<in> set (take h idx). r < tj_rows job \<and> is_hit (s r) \<and>
      (\<forall>r'. r' < tj_rows job \<and> is_hit (s r') \<and> r' \<notin> set (take h idx) \<longrightarrow>
         f32_less (s r') (s r) \<or> f32_eq (s r') (s r) \<and> r < r'))"
proof -
  obtain n scores idx where e: "se_topk_execute sse st cancelled job =
      Inr (job\<lparr>tj_best_score := scores, tj_best_idx := idx\<rparr>)"
    "n \<le> tj_rows job" "n < tj_rows job \<longrightarrow> n mod 1024 = 0 \<and> cancelled n"
    "holds_best (score_at sse st job) (ranking (score_at sse st job) n) (tj_k job) scores idx"
    using execute_best [OF assms(1), of sse cancelled] by (elim exE conjE)
  define s where "s = score_at sse st job"
  have n: "n = tj_rows job" using e(2,3) assms(2) by (auto simp: le_less)
  let ?L = "ranking s n" and ?k = "tj_k job"
  define h where "h = min ?k (length ?L)"
  obtain free where best: "scores = take ?k (map s ?L @ replicate ?k f32_minus_infinity)"
    "idx = take ?k (?L @ free)" using e(4) by (auto simp: holds_best_def s_def)
  have card: "card {r. r < tj_rows job \<and> is_hit (s r)} = length ?L"
    using distinct_card [OF ranking_distinct [of s n]] by (simp add: ranking_set n)
  have idx: "take h idx = take h ?L" "take h scores = map s (take h ?L)"
    by (simp_all add: best h_def min_def take_map)
  have rows: "\<forall>r < tj_rows job. row_score sse st job r = Inr (s r)"
    using score_at_ok [OF assms(1)] by (simp add: s_def)
  have better: "f32_less (s r') (s r) \<or> f32_eq (s r') (s r) \<and> r < r'"
    if r: "r \<in> set (take h ?L)" and r': "r' \<in> set ?L" "r' \<notin> set (take h ?L)" for r r'
  proof -
    obtain i where i: "i < h" "i < length ?L" "r = ?L ! i" using r by (auto simp: in_set_conv_nth)
    obtain j where j: "j < length ?L" "r' = ?L ! j" using r'(1) by (auto simp: in_set_conv_nth)
    have "h \<le> j" using r'(2) j by (auto simp: in_set_conv_nth not_less [symmetric])
    then have "i < j" using i by simp
    from ranking_order [OF this j(1)] ranking_hits [of r s n] ranking_hits [of r' s n] i j r'(1)
    show ?thesis by (auto simp: f32_less_def f32_eq_def is_hit_def)
  qed
  have hits: "r < tj_rows job \<and> is_hit (s r)" if "r \<in> set (take h ?L)" for r
    using ranking_hits [OF in_set_takeD [OF that]] n by blast
  have "distinct (take h ?L)" using ranking_distinct by (rule distinct_take)
  moreover have "set ?L = {r. r < tj_rows job \<and> is_hit (s r)}" using ranking_set n by simp
  ultimately have "\<exists>h. h = min ?k (card {r. r < tj_rows job \<and> is_hit (s r)}) \<and>
    distinct (take h idx) \<and> map s (take h idx) = take h scores \<and>
    (\<forall>r \<in> set (take h idx). r < tj_rows job \<and> is_hit (s r) \<and>
      (\<forall>r'. r' < tj_rows job \<and> is_hit (s r') \<and> r' \<notin> set (take h idx) \<longrightarrow>
         f32_less (s r') (s r) \<or> f32_eq (s r') (s r) \<and> r < r'))"
    using better hits unfolding card by (intro exI [of _ h]) (auto simp: h_def [symmetric] idx)
  with e(1) rows show ?thesis by blast
qed

lemma topk_scan_optimal_witness:
  "\<exists>scores idx. se_topk_execute True f16c_state (\<lambda>_. False) example_job =
     Inr (example_job\<lparr>tj_best_score := scores, tj_best_idx := idx\<rparr>)"
  using topk_scan_optimal [OF example_job_ok, of "\<lambda>_. False" True] by blast

end
