(* ===== verification/Ruby.thy ===== *)
theory Ruby
  imports SizeArith
begin

text \<open>
  What the bindings of \<^verbatim>\<open>static_embeddings.c\<close> share: the exceptions they raise and the translation of a
  status to its exception class.  A binding returns \<open>Inl (Raise class message)\<close> when it raises;
  \<open>Inl Undefined\<close> stands for the undefined behaviour of an access outside an object, as \<open>OutOfBounds\<close> does.

  The Ruby interpreter is not part of the repository.  Where a binding calls into it the result is a
  parameter: a conversion such as \<^verbatim>\<open>NUM2LONG\<close> is a function that returns a number or raises, and since it
  may run Ruby code (\<^verbatim>\<open>to_int\<close>) it may also change the objects the binding works on.
\<close>

datatype ruby_class =
    ArgumentError | TypeError | NoMemoryError | Interrupt
  | Error | InvalidModelError | UnsupportedModelError | EncodingError | EmptyInputError

datatype ruby_fault = Raise ruby_class string | Undefined

type_synonym 'a ruby = "ruby_fault + 'a"

text \<open>A call that may run Ruby code on a state \<open>'s\<close>.\<close>

type_synonym ('s, 'a) ruby_call = "'s \<Rightarrow> 'a ruby \<times> 's"

definition bindE :: "'a ruby \<Rightarrow> ('a \<Rightarrow> 'b ruby) \<Rightarrow> 'b ruby" where
  "bindE r f = (case r of Inl e \<Rightarrow> Inl e | Inr x \<Rightarrow> f x)"

lemma bindE_simps [simp]: "bindE (Inl e) f = Inl e" "bindE (Inr x) f = f x"
  by (simp_all add: bindE_def)

lemma bindE_eq_Inr: "bindE r f = Inr y \<longleftrightarrow> (\<exists>x. r = Inr x \<and> f x = Inr y)"
  by (cases r) auto

definition error_class_for :: "se_status \<Rightarrow> ruby_class" where
  "error_class_for status =
     (case status of
        SE_ERR_INVALID_FORMAT \<Rightarrow> InvalidModelError
      | SE_ERR_IO \<Rightarrow> InvalidModelError
      | SE_ERR_UNSUPPORTED_VERSION \<Rightarrow> UnsupportedModelError
      | SE_ERR_UNSUPPORTED_TOKENIZER \<Rightarrow> UnsupportedModelError
      | SE_ERR_INVALID_UTF8 \<Rightarrow> EncodingError
      | SE_ERR_EMPTY_INPUT \<Rightarrow> EmptyInputError
      | _ \<Rightarrow> Error)"

definition raise_se :: "se_status \<Rightarrow> string \<Rightarrow> ruby_fault" where
  "raise_se status message = Raise (error_class_for status) message"

text \<open>The result of a library routine, raised when it is an error.\<close>

definition of_se :: "'a se_result \<Rightarrow> 'a ruby" where
  "of_se r =
     (case r of
        Inl (SeError status message) \<Rightarrow> Inl (raise_se status message)
      | Inl OutOfBounds \<Rightarrow> Inl Undefined
      | Inr x \<Rightarrow> Inr x)"

lemma of_se_Inr [simp]: "of_se (Inr x) = Inr x"
  by (simp add: of_se_def)

end
