(* ===== verification/Options.thy ===== *)
theory Options
  imports Ruby F16 Model
begin

text \<open>
  The arguments of the Ruby methods: keyword hashes, the element format, the token limit, the validation
  mode and the dimension of a matrix.  A Ruby object is one of the values the bindings tell apart, or some
  other object.
\<close>

subsection \<open>Values\<close>

datatype ruby_value =
    QUndef | QNil | QTrue | QFalse
  | QSymbol string
  | QString string
  | QHash "(ruby_value \<times> ruby_value) list"
  | QObject nat

definition RTEST :: "ruby_value \<Rightarrow> bool" where
  "RTEST v = (v \<noteq> QNil \<and> v \<noteq> QFalse)"

text \<open>Sequences of calls, of which the first that raises is the last.\<close>

definition pureC :: "'a ruby \<Rightarrow> ('s, 'a) ruby_call" where
  "pureC r s = (r, s)"

definition bindC :: "('s, 'a) ruby_call \<Rightarrow> ('a \<Rightarrow> ('s, 'b) ruby_call) \<Rightarrow> ('s, 'b) ruby_call" where
  "bindC m f s = (case m s of (Inl e, s) \<Rightarrow> (Inl e, s) | (Inr x, s) \<Rightarrow> f x s)"

lemma bindC_pure [simp]: "bindC (pureC r) f s = (case r of Inl e \<Rightarrow> (Inl e, s) | Inr x \<Rightarrow> f x s)"
  by (cases r) (simp_all add: bindC_def pureC_def)

subsection \<open>Keywords\<close>

definition lookup_option :: "ruby_value \<Rightarrow> string \<Rightarrow> ruby_value" where
  "lookup_option opts key =
     (case opts of
        QHash kvs \<Rightarrow> (case find (\<lambda>(k, _). k = QSymbol key) kvs of None \<Rightarrow> QUndef | Some (_, v) \<Rightarrow> v)
      | _ \<Rightarrow> QUndef)"

definition reject_unknown_keyword_i :: "string list \<Rightarrow> ruby_value \<Rightarrow> unit ruby" where
  "reject_unknown_keyword_i allowed key =
     (case key of
        QSymbol name \<Rightarrow>
          if name \<in> set allowed then Inr ()
          else Inl (Raise ArgumentError ''unknown keyword: :%s (accepted: %s)'')
      | _ \<Rightarrow> Inl (Raise ArgumentError ''keyword must be a Symbol''))"

fun check_each_keyword :: "string list \<Rightarrow> (ruby_value \<times> ruby_value) list \<Rightarrow> unit ruby" where
  "check_each_keyword allowed [] = Inr ()"
| "check_each_keyword allowed ((key, value) # kvs) =
     bindE (reject_unknown_keyword_i allowed key) (\<lambda>_. check_each_keyword allowed kvs)"

definition check_keywords :: "ruby_value \<Rightarrow> string list \<Rightarrow> unit ruby" where
  "check_keywords opts allowed =
     (case opts of
        QNil \<Rightarrow> Inr ()
      | QHash kvs \<Rightarrow> check_each_keyword allowed kvs
      | _ \<Rightarrow> Inl (Raise ArgumentError ''keywords must be a Hash''))"

subsection \<open>Options\<close>

definition string_equals_literal :: "string \<Rightarrow> string \<Rightarrow> bool" where
  "string_equals_literal str lit = (length str = length lit \<and> str = lit)"

definition format_name :: "string \<Rightarrow> se_vector_format ruby" where
  "format_name name =
     (if string_equals_literal name ''f32'' \<or> string_equals_literal name ''float32'' then Inr SE_VECTOR_FORMAT_F32
      else if string_equals_literal name ''f16'' \<or> string_equals_literal name ''float16'' then Inr SE_VECTOR_FORMAT_F16
      else Inl (Raise ArgumentError ''unsupported embedding format %s (expected :f32 or :f16)''))"

definition resolve_vector_format :: "ruby_value \<Rightarrow> se_vector_format ruby" where
  "resolve_vector_format opt =
     (case opt of
        QUndef \<Rightarrow> Inr SE_VECTOR_FORMAT_F32
      | QNil \<Rightarrow> Inr SE_VECTOR_FORMAT_F32
      | QSymbol name \<Rightarrow> format_name name
      | QString name \<Rightarrow> format_name name
      | _ \<Rightarrow> Inl (Raise ArgumentError ''format must be :f32, :float32, :f16, or :float16''))"

datatype se_encoding_validation = SE_VALIDATE_ENCODING_FULL | SE_VALIDATE_ENCODING_PREFIX

definition resolve_encoding_validation :: "ruby_value \<Rightarrow> se_encoding_validation ruby" where
  "resolve_encoding_validation opt =
     (if opt = QUndef \<or> opt = QNil then Inr SE_VALIDATE_ENCODING_FULL
      else if opt = QSymbol ''full'' then Inr SE_VALIDATE_ENCODING_FULL
      else if opt = QSymbol ''prefix'' then Inr SE_VALIDATE_ENCODING_PREFIX
      else Inl (Raise ArgumentError ''validate_encoding: must be :full or :prefix''))"

text \<open>\<open>num2ull\<close> and \<open>num2long\<close> are the conversions of the interpreter.\<close>

definition resolve_max_tokens ::
  "(ruby_value \<Rightarrow> ('s, nat) ruby_call) \<Rightarrow> se_model \<Rightarrow> ruby_value \<Rightarrow> ('s, u32) ruby_call" where
  "resolve_max_tokens num2ull model opt =
     (if opt = QUndef \<or> opt = QNil then pureC (Inr (mt_max_tokens_default (md_meta model)))
      else if opt = QFalse then pureC (Inr 0)
      else bindC (num2ull opt) (\<lambda>v.
        if v = 0 \<or> v > 0xFFFFFFFF then
          pureC (Inl (Raise ArgumentError ''max_tokens must be between 1 and 4294967295, or false for unlimited''))
        else pureC (Inr (word_of_nat v))))"

definition reject_parallel_threads :: "(ruby_value \<Rightarrow> ('s, int) ruby_call) \<Rightarrow> ruby_value \<Rightarrow> ('s, unit) ruby_call" where
  "reject_parallel_threads num2long opts =
     (let v = lookup_option opts ''threads''
      in if v = QUndef \<or> v = QNil then pureC (Inr ())
         else bindC (num2long v) (\<lambda>threads.
           if threads \<noteq> 1 then
             pureC (Inl (Raise ArgumentError
               ''threads: is not supported by the runtime; run batches in application workers instead''))
           else pureC (Inr ())))"

definition topk_required_dim :: "(ruby_value \<Rightarrow> ('s, int) ruby_call) \<Rightarrow> ruby_value \<Rightarrow> ('s, size_t) ruby_call" where
  "topk_required_dim num2long opts =
     (let v = lookup_option opts ''dim''
      in if v = QUndef \<or> v = QNil then
           pureC (Inl (Raise ArgumentError 
             ''dim: is required (raw blobs carry no dimension or format tag); pass dim: model.dim, or call model.cosine_top_k / model.dot_top_k''))
         else bindC (num2long v) (\<lambda>dim.
           if dim < 1 then pureC (Inl (Raise ArgumentError ''dim: must be >= 1''))
           else pureC (Inr (word_of_int dim))))"

lemma check_each_keyword_ok:
  "check_each_keyword allowed kvs = Inr () \<longleftrightarrow> (\<forall>(key, _) \<in> set kvs. \<exists>name \<in> set allowed. key = QSymbol name)"
proof (induction kvs)
  case (Cons kv kvs)
  obtain key v where "kv = (key, v)" by (cases kv)
  then show ?case using Cons
    by (cases key) (auto simp: reject_unknown_keyword_i_def bindE_eq_Inr)
qed simp

text \<open>
  Keywords are accepted exactly when there are none or every key of the hash is one of the accepted
  symbols, so that a misspelled option is never ignored.
\<close>

lemma keywords_checked:
  "check_keywords opts allowed = Inr () \<longleftrightarrow>
     opts = QNil \<or> (\<exists>kvs. opts = QHash kvs \<and> (\<forall>key \<in> fst ` set kvs. \<exists>name \<in> set allowed. key = QSymbol name))"
  by (cases opts) (auto simp: check_keywords_def check_each_keyword_ok)

end
