(* ===== verification/TopKCall.thy ===== *)
theory TopKCall
  imports TopK Options
begin

text \<open>
  \<^verbatim>\<open>cosine_top_k\<close> and \<^verbatim>\<open>dot_top_k\<close>: the checks of \<^verbatim>\<open>top_k_impl\<close>, the setting up of the job, the scan and
  the list of pairs that is returned.  The query and the matrix are Ruby strings that a conversion may
  change; they are read where the source reads them.
\<close>

subsection \<open>The call\<close>

text \<open>The two strings, which Ruby code that a conversion runs may change, and what is asked of the matrix.\<close>

record topk_strings =
  tk_query :: "u8 list"
  tk_matrix :: "u8 list"
  tk_frozen :: bool
  tk_aligned :: bool

text \<open>
  The surroundings of a call: the conversion, the build, the backend, the answers of the allocator in the
  order of the requests, the cancel flag as the scan reads it (the read after the scan is that of row
  \<open>rows\<close>), and what the interrupt check does.
\<close>

record topk_env =
  te_num2long :: "ruby_value \<Rightarrow> (topk_strings, int) ruby_call"
  te_sse :: bool
  te_f16 :: f16_state
  te_alloc :: "nat \<Rightarrow> size_t \<Rightarrow> bool"
  te_cancelled :: "nat \<Rightarrow> bool"
  te_check_ints :: "unit ruby"

definition SE_TOPK_GVL_UNLOCK_THRESHOLD :: nat where
  "SE_TOPK_GVL_UNLOCK_THRESHOLD = 1024 * 1024"

text \<open>Whether the scan releases the lock and whether it needs a copy.\<close>

definition topk_check_matrix :: "topk_strings \<Rightarrow> nat \<Rightarrow> se_vector_format \<Rightarrow> ruby_value \<Rightarrow> (bool \<times> bool) ruby" where
  "topk_check_matrix s matrix_bytes format opts =
     (let large = matrix_bytes \<ge> SE_TOPK_GVL_UNLOCK_THRESHOLD;
          aligned = (format \<noteq> SE_VECTOR_FORMAT_F32 \<or> tk_aligned s);
          allow_unfrozen = lookup_option opts ''allow_unfrozen''
      in if \<not> large then Inr (False, \<not> aligned)
         else if \<not> aligned then Inl (Raise ArgumentError 
           ''matrix blob is not 4-byte aligned; copying %zu bytes would be silently expensive - pass a freshly packed String instead of a byteslice'')
         else if tk_frozen s then Inr (True, False)
         else if allow_unfrozen \<noteq> QUndef \<and> RTEST allow_unfrozen then Inr (False, False)
         else Inl (Raise ArgumentError 
           ''a matrix of %zu bytes is scanned with the GVL released and must be frozen so that no other thread can mutate it; call matrix.freeze, or pass allow_unfrozen: true to scan it while holding the GVL''))"

definition topk_pairs :: "se_topk_job \<Rightarrow> (nat \<times> u64) list" where
  "topk_pairs job =
     map (\<lambda>(i, x). (i, f64_of_f32 x))
       (takeWhile (\<lambda>(i, x). \<not> f32_eq x f32_minus_infinity)
         (zip (take (tj_k job) (tj_best_idx job)) (take (tj_k job) (tj_best_score job))))"

definition topk_matrix :: "topk_strings \<Rightarrow> bool \<Rightarrow> nat \<Rightarrow> u8 list ruby" where
  "topk_matrix s matrix_copy matrix_bytes =
     (if matrix_copy then
        (if matrix_bytes \<le> length (tk_matrix s) then Inr (take matrix_bytes (tk_matrix s)) else Inl Undefined)
      else Inr (tk_matrix s))"

definition topk_norm :: "bool \<Rightarrow> se_topk_job \<Rightarrow> se_topk_job ruby" where
  "topk_norm sse job =
     (if tj_cosine job then
        bindE (of_se (se_dot_product_f32 sse (tj_q job) (tj_q job) (tj_dim job))) (\<lambda>query_sq.
          if \<not> f32_less 0 query_sq then
            Inl (Raise ArgumentError ''cosine_top_k needs a query with a non-zero norm'')
          else Inr (job\<lparr>tj_inv_query_norm := f32_div f32_one (f32_sqrt query_sq)\<rparr>))
      else Inr job)"

definition topk_body ::
  "topk_env \<Rightarrow> topk_strings \<Rightarrow> bool \<Rightarrow> nat \<Rightarrow> bool \<Rightarrow> se_topk_job \<Rightarrow> (nat \<times> u64) list ruby" where
  "topk_body E s matrix_copy matrix_bytes release_gvl job =
     (let cancelled = (\<lambda>i. release_gvl \<and> te_cancelled E i)
      in bindE (topk_matrix s matrix_copy matrix_bytes) (\<lambda>m.
         bindE (topk_norm (te_sse E) (job\<lparr>tj_m := m\<rparr>)) (\<lambda>job.
         bindE (of_se (se_topk_execute (te_sse E) (te_f16 E) cancelled job)) (\<lambda>job.
         bindE (te_check_ints E) (\<lambda>_.
           if cancelled (tj_rows job) then Inl (Raise Interrupt ''operation cancelled'')
           else Inr (topk_pairs job))))))"

text \<open>The copy of the query as floats.\<close>

definition topk_query :: "topk_strings \<Rightarrow> se_vector_format \<Rightarrow> nat \<Rightarrow> u32 list ruby" where
  "topk_query s format dim =
     of_se (if format = SE_VECTOR_FORMAT_F16 then se_decode_f16_to_floats (tk_query s) 0 dim
            else mapR (\<lambda>j. read_u32 (tk_query s) (j * 4)) [0..<dim])"

text \<open>From the setting up of the job on; no Ruby code runs any more before the scan.\<close>

definition topk_run ::
  "topk_env \<Rightarrow> topk_strings \<Rightarrow> bool \<Rightarrow> se_vector_format \<Rightarrow> size_t \<Rightarrow> nat \<Rightarrow> nat \<Rightarrow> nat \<Rightarrow> bool \<Rightarrow> bool \<Rightarrow>
   (nat \<times> u64) list ruby" where
  "topk_run E s cosine format dim rows k matrix_bytes release_gvl needs_copy =
     (case se_checked_mul_size dim 4 of
        None \<Rightarrow> Inl (Raise ArgumentError ''dim: is too large'')
      | Some q_float_bytes \<Rightarrow>
          (case (se_array_bytes (word_of_nat k) 8, se_array_bytes (word_of_nat k) 4) of
             (Some best_idx_bytes, Some best_score_bytes) \<Rightarrow>
               if \<not> te_alloc E 0 q_float_bytes \<or> \<not> te_alloc E 1 best_idx_bytes \<or> \<not> te_alloc E 2 best_score_bytes \<or>
                 needs_copy \<and> \<not> te_alloc E 3 (word_of_nat matrix_bytes)
               then Inl (Raise NoMemoryError ''out of memory'')
               else bindE (topk_query s format (unat dim)) (\<lambda>q.
                 topk_body E s needs_copy matrix_bytes release_gvl
                   \<lparr>tj_q = q, tj_m = [], tj_format = format, tj_dim = unat dim, tj_rows = rows, tj_k = k,
                     tj_best_idx = replicate k 0, tj_best_score = replicate k f32_minus_infinity,
                     tj_cosine = cosine, tj_inv_query_norm = f32_one\<rparr>)
           | _ \<Rightarrow> Inl (Raise ArgumentError ''k is too large'')))"

definition topk_sized ::
  "topk_env \<Rightarrow> bool \<Rightarrow> ruby_value \<Rightarrow> ruby_value \<Rightarrow> se_vector_format \<Rightarrow> size_t \<Rightarrow> size_t \<Rightarrow>
   (topk_strings, (nat \<times> u64) list) ruby_call" where
  "topk_sized E cosine opts k_val format dim row_bytes s =
     (if length (tk_query s) \<noteq> unat row_bytes then
        (Inl (Raise ArgumentError ''query is %ld bytes but dim: %zu with format %s needs %zu bytes''), s)
      else if length (tk_matrix s) mod unat row_bytes \<noteq> 0 then
        (Inl (Raise ArgumentError ''matrix is %ld bytes, which is not a whole number of %zu-byte rows''), s)
      else
        let mbytes = length (tk_matrix s); rows = mbytes div unat row_bytes
        in bindC (te_num2long E k_val) (\<lambda>k s.
             if k < 1 then (Inl (Raise ArgumentError ''k must be >= 1''), s)
             else if rows = 0 then (Inr [], s)
             else
               (bindE (topk_check_matrix s mbytes format opts) (\<lambda>(release_gvl, needs_copy).
                  topk_run E s cosine format dim rows (min (nat k) rows) mbytes release_gvl needs_copy), s)) s)"

definition top_k_impl ::
  "topk_env \<Rightarrow> bool \<Rightarrow> ruby_value \<Rightarrow> ruby_value \<Rightarrow> (topk_strings, (nat \<times> u64) list) ruby_call" where
  "top_k_impl E cosine k_val opts =
     bindC (pureC (check_keywords opts [''dim'', ''format'', ''allow_unfrozen''])) (\<lambda>_.
     bindC (pureC (resolve_vector_format (lookup_option opts ''format''))) (\<lambda>format.
     bindC (topk_required_dim (te_num2long E) opts) (\<lambda>dim.
       case se_checked_mul_size dim (se_vector_format_element_bytes format) of
         None \<Rightarrow> pureC (Inl (Raise ArgumentError ''dim: is too large''))
       | Some row_bytes \<Rightarrow>
           if \<not> se_size_fits_long row_bytes then pureC (Inl (Raise ArgumentError ''dim: is too large''))
           else topk_sized E cosine opts k_val format dim row_bytes)))"

subsection \<open>The job it runs\<close>

text \<open>What is relied on: the conversions leave the strings alone, they return a \<^verbatim>\<open>long\<close> or raise, and a cancel request is not withdrawn.\<close>

definition conversions_pure :: "(ruby_value \<Rightarrow> ('s, 'a) ruby_call) \<Rightarrow> bool" where
  "conversions_pure conv = (\<forall>v s. snd (conv v s) = s)"

definition long_conversion :: "(ruby_value \<Rightarrow> ('s, int) ruby_call) \<Rightarrow> bool" where
  "long_conversion conv =
     (\<forall>v s. case fst (conv v s) of Inl e \<Rightarrow> e \<noteq> Undefined | Inr n \<Rightarrow> - (2 ^ 63) \<le> n \<and> n < 2 ^ 63)"

definition stays_cancelled :: "(nat \<Rightarrow> bool) \<Rightarrow> bool" where
  "stays_cancelled cancelled = (\<forall>i j. i \<le> j \<longrightarrow> cancelled i \<longrightarrow> cancelled j)"

text \<open>
  What a call asks for: the hits of the query among all the rows of the matrix.  The format, the dimension and \<open>k\<close> are those
  of the arguments; \<open>query_norm\<close> is the factor that makes a dot product a cosine.
\<close>

abbreviation element_bytes :: "se_vector_format \<Rightarrow> nat" where
  "element_bytes format \<equiv> unat (se_vector_format_element_bytes format)"

definition query_norm :: "bool \<Rightarrow> bool \<Rightarrow> u32 list \<Rightarrow> nat \<Rightarrow> u32 \<Rightarrow> bool" where
  "query_norm sse cosine q dim factor =
     (if cosine then \<exists>sq. se_dot_product_f32 sse q q dim = Inr sq \<and> f32_less 0 sq \<and> factor = f32_div f32_one (f32_sqrt sq)
      else factor = f32_one)"

definition asked_job ::
  "bool \<Rightarrow> topk_strings \<Rightarrow> se_vector_format \<Rightarrow> nat \<Rightarrow> nat \<Rightarrow> u32 list \<Rightarrow> u32 \<Rightarrow> se_topk_job" where
  "asked_job cosine str format dim k q factor =
     (let rows = length (tk_matrix str) div (dim * element_bytes format)
      in \<lparr>tj_q = q, tj_m = tk_matrix str, tj_format = format, tj_dim = dim, tj_rows = rows, tj_k = min k rows,
           tj_best_idx = replicate (min k rows) 0, tj_best_score = replicate (min k rows) f32_minus_infinity,
           tj_cosine = cosine, tj_inv_query_norm = factor\<rparr>)"

definition rows_hit ::
  "topk_env \<Rightarrow> bool \<Rightarrow> topk_strings \<Rightarrow> se_vector_format \<Rightarrow> nat \<Rightarrow> nat \<Rightarrow> (nat \<times> u64) list \<Rightarrow> bool" where
  "rows_hit E cosine str format dim k hits =
     (\<exists>q factor s. topk_query str format dim = Inr q \<and> length q = dim \<and> query_norm (te_sse E) cosine q dim factor \<and>
        (let job = asked_job cosine str format dim k q factor
         in (\<forall>i < tj_rows job. row_score (te_sse E) (te_f16 E) job i = Inr (s i) \<and> score_of job i (s i)) \<and>
            hits = map (\<lambda>i. (i, f64_of_f32 (s i))) (take k (ranking s (tj_rows job)))))"

definition topk_hits ::
  "topk_env \<Rightarrow> bool \<Rightarrow> ruby_value \<Rightarrow> ruby_value \<Rightarrow> topk_strings \<Rightarrow> (nat \<times> u64) list \<Rightarrow> bool" where
  "topk_hits E cosine k_val opts str hits =
     (\<exists>format dim k. resolve_vector_format (lookup_option opts ''format'') = Inr format \<and>
        fst (topk_required_dim (te_num2long E) opts str) = Inr dim \<and> fst (te_num2long E k_val str) = Inr k \<and> 1 \<le> k \<and>
        length (tk_query str) = unat dim * element_bytes format \<and>
        length (tk_matrix str) mod (unat dim * element_bytes format) = 0 \<and>
        (if tk_matrix str = [] then hits = [] else rows_hit E cosine str format (unat dim) (nat k) hits))"

text \<open>Why a call raises.\<close>

definition run_blame ::
  "topk_env \<Rightarrow> bool \<Rightarrow> topk_strings \<Rightarrow> se_vector_format \<Rightarrow> size_t \<Rightarrow> nat \<Rightarrow> ruby_fault \<Rightarrow> bool" where
  "run_blame E cosine str format dim k e =
     (e = Raise ArgumentError ''dim: is too large'' \<and> 2 ^ 64 \<le> unat dim * 4 \<or>
      e = Raise ArgumentError ''k is too large'' \<and>
        (se_array_bytes (word_of_nat k) 8 = None \<or> se_array_bytes (word_of_nat k) 4 = None) \<or>
      e = Raise NoMemoryError ''out of memory'' \<and> (\<exists>i n. \<not> te_alloc E i n) \<or>
      e = Raise ArgumentError ''cosine_top_k needs a query with a non-zero norm'' \<and> cosine \<and>
        (\<exists>q sq. topk_query str format (unat dim) = Inr q \<and> se_dot_product_f32 (te_sse E) q q (unat dim) = Inr sq \<and> \<not> f32_less 0 sq) \<or>
      te_check_ints E = Inl e \<or>
      e = Raise Interrupt ''operation cancelled'' \<and> (\<exists>i. te_cancelled E i))"

definition sized_blame ::
  "topk_env \<Rightarrow> bool \<Rightarrow> ruby_value \<Rightarrow> ruby_value \<Rightarrow> topk_strings \<Rightarrow> se_vector_format \<Rightarrow> size_t \<Rightarrow> ruby_fault \<Rightarrow> bool" where
  "sized_blame E cosine k_val opts str format dim e =
     (let row = unat dim * element_bytes format; n = length (tk_matrix str)
      in e = Raise ArgumentError ''query is %ld bytes but dim: %zu with format %s needs %zu bytes'' \<and> length (tk_query str) \<noteq> row \<or>
         e = Raise ArgumentError ''matrix is %ld bytes, which is not a whole number of %zu-byte rows'' \<and> n mod row \<noteq> 0 \<or>
         fst (te_num2long E k_val str) = Inl e \<or>
         (\<exists>k. fst (te_num2long E k_val str) = Inr k \<and>
            (e = Raise ArgumentError ''k must be >= 1'' \<and> k < 1 \<or>
             topk_check_matrix str n format opts = Inl e \<or> run_blame E cosine str format dim (min (nat k) (n div row)) e)))"

definition topk_blame :: "topk_env \<Rightarrow> bool \<Rightarrow> ruby_value \<Rightarrow> ruby_value \<Rightarrow> topk_strings \<Rightarrow> ruby_fault \<Rightarrow> bool" where
  "topk_blame E cosine k_val opts str e =
     (check_keywords opts [''dim'', ''format'', ''allow_unfrozen''] = Inl e \<or>
      resolve_vector_format (lookup_option opts ''format'') = Inl e \<or>
      fst (topk_required_dim (te_num2long E) opts str) = Inl e \<or>
      (\<exists>format dim. resolve_vector_format (lookup_option opts ''format'') = Inr format \<and>
         fst (topk_required_dim (te_num2long E) opts str) = Inr dim \<and>
         (e = Raise ArgumentError ''dim: is too large'' \<and> 2 ^ 63 \<le> unat dim * element_bytes format \<or>
          sized_blame E cosine k_val opts str format dim e)))"

lemma takeWhile_take: "takeWhile P (take n xs) = take n (takeWhile P xs)"
proof (induction xs arbitrary: n)
  case (Cons x xs)
  then show ?case by (cases n) simp_all
qed simp

lemma pairs_of_best:
  assumes "holds_best s (ranking s n) k scores idx"
  shows "topk_pairs (job\<lparr>tj_k := k, tj_best_score := scores, tj_best_idx := idx\<rparr>) =
    map (\<lambda>i. (i, f64_of_f32 (s i))) (take k (ranking s n))"
proof -
  let ?L = "ranking s n"
  obtain free where best: "scores = take k (map s ?L @ replicate k f32_minus_infinity)" "length free = k"
    "idx = take k (?L @ free)" using assms by (auto simp: holds_best_def)
  let ?P = "\<lambda>(i :: nat, x). \<not> f32_eq x f32_minus_infinity"
  have hit: "?P p" if "p \<in> set (zip ?L (map s ?L))" for p
    using that ranking_hits [of _ s n] by (fastforce simp: zip_map2 zip_same_conv_map is_hit_def f32_less_def f32_eq_def)
  have free: "\<not> ?P p" if "p \<in> set (zip free (replicate k f32_minus_infinity))" for p
    using that best(2) by (auto simp: set_zip f32_eq_def f32_is_nan_def f32_minus_infinity_def)
  have "zip (take k idx) (take k scores) = take k (zip ?L (map s ?L) @ zip free (replicate k f32_minus_infinity))"
    by (simp add: best(1,3) take_zip min_def)
  moreover have "takeWhile ?P (zip ?L (map s ?L) @ zip free (replicate k f32_minus_infinity)) = zip ?L (map s ?L)"
  proof (cases "zip free (replicate k f32_minus_infinity)")
    case Nil
    show ?thesis unfolding Nil using hit by (simp add: takeWhile_eq_all_conv)
  next
    case (Cons p ps)
    then have "\<not> ?P p" using free by simp
    then show ?thesis using hit Cons by (subst takeWhile_append2) auto
  qed
  ultimately have "takeWhile ?P (zip (take k idx) (take k scores)) = take k (zip ?L (map s ?L))"
    by (simp only: takeWhile_take)
  then show ?thesis by (simp add: topk_pairs_def take_zip take_map zip_map2 zip_same_conv_map comp_def)
qed

subsection \<open>The scan inside the call\<close>

lemma topk_execute_fields:
  assumes "topk_job_ok st job" "stays_cancelled cancelled"
  shows "\<exists>job'. se_topk_execute sse st cancelled job = Inr job' \<and> tj_rows job' = tj_rows job \<and>
    (cancelled (tj_rows job) \<or> topk_pairs job' =
       map (\<lambda>i. (i, f64_of_f32 (score_at sse st job i)))
         (take (tj_k job) (ranking (score_at sse st job) (tj_rows job))))"
proof -
  obtain n scores idx where e: "se_topk_execute sse st cancelled job =
      Inr (job\<lparr>tj_best_score := scores, tj_best_idx := idx\<rparr>)"
    "n \<le> tj_rows job" "n < tj_rows job \<longrightarrow> n mod 1024 = 0 \<and> cancelled n"
    "holds_best (score_at sse st job) (ranking (score_at sse st job) n) (tj_k job) scores idx"
    using execute_best [OF assms(1), of sse cancelled] by (elim exE conjE)
  have "job\<lparr>tj_best_score := scores, tj_best_idx := idx\<rparr> =
      job\<lparr>tj_k := tj_k job, tj_best_score := scores, tj_best_idx := idx\<rparr>" by simp
  then have "topk_pairs (job\<lparr>tj_best_score := scores, tj_best_idx := idx\<rparr>) =
      map (\<lambda>i. (i, f64_of_f32 (score_at sse st job i))) (take (tj_k job) (ranking (score_at sse st job) n))"
    using pairs_of_best [OF e(4), of job] by (simp only:)
  moreover have "cancelled (tj_rows job) \<or> n = tj_rows job"
    using e(2,3) assms(2) unfolding stays_cancelled_def by (metis le_neq_implies_less)
  ultimately show ?thesis using e(1) by auto
qed

lemma norm_cases:
  assumes "tj_dim job \<le> length (tj_q job)" "tj_inv_query_norm job = f32_one"
  shows "(\<exists>sq. topk_norm sse job = Inl (Raise ArgumentError ''cosine_top_k needs a query with a non-zero norm'') \<and>
      tj_cosine job \<and> se_dot_product_f32 sse (tj_q job) (tj_q job) (tj_dim job) = Inr sq \<and> \<not> f32_less 0 sq) \<or>
    (\<exists>factor. topk_norm sse job = Inr (job\<lparr>tj_inv_query_norm := factor\<rparr>) \<and>
      query_norm sse (tj_cosine job) (tj_q job) (tj_dim job) factor)"
proof (cases "tj_cosine job")
  case False
  then show ?thesis using assms(2) by (intro disjI2 exI [of _ f32_one]) (simp add: topk_norm_def query_norm_def)
next
  case True
  obtain x where "se_dot_product_f32 sse (tj_q job) (tj_q job) (tj_dim job) = Inr x"
    using f32_kernels(1) [of "tj_dim job" "tj_q job" "tj_q job" sse] assms(1) by blast
  then show ?thesis using True by (cases "f32_less 0 x") (simp_all add: topk_norm_def query_norm_def)
qed

lemma body_result:
  assumes job: "asked_job cosine str format (unat dim) k q f32_one = job"
    and ok: "topk_job_ok (te_f16 E) job" and q: "topk_query str format (unat dim) = Inr q" "length q = unat dim"
    and m: "topk_matrix str copy n = Inr (tk_matrix str)" and k: "min k (tj_rows job) = kk"
    and env: "stays_cancelled (te_cancelled E)" "te_check_ints E \<noteq> Inl Undefined"
  shows "case topk_body E str copy n release (job\<lparr>tj_m := []\<rparr>) of
      Inl e \<Rightarrow> e \<noteq> Undefined \<and> run_blame E cosine str format dim kk e
    | Inr hits \<Rightarrow> rows_hit E cosine str format (unat dim) k hits"
proof -
  let ?c = "\<lambda>i. release \<and> te_cancelled E i"
  have c: "stays_cancelled ?c" using env(1) by (auto simp: stays_cancelled_def)
  have f: "tj_q job = q" "tj_dim job = unat dim" "tj_cosine job = cosine" "tj_inv_query_norm job = f32_one"
    "tj_m job = tk_matrix str" by (simp_all add: job [symmetric] asked_job_def Let_def)
  have jm: "job\<lparr>tj_m := tk_matrix str\<rparr> = job" using f(5) by simp
  consider sq where "topk_norm (te_sse E) job = Inl (Raise ArgumentError ''cosine_top_k needs a query with a non-zero norm'')"
      "cosine" "se_dot_product_f32 (te_sse E) q q (unat dim) = Inr sq" "\<not> f32_less 0 sq"
    | factor where "topk_norm (te_sse E) job = Inr (job\<lparr>tj_inv_query_norm := factor\<rparr>)" "query_norm (te_sse E) cosine q (unat dim) factor"
    using norm_cases [of job "te_sse E"] f q(2) by auto
  then show ?thesis
  proof cases
    case 1
    then show ?thesis using m q(1) jm by (auto simp: topk_body_def run_blame_def Let_def)
  next
    case 2
    let ?job = "job\<lparr>tj_inv_query_norm := factor\<rparr>" and ?s = "score_at (te_sse E) (te_f16 E) (job\<lparr>tj_inv_query_norm := factor\<rparr>)"
    have ok': "topk_job_ok (te_f16 E) ?job" using ok by (simp add: topk_job_ok_def)
    have asked: "asked_job cosine str format (unat dim) k q factor = ?job" by (simp add: job [symmetric] asked_job_def Let_def)
    obtain job' where e: "se_topk_execute (te_sse E) (te_f16 E) ?c ?job = Inr job'" "tj_rows job' = tj_rows ?job"
      "?c (tj_rows ?job) \<or> topk_pairs job' = map (\<lambda>i. (i, f64_of_f32 (?s i))) (take (tj_k ?job) (ranking ?s (tj_rows ?job)))"
      using topk_execute_fields [OF ok' c, of "te_sse E"] by blast
    have body: "topk_body E str copy n release (job\<lparr>tj_m := []\<rparr>) = bindE (te_check_ints E) (\<lambda>_.
        if ?c (tj_rows ?job) then Inl (Raise Interrupt ''operation cancelled'') else Inr (topk_pairs job'))"
      using m 2(1) e(1,2) jm by (simp add: topk_body_def Let_def)
    show ?thesis
    proof (cases "te_check_ints E")
      case (Inl err)
      then show ?thesis unfolding body using env(2) by (auto simp: run_blame_def)
    next
      case (Inr u)
      show ?thesis
      proof (cases "?c (tj_rows ?job)")
        case True
        then show ?thesis unfolding body Inr by (auto simp: run_blame_def)
      next
        case False
        have "tj_k ?job = min k (tj_rows ?job)" by (simp add: job [symmetric] asked_job_def Let_def)
        moreover have "length (ranking ?s (tj_rows ?job)) \<le> tj_rows ?job"
          using length_filter_le [of "\<lambda>r. is_hit (?s r)" "[0..<tj_rows ?job]"] by (simp add: ranking_def)
        ultimately have "take (tj_k ?job) (ranking ?s (tj_rows ?job)) = take k (ranking ?s (tj_rows ?job))"
          by (auto simp: min_def)
        then have "topk_body E str copy n release (job\<lparr>tj_m := []\<rparr>) =
            Inr (map (\<lambda>i. (i, f64_of_f32 (?s i))) (take k (ranking ?s (tj_rows ?job))))"
          using e(3) False unfolding body Inr by auto
        moreover have "\<forall>i < tj_rows ?job. row_score (te_sse E) (te_f16 E) ?job i = Inr (?s i) \<and> score_of ?job i (?s i)"
          using score_at_ok [OF ok'] by blast
        then have "rows_hit E cosine str format (unat dim) k (map (\<lambda>i. (i, f64_of_f32 (?s i))) (take k (ranking ?s (tj_rows ?job))))"
          using q 2(2) unfolding rows_hit_def
          by (intro exI [of _ q] exI [of _ factor] exI [of _ ?s]) (simp only: asked Let_def simp_thms)
        ultimately show ?thesis by simp
      qed
    qed
  qed
qed

lemma decode_array:
  "n * 2 + src \<le> length mem \<Longrightarrow> \<exists>xs. se_decode_f16_to_floats mem src n = Inr xs \<and> length xs = n"
  unfolding se_decode_f16_to_floats_def by (intro mapR_upt_total) (simp add: read_u16le_Inr)

lemma query_ok:
  assumes "length (tk_query str) = dim * unat (se_vector_format_element_bytes format)"
  shows "\<exists>q. topk_query str format dim = Inr q \<and> length q = dim"
proof (cases format)
  case SE_VECTOR_FORMAT_F16
  then show ?thesis using decode_array [of dim 0 "tk_query str"] assms
    by (auto simp: topk_query_def se_vector_format_element_bytes_def)
next
  case SE_VECTOR_FORMAT_F32
  then have "\<exists>ys. mapR (\<lambda>j. read_u32 (tk_query str) (j * 4)) [0..<dim] = Inr ys \<and> length ys = dim"
    using assms by (intro mapR_upt_total read_u32_total) (simp add: se_vector_format_element_bytes_def)
  then show ?thesis using SE_VECTOR_FORMAT_F32 by (auto simp: topk_query_def)
qed

lemma run_result:
  assumes f16: "f16_ready (te_f16 E)" and k: "1 \<le> k"
    and query: "length (tk_query str) = unat dim * element_bytes format"
    and rows: "rows = length (tk_matrix str) div (unat dim * element_bytes format)" "rows \<noteq> 0"
    and env: "stays_cancelled (te_cancelled E)" "te_check_ints E \<noteq> Inl Undefined"
  shows "case topk_run E str cosine format dim rows (min k rows) (length (tk_matrix str)) release copy of
      Inl e \<Rightarrow> e \<noteq> Undefined \<and> run_blame E cosine str format dim (min k rows) e
    | Inr hits \<Rightarrow> rows_hit E cosine str format (unat dim) k hits"
proof -
  obtain q where q: "topk_query str format (unat dim) = Inr q" "length q = unat dim" using query_ok [OF query] by blast
  let ?job = "asked_job cosine str format (unat dim) k q f32_one"
  have "rows * (unat dim * element_bytes format) \<le> length (tk_matrix str)" unfolding rows(1) by (rule div_times_less_eq_dividend)
  then have "rows * unat dim * element_bytes format \<le> length (tk_matrix str)" by (simp only: mult.assoc)
  then have ok: "topk_job_ok (te_f16 E) ?job"
    using f16 k q(2) rows by (simp add: topk_job_ok_def asked_job_def Let_def)
  have r: "tj_rows ?job = rows" by (simp add: asked_job_def Let_def rows(1))
  have "topk_matrix str copy (length (tk_matrix str)) = Inr (tk_matrix str)" by (simp add: topk_matrix_def)
  note body = body_result [OF refl ok q this refl env, unfolded r, where release = release]
  have job: "\<lparr>tj_q = q, tj_m = [], tj_format = format, tj_dim = unat dim, tj_rows = rows, tj_k = min k rows,
      tj_best_idx = replicate (min k rows) 0, tj_best_score = replicate (min k rows) f32_minus_infinity,
      tj_cosine = cosine, tj_inv_query_norm = f32_one\<rparr> = ?job\<lparr>tj_m := []\<rparr>"
    by (simp add: asked_job_def Let_def rows(1))
  show ?thesis
  proof (cases "se_checked_mul_size dim 4")
    case None
    then show ?thesis by (auto simp: topk_run_def run_blame_def checked_mul_size_eq split: if_splits)
  next
    case (Some qb)
    show ?thesis
    proof (cases "\<exists>a b. se_array_bytes (word_of_nat (min k rows)) 8 = Some a \<and> se_array_bytes (word_of_nat (min k rows)) 4 = Some b \<and>
        te_alloc E 0 qb \<and> te_alloc E 1 a \<and> te_alloc E 2 b \<and> (copy \<longrightarrow> te_alloc E 3 (word_of_nat (length (tk_matrix str))))")
      case True
      then have "topk_run E str cosine format dim rows (min k rows) (length (tk_matrix str)) release copy =
          topk_body E str copy (length (tk_matrix str)) release (?job\<lparr>tj_m := []\<rparr>)"
        using Some q(1) unfolding topk_run_def job [symmetric] by auto
      then show ?thesis using body by simp
    next
      case False
      then have "topk_run E str cosine format dim rows (min k rows) (length (tk_matrix str)) release copy =
          Inl (Raise ArgumentError ''k is too large'') \<and>
            (se_array_bytes (word_of_nat (min k rows)) 8 = None \<or> se_array_bytes (word_of_nat (min k rows)) 4 = None) \<or>
          topk_run E str cosine format dim rows (min k rows) (length (tk_matrix str)) release copy =
            Inl (Raise NoMemoryError ''out of memory'') \<and> (\<exists>i n. \<not> te_alloc E i n)"
        using Some by (auto simp: topk_run_def split: option.split) blast+
      then show ?thesis by (elim disjE conjE) (simp_all add: run_blame_def)
    qed
  qed
qed

lemma long_raises: "long_conversion conv \<Longrightarrow> fst (conv v s) = Inl e \<Longrightarrow> \<exists>c msg. e = Raise c msg"
proof -
  assume a: "long_conversion conv" "fst (conv v s) = Inl e"
  have "case fst (conv v s) of Inl e \<Rightarrow> e \<noteq> Undefined | Inr n \<Rightarrow> - (2 ^ 63) \<le> n \<and> n < 2 ^ 63"
    using a(1) unfolding long_conversion_def by blast
  then have "e \<noteq> Undefined" using a(2) by simp
  then show "\<exists>c msg. e = Raise c msg" by (cases e) auto
qed

lemma sized_result:
  assumes f16: "f16_ready (te_f16 E)" and conv: "conversions_pure (te_num2long E)"
    and long: "long_conversion (te_num2long E)"
    and env: "stays_cancelled (te_cancelled E)" "te_check_ints E \<noteq> Inl Undefined"
    and bytes: "unat row_bytes = unat dim * element_bytes format" "dim \<noteq> 0"
    and args: "resolve_vector_format (lookup_option opts ''format'') = Inr format"
      "fst (topk_required_dim (te_num2long E) opts str) = Inr dim"
  shows "\<exists>r. topk_sized E cosine opts k_val format dim row_bytes str = (r, str) \<and>
    (case r of Inl e \<Rightarrow> e \<noteq> Undefined \<and> sized_blame E cosine k_val opts str format dim e
     | Inr hits \<Rightarrow> topk_hits E cosine k_val opts str hits)"
proof -
  let ?row = "unat dim * element_bytes format" and ?n = "length (tk_matrix str)"
  obtain r where r: "te_num2long E k_val str = (r, str)"
    using conv by (metis conversions_pure_def prod.collapse)
  show ?thesis
  proof (cases "length (tk_query str) = ?row \<and> ?n mod ?row = 0")
    case False
    then show ?thesis using bytes(1) by (auto simp: topk_sized_def sized_blame_def Let_def)
  next
    case sizes: True
    show ?thesis
    proof (cases r)
      case (Inl e)
      then show ?thesis using long_raises [OF long, of k_val str] r sizes bytes(1)
        by (auto simp: topk_sized_def bindC_def sized_blame_def Let_def)
    next
      case (Inr k)
      consider "k < 1" | "\<not> k < 1" "?n div ?row = 0" | "\<not> k < 1" "?n div ?row \<noteq> 0" by blast
      then show ?thesis
      proof cases
        case 1
        then show ?thesis using Inr r sizes bytes(1) by (simp add: topk_sized_def bindC_def sized_blame_def Let_def)
      next
        case 2
        then have "?n = 0" using sizes div_mult_mod_eq [of ?n ?row] by simp
        then show ?thesis using 2 Inr r sizes bytes(1) args by (simp add: topk_sized_def bindC_def topk_hits_def)
      next
        case 3
        then have nonempty: "tk_matrix str \<noteq> []" by auto
        have k: "1 \<le> nat k" using 3(1) by simp
        have run: "case topk_run E str cosine format dim (?n div ?row) (min (nat k) (?n div ?row)) ?n release copy of
            Inl e \<Rightarrow> e \<noteq> Undefined \<and> run_blame E cosine str format dim (min (nat k) (?n div ?row)) e
          | Inr hits \<Rightarrow> rows_hit E cosine str format (unat dim) (nat k) hits" for release copy
          using run_result [OF f16 k _ refl 3(2) env] sizes by blast
        have call: "topk_sized E cosine opts k_val format dim row_bytes str =
            (bindE (topk_check_matrix str ?n format opts) (\<lambda>(release, copy).
               topk_run E str cosine format dim (?n div ?row) (min (nat k) (?n div ?row)) ?n release copy), str)"
          using 3 Inr r sizes bytes(1) by (simp add: topk_sized_def bindC_def Let_def)
        show ?thesis
        proof (cases "topk_check_matrix str ?n format opts")
          case (Inl e)
          then have "e \<noteq> Undefined" by (auto simp: topk_check_matrix_def Let_def split: if_splits)
          then show ?thesis using call Inl r \<open>r = Inr k\<close> by (auto simp: sized_blame_def Let_def)
        next
          case (Inr p)
          obtain release copy where p: "p = (release, copy)" by (cases p)
          show ?thesis
          proof (cases "topk_run E str cosine format dim (?n div ?row) (min (nat k) (?n div ?row)) ?n release copy")
            case (Inl e)
            then show ?thesis using run [of release copy] call Inr p r \<open>r = Inr k\<close> by (auto simp: sized_blame_def Let_def)
          next
            case hits: (Inr hits)
            then show ?thesis using run [of release copy] call Inr p r \<open>r = Inr k\<close> sizes args 3(1) nonempty
              by (auto simp: topk_hits_def)
          qed
        qed
      qed
    qed
  qed
qed

subsection \<open>Properties\<close>

lemma dim_ok:
  assumes "conversions_pure conv" "long_conversion conv"
  shows "(\<exists>e. e \<noteq> Undefined \<and> topk_required_dim conv opts str = (Inl e, str)) \<or>
    (\<exists>dim. dim \<noteq> 0 \<and> topk_required_dim conv opts str = (Inr dim, str))"
proof -
  let ?v = "lookup_option opts ''dim''"
  obtain r where r: "conv ?v str = (r, str)" using assms(1) by (metis conversions_pure_def prod.collapse)
  show ?thesis
  proof (cases r)
    case (Inl e)
    then show ?thesis using r long_raises [OF assms(2), of ?v str e]
      by (auto simp: topk_required_dim_def Let_def bindC_def pureC_def)
  next
    case (Inr n)
    have "case fst (conv ?v str) of Inl e \<Rightarrow> e \<noteq> Undefined | Inr n \<Rightarrow> - (2 ^ 63) \<le> n \<and> n < 2 ^ 63"
      using assms(2) unfolding long_conversion_def by blast
    then have "n < 2 ^ 63" using r Inr by simp
    then have "word_of_int n \<noteq> (0 :: size_t)" if "1 \<le> n"
      using that by (simp add: word_of_int_eq_0_iff zdvd_not_zless)
    then show ?thesis using r Inr by (auto simp: topk_required_dim_def Let_def bindC_def pureC_def not_less)
  qed
qed

lemma keywords_raise: "check_keywords opts l \<noteq> Inl Undefined"
proof -
  have "check_each_keyword l kvs \<noteq> Inl Undefined" for kvs
    by (induction l kvs rule: check_each_keyword.induct)
      (auto simp: reject_unknown_keyword_i_def bindE_def split: ruby_value.splits sum.splits)
  then show ?thesis by (cases opts) (auto simp: check_keywords_def)
qed

lemma format_raise: "resolve_vector_format v \<noteq> Inl Undefined"
  by (cases v) (auto simp: resolve_vector_format_def format_name_def)

text \<open>The arguments are refused, or the rest of the call runs with sizes that fit.\<close>

lemma impl_result:
  assumes "f16_ready (te_f16 E)" "conversions_pure (te_num2long E)" "long_conversion (te_num2long E)"
    and "stays_cancelled (te_cancelled E)" "te_check_ints E \<noteq> Inl Undefined"
  shows "\<exists>r. top_k_impl E cosine k_val opts str = (r, str) \<and>
    (case r of Inl e \<Rightarrow> e \<noteq> Undefined \<and> topk_blame E cosine k_val opts str e
     | Inr hits \<Rightarrow> topk_hits E cosine k_val opts str hits)"
proof -
  let ?kw = "check_keywords opts [''dim'', ''format'', ''allow_unfrozen'']"
    and ?fmt = "resolve_vector_format (lookup_option opts ''format'')"
    and ?dim = "topk_required_dim (te_num2long E) opts str"
  consider e where "?kw = Inl e" | e where "?kw = Inr ()" "?fmt = Inl e"
    | e format where "?kw = Inr ()" "?fmt = Inr format" "?dim = (Inl e, str)" "e \<noteq> Undefined"
    | dim format where "?kw = Inr ()" "?fmt = Inr format" "dim \<noteq> 0" "?dim = (Inr dim, str)"
    using dim_ok [OF assms(2,3), of opts str] by (cases ?kw; cases ?fmt) auto
  then show ?thesis
  proof cases
    case 1
    then show ?thesis using keywords_raise [of opts "[''dim'', ''format'', ''allow_unfrozen'']"]
      by (auto simp: top_k_impl_def bindC_def pureC_def topk_blame_def)
  next
    case 2
    then show ?thesis using format_raise [of "lookup_option opts ''format''"]
      by (auto simp: top_k_impl_def bindC_def pureC_def topk_blame_def)
  next
    case 3
    then show ?thesis by (auto simp: top_k_impl_def bindC_def pureC_def topk_blame_def)
  next
    case 4
    have large: "topk_blame E cosine k_val opts str (Raise ArgumentError ''dim: is too large'')"
      if "2 ^ 63 \<le> unat dim * element_bytes format" using 4 that by (auto simp: topk_blame_def)
    have impl: "top_k_impl E cosine k_val opts str =
      (case se_checked_mul_size dim (se_vector_format_element_bytes format) of
         None \<Rightarrow> (Inl (Raise ArgumentError ''dim: is too large''), str)
       | Some row_bytes \<Rightarrow>
           if \<not> se_size_fits_long row_bytes then (Inl (Raise ArgumentError ''dim: is too large''), str)
           else topk_sized E cosine opts k_val format dim row_bytes str)"
      using 4 by (auto simp: top_k_impl_def bindC_def pureC_def split: option.splits)
    show ?thesis
    proof (cases "se_checked_mul_size dim (se_vector_format_element_bytes format)")
      case None
      then have "2 ^ 63 \<le> unat dim * element_bytes format" by (simp add: checked_mul_size_eq split: if_splits)
      then show ?thesis using impl None large by simp
    next
      case (Some row_bytes)
      then have row: "unat row_bytes = unat dim * element_bytes format"
        by (simp add: checked_mul_size_Some)
      show ?thesis
      proof (cases "se_size_fits_long row_bytes")
        case False
        then have "2 ^ 63 \<le> unat dim * element_bytes format"
          using row by (simp add: se_size_fits_long_def LONG_MAX_def word_le_nat_alt)
        then show ?thesis using impl Some False large by simp
      next
        case True
        have fst: "fst ?dim = Inr dim" using 4(4) by simp
        from sized_result [OF assms row 4(3,2) fst, of cosine k_val] obtain r where
          "topk_sized E cosine opts k_val format dim row_bytes str = (r, str)"
          "case r of Inl e \<Rightarrow> e \<noteq> Undefined \<and> sized_blame E cosine k_val opts str format dim e
           | Inr hits \<Rightarrow> topk_hits E cosine k_val opts str hits" by blast
        then show ?thesis using impl Some True 4(2) fst by (auto simp: topk_blame_def split: sum.splits)
      qed
    qed
  qed
qed

text \<open>
  Property C9: a call of \<^verbatim>\<open>cosine_top_k\<close> or \<^verbatim>\<open>dot_top_k\<close> whose conversions leave the strings alone never
  reads outside a string or a buffer.  When it returns, the pairs are the first \<open>k\<close> rows of the ranking of all rows of the matrix
  by their scores for the query of the call, in the format, with the dimension and by the measure that were asked for, where the kernel
  that computes a score is that of the platform; an empty matrix has no pairs.  When it raises, the reason is the
  one that is reported.
\<close>

theorem topk_call_answers:
  assumes "f16_ready (te_f16 E)" and "conversions_pure (te_num2long E)" and "long_conversion (te_num2long E)"
    and "stays_cancelled (te_cancelled E)" and "te_check_ints E \<noteq> Inl Undefined"
    and "top_k_impl E cosine k_val opts str = (r, str')"
  shows "str' = str \<and>
    (case r of Inr hits \<Rightarrow> topk_hits E cosine k_val opts str hits
     | Inl e \<Rightarrow> e \<noteq> Undefined \<and> topk_blame E cosine k_val opts str e)"
  using impl_result [OF assms(1-5), of cosine k_val opts str] assms(6) by auto

definition example_topk_env :: topk_env where
  "example_topk_env = \<lparr>te_num2long = (\<lambda>v s. (Inr 1, s)), te_sse = True, te_f16 = f16c_state,
     te_alloc = (\<lambda>_ _. True), te_cancelled = (\<lambda>_. False), te_check_ints = Inr ()\<rparr>"

definition example_strings :: topk_strings where
  "example_strings = \<lparr>tk_query = [0, 0, 0x80, 0x3F], tk_matrix = [0, 0, 0x80, 0x3F], tk_frozen = False, tk_aligned = True\<rparr>"

theorem topk_call_answers_witness:
  "fst (top_k_impl example_topk_env True (QObject 1) (QHash [(QSymbol ''dim'', QObject 1)]) example_strings) \<noteq> Inl Undefined"
proof -
  let ?opts = "QHash [(QSymbol ''dim'', QObject 1)]"
  obtain r str' where r: "top_k_impl example_topk_env True (QObject 1) ?opts example_strings = (r, str')" by (metis surj_pair)
  have "r \<noteq> Inl Undefined"
    using topk_call_answers [OF _ _ _ _ _ r]
    by (auto simp: example_topk_env_def f16c_ready conversions_pure_def long_conversion_def stays_cancelled_def)
  then show ?thesis using r by simp
qed

lemmas topk_eval = top_k_impl_def bindC_def pureC_def check_keywords_def reject_unknown_keyword_i_def
  resolve_vector_format_def lookup_option_def topk_required_dim_def se_vector_format_element_bytes_def
  checked_mul_size_eq se_size_fits_long_def LONG_MAX_def word_le_nat_alt topk_sized_def topk_check_matrix_def
  SE_TOPK_GVL_UNLOCK_THRESHOLD_def topk_run_def se_array_bytes_def topk_query_def read_u32_def rdR_def
  topk_body_def topk_matrix_def topk_norm_def se_topk_execute_def topk_loop.simps topk_row_def row_score_def
  f32_row_def of_se_def Let_def

definition shrinking_env :: topk_env where
  "shrinking_env = example_topk_env\<lparr>te_num2long :=
     (\<lambda>v s. (Inr 1, if v = QObject 0 then s\<lparr>tk_matrix := []\<rparr> else s))\<rparr>"

text \<open>
  The assumption on the conversions is needed.  The size of the matrix is read before \<open>k\<close> is
  converted; a \<^verbatim>\<open>to_int\<close> that empties the matrix makes the scan read past its end.
\<close>

lemma topk_call_shrunk_matrix:
  "fst (top_k_impl shrinking_env False (QObject 0) (QHash [(QSymbol ''dim'', QObject 1)]) example_strings) =
     Inl Undefined"
  by (simp add: topk_eval shrinking_env_def example_topk_env_def example_strings_def)

definition tiny_row :: topk_strings where
  "tiny_row = \<lparr>tk_query = [0, 0, 0x80, 0x3F], tk_matrix = [0x4D, 0x9B, 0x59, 0x1A], tk_frozen = False, tk_aligned = True\<rparr>"

lemmas f32_eval = f32_mul_def f32_add_def f32_div_def f32_sqrt_def f32_num_def num_of_def Let_def least_exp_def
  f32_bits_def bits_of_def round_magnitude_def bit_length.simps round_even_def int_sqrt.simps sticky_def signed_nat_def

lemma tiny_arith:
  "f32_mul f32_one f32_one = f32_one" "f32_sqrt f32_one = f32_one" "f32_div f32_one f32_one = f32_one"
  "f32_add 0 f32_one = f32_one" "f32_mul f32_one 0x1A599B4D = 0x1A599B4D" "f32_mul 0x1A599B4D 0x1A599B4D = 1"
  "f32_add 0 0x1A599B4D = 0x1A599B4D" "f32_add 0 1 = 1" "f32_add 0 0 = 0"
  "f32_mul 0x1A599B4D f32_one = 0x1A599B4D" "f32_sqrt 1 = 0x1A3504F3" "f32_div 0x1A599B4D 0x1A3504F3 = 0x3F99DF03"
  by (simp_all add: f32_eval f32_one_def)

lemma tiny_order: "f32_less 0 1" "f32_less 0 f32_one" "f32_less f32_minus_infinity 0x3F99DF03" "\<not> f32_eq 0x3F99DF03 f32_minus_infinity"
  by (simp_all add: f32_less_def f32_eq_def f32_is_nan_def f32_key_def signed_nat_def f32_one_def f32_minus_infinity_def)

lemma tiny_double: "f64_of_f32 0x3F99DF03 = 0x3FF33BE060000000"
  by (simp add: f64_of_f32_def f64_bits_def f32_eval)

lemma tiny_dot:
  "se_dot_product_f32 True [f32_one] [f32_one] 1 = Inr f32_one"
  "se_dot_and_row_sq_f32 True [f32_one] [0x1A599B4D] 1 = Inr (0x1A599B4D, 1)"
  by (simp_all add: se_dot_product_f32_def se_dot_and_row_sq_f32_def dot_sse_def lanes_loop.simps tail_loop.simps
      hsum4_def f32_product_def f32_product_and_sq_def rdR_def pair_add_def tiny_arith Let_def numeral_eq_Suc)

lemma tiny_bytes: "join_u32 0 0 0x80 0x3F = f32_one" "join_u32 0x4D 0x9B 0x59 0x1A = 0x1A599B4D"
  by (simp_all add: join_u32_def f32_one_def)

lemma tiny_above_one: "f32_less f32_one 0x3F99DF03"
  by (simp add: f32_less_def f32_is_nan_def f32_key_def signed_nat_def f32_one_def)

text \<open>
  A cosine may exceed 1.  The square of a row with tiny components is a subnormal number of few
  digits, and its root is too small: for the query \<open>[1.0]\<close> and the row \<open>[4.5e-23]\<close> the score is
  1.2021\<dots> (\<^verbatim>\<open>0x3FF33BE060000000\<close>).
\<close>

lemma cosine_above_one:
  "fst (top_k_impl example_topk_env True (QObject 1) (QHash [(QSymbol ''dim'', QObject 1)]) tiny_row) =
     Inr [(0, 0x3FF33BE060000000)] \<and> f32_less f32_one 0x3F99DF03"
  by (simp add: topk_eval example_topk_env_def tiny_row_def tiny_bytes tiny_dot [simplified] tiny_order tiny_arith
      cosine_score_def insert_score_def wrR_def topk_pairs_def tiny_double tiny_above_one)

end
