(* ===== verification/Embed.thy ===== *)
theory Embed
  imports Dot Prefix
begin

text \<open>
  Pooling, of \<^verbatim>\<open>se_embed.c\<close>: the loops over the components of a vector, the sum of the rows of the ids,
  its scaling, \<^verbatim>\<open>se_embed_ids\<close>, \<^verbatim>\<open>se_embed_one\<close> and \<^verbatim>\<open>se_model_warmup\<close>.  The argument \<open>sse\<close> says whether the
  build has the SSE loops; floats are those of theory \<open>Floats\<close>.  The accumulator is the list that the loops pass on, and
  its capacity is that of the scratch; \<open>out\<close> is the array the result is written to.  Prefetching and
  \<^verbatim>\<open>madvise\<close> change nothing that is modelled, and the page size of \<^verbatim>\<open>sysconf\<close> is a parameter.

  The specification \<open>embeds\<close> gives the embedding of a list of ids.  The sum of squares may be taken in any grouping
  of its terms; the sum of the rows is in the order of the ids.
\<close>

subsection \<open>Loops over the components of a vector\<close>

text \<open>
  A loop that computes each component of an array and stores it: four registers of four components at a time
  where the build has SSE, then one component at a time.  A register is loaded before it is stored.
\<close>

definition store_group :: "(nat \<Rightarrow> u32 list \<Rightarrow> u32 se_result) \<Rightarrow> nat \<Rightarrow> u32 list \<Rightarrow> u32 list se_result" where
  "store_group f j v =
     bindR (mapR (\<lambda>i. f i v) [j..<j + 4]) (\<lambda>xs. foldR (\<lambda>v (i, x). wrR v i x) v (zip [j..<j + 4] xs))"

function quad_loop :: "(nat \<Rightarrow> u32 list \<Rightarrow> u32 se_result) \<Rightarrow> nat \<Rightarrow> nat \<Rightarrow> u32 list \<Rightarrow> (nat \<times> u32 list) se_result" where
  "quad_loop f dim j v =
     (if j + 15 < dim then
        bindR (store_group f j v) (\<lambda>v. bindR (store_group f (j + 4) v) (\<lambda>v.
        bindR (store_group f (j + 8) v) (\<lambda>v. bindR (store_group f (j + 12) v) (\<lambda>v.
          quad_loop f dim (j + 16) v))))
      else Inr (j, v))"
  by pat_completeness auto
termination by (relation "measure (\<lambda>(f, dim, j, v). dim - j)") auto

declare quad_loop.simps [simp del]

function single_loop :: "(nat \<Rightarrow> u32 list \<Rightarrow> u32 se_result) \<Rightarrow> nat \<Rightarrow> nat \<Rightarrow> u32 list \<Rightarrow> u32 list se_result" where
  "single_loop f dim j v =
     (if j < dim then bindR (f j v) (\<lambda>x. bindR (wrR v j x) (\<lambda>v. single_loop f dim (j + 1) v)) else Inr v)"
  by pat_completeness auto
termination by (relation "measure (\<lambda>(f, dim, j, v). dim - j)") auto

declare single_loop.simps [simp del]

definition each_component :: "bool \<Rightarrow> (nat \<Rightarrow> u32 list \<Rightarrow> u32 se_result) \<Rightarrow> nat \<Rightarrow> u32 list \<Rightarrow> u32 list se_result" where
  "each_component sse f dim v =
     bindR (if sse then quad_loop f dim 0 v else Inr (0, v)) (\<lambda>(j, v). single_loop f dim j v)"

text \<open>The row begins at \<open>off\<close> of the matrix.\<close>

definition add_row :: "bool \<Rightarrow> u32 list \<Rightarrow> u32 list \<Rightarrow> nat \<Rightarrow> nat \<Rightarrow> u32 list se_result" where
  "add_row sse acc matrix off dim =
     each_component sse (\<lambda>j acc. bindR (rdR acc j) (\<lambda>a. bindR (rdR matrix (off + j)) (\<lambda>r. Inr (f32_add a r)))) dim acc"

text \<open>The source is another array, or \<open>None\<close> for the destination itself.\<close>

definition scale_copy :: "bool \<Rightarrow> u32 list \<Rightarrow> u32 list option \<Rightarrow> nat \<Rightarrow> u32 \<Rightarrow> u32 list se_result" where
  "scale_copy sse out acc dim factor =
     each_component sse (\<lambda>j out. bindR (rdR (case acc of None \<Rightarrow> out | Some acc \<Rightarrow> acc) j) (\<lambda>a. Inr (f32_mul a factor))) dim out"

definition f64_square :: "u32 list \<Rightarrow> nat \<Rightarrow> u64 se_result" where
  "f64_square vec j = bindR (rdR vec j) (\<lambda>x. Inr (f64_mul (f64_of_f32 x) (f64_of_f32 x)))"

text \<open>Two registers of two doubles, whose lanes are the first and second pair of four components.\<close>

definition sum_sq_d :: "bool \<Rightarrow> u32 list \<Rightarrow> nat \<Rightarrow> u64 se_result" where
  "sum_sq_d sse vec dim =
     (if sse then
        bindR (lanes_loop f64_add (f64_square vec) 4 dim 0 (replicate 4 0)) (\<lambda>(j, s).
          tail_loop f64_add (f64_square vec) dim j (f64_add (f64_add (s ! 0) (s ! 2)) (f64_add (s ! 1) (s ! 3))))
      else tail_loop f64_add (f64_square vec) dim 0 0)"

definition inverse_root :: "u64 \<Rightarrow> u32" where
  "inverse_root sq = f32_of_f64 (f64_div f64_one (f64_sqrt sq))"

definition se_l2_normalize :: "bool \<Rightarrow> u32 list \<Rightarrow> nat \<Rightarrow> u32 list se_result" where
  "se_l2_normalize sse vec dim =
     bindR (sum_sq_d sse vec dim) (\<lambda>sq.
       if f64_not_positive sq then Inr vec else scale_copy sse vec None dim (inverse_root sq))"

subsection \<open>What the loops compute\<close>

definition half_done :: "(nat \<Rightarrow> u32) \<Rightarrow> u32 list \<Rightarrow> nat \<Rightarrow> u32 list" where
  "half_done g v j = map g [0..<j] @ drop j v"

lemma half_done_length [simp]: "j \<le> length v \<Longrightarrow> length (half_done g v j) = length v"
  by (simp add: half_done_def)

lemma half_done_nth: "j \<le> i \<Longrightarrow> i < length v \<Longrightarrow> half_done g v j ! i = v ! i"
  by (simp add: half_done_def nth_append)

lemma half_done_store: "j < length v \<Longrightarrow> (half_done g v j)[j := g j] = half_done g v (Suc j)"
  by (simp add: half_done_def list_update_append Cons_nth_drop_Suc [symmetric])

text \<open>A function that reads the array at its own place only.\<close>

definition own_place :: "(nat \<Rightarrow> u32 list \<Rightarrow> u32 se_result) \<Rightarrow> nat \<Rightarrow> u32 list \<Rightarrow> (nat \<Rightarrow> u32) \<Rightarrow> bool" where
  "own_place f dim v g =
     (dim \<le> length v \<and> (\<forall>i < dim. \<forall>v'. length v' = length v \<and> v' ! i = v ! i \<longrightarrow> f i v' = Inr (g i)))"

lemma own_place_at: "own_place f dim v g \<Longrightarrow> j \<le> i \<Longrightarrow> i < dim \<Longrightarrow> f i (half_done g v j) = Inr (g i)"
  by (auto simp: own_place_def half_done_nth)

lemma store_group_eq:
  assumes "own_place f dim v g" "j + 3 < dim" "k = j + 4"
  shows "store_group f j (half_done g v j) = Inr (half_done g v k)"
proof -
  have len: "j + 3 < length v" using assms by (simp add: own_place_def)
  have upt: "[j..<j + 4] = [j, Suc j, Suc (Suc j), Suc (Suc (Suc j))]" by (simp add: upt_rec)
  have reads: "mapR (\<lambda>i. f i (half_done g v j)) [j..<j + 4] = Inr (map g [j..<j + 4])"
    using assms by (intro mapR_Inr own_place_at) auto
  show ?thesis
    unfolding store_group_def reads unfolding upt assms(3) using len
    by (simp add: wrR_def half_done_store numeral_eq_Suc)
qed

lemma quad_loop_eq:
  assumes "own_place f dim v g"
  shows "j \<le> dim \<Longrightarrow> \<exists>j' \<le> dim. quad_loop f dim j (half_done g v j) = Inr (j', half_done g v j')"
proof (induction "dim - j" arbitrary: j rule: less_induct)
  case less
  show ?case
  proof (cases "j + 15 < dim")
    case False
    then show ?thesis using less.prems by (subst quad_loop.simps) auto
  next
    case True
    then have "quad_loop f dim j (half_done g v j) = quad_loop f dim (j + 16) (half_done g v (j + 16))"
      using store_group_eq [OF assms, of j "j + 4"] store_group_eq [OF assms, of "j + 4" "j + 8"]
        store_group_eq [OF assms, of "j + 8" "j + 12"] store_group_eq [OF assms, of "j + 12" "j + 16"]
      by (subst quad_loop.simps) simp
    moreover have "\<exists>j' \<le> dim. quad_loop f dim (j + 16) (half_done g v (j + 16)) = Inr (j', half_done g v j')"
      using True by (intro less.hyps) auto
    ultimately show ?thesis by simp
  qed
qed

lemma single_loop_eq:
  assumes "own_place f dim v g"
  shows "j \<le> dim \<Longrightarrow> single_loop f dim j (half_done g v j) = Inr (half_done g v dim)"
proof (induction "dim - j" arbitrary: j rule: less_induct)
  case less
  show ?case
  proof (cases "j < dim")
    case False
    then show ?thesis using less.prems by (subst single_loop.simps) simp
  next
    case True
    then have "j < length v" using assms by (simp add: own_place_def)
    moreover have "single_loop f dim (Suc j) (half_done g v (Suc j)) = Inr (half_done g v dim)"
      using True by (intro less.hyps) auto
    ultimately show ?thesis using True own_place_at [OF assms, of j j]
      by (subst single_loop.simps) (simp add: wrR_def half_done_store)
  qed
qed

lemma each_component_eq:
  assumes "own_place f dim v g"
  shows "each_component sse f dim v = Inr (map g [0..<dim] @ drop dim v)"
proof -
  have v: "v = half_done g v 0" by (simp add: half_done_def)
  obtain j where "j \<le> dim" "quad_loop f dim 0 v = Inr (j, half_done g v j)"
    using quad_loop_eq [OF assms, of 0] v by auto
  then have "each_component sse f dim v = Inr (half_done g v dim)"
    using single_loop_eq [OF assms, of j] single_loop_eq [OF assms, of 0] v by (simp add: each_component_def)
  then show ?thesis by (simp add: half_done_def)
qed

lemma add_row_eq:
  "length acc = dim \<Longrightarrow> off + dim \<le> length matrix \<Longrightarrow>
     add_row sse acc matrix off dim = Inr (map (\<lambda>j. f32_add (acc ! j) (matrix ! (off + j))) [0..<dim])"
  unfolding add_row_def
  by (subst each_component_eq [where g = "\<lambda>j. f32_add (acc ! j) (matrix ! (off + j))"])
    (auto simp: own_place_def read_simps)

lemma scale_copy_eq:
  assumes "length out = dim" "acc = Some v \<and> length v = dim \<or> acc = None \<and> v = out"
  shows "scale_copy sse out acc dim factor = Inr (map (\<lambda>x. f32_mul x factor) v)"
proof -
  have "scale_copy sse out acc dim factor = Inr (map (\<lambda>j. f32_mul (v ! j) factor) [0..<dim] @ drop dim out)"
    unfolding scale_copy_def using assms
    by (intro each_component_eq) (auto simp: own_place_def read_simps)
  moreover have "map (\<lambda>j. f32_mul (v ! j) factor) [0..<dim] = map (\<lambda>x. f32_mul x factor) v"
    using assms by (auto intro: nth_equalityI)
  ultimately show ?thesis using assms(1) by simp
qed

text \<open>A sum of the squares of the components, in doubles.\<close>

definition squares_sum :: "u32 list \<Rightarrow> nat \<Rightarrow> u64 \<Rightarrow> bool" where
  "squares_sum v dim x =
     added f64_add 0 (\<lambda>j. f64_mul (f64_of_f32 (v ! j)) (f64_of_f32 (v ! j))) (mset [0..<dim]) x"

lemma sum_sq_eq:
  assumes "dim \<le> length v"
  shows "\<exists>x. sum_sq_d sse v dim = Inr x \<and> squares_sum v dim x"
proof -
  let ?f = "\<lambda>j. f64_mul (f64_of_f32 (v ! j)) (f64_of_f32 (v ! j))"
  have p: "\<forall>j < dim. \<exists>x. f64_square v j = Inr x \<and> added f64_add 0 ?f {#j#} x"
    by (intro allI impI one_product) (use assms in \<open>simp add: f64_square_def read_simps\<close>)
  obtain j s As where l: "lanes_loop f64_add (f64_square v) 4 dim 0 (replicate 4 0) = Inr (j, s)" "j \<le> dim" "length s = 4"
    "list_all2 (added f64_add 0 ?f) As s" "sum_list As = mset [0..<j]" by (rule some_order.lanes_start [OF p])
  obtain a b c d where s: "s = [a, b, c, d]" using l(3) by (auto simp: numeral_eq_Suc length_Suc_conv)
  then obtain A B C D where As: "As = [A, B, C, D]" "added f64_add 0 ?f A a" "added f64_add 0 ?f B b"
    "added f64_add 0 ?f C c" "added f64_add 0 ?f D d" using l(4) by (auto simp: list_all2_Cons2)
  have "added f64_add 0 ?f (A + C + (B + D)) (f64_add (f64_add a c) (f64_add b d))"
    by (intro added.added_both As)
  moreover have "A + C + (B + D) = mset [0..<j]" using l(5) As(1) by (simp add: algebra_simps)
  ultimately have "\<exists>x. tail_loop f64_add (f64_square v) dim j (f64_add (f64_add a c) (f64_add b d)) = Inr x \<and>
      added f64_add 0 ?f (mset [0..<dim]) x"
    by (intro some_order.tail_sums [OF p l(2)]) simp
  moreover have "\<exists>x. tail_loop f64_add (f64_square v) dim 0 0 = Inr x \<and> added f64_add 0 ?f (mset [0..<dim]) x"
    by (intro some_order.tail_sums [OF p le0]) (simp add: added.added_zero)
  ultimately show ?thesis using l(1) unfolding sum_sq_d_def squares_sum_def s by (cases sse) auto
qed

subsection \<open>Pooling\<close>

text \<open>The number of polls of the cancel flag so far is an argument, so that the answers of the environment are used in order.\<close>

fun pool_loop ::
  "bool \<Rightarrow> se_model \<Rightarrow> (nat \<Rightarrow> bool) \<Rightarrow> nat \<Rightarrow> nat \<Rightarrow> u32 list \<Rightarrow> u32 list \<Rightarrow> nat \<Rightarrow> (u32 list \<times> nat) se_result" where
  "pool_loop sse m cancelled polls i [] acc used = Inr (acc, used)"
| "pool_loop sse m cancelled polls i (t # ts) acc used =
     (if i mod 256 = 0 \<and> cancelled polls then Inl (SeError SE_ERR_INTERNAL ''operation cancelled'')
      else let polls = (if i mod 256 = 0 then polls + 1 else polls) in
        if t \<ge> mt_vocab_size (md_meta m) then Inl (SeError SE_ERR_INVALID_FORMAT ''token id %u is out of range'')
        else if mt_unk_policy (md_meta m) = SE_UNK_DROP \<and> t = mt_unk_id (md_meta m)
        then pool_loop sse m cancelled polls (i + 1) ts acc used
        else bindR (add_row sse acc (md_embeddings m) (unat t * unat (mt_dim (md_meta m))) (unat (mt_dim (md_meta m)))) (\<lambda>acc.
          pool_loop sse m cancelled polls (i + 1) ts acc (used + 1)))"

definition zero_vector :: "nat \<Rightarrow> u32 list" where
  "zero_vector dim = replicate dim 0"

text \<open>The accumulated rows as the result.\<close>

definition finish_pool :: "bool \<Rightarrow> se_model \<Rightarrow> u32 list \<Rightarrow> nat \<Rightarrow> u32 list \<Rightarrow> u32 list se_result" where
  "finish_pool sse m acc used out =
     (let dim = unat (mt_dim (md_meta m)) in
      if used = 0 then
        (if mt_empty_policy (md_meta m) = SE_EMPTY_RAISE
         then Inl (SeError SE_ERR_EMPTY_INPUT ''input produced no usable tokens'')
         else Inr (zero_vector dim))
      else if mt_normalization_type (md_meta m) = SE_NORMALIZATION_L2 then
        bindR (sum_sq_d sse acc dim) (\<lambda>sq.
          if f64_not_positive sq then Inr (zero_vector dim)
          else scale_copy sse out (Some acc) dim (inverse_root sq))
      else scale_copy sse out (Some acc) dim (f32_div f32_one (f32_of_nat used)))"

text \<open>\<open>out\<close> holds \<open>dim\<close> floats; \<open>sc\<close> is the scratch whose accumulator is used.\<close>

definition embed_ids_core ::
  "bool \<Rightarrow> se_model \<Rightarrow> se_scratch \<Rightarrow> (nat \<Rightarrow> bool) \<Rightarrow> nat \<Rightarrow> u32 list \<Rightarrow> u32 list \<Rightarrow> u32 list se_result" where
  "embed_ids_core sse m sc cancelled polls ts out =
     (let dim = unat (mt_dim (md_meta m)) in
      if unat (sc_acc_cap sc) < dim \<or> length out < dim then Inl OutOfBounds
      else bindR (pool_loop sse m cancelled polls 0 ts (zero_vector dim) 0) (\<lambda>(acc, used).
        finish_pool sse m acc used out))"

definition count_unk :: "se_model \<Rightarrow> u32 list \<Rightarrow> u32" where
  "count_unk m ts = fold (\<lambda>t n. if t = mt_unk_id (md_meta m) then n + 1 else n) ts 0"

definition se_embed_ids ::
  "bool \<Rightarrow> se_model \<Rightarrow> se_scratch \<Rightarrow> (nat \<Rightarrow> bool) \<Rightarrow> u32 list \<Rightarrow> u32 list \<Rightarrow> (u32 list \<times> se_token_stats) se_result" where
  "se_embed_ids sse m sc cancelled ts out =
     (if length ts > 0xFFFFFFFF then Inl (SeError SE_ERR_OOM ''too many token ids'')
      else bindR (embed_ids_core sse m sc cancelled 0 ts out) (\<lambda>v.
        Inr (v, \<lparr>st_token_count = word_of_nat (length ts), st_unk_count = count_unk m ts, st_truncated = False\<rparr>)))"

definition se_embed_limit_mode :: "se_model \<Rightarrow> se_token_limit" where
  "se_embed_limit_mode m =
     (if mt_truncation_policy (md_meta m) = SE_TRUNCATE_RAW_IDS_BEFORE_UNK_DROP
      then SE_TOKEN_LIMIT_RAW else SE_TOKEN_LIMIT_USABLE)"

definition embed_cfg :: "se_model \<Rightarrow> se_env \<Rightarrow> u32 \<Rightarrow> token_cfg" where
  "embed_cfg m env max_tokens =
     \<lparr>tc_model = m, tc_max_tokens = max_tokens, tc_limit_mode = se_embed_limit_mode m, tc_env = env\<rparr>"

text \<open>
  The ids stay in the scratch, which is returned with its new capacities; \<open>calls\<close> and \<open>polls\<close> number the
  allocations and the reads of the flag.
\<close>

definition se_embed_one ::
  "bool \<Rightarrow> se_model \<Rightarrow> se_env \<Rightarrow> se_scratch \<Rightarrow> nat \<Rightarrow> nat \<Rightarrow> u8 list \<Rightarrow> u32 \<Rightarrow> u32 list \<Rightarrow>
   (u32 list \<times> se_token_stats \<times> se_scratch) se_result" where
  "se_embed_one sse m env sc calls polls input max_tokens out =
     bindR (se_tokenize (embed_cfg m env max_tokens) sc calls polls input) (\<lambda>(st, stats).
     bindR (embed_ids_core sse m (ts_scratch st) (env_cancelled env) (ts_polls st)
              (take (unat (st_token_count stats)) (ts_ids st)) out) (\<lambda>v.
       Inr (v, stats, ts_scratch st)))"

text \<open>The pages that are read, for a mapping of \<open>n\<close> bytes; \<open>sys_page\<close> is what the system reports.\<close>

function warmup_loop :: "nat \<Rightarrow> nat \<Rightarrow> nat \<Rightarrow> nat \<Rightarrow> nat" where
  "warmup_loop n page i touched = (if i < n \<and> 0 < page then warmup_loop n page (i + page) (touched + 1) else touched)"
  by pat_completeness auto
termination by (relation "measure (\<lambda>(n, page, i, touched). n - i)") auto

declare warmup_loop.simps [simp del]

definition se_model_warmup :: "nat \<Rightarrow> int option \<Rightarrow> nat" where
  "se_model_warmup n sys_page =
     (let page = (case sys_page of Some p \<Rightarrow> if p > 0 then nat p else 4096 | None \<Rightarrow> 4096)
      in warmup_loop n page 0 0)"

subsection \<open>Specification\<close>

text \<open>The ids whose rows are pooled, and the sum of their rows in token order.\<close>

definition kept :: "se_model \<Rightarrow> u32 list \<Rightarrow> u32 list" where
  "kept m ts = filter (\<lambda>t. \<not> (mt_unk_policy (md_meta m) = SE_UNK_DROP \<and> t = mt_unk_id (md_meta m))) ts"

definition row_sum :: "se_model \<Rightarrow> u32 list \<Rightarrow> nat \<Rightarrow> u32" where
  "row_sum m ts j = foldl f32_add 0 (map (\<lambda>t. md_embeddings m ! (unat t * unat (mt_dim (md_meta m)) + j)) (kept m ts))"

definition pooled :: "se_model \<Rightarrow> u32 list \<Rightarrow> u32 list" where
  "pooled m ts = map (row_sum m ts) [0..<unat (mt_dim (md_meta m))]"

definition embeds :: "se_model \<Rightarrow> u32 list \<Rightarrow> u32 list se_result \<Rightarrow> bool" where
  "embeds m ts r =
     (let dim = unat (mt_dim (md_meta m)); used = length (kept m ts) in
      if \<not> list_all (\<lambda>t. t < mt_vocab_size (md_meta m)) ts
      then r = Inl (SeError SE_ERR_INVALID_FORMAT ''token id %u is out of range'')
      else if used = 0 then
        r = (if mt_empty_policy (md_meta m) = SE_EMPTY_RAISE
             then Inl (SeError SE_ERR_EMPTY_INPUT ''input produced no usable tokens'')
             else Inr (replicate dim 0))
      else if mt_normalization_type (md_meta m) = SE_NORMALIZATION_L2 then
        (\<exists>sq. squares_sum (pooled m ts) dim sq \<and>
           r = Inr (if f64_not_positive sq then replicate dim 0
                    else map (\<lambda>x. f32_mul x (inverse_root sq)) (pooled m ts)))
      else r = Inr (map (\<lambda>x. f32_mul x (f32_div f32_one (f32_of_nat used))) (pooled m ts)))"

lemma kept_append: "kept m (xs @ ys) = kept m xs @ kept m ys"
  by (simp add: kept_def)

lemma row_end_u32: "t < v \<Longrightarrow> unat t * d + d \<le> unat (v :: u32) * d"
proof -
  assume "t < v"
  then have "(unat t + 1) * d \<le> unat v * d" by (intro mult_le_mono1) (simp add: word_less_nat_alt)
  then show ?thesis by simp
qed

lemma pool_loop_run:
  assumes ok: "model_ok m" and c: "\<And>k. \<not> cancelled k"
  shows "list_all (\<lambda>t. t < mt_vocab_size (md_meta m)) done_ts \<Longrightarrow>
    pool_loop sse m cancelled polls i ts (pooled m done_ts) (length (kept m done_ts)) =
      (if list_all (\<lambda>t. t < mt_vocab_size (md_meta m)) ts
       then Inr (pooled m (done_ts @ ts), length (kept m (done_ts @ ts)))
       else Inl (SeError SE_ERR_INVALID_FORMAT ''token id %u is out of range''))"
proof (induction ts arbitrary: done_ts polls i)
  case Nil
  then show ?case by simp
next
  case (Cons t ts)
  let ?drop = "mt_unk_policy (md_meta m) = SE_UNK_DROP \<and> t = mt_unk_id (md_meta m)"
    and ?polls = "if i mod 256 = 0 then polls + 1 else polls" and ?d = "unat (mt_dim (md_meta m))"
  have c': "\<not> (i mod 256 = 0 \<and> cancelled polls)" using c by blast
  note step = pool_loop.simps(2) [of sse m cancelled polls i t ts, unfolded if_not_P [OF c'] Let_def]
  show ?case
  proof (cases "t < mt_vocab_size (md_meta m)")
    case False
    then have "mt_vocab_size (md_meta m) \<le> t" by simp
    then show ?thesis using False by (simp add: step del: pool_loop.simps)
  next
    case True
    have all: "list_all (\<lambda>t. t < mt_vocab_size (md_meta m)) (done_ts @ [t])" using Cons.prems True by simp
    have IH: "pool_loop sse m cancelled ?polls (i + 1) ts (pooled m (done_ts @ [t])) (length (kept m (done_ts @ [t]))) =
      (if list_all (\<lambda>t. t < mt_vocab_size (md_meta m)) ts
       then Inr (pooled m (done_ts @ t # ts), length (kept m (done_ts @ t # ts)))
       else Inl (SeError SE_ERR_INVALID_FORMAT ''token id %u is out of range''))"
      using Cons.IH [OF all, of ?polls "i + 1"] by simp
    show ?thesis
    proof (cases ?drop)
      case drop: True
      then have "kept m (done_ts @ [t]) = kept m done_ts" by (simp add: kept_def)
      then have "pooled m (done_ts @ [t]) = pooled m done_ts" "length (kept m (done_ts @ [t])) = length (kept m done_ts)"
        by (simp_all add: pooled_def row_sum_def)
      moreover have "\<not> mt_vocab_size (md_meta m) \<le> t" using True by simp
      ultimately show ?thesis unfolding step using IH True drop by (auto simp del: pool_loop.simps)
    next
      case no_drop: False
      then have kept: "kept m (done_ts @ [t]) = kept m done_ts @ [t]" by (simp add: kept_def)
      have "length (md_embeddings m) = unat (mt_vocab_size (md_meta m)) * ?d" using ok by (simp add: model_ok_def)
      then have "add_row sse (pooled m done_ts) (md_embeddings m) (unat t * ?d) ?d =
          Inr (map (\<lambda>j. f32_add (pooled m done_ts ! j) (md_embeddings m ! (unat t * ?d + j))) [0..<?d])"
        using row_end_u32 [OF True, of ?d] by (intro add_row_eq) (simp_all add: pooled_def)
      also have "map (\<lambda>j. f32_add (pooled m done_ts ! j) (md_embeddings m ! (unat t * ?d + j))) [0..<?d] =
          pooled m (done_ts @ [t])"
        by (auto simp: pooled_def row_sum_def kept)
      finally show ?thesis using IH True
        by (simp add: step if_not_P [OF no_drop] if_not_P [OF not_le [THEN iffD2, OF True]] kept del: pool_loop.simps)
    qed
  qed
qed

lemma finish_pool_embeds:
  assumes "list_all (\<lambda>t. t < mt_vocab_size (md_meta m)) ts" "length out = unat (mt_dim (md_meta m))"
  shows "embeds m ts (finish_pool sse m (pooled m ts) (length (kept m ts)) out)"
proof -
  let ?d = "unat (mt_dim (md_meta m))"
  have len: "length (pooled m ts) = ?d" by (simp add: pooled_def)
  then have scale: "scale_copy sse out (Some (pooled m ts)) ?d x = Inr (map (\<lambda>a. f32_mul a x) (pooled m ts))" for x
    using assms(2) by (intro scale_copy_eq) simp_all
  obtain sq where "sum_sq_d sse (pooled m ts) ?d = Inr sq" "squares_sum (pooled m ts) ?d sq"
    using sum_sq_eq [of ?d "pooled m ts" sse] len by auto
  then show ?thesis using assms(1) scale unfolding embeds_def finish_pool_def zero_vector_def Let_def by auto
qed

lemma core_embeds:
  assumes "model_ok m" "\<And>k. \<not> cancelled k" "unat (mt_dim (md_meta m)) \<le> unat (sc_acc_cap sc)"
    and "length out = unat (mt_dim (md_meta m))"
  shows "embeds m ts (embed_ids_core sse m sc cancelled polls ts out)"
proof -
  let ?d = "unat (mt_dim (md_meta m))"
  have "zero_vector ?d = pooled m []"
    by (auto simp: zero_vector_def pooled_def row_sum_def kept_def intro: nth_equalityI)
  moreover have "length (kept m []) = 0" by (simp add: kept_def)
  ultimately have run: "pool_loop sse m cancelled polls 0 ts (zero_vector ?d) 0 =
      (if list_all (\<lambda>t. t < mt_vocab_size (md_meta m)) ts then Inr (pooled m ts, length (kept m ts))
       else Inl (SeError SE_ERR_INVALID_FORMAT ''token id %u is out of range''))"
    using pool_loop_run [OF assms(1,2), where done_ts = "[]" and ts = ts and i = 0 and polls = polls and sse = sse] by simp
  show ?thesis
  proof (cases "list_all (\<lambda>t. t < mt_vocab_size (md_meta m)) ts")
    case True
    then show ?thesis using run assms(3,4) finish_pool_embeds [OF True assms(4), of sse]
      by (simp add: embed_ids_core_def Let_def)
  next
    case False
    then show ?thesis using run assms(3,4) by (simp add: embed_ids_core_def embeds_def Let_def)
  qed
qed

subsection \<open>Tokenizing leaves the accumulator as it is\<close>

abbreviation acc_of :: "token_state \<Rightarrow> size_t" where
  "acc_of st \<equiv> sc_acc_cap (ts_scratch st)"

lemma bindR_InrE: "bindR r f = Inr y \<Longrightarrow> (\<And>x. r = Inr x \<Longrightarrow> f x = Inr y \<Longrightarrow> thesis) \<Longrightarrow> thesis"
  by (auto simp: bindR_eq_Inr)

lemma push_id_acc: "push_id cfg st tok = Inr (Some st') \<Longrightarrow> acc_of st' = acc_of st"
  by (auto simp: push_id_def Let_def split: if_splits prod.splits option.splits)

lemma encode_word_acc: "encode_word cfg st w ka = Inr (Some (bytes, offs, st')) \<Longrightarrow> acc_of st' = acc_of st"
  by (auto simp: encode_word_def grow_word_buffers_def Let_def bindR_eq_Inr split: if_splits prod.splits option.splits)

lemma push_unk_acc: "push_unk cfg st = Inr (s, st') \<Longrightarrow> acc_of st' = acc_of st"
  by (auto simp: push_unk_def bindR_eq_Inr dest!: push_id_acc split: option.splits)

lemma greedy_loop_acc: "greedy_loop cfg bytes cps2 n before start st = Inr (s, st') \<Longrightarrow> acc_of st' = acc_of st"
proof (induction "n - start" arbitrary: start st rule: less_induct)
  case less
  have IH: "acc_of st' = acc_of st1" if "piece_end cps2 k target (Suc start) = Inr e" "start < n"
    "greedy_loop cfg bytes cps2 n before e st1 = Inr (s, st')" for k target e st1
    using less.hyps [OF _ that(3)] that(2) piece_end_ge [OF that(1)] by simp
  have first: "acc_of st' = acc_of st1" if "piece_end cps2 k target (Suc 0) = Inr e" "start = 0" "0 < n"
    "greedy_loop cfg bytes cps2 n before e st1 = Inr (s, st')" for k target e st1
    using IH [of k target e st1] that by simp
  from less.prems show ?case
    by (subst (asm) greedy_loop.simps)
      (auto simp: Let_def bindR_eq_Inr split: if_splits option.splits dest!: push_unk_acc push_id_acc IH first)
qed

lemma wordpiece_acc: "wordpiece cfg st w ka = Inr (s, st') \<Longrightarrow> acc_of st' = acc_of st"
  by (auto simp: wordpiece_def Let_def elim!: bindR_InrE split: if_splits option.splits
      dest!: push_unk_acc push_id_acc greedy_loop_acc encode_word_acc)

lemma cap_acc: "acc_of (fst (cap_after_append cfg st)) = acc_of st"
  by (auto simp: cap_after_append_def Let_def split: prod.splits)

lemma cap_acc': "cap_after_append cfg st = (st', stop) \<Longrightarrow> acc_of st' = acc_of st"
  using cap_acc [of cfg st] by simp

lemma append_direct_id_acc: "append_direct_id cfg st tok = Inr (st', stop) \<Longrightarrow> acc_of st' = acc_of st"
  by (auto simp: append_direct_id_def oom_def bindR_eq_Inr split: option.splits if_splits dest!: push_id_acc cap_acc')

lemma append_wordpiece_acc: "append_wordpiece cfg st w = Inr (st', stop) \<Longrightarrow> acc_of st' = acc_of st"
  by (auto simp: append_wordpiece_def oom_def elim!: bindR_InrE split: wordpiece_status.splits dest!: wordpiece_acc cap_acc')

lemma flush_segment_acc: "flush_segment cfg st = Inr (st', stop) \<Longrightarrow> acc_of st' = acc_of st"
  by (auto simp: flush_segment_def bindR_eq_Inr split: if_splits dest!: append_wordpiece_acc)

lemma append_segment_cp_acc: "append_segment_cp cfg st cp = Some st' \<Longrightarrow> acc_of st' = acc_of st"
  by (auto simp: append_segment_cp_def Let_def split: prod.splits option.splits if_splits)

lemma unless_stop_acc:
  assumes "unless_stop r f = Inr (st', stop)" and r: "\<And>st1 s. r = Inr (st1, s) \<Longrightarrow> acc_of st1 = a"
    and f: "\<And>st1 st2 s. f st1 = Inr (st2, s) \<Longrightarrow> acc_of st2 = acc_of st1"
  shows "acc_of st' = a"
proof -
  obtain st1 s where s: "r = Inr (st1, s)" "(if s then Inr (st1, True) else f st1) = Inr (st', stop)"
    using assms(1) by (auto simp: unless_stop_def elim!: bindR_InrE)
  then show ?thesis using r [OF s(1)] f [of st1 st' stop] by (cases s) simp_all
qed

lemma until_stop_acc:
  assumes "\<And>cp st1 st2 s. f cp st1 = Inr (st2, s) \<Longrightarrow> acc_of st2 = acc_of st1"
  shows "until_stop f cps st = Inr (st', stop) \<Longrightarrow> acc_of st' = acc_of st"
proof (induction cps arbitrary: st st' stop)
  case (Cons cp cps)
  show ?case
    by (rule unless_stop_acc [OF Cons.prems [unfolded until_stop.simps]]) (erule assms, erule Cons.IH)
qed simp

lemma feed_token_cp_acc: "feed_token_cp cfg st cp = Inr (st', stop) \<Longrightarrow> acc_of st' = acc_of st"
  by (auto simp: feed_token_cp_def oom_def bindR_eq_Inr split: if_splits option.splits
      dest!: flush_segment_acc append_segment_cp_acc elim!: unless_stop_acc dest: append_wordpiece_acc)

lemma emit_lowered_acc: "emit_lowered cfg st cp = Inr (st', stop) \<Longrightarrow> acc_of st' = acc_of st"
  by (auto simp: emit_lowered_def bindR_eq_Inr split: if_splits option.splits
      dest: feed_token_cp_acc elim!: until_stop_acc [rotated])

lemma emit_stripped_acc: "emit_stripped cfg st cp = Inr (st', stop) \<Longrightarrow> acc_of st' = acc_of st"
  by (auto simp: emit_stripped_def bindR_eq_Inr split: if_splits option.splits
      dest!: emit_lowered_acc elim!: until_stop_acc [rotated])

lemma emit_cleaned_acc: "emit_cleaned cfg st cp = Inr (st', stop) \<Longrightarrow> acc_of st' = acc_of st"
  by (auto simp: emit_cleaned_def Let_def bindR_eq_Inr split: if_splits option.splits
      dest: emit_stripped_acc elim!: unless_stop_acc)

lemma token_cancelled_acc: "token_cancelled cfg st = (st', c) \<Longrightarrow> acc_of st' = acc_of st"
  by (auto simp: token_cancelled_def)

lemma append_ascii_word_acc: "append_ascii_word cfg st input i b = Inr st' \<Longrightarrow> acc_of st' = acc_of st"
  by (auto simp: append_ascii_word_def oom_def Let_def elim!: bindR_InrE split: if_splits option.splits prod.splits)

lemma ascii_added_acc: "ascii_added cfg st i check tok len = Inr t \<Longrightarrow> acc_of (turn_state t) = acc_of st"
  by (auto simp: ascii_added_def bindR_eq_Inr split: if_splits dest!: flush_segment_acc append_direct_id_acc)

lemma ascii_byte_acc: "ascii_byte cfg st input i check b = Inr t \<Longrightarrow> acc_of (turn_state t) = acc_of st"
  by (auto simp: ascii_byte_def bindR_eq_Inr split: if_splits
      dest!: flush_segment_acc append_wordpiece_acc append_ascii_word_acc)

lemma ascii_turn_acc: "ascii_turn cfg input i check st = Inr t \<Longrightarrow> acc_of (turn_state t) = acc_of st"
  by (auto simp: ascii_turn_def bindR_eq_Inr operation_cancelled_def split: if_splits option.splits prod.splits
      dest!: ascii_added_acc ascii_byte_acc token_cancelled_acc)

lemma ascii_run_acc: "ascii_run cfg input i check st = Inr (st', i', stop) \<Longrightarrow> acc_of st' = acc_of st"
proof (induction cfg input i check st rule: ascii_run.induct)
  case (1 cfg input i check st)
  have IH: "acc_of st' = acc_of st" if "ascii_turn cfg input i check st = Inr (Again j c s)" "i < length input"
    "ascii_run cfg input j c s = Inr (st', i', stop)" for j c s
    using "1.IH" [OF that(2,1) refl that(3)] ascii_turn_acc [OF that(1)] by simp
  have leave: "acc_of s = acc_of st" if "ascii_turn cfg input i check st = Inr (Leave j c s)" for j c s
    using ascii_turn_acc [OF that] by simp
  from "1.prems" show ?case
    by (subst (asm) ascii_run.simps) (auto elim!: bindR_InrE split: if_splits turn.splits dest!: IH leave)
qed

lemma decode_turn_acc: "decode_turn cfg input i iterations st = Inr t \<Longrightarrow> acc_of (turn_state t) = acc_of st"
  by (auto simp: decode_turn_def bindR_eq_Inr split: if_splits option.splits dest!: emit_cleaned_acc)

lemma tokenize_turn_acc: "tokenize_turn cfg input i iterations st = Inr t \<Longrightarrow> acc_of (turn_state t) = acc_of st"
  by (auto simp: tokenize_turn_def Let_def bindR_eq_Inr operation_cancelled_def tokenize_ascii_run_def
      split: if_splits prod.splits dest!: decode_turn_acc ascii_run_acc token_cancelled_acc)

lemma tokenize_loop_acc: "tokenize_loop cfg input i iterations st = Inr st' \<Longrightarrow> acc_of st' = acc_of st"
proof (induction cfg input i iterations st rule: tokenize_loop.induct)
  case (1 cfg input i iterations st)
  have IH: "acc_of st' = acc_of st" if "tokenize_turn cfg input i iterations st = Inr (Again j c s)" "i < length input"
    "tokenize_loop cfg input j c s = Inr st'" for j c s
    using "1.IH" [OF that(2,1) refl that(3)] tokenize_turn_acc [OF that(1)] by simp
  have leave: "acc_of s = acc_of st" if "tokenize_turn cfg input i iterations st = Inr (Leave j c s)" for j c s
    using tokenize_turn_acc [OF that] by simp
  from "1.prems" show ?case
    by (subst (asm) tokenize_loop.simps) (auto elim!: bindR_InrE split: if_splits turn.splits dest!: IH leave)
qed

lemma se_tokenize_acc: "se_tokenize cfg sc calls polls input = Inr (st, stats) \<Longrightarrow> acc_of st = sc_acc_cap sc"
  by (auto simp: se_tokenize_def token_start_def bindR_eq_Inr split: if_splits
      dest!: tokenize_loop_acc flush_segment_acc)

subsection \<open>Tokenizing gives ids of the vocabulary\<close>

definition known_ids :: "se_model \<Rightarrow> u32 list \<Rightarrow> bool" where
  "known_ids m ts = list_all (\<lambda>t. t < mt_vocab_size (md_meta m)) ts"

lemma known_ids_simps [simp]:
  "known_ids m []" "known_ids m (t # ts) = (t < mt_vocab_size (md_meta m) \<and> known_ids m ts)"
  "known_ids m (xs @ ys) = (known_ids m xs \<and> known_ids m ys)"
  by (simp_all add: known_ids_def)

lemma known_ids_take: "known_ids m ts \<Longrightarrow> known_ids m (take n ts)"
  by (auto simp: known_ids_def list_all_iff dest: in_set_takeD)

lemma known_ids_take_usable: "known_ids m ts \<Longrightarrow> known_ids m (take_usable unk n ts)"
  by (induction unk n ts rule: take_usable.induct) auto

lemma known_ids_limit: "known_ids m ts \<Longrightarrow> known_ids m (limit_ids cfg ts)"
  by (simp add: limit_ids_def known_ids_take known_ids_take_usable)

lemma word_from_known:
  assumes "trie_ok v t"
  shows "unat n < length (tr_nodes t) \<Longrightarrow> word_from t n bs = Some tok \<Longrightarrow> tok < v"
proof (induction bs arbitrary: n)
  case Nil
  then have "node_ok v t (tr_nodes t ! unat n)" using assms by (simp add: trie_ok_def list_all_iff)
  then show ?case using Nil by (auto simp: token_at_def Let_def node_ok_def split: if_splits)
next
  case (Cons b bs)
  then obtain n' where "trie_step t n b = Some n'" "word_from t n' bs = Some tok" by (auto split: option.splits)
  with trie_step_bound [OF assms Cons.prems(1)] Cons.IH show ?case by blast
qed

lemma trie_word_known: "trie_ok v t \<Longrightarrow> trie_word t bs = Some tok \<Longrightarrow> tok < v"
  using word_from_known [of v t 0 bs tok] by (auto simp: trie_word_def trie_ok_def)

lemma vocab_find_known: "hash_table_ok m \<Longrightarrow> vocab_find m bs = Some tok \<Longrightarrow> tok < mt_vocab_size (md_meta m)"
  using vocab_find_sound [of m bs tok] by (auto simp: hash_table_ok_def Let_def list_all_iff slot_ok_def)

lemma greedy_pieces_known:
  assumes "model_ok m"
  shows "greedy_pieces m first w = Pieces toks \<Longrightarrow> known_ids m toks"
proof (induction m\<equiv>m first w arbitrary: toks rule: greedy_pieces.induct)
  case (2 first c cs)
  have trie: "trie_ok (mt_vocab_size (md_meta m)) (if first then md_root_trie m else md_cont_trie m)"
    using assms by (simp add: model_ok_def)
  from "2.prems" obtain tok l k rest where
    lw: "longest_word (trie_word (if first then md_root_trie m else md_cont_trie m))
      (utf8 (take (unat (mt_max_token_chars (md_meta m))) (c # cs))) = Some (tok, l)"
    and cb: "char_boundary (take (unat (mt_max_token_chars (md_meta m))) (c # cs)) l = Some k"
    and rest: "greedy_pieces m False (drop (k - 1) cs) = Pieces rest" and toks: "toks = tok # rest"
    by (auto simp: greedy_pieces.simps(2) Let_def split: option.splits pieces.splits)
  have "known_ids m rest" by (rule "2.hyps" [OF refl refl lw refl cb rest])
  then show ?case using trie_word_known [OF trie] lw by (auto simp: toks longest_word_iff)
qed simp

lemma action_known:
  assumes "model_ok m" "action_ids m a = Some ids" "\<And>t. a = Direct t \<Longrightarrow> t < mt_vocab_size (md_meta m)"
  shows "known_ids m ids"
proof (cases a)
  case (Word w)
  have unk: "mt_unk_id (md_meta m) < mt_vocab_size (md_meta m)" and hash: "hash_table_ok m"
    using assms(1) by (simp_all add: model_ok_def meta_ok_def)
  show ?thesis
    using assms(2) unk greedy_pieces_known [OF assms(1)] vocab_find_known [OF hash]
    by (auto simp: action_ids_def Word word_outcome_def split: if_splits option.splits pieces.splits)
qed (use assms in \<open>auto simp: action_ids_def\<close>)

fun outcome_ids :: "outcome \<Rightarrow> u32 list" where
  "outcome_ids (Running ids) = ids" | "outcome_ids (Capped ids) = ids" | "outcome_ids Corrupt = []"

lemma run_actions_known:
  assumes "model_ok (tc_model cfg)"
  shows "known_ids (tc_model cfg) ids \<Longrightarrow> (\<And>t. Direct t \<in> set acts \<Longrightarrow> t < mt_vocab_size (md_meta (tc_model cfg))) \<Longrightarrow>
    known_ids (tc_model cfg) (outcome_ids (run_actions cfg ids acts))"
proof (induction acts arbitrary: ids)
  case (Cons a acts)
  then have "known_ids (tc_model cfg) new" if "action_ids (tc_model cfg) a = Some new" for new
    using action_known [OF assms that] by auto
  then show ?case using Cons by (auto simp: known_ids_limit split: option.split)
qed simp

text \<open>The added tokens that a mask turns on are in the vocabulary.\<close>

definition added_known :: "se_model \<Rightarrow> bool" where
  "added_known m =
     list_all (\<lambda>(added_bit, txt). mt_added_token_mask (md_meta m) AND added_bit \<noteq> 0 \<longrightarrow>
       added_token_id m added_bit < mt_vocab_size (md_meta m)) SE_ADDED_TOKENS"

lemma match_specs_known:
  "specs_at m input pos specs = Some (tok, len) \<Longrightarrow>
   list_all (\<lambda>(added_bit, txt). mt_added_token_mask (md_meta m) AND added_bit \<noteq> 0 \<longrightarrow>
       added_token_id m added_bit < mt_vocab_size (md_meta m)) specs \<Longrightarrow> tok < mt_vocab_size (md_meta m)"
  by (induction m input pos specs rule: specs_at.induct) (auto split: if_splits)

lemma items_known:
  assumes "added_known m"
  shows "Added tok \<in> set (fst (items m input i)) \<Longrightarrow> tok < mt_vocab_size (md_meta m)"
proof (induction "length input - i" arbitrary: i rule: less_induct)
  case less
  show ?case
  proof (cases "i < length input")
    case False
    then show ?thesis using less.prems by (simp add: items.simps)
  next
    case i: True
    have IH: "tok < mt_vocab_size (md_meta m)" if "i < j" "Added tok \<in> set (fst (items m input j))" for j
      using less.hyps [OF _ that(2)] that(1) i by simp
    show ?thesis
    proof (cases "added_at m input i")
      case (Some p)
      obtain t len where p: "p = (t, len)" by (cases p)
      have "t < mt_vocab_size (md_meta m)"
        using Some assms match_specs_known [of m input i SE_ADDED_TOKENS t len]
        by (simp add: p added_at_def added_known_def split: if_splits)
      then show ?thesis
        using less.prems IH [of "i + len"] match_added_token_pos [of m input i t len] Some
        by (auto simp: items_added [OF i Some [unfolded p]] p split_beta)
    next
      case None
      have step: "tok < mt_vocab_size (md_meta m)" if "decode_one input i = Inr (Some (cp, j))"
        "Added tok \<in> set (fst (items m input j))" for cp j
        using IH [OF _ that(2)] decode_one_progress [OF that(1)] by simp
      from less.prems i None show ?thesis
        by (subst (asm) items.simps) (auto simp: split_beta split: sum.splits option.splits dest: step)
    qed
  qed
qed

lemma seg_cps_words: "Direct t \<notin> set (fst (seg_cps m seg cps))"
proof (induction cps arbitrary: seg)
  case (Cons c cps)
  obtain a s where a: "seg_cp m seg c = (a, s)" by (metis surj_pair)
  then have "Direct t \<notin> set a" by (auto simp: seg_cp_def flush_acts_def split: if_splits)
  then show ?case using Cons.IH [of s] by (cases "seg_cps m s cps") (simp add: a)
qed simp

lemma item_steps_direct: "Direct t \<in> set (fst (item_steps m seg its)) \<Longrightarrow> Added t \<in> set its"
proof (induction its arbitrary: seg)
  case (Cons it its)
  obtain a s where step: "item_step m seg it = (a, s)" by (metis surj_pair)
  have "Direct t \<in> set a \<Longrightarrow> it = Added t"
    using step seg_cps_words [of t m seg] by (auto simp: item_step_def flush_acts_def split: item.splits if_splits) (metis fst_conv)
  then show ?case using Cons.prems Cons.IH [of s] step by (auto split: prod.splits)
qed simp

lemma spec_known:
  assumes "model_ok (tc_model cfg)" "added_known (tc_model cfg)" "tokenize_spec cfg input = Inr (ids, tr)"
  shows "known_ids (tc_model cfg) ids"
proof -
  obtain its valid where its: "items (tc_model cfg) input 0 = (its, valid)" by (metis surj_pair)
  obtain acts seg where acts: "item_steps (tc_model cfg) [] its = (acts, seg)" by (metis surj_pair)
  let ?acts = "acts @ (if valid then flush_acts seg else [])"
  have "t < mt_vocab_size (md_meta (tc_model cfg))" if "Direct t \<in> set ?acts" for t
    using that item_steps_direct [of t "tc_model cfg" "[]" its] items_known [OF assms(2), of t input 0] its acts
    by (auto simp: flush_acts_def split: if_splits)
  then have "known_ids (tc_model cfg) (outcome_ids (run_actions cfg [] ?acts))"
    by (intro run_actions_known [OF assms(1)]) auto
  moreover have "conclude valid (run_actions cfg [] ?acts) = Inr (ids, tr)"
    using assms(3) its acts by (simp add: tokenize_spec_def meaning_def)
  ultimately show ?thesis by (auto simp: conclude_def split: outcome.splits if_splits)
qed

lemma validate_added_known:
  assumes "validate le calloc_ok base = Inr m" "length base < 2 ^ 64"
  shows "added_known m"
proof -
  from assms(1) obtain mt secs model0 root cont norm where
    mt: "read_header le base = Inr mt" and secs: "read_sections base = Inr secs"
    and load: "load_tables base mt secs = Inr model0"
    and hash: "validate_vocab_hash calloc_ok model0 (sec_size (secs ! 0)) = Inr ()"
    and m: "m = model0\<lparr>md_root_trie := root, md_cont_trie := cont, md_norm := norm\<rparr>"
    by (auto simp: validate_def bindR_eq_Inr)
  note v = check_added_Inr [OF validate_vocab_hash_Inr(5) [OF hash validate_stages [OF mt secs load assms(2)]]]
  show ?thesis
    unfolding added_known_def SE_ADDED_TOKENS_def m
    using v [of SE_ADDED_PAD] v [of SE_ADDED_UNK] v [of SE_ADDED_CLS] v [of SE_ADDED_SEP] v [of SE_ADDED_MASK]
    by (simp add: added_texts_def added_token_id_def)
qed

subsection \<open>Cancellation, and the composition\<close>

abbreviation pool_cancelled :: "'a se_result" where
  "pool_cancelled \<equiv> Inl (SeError SE_ERR_INTERNAL ''operation cancelled'')"

abbreviation empty_input :: "'a se_result" where
  "empty_input \<equiv> Inl (SeError SE_ERR_EMPTY_INPUT ''input produced no usable tokens'')"

lemma pool_loop_cancel:
  "pool_loop sse m cancelled polls i ts acc used = pool_cancelled \<and> (\<exists>k. cancelled k) \<or>
   pool_loop sse m cancelled polls i ts acc used = pool_loop sse m (\<lambda>_. False) polls i ts acc used"
proof (induction sse m cancelled polls i ts acc used rule: pool_loop.induct)
  case (2 sse m cancelled polls i t ts acc used)
  let ?polls = "if i mod 256 = 0 then polls + 1 else polls"
  show ?case
  proof (cases "i mod 256 = 0 \<and> cancelled polls")
    case True
    then show ?thesis by auto
  next
    case False
    let ?d = "unat (mt_dim (md_meta m))"
    consider "t \<ge> mt_vocab_size (md_meta m)"
      | "\<not> t \<ge> mt_vocab_size (md_meta m)" "mt_unk_policy (md_meta m) = SE_UNK_DROP \<and> t = mt_unk_id (md_meta m)"
      | "\<not> t \<ge> mt_vocab_size (md_meta m)" "\<not> (mt_unk_policy (md_meta m) = SE_UNK_DROP \<and> t = mt_unk_id (md_meta m))"
      by blast
    then show ?thesis
    proof cases
      case 1
      then show ?thesis using False by auto
    next
      case 2
      then show ?thesis using False "2.IH"(1) [OF False refl 2] by (auto simp del: pool_loop.simps simp: pool_loop.simps(2))
    next
      case 3
      then show ?thesis using False "2.IH"(2) [OF False refl 3]
        by (cases "add_row sse acc (md_embeddings m) (unat t * ?d) ?d")
          (auto simp del: pool_loop.simps simp: pool_loop.simps(2))
    qed
  qed
qed simp

lemma core_result:
  assumes "model_ok m" "unat (mt_dim (md_meta m)) \<le> unat (sc_acc_cap sc)"
    and "length out = unat (mt_dim (md_meta m))"
  shows "embed_ids_core sse m sc cancelled polls ts out = pool_cancelled \<and> (\<exists>k. cancelled k) \<or>
    embeds m ts (embed_ids_core sse m sc cancelled polls ts out)"
proof -
  have "embeds m ts (embed_ids_core sse m sc (\<lambda>_. False) polls ts out)" by (rule core_embeds [OF assms(1) _ assms(2,3)]) simp
  moreover have "embed_ids_core sse m sc cancelled polls ts out = pool_cancelled \<and> (\<exists>k. cancelled k) \<or>
      embed_ids_core sse m sc cancelled polls ts out = embed_ids_core sse m sc (\<lambda>_. False) polls ts out"
    using pool_loop_cancel [of sse m cancelled polls 0 ts "zero_vector (unat (mt_dim (md_meta m)))" 0] assms(2,3)
    by (auto simp: embed_ids_core_def Let_def)
  ultimately show ?thesis by auto
qed

lemma embeds_known:
  assumes "embeds m ts r" "known_ids m ts"
  shows "(\<exists>v. r = Inr v \<and> length v = unat (mt_dim (md_meta m))) \<or>
    r = empty_input \<and> kept m ts = [] \<and> mt_empty_policy (md_meta m) = SE_EMPTY_RAISE"
  using assms by (auto simp: embeds_def known_ids_def Let_def pooled_def split: if_splits)

lemma count_unk_eq: "length ts < 2 ^ 32 \<Longrightarrow> unat (count_unk m ts) = length (filter (\<lambda>t. t = mt_unk_id (md_meta m)) ts)"
proof -
  have "fold (\<lambda>t n. if t = mt_unk_id (md_meta m) then n + 1 else n) ts (n :: u32) =
      n + word_of_nat (length (filter (\<lambda>t. t = mt_unk_id (md_meta m)) ts))" for n
    by (induction ts arbitrary: n) (auto simp: algebra_simps)
  moreover assume "length ts < 2 ^ 32"
  then have "length (filter (\<lambda>t. t = mt_unk_id (md_meta m)) ts) < 2 ^ 32"
    using length_filter_le [of "\<lambda>t. t = mt_unk_id (md_meta m)" ts] by linarith
  ultimately show ?thesis by (simp add: count_unk_def unat_of_nat take_bit_nat_eq_self)
qed

lemma kept_idem: "kept m (kept m ts) = kept m ts"
  by (simp add: kept_def)

text \<open>The number of pages of a mapping.\<close>

lemma warmup_loop_pages:
  assumes "0 < page"
  shows "warmup_loop n page i touched = touched + (n - i + page - 1) div page"
proof (induction "n - i" arbitrary: i touched rule: less_induct)
  case less
  show ?case
  proof (cases "i < n")
    case True
    have "warmup_loop n page i touched = warmup_loop n page (i + page) (touched + 1)"
      using True assms by (subst warmup_loop.simps) simp
    also have "\<dots> = touched + (1 + (n - (i + page) + page - 1) div page)" using True assms less.hyps [of "i + page" "touched + 1"] by simp
    also have "1 + (n - (i + page) + page - 1) div page = (n - i - 1 + page) div page"
    proof (cases "i + page \<le> n")
      case le: True
      then have "n - (i + page) + page - 1 = n - i - 1" by simp
      then show ?thesis using assms by (simp add: div_add_self2)
    next
      case False
      then have "n - (i + page) + page - 1 = page - 1" "n - i - 1 < page" using True by simp_all
      then show ?thesis using assms by (simp add: div_add_self2)
    qed
    also have "n - i - 1 + page = n - i + page - 1" using True by simp
    finally show ?thesis by simp
  next
    case False
    then show ?thesis using assms by (subst warmup_loop.simps) simp
  qed
qed

subsection \<open>The example model\<close>

lemma example_added: "added_known example_model" and example_valid: "validate True True example_file = Inr example_model"
  using validate_added_known [OF example_validate] example_validate by (simp_all add: example_length)

lemma example_dim: "mt_dim (md_meta example_model) = 2"
  by (simp add: example_model_def example_base_def example_meta_def)

lemma embed_one_result:
  assumes ok: "model_ok m" and added: "added_known m" and unk: "unk_only_root m"
    and cap: "unat (mt_dim (md_meta m)) \<le> unat (sc_acc_cap sc)" and out: "length out = unat (mt_dim (md_meta m))"
  shows "case se_embed_one sse m env sc calls polls input max_tokens out of
     Inr (v, stats, sc') \<Rightarrow> length v = unat (mt_dim (md_meta m)) \<and> sc_acc_cap sc' = sc_acc_cap sc \<and>
       (\<exists>ids. tokenize_spec (embed_cfg m env max_tokens) input = Inr (ids, st_truncated stats) \<and>
          unat (st_token_count stats) = length ids \<and>
          unat (st_unk_count stats) = length (filter (\<lambda>t. t = mt_unk_id (md_meta m)) ids) \<and>
          known_ids m ids \<and> embeds m ids (Inr v))
   | Inl e \<Rightarrow>
       tokenize_spec (embed_cfg m env max_tokens) input = Inl e \<or>
       e = SeError SE_ERR_EMPTY_INPUT ''input produced no usable tokens'' \<and>
         mt_empty_policy (md_meta m) = SE_EMPTY_RAISE \<and>
         (\<exists>ids tr. tokenize_spec (embed_cfg m env max_tokens) input = Inr (ids, tr) \<and> kept m ids = []) \<or>
       e = SeError SE_ERR_INTERNAL ''operation cancelled'' \<and> (\<exists>k. env_cancelled env k) \<or>
       e = SeError SE_ERR_OOM ''out of memory while %s'' \<and> (alloc_ok env \<longrightarrow> 2 ^ 30 \<le> 18 * length input)"
proof -
  let ?cfg = "embed_cfg m env max_tokens"
  have m: "tc_model ?cfg = m" "tc_env ?cfg = env" by (simp_all add: embed_cfg_def)
  note r = refines_at [of ?cfg, unfolded m, OF ok unk, where sc = sc and calls = calls and polls = polls and input = input]
  show ?thesis
  proof (cases "se_tokenize ?cfg sc calls polls input")
    case (Inl e)
    then show ?thesis using r
      by (auto simp: se_embed_one_def fails_with_def load_def may_fail_def tokenize_spec_def m)
  next
    case (Inr p)
    obtain st stats where p: "p = (st, stats)" by (cases p)
    have spec: "tokenize_spec ?cfg input = Inr (ts_ids st, st_truncated stats)"
      and n: "unat (st_token_count stats) = length (ts_ids st)"
        "unat (st_unk_count stats) = length (filter (\<lambda>t. t = mt_unk_id (md_meta m)) (ts_ids st))"
      using r Inr p by (simp_all add: unk_of_def m)
    have known: "known_ids m (ts_ids st)" using spec_known [of ?cfg, unfolded m, OF ok added spec] .
    have cap': "unat (mt_dim (md_meta m)) \<le> unat (sc_acc_cap (ts_scratch st))"
      using se_tokenize_acc [OF Inr [unfolded p]] cap by simp
    obtain r where r: "embed_ids_core sse m (ts_scratch st) (env_cancelled env) (ts_polls st) (ts_ids st) out = r" by blast
    then have "r = pool_cancelled \<and> (\<exists>k. env_cancelled env k) \<or> embeds m (ts_ids st) r"
      using core_result [OF ok cap' out] by blast
    moreover have "(\<exists>v. r = Inr v \<and> length v = unat (mt_dim (md_meta m))) \<or>
        r = empty_input \<and> kept m (ts_ids st) = [] \<and> mt_empty_policy (md_meta m) = SE_EMPTY_RAISE" if "embeds m (ts_ids st) r"
      using embeds_known [OF that known] .
    ultimately show ?thesis
      using spec n known r se_tokenize_acc [OF Inr [unfolded p]] by (cases r) (auto simp: se_embed_one_def Inr p)
  qed
qed

subsection \<open>Properties\<close>

text \<open>
  Property C7: embedding a text on a loaded model computes the mean of its token rows.  The ids are those of the
  tokenizer's specification, they are all in the vocabulary, and the result is what \<open>embeds\<close> says: every component
  is the sum of the rows of the kept ids, added in their order, and scaled by the inverse of their number or of the root of the sum of squares.
  An error is the tokenizer's, or says that no id was kept where the model asks for that error, or a
  cancellation was requested, or an allocation failed (or the input is beyond the stated size).  No read or write is out of bounds.
\<close>

theorem embed_text_exact:
  assumes "validate little_endian calloc_ok base = Inr m" and "length base < 2 ^ 64" and "unk_only_root m"
    and "unat (mt_dim (md_meta m)) \<le> unat (sc_acc_cap sc)" and "length out = unat (mt_dim (md_meta m))"
  shows "case se_embed_one sse m env sc calls polls input max_tokens out of
     Inr (v, stats, sc') \<Rightarrow> length v = unat (mt_dim (md_meta m)) \<and> sc_acc_cap sc' = sc_acc_cap sc \<and>
       (\<exists>ids. tokenize_spec (embed_cfg m env max_tokens) input = Inr (ids, st_truncated stats) \<and>
          unat (st_token_count stats) = length ids \<and>
          unat (st_unk_count stats) = length (filter (\<lambda>t. t = mt_unk_id (md_meta m)) ids) \<and>
          known_ids m ids \<and> embeds m ids (Inr v))
   | Inl e \<Rightarrow>
       tokenize_spec (embed_cfg m env max_tokens) input = Inl e \<or>
       e = SeError SE_ERR_EMPTY_INPUT ''input produced no usable tokens'' \<and>
         mt_empty_policy (md_meta m) = SE_EMPTY_RAISE \<and>
         (\<exists>ids tr. tokenize_spec (embed_cfg m env max_tokens) input = Inr (ids, tr) \<and> kept m ids = []) \<or>
       e = SeError SE_ERR_INTERNAL ''operation cancelled'' \<and> (\<exists>k. env_cancelled env k) \<or>
       e = SeError SE_ERR_OOM ''out of memory while %s'' \<and> (alloc_ok env \<longrightarrow> 2 ^ 30 \<le> 18 * length input)"
  by (rule embed_one_result [OF validate_Inr(1) [OF assms(1,2)] validate_added_known [OF assms(1,2)] assms(3,4,5)])

theorem embed_text_exact_witness:
  "case se_embed_one True example_model example_env (se_scratch_init\<lparr>sc_acc_cap := 2\<rparr>) 0 0 [0x41, 0x62] 4 [0, 0] of
     Inr (v, stats, sc') \<Rightarrow> length v = 2 | Inl e \<Rightarrow> e \<noteq> OutOfBounds"
  using embed_text_exact [OF example_valid, where sc = "se_scratch_init\<lparr>sc_acc_cap := 2\<rparr>" and out = "[0, 0]" and sse = True
      and env = example_env and calls = 0 and polls = 0 and input = "[0x41, 0x62]" and max_tokens = 4]
  by (auto simp: example_length example_unk_root example_dim tokenize_spec_def meaning_def conclude_def
      split: sum.splits prod.splits outcome.splits if_splits)

text \<open>
  Embedding given ids computes the mean of their rows, with the SSE loops as without.  An id outside the vocabulary
  is an error; otherwise only the ids that the policy keeps matter, and the counts of ids and of unknown ids are exact.
\<close>

lemma embed_ids_exact:
  assumes "model_ok m" and "unat (mt_dim (md_meta m)) \<le> unat (sc_acc_cap sc)" and "length out = unat (mt_dim (md_meta m))"
    and "length ts < 2 ^ 32"
  shows "(\<exists>r. embeds m ts r \<and> se_embed_ids sse m sc (\<lambda>_. False) ts out =
      bindR r (\<lambda>v. Inr (v, \<lparr>st_token_count = word_of_nat (length ts), st_unk_count = count_unk m ts, st_truncated = False\<rparr>))) \<and>
    unat (count_unk m ts) = length (filter (\<lambda>t. t = mt_unk_id (md_meta m)) ts) \<and>
    (known_ids m ts \<longrightarrow> embeds m (kept m ts) = embeds m ts)"
proof -
  have "embeds m ts (embed_ids_core sse m sc (\<lambda>_. False) 0 ts out)" by (rule core_embeds [OF assms(1) _ assms(2,3)]) simp
  moreover have "embeds m (kept m ts) = embeds m ts" if "known_ids m ts"
  proof -
    have "known_ids m (kept m ts)" using that by (auto simp: known_ids_def kept_def list_all_iff)
    moreover have "pooled m (kept m ts) = pooled m ts" by (simp add: pooled_def row_sum_def [abs_def] kept_idem)
    ultimately show ?thesis using that by (simp add: fun_eq_iff embeds_def Let_def known_ids_def kept_idem)
  qed
  ultimately show ?thesis
    using assms(4) count_unk_eq [OF assms(4), of m] by (auto simp: se_embed_ids_def intro!: exI [of _ "embed_ids_core sse m sc (\<lambda>_. False) 0 ts out"])
qed

lemma embed_ids_exact_witness:
  "\<exists>r. embeds example_model [2, 1, 3] r \<and> se_embed_ids True example_model (se_scratch_init\<lparr>sc_acc_cap := 2\<rparr>) (\<lambda>_. False) [2, 1, 3] [0, 0] =
     bindR r (\<lambda>v. Inr (v, \<lparr>st_token_count = 3, st_unk_count = 1, st_truncated = False\<rparr>))"
proof -
  have "count_unk example_model [2, 1, 3] = 1"
    by (simp add: count_unk_def example_model_def example_base_def example_meta_def)
  then show ?thesis
    using embed_ids_exact [OF example_model_ok, where sc = "se_scratch_init\<lparr>sc_acc_cap := 2\<rparr>" and out = "[0, 0]" and sse = True
      and ts = "[2, 1, 3]"]
    by (simp add: example_dim)
qed

end
