(* ===== verification/Batch.thy ===== *)
theory Batch
  imports Embed Options
begin

text \<open>
  Embedding a batch of texts, of \<^verbatim>\<open>static_embeddings.c\<close>: the check of the encodings, the window on a long text, the
  staging of the input, the job, the loop of rounds in which windows grow until the token limit is
  reached inside them, and the result string.

  The texts do not change while the job runs, and a conversion may change them but does not close the model
  (theory \<open>Lifecycle\<close> is about closing).  The result array is the list of its rows, which the source keeps behind each
  other.  Freeing is not modelled.
\<close>

subsection \<open>Texts\<close>

datatype text_encoding = EncUtf8 | EncUsAscii | EncOther

datatype coderange = CR_UNKNOWN | CR_7BIT | CR_VALID | CR_BROKEN

record ruby_text =
  rt_encoding :: text_encoding
  rt_coderange :: coderange
  rt_bytes :: "u8 list"

definition indexed_message :: "bool \<Rightarrow> string \<Rightarrow> string" where
  "indexed_message indexed message = (if indexed then ''input[%zu]: '' @ message else message)"

text \<open>\<open>scan\<close> stands for \<^verbatim>\<open>rb_enc_str_coderange\<close>.\<close>

definition check_text_encoding_mode :: "(ruby_text \<Rightarrow> coderange) \<Rightarrow> ruby_text \<Rightarrow> bool \<Rightarrow> se_encoding_validation \<Rightarrow> unit ruby" where
  "check_text_encoding_mode scan str indexed mode =
     (if rt_encoding str \<noteq> EncUtf8 \<and> rt_encoding str \<noteq> EncUsAscii
      then Inl (Raise EncodingError (indexed_message indexed ''expected UTF-8 or US-ASCII, got %s (transcode explicitly)''))
      else if rt_coderange str = CR_UNKNOWN \<and> mode = SE_VALIDATE_ENCODING_PREFIX then Inr ()
      else let cr = (if rt_coderange str = CR_UNKNOWN then scan str else rt_coderange str) in
        if cr \<noteq> CR_VALID \<and> cr \<noteq> CR_7BIT then Inl (Raise EncodingError (indexed_message indexed ''string is not valid %s'')) else Inr ())"

text \<open>An entry that is no string is \<open>None\<close>; so is every entry past the end.\<close>

definition text_entry :: "ruby_text option list \<Rightarrow> nat \<Rightarrow> ruby_text option" where
  "text_entry texts i = (if i < length texts then texts ! i else None)"

fun snapshot_from ::
  "(ruby_text \<Rightarrow> coderange) \<Rightarrow> ruby_text option list \<Rightarrow> bool \<Rightarrow> se_encoding_validation \<Rightarrow> nat list \<Rightarrow> u8 list list ruby" where
  "snapshot_from scan texts is_array mode [] = Inr []"
| "snapshot_from scan texts is_array mode (i # is) =
     (case text_entry texts i of
        None \<Rightarrow> Inl (Raise TypeError ''wrong argument type (expected String)'')
      | Some s \<Rightarrow>
          bindE (check_text_encoding_mode scan s is_array mode) (\<lambda>_.
          bindE (snapshot_from scan texts is_array mode is) (\<lambda>rest. Inr (rt_bytes s # rest))))"

definition snapshot_texts ::
  "(ruby_text \<Rightarrow> coderange) \<Rightarrow> ruby_text option list \<Rightarrow> bool \<Rightarrow> nat \<Rightarrow> se_encoding_validation \<Rightarrow> u8 list list ruby" where
  "snapshot_texts scan texts is_array n mode = snapshot_from scan texts is_array mode [0..<n]"

subsection \<open>The window on a text\<close>

definition SE_PREFIX_BYTES_PER_TOKEN :: nat where "SE_PREFIX_BYTES_PER_TOKEN = 16"
definition SE_PREFIX_MIN_BYTES :: nat where "SE_PREFIX_MIN_BYTES = 4096"
definition SE_PREFIX_MAX_BYTES :: nat where "SE_PREFIX_MAX_BYTES = 65536"
definition SE_PREFIX_BACKSCAN_BYTES :: nat where "SE_PREFIX_BACKSCAN_BYTES = 8192"

definition prefix_initial_target :: "u32 \<Rightarrow> nat" where
  "prefix_initial_target max_tokens =
     (if max_tokens = 0 then 0
      else if unat max_tokens > SE_PREFIX_MAX_BYTES div SE_PREFIX_BYTES_PER_TOKEN then SE_PREFIX_MAX_BYTES
      else let target = unat max_tokens * SE_PREFIX_BYTES_PER_TOKEN;
               target = (if target < SE_PREFIX_MIN_BYTES then SE_PREFIX_MIN_BYTES else target)
           in if target > SE_PREFIX_MAX_BYTES then SE_PREFIX_MAX_BYTES else target)"

definition prefix_boundary_len :: "se_model \<Rightarrow> u8 list \<Rightarrow> nat \<Rightarrow> nat se_result" where
  "prefix_boundary_len m text target =
     (if target \<ge> length text then Inr (length text)
      else se_prefix_boundary_len m text target SE_PREFIX_BACKSCAN_BYTES)"

definition grow_target :: "nat \<Rightarrow> nat \<Rightarrow> nat" where
  "grow_target target full_len = (if target = 0 \<or> target > full_len div 2 then full_len else target * 2)"

lemma grow_target_less: "target < full_len \<Longrightarrow> target < grow_target target full_len"
  by (simp add: grow_target_def)

lemma grow_target_le: "target \<le> full_len \<Longrightarrow> grow_target target full_len \<le> full_len"
  by (auto simp: grow_target_def)

text \<open>The results are the length to copy and the new target.\<close>

function copy_len_loop :: "se_model \<Rightarrow> u8 list \<Rightarrow> nat \<Rightarrow> (nat \<times> nat) se_result" where
  "copy_len_loop m text target =
     bindR (prefix_boundary_len m text target) (\<lambda>copy_len.
       if copy_len \<noteq> 0 then Inr (copy_len, target)
       else if target \<ge> length text then Inr (length text, length text)
       else copy_len_loop m text (grow_target target (length text)))"
  by pat_completeness auto
termination
  by (relation "measure (\<lambda>(m, text, target). length text - target)") (auto simp: grow_target_def)

declare copy_len_loop.simps [simp del]

definition resolve_copy_len :: "se_model \<Rightarrow> u8 list \<Rightarrow> nat \<Rightarrow> u32 \<Rightarrow> (nat \<times> nat) se_result" where
  "resolve_copy_len m text target max_tokens =
     (if max_tokens = 0 \<or> target = 0 \<or> target \<ge> length text then Inr (length text, length text)
      else copy_len_loop m text target)"

text \<open>The lengths for the texts that are pending, and the new targets.\<close>

fun resolve_lens ::
  "se_model \<Rightarrow> u8 list list \<Rightarrow> u32 \<Rightarrow> nat list \<Rightarrow> nat list \<Rightarrow> (nat list \<times> nat list) se_result" where
  "resolve_lens m texts max_tokens [] targets = Inr ([], targets)"
| "resolve_lens m texts max_tokens (i # pending) targets =
     bindR (rdR texts i) (\<lambda>text. bindR (rdR targets i) (\<lambda>target.
     bindR (resolve_copy_len m text target max_tokens) (\<lambda>(copy_len, target).
     bindR (resolve_lens m texts max_tokens pending (targets[i := target])) (\<lambda>(lens, targets).
       Inr (copy_len # lens, targets)))))"

subsection \<open>Staging the input\<close>

text \<open>The batch is one block: the offsets, the lengths, and the bytes of the texts behind each other.\<close>

record batch_input =
  bi_base :: "u8 list"
  bi_offsets :: "nat list"
  bi_lengths :: "nat list"

fun checked_total :: "size_t \<Rightarrow> size_t list \<Rightarrow> size_t option" where
  "checked_total s [] = Some s"
| "checked_total s (n # ns) = (case se_checked_add_size s n of None \<Rightarrow> None | Some s \<Rightarrow> checked_total s ns)"

definition staging_bytes :: "nat \<Rightarrow> size_t \<Rightarrow> size_t option" where
  "staging_bytes n payload_bytes =
     (case (se_array_bytes (word_of_nat n) 8, se_array_bytes (word_of_nat n) 8) of
        (Some offsets_bytes, Some lengths_bytes) \<Rightarrow>
          (case se_checked_add_size offsets_bytes lengths_bytes of
             None \<Rightarrow> None
           | Some meta_bytes \<Rightarrow>
               (case se_checked_add_size meta_bytes payload_bytes of
                  None \<Rightarrow> None | Some allocation_bytes \<Rightarrow> se_alloc_bytes allocation_bytes 1))
      | _ \<Rightarrow> None)"

fun stage_texts :: "u8 list list \<Rightarrow> nat list \<Rightarrow> nat list \<Rightarrow> batch_input \<Rightarrow> batch_input se_result" where
  "stage_texts texts (i # indices) (n # lens) input =
     bindR (rdR texts i) (\<lambda>s.
       if n > length s then Inl OutOfBounds
       else stage_texts texts indices lens
         (input\<lparr>bi_base := bi_base input @ take n s, bi_offsets := bi_offsets input @ [length (bi_base input)],
           bi_lengths := bi_lengths input @ [n]\<rparr>))"
| "stage_texts texts _ _ input = Inr input"

text \<open>\<open>None\<close> is the return of 0.\<close>

definition build_input_indexed ::
  "(size_t \<Rightarrow> bool) \<Rightarrow> u8 list list \<Rightarrow> nat list \<Rightarrow> nat list \<Rightarrow> (batch_input \<times> size_t) option se_result" where
  "build_input_indexed alloc texts indices copy_lens =
     (case checked_total 0 (map word_of_nat copy_lens) of
        None \<Rightarrow> Inr None
      | Some total_bytes \<Rightarrow>
          (case staging_bytes (length indices) total_bytes of
             None \<Rightarrow> Inr None
           | Some malloc_bytes \<Rightarrow>
               if \<not> alloc malloc_bytes then Inr None
               else bindR (stage_texts texts indices copy_lens \<lparr>bi_base = [], bi_offsets = [], bi_lengths = []\<rparr>)
                 (\<lambda>input. Inr (Some (input, total_bytes)))))"

definition batch_text :: "batch_input \<Rightarrow> nat \<Rightarrow> u8 list se_result" where
  "batch_text input i =
     bindR (rdR (bi_offsets input) i) (\<lambda>off. bindR (rdR (bi_lengths input) i) (\<lambda>len.
       if off + len \<le> length (bi_base input) then Inr (take len (drop off (bi_base input))) else Inl OutOfBounds))"

subsection \<open>A job\<close>

text \<open>
  The surroundings of a call.  Every round of the loop may run on another thread; \<open>be_thread r\<close> is the state of
  the thread that runs round \<open>r\<close>, \<open>be_acquire r\<close> answers its allocations outside the texts, and \<open>be_text r i\<close> those
  made for the text at place \<open>i\<close>, with the cancel flag as it is read there.  \<open>be_cancelled r i\<close> is the flag before that
  text, and \<open>be_check_ints r\<close> what a pending interrupt does after the round.
\<close>

record batch_env =
  be_sse :: bool
  be_scan :: "ruby_text \<Rightarrow> coderange"
  be_num2ull :: "ruby_value \<Rightarrow> (ruby_text option list, nat) ruby_call"
  be_buffers :: "nat \<Rightarrow> size_t \<Rightarrow> bool"
  be_staging :: "nat \<Rightarrow> size_t \<Rightarrow> bool"
  be_thread :: "nat \<Rightarrow> thread_state"
  be_acquire :: "nat \<Rightarrow> se_env"
  be_text :: "nat \<Rightarrow> nat \<Rightarrow> se_env"
  be_cancelled :: "nat \<Rightarrow> nat \<Rightarrow> bool"
  be_check_ints :: "nat \<Rightarrow> unit ruby"
  be_string :: "unit ruby"

record batch_job =
  bj_out :: "u32 list list"
  bj_stats :: "se_token_stats list"
  bj_failed :: bool
  bj_failed_index :: nat
  bj_error :: se_fault

definition job_fail :: "batch_job \<Rightarrow> se_fault \<Rightarrow> nat \<Rightarrow> batch_job" where
  "job_fail job err i =
     (if bj_failed job then job else job\<lparr>bj_failed := True, bj_failed_index := i, bj_error := err\<rparr>)"

abbreviation scratch_oom :: se_fault where
  "scratch_oom \<equiv> SeError SE_ERR_OOM ''out of memory while sizing scratch buffers''"

text \<open>One row of the result array; the row is given by \<^verbatim>\<open>out_index\<close>.\<close>

definition batch_one ::
  "batch_env \<Rightarrow> nat \<Rightarrow> se_model \<Rightarrow> u32 \<Rightarrow> batch_input \<Rightarrow> nat \<Rightarrow> nat \<Rightarrow> se_scratch \<Rightarrow> batch_job \<Rightarrow>
   (se_scratch \<times> batch_job) se_result" where
  "batch_one E r m max_tokens input i row sc job =
     bindR (batch_text input i) (\<lambda>text.
     case se_scratch_reserve (be_text E r i) 0 sc (mt_dim (md_meta m)) of
       (calls, sc, False) \<Rightarrow> Inr (sc, job_fail job scratch_oom i)
     | (calls, sc, True) \<Rightarrow>
         bindR (rdR (bj_out job) row) (\<lambda>out.
         case se_embed_one (be_sse E) m (be_text E r i) sc calls 0 text max_tokens out of
           Inl OutOfBounds \<Rightarrow> Inl OutOfBounds
         | Inl err \<Rightarrow> Inr (sc, job_fail job err i)
         | Inr (v, stats, sc) \<Rightarrow>
             bindR (wrR (bj_out job) row v) (\<lambda>out. bindR (wrR (bj_stats job) row stats) (\<lambda>stats.
               Inr (sc, job\<lparr>bj_out := out, bj_stats := stats\<rparr>)))))"

function batch_worker_run ::
  "batch_env \<Rightarrow> nat \<Rightarrow> se_model \<Rightarrow> u32 \<Rightarrow> batch_input \<Rightarrow> nat list \<Rightarrow> nat \<Rightarrow> se_scratch \<Rightarrow> batch_job \<Rightarrow>
   (se_scratch \<times> batch_job) se_result" where
  "batch_worker_run E r m max_tokens input out_index i sc job =
     (if be_cancelled E r i
      then Inr (sc, job\<lparr>bj_error := SeError SE_ERR_INTERNAL ''operation cancelled'', bj_failed := True\<rparr>)
      else if i \<ge> length (bi_lengths input) \<or> bj_failed job then Inr (sc, job)
      else bindR (rdR out_index i) (\<lambda>row.
           bindR (batch_one E r m max_tokens input i row sc job) (\<lambda>(sc, job).
             if bj_failed job then Inr (sc, job)
             else batch_worker_run E r m max_tokens input out_index (i + 1) sc job)))"
  by pat_completeness auto
termination
  by (relation "measure (\<lambda>(E, r, m, max_tokens, input, out_index, i, sc, job). length (bi_lengths input) - i)") auto

declare batch_worker_run.simps [simp del]

text \<open>The scratch a pointer stands for.\<close>

definition scratch_at :: "thread_state \<Rightarrow> scratch_ptr \<Rightarrow> se_scratch option" where
  "scratch_at th p = (case p of TlsScratch \<Rightarrow> map_option fst (th_tls th) | HeapScratch a \<Rightarrow> th_heap th a)"

definition scratch_put :: "thread_state \<Rightarrow> scratch_ptr \<Rightarrow> se_scratch \<Rightarrow> thread_state" where
  "scratch_put th p sc =
     (case p of
        TlsScratch \<Rightarrow> th\<lparr>th_tls := map_option (\<lambda>(_, in_use). (sc, in_use)) (th_tls th)\<rparr>
      | HeapScratch a \<Rightarrow> th\<lparr>th_heap := (th_heap th)(a := Some sc)\<rparr>)"

definition batch_execute ::
  "batch_env \<Rightarrow> nat \<Rightarrow> se_model \<Rightarrow> u32 \<Rightarrow> batch_input \<Rightarrow> nat list \<Rightarrow> batch_job \<Rightarrow> batch_job se_result" where
  "batch_execute E r m max_tokens input out_index job =
     (case se_scratch_acquire (be_acquire E r) (be_thread E r) (mt_dim (md_meta m)) of
        (th, None) \<Rightarrow> Inr (job\<lparr>bj_error := scratch_oom, bj_failed := True\<rparr>)
      | (th, Some p) \<Rightarrow>
          (case scratch_at th p of
             None \<Rightarrow> Inl OutOfBounds
           | Some sc \<Rightarrow>
               bindR (batch_worker_run E r m max_tokens input out_index 0 sc job) (\<lambda>(sc, job).
               bindR (se_scratch_release (be_acquire E r) (scratch_put th p sc) (Some p)) (\<lambda>_. Inr job))))"

text \<open>
  \<^verbatim>\<open>run_job\<close> hands the job to a thread of its own, runs it without the lock, or runs it in place; all three run
  \<^verbatim>\<open>batch_execute\<close> once, and what may follow is an exception.
\<close>

datatype run_mode = FiberWorker | WithoutGvl | UnderGvl

definition SE_FIBER_THRESHOLD :: nat where "SE_FIBER_THRESHOLD = 2048"
definition SE_GVL_UNLOCK_THRESHOLD :: nat where "SE_GVL_UNLOCK_THRESHOLD = 2048"

definition run_mode_of :: "bool \<Rightarrow> bool \<Rightarrow> size_t \<Rightarrow> run_mode" where
  "run_mode_of has_scheduler blocking total_bytes =
     (if has_scheduler \<and> \<not> blocking \<and> unat total_bytes \<ge> SE_FIBER_THRESHOLD then FiberWorker
      else if unat total_bytes \<ge> SE_GVL_UNLOCK_THRESHOLD then WithoutGvl else UnderGvl)"

definition run_job ::
  "batch_env \<Rightarrow> nat \<Rightarrow> se_model \<Rightarrow> u32 \<Rightarrow> batch_input \<Rightarrow> nat list \<Rightarrow> batch_job \<Rightarrow> batch_job ruby" where
  "run_job E r m max_tokens input out_index job =
     bindE (of_se (batch_execute E r m max_tokens input out_index job)) (\<lambda>job.
     bindE (be_check_ints E r) (\<lambda>_. Inr job))"

subsection \<open>The rounds\<close>

record embed_run =
  er_out :: "u32 list list"
  er_stats :: "se_token_stats list"
  er_targets :: "nat list"

definition job_start :: "embed_run \<Rightarrow> batch_job" where
  "job_start run = \<lparr>bj_out = er_out run, bj_stats = er_stats run, bj_failed = False, bj_failed_index = 0,
     bj_error = SeError SE_OK []\<rparr>"

text \<open>The texts that need a larger window, and their new targets.\<close>

fun still_pending ::
  "u32 \<Rightarrow> u8 list list \<Rightarrow> se_token_stats list \<Rightarrow> nat list \<Rightarrow> nat list \<Rightarrow> nat list \<Rightarrow> (nat list \<times> nat list) se_result" where
  "still_pending max_tokens texts stats (i # pending) (n # lens) targets =
     bindR (rdR texts i) (\<lambda>text. bindR (rdR stats i) (\<lambda>st. bindR (rdR targets i) (\<lambda>target.
       if max_tokens \<noteq> 0 \<and> n < length text \<and> \<not> st_truncated st
       then bindR (still_pending max_tokens texts stats pending lens (targets[i := grow_target target (length text)]))
              (\<lambda>(nexts, targets). Inr (i # nexts, targets))
       else still_pending max_tokens texts stats pending lens targets)))"
| "still_pending max_tokens texts stats _ _ targets = Inr ([], targets)"

definition fault_error :: "bool \<Rightarrow> se_fault \<Rightarrow> ruby_fault" where
  "fault_error is_array e =
     (case e of SeError status message \<Rightarrow> raise_se status (indexed_message is_array message) | OutOfBounds \<Rightarrow> Undefined)"

definition is_invalid_utf8 :: "se_fault \<Rightarrow> bool" where
  "is_invalid_utf8 e = (case e of SeError status message \<Rightarrow> status = SE_ERR_INVALID_UTF8 | OutOfBounds \<Rightarrow> False)"

text \<open>What is decided after a job: go on with new targets and pending texts, or raise.\<close>

definition after_job ::
  "u32 \<Rightarrow> bool \<Rightarrow> u8 list list \<Rightarrow> nat list \<Rightarrow> nat list \<Rightarrow> nat list \<Rightarrow> batch_job \<Rightarrow> (nat list \<times> nat list) ruby" where
  "after_job max_tokens is_array texts pending lens targets job =
     (if bj_failed job then
        (let k = (if bj_failed_index job < length pending then bj_failed_index job else 0)
         in bindE (of_se (rdR pending k)) (\<lambda>original. bindE (of_se (rdR lens k)) (\<lambda>n.
            bindE (of_se (rdR texts original)) (\<lambda>text. bindE (of_se (rdR targets original)) (\<lambda>target.
              if is_invalid_utf8 (bj_error job) \<and> n < length text
              then Inr (pending, targets[original := grow_target target (length text)])
              else Inl (fault_error is_array (bj_error job)))))))
      else of_se (still_pending max_tokens texts (bj_stats job) pending lens targets))"

subsection \<open>The windows grow\<close>

lemma rdR_at: "rdR xs i = Inr x \<longleftrightarrow> i < length xs \<and> x = xs ! i"
  by (auto simp: rdR_def)

lemma copy_len_loop_grows:
  "copy_len_loop m s target = Inr (n, t) \<Longrightarrow> target \<le> t \<or> length s \<le> t"
proof (induction m s target rule: copy_len_loop.induct)
  case (1 m s target)
  from "1.prems" obtain k where k: "prefix_boundary_len m s target = Inr k"
    by (subst (asm) copy_len_loop.simps) (auto simp: bindR_eq_Inr)
  show ?case
  proof (cases "k \<noteq> 0 \<or> length s \<le> target")
    case True
    then show ?thesis using "1.prems" k by (subst (asm) copy_len_loop.simps) (auto split: if_splits)
  next
    case False
    then have "copy_len_loop m s (grow_target target (length s)) = Inr (n, t)"
      using "1.prems" k by (subst (asm) copy_len_loop.simps) simp
    then show ?thesis using "1.IH" [OF k] False grow_target_less [of target "length s"] by fastforce
  qed
qed

lemma copy_len_loop_window:
  "copy_len_loop m s target = Inr (n, t) \<Longrightarrow> n < length s \<Longrightarrow> t < length s \<and> n \<noteq> 0 \<and> prefix_boundary_len m s t = Inr n"
proof (induction m s target rule: copy_len_loop.induct)
  case (1 m s target)
  from "1.prems"(1) obtain k where k: "prefix_boundary_len m s target = Inr k"
    by (subst (asm) copy_len_loop.simps) (auto simp: bindR_eq_Inr)
  consider "k \<noteq> 0" "n = k" "t = target" | "k = 0" "target < length s"
    "copy_len_loop m s (grow_target target (length s)) = Inr (n, t)"
    using "1.prems" k by (subst (asm) copy_len_loop.simps) (auto split: if_splits)
  then show ?case
  proof cases
    case 1
    then show ?thesis using k \<open>n < length s\<close> by (auto simp: prefix_boundary_len_def split: if_splits)
  next
    case 2
    then show ?thesis using "1.IH" [OF k] \<open>n < length s\<close> by simp
  qed
qed

text \<open>A window in its text: the length was found from the target, and is found from it again.\<close>

definition window :: "se_model \<Rightarrow> u32 \<Rightarrow> u8 list \<Rightarrow> nat \<Rightarrow> nat \<Rightarrow> bool" where
  "window m max_tokens s n t =
     (n < length s \<longrightarrow> max_tokens \<noteq> 0 \<and> 0 < n \<and> 0 < t \<and> t < length s \<and> prefix_boundary_len m s t = Inr n)"

lemma resolve_copy_len_grows:
  "resolve_copy_len m s target max_tokens = Inr (n, t) \<Longrightarrow> target \<le> t \<or> length s \<le> t"
  using copy_len_loop_grows [of m s target n t] by (auto simp: resolve_copy_len_def split: if_splits)

lemma resolve_copy_len_window:
  assumes "resolve_copy_len m s target max_tokens = Inr (n, t)"
  shows "window m max_tokens s n t"
  using assms copy_len_loop_window [of m s target n t] copy_len_loop_grows [of m s target n t]
  by (auto simp: resolve_copy_len_def window_def split: if_splits)

lemma window_again:
  assumes "window m max_tokens s n t" "n < length s"
  shows "resolve_copy_len m s t max_tokens = Inr (n, t)"
  using assms by (auto simp: window_def resolve_copy_len_def copy_len_loop.simps)

text \<open>What is left of the texts outside their windows.\<close>

definition slack :: "u8 list list \<Rightarrow> nat list \<Rightarrow> nat" where
  "slack texts targets = (\<Sum>i<length texts. length (texts ! i) - (if i < length targets then targets ! i else 0))"

lemma slack_less:
  assumes "i < length texts" "i < length targets" "targets ! i < length (texts ! i)" "targets ! i < g"
  shows "slack texts (targets[i := g]) < slack texts targets"
  unfolding slack_def
proof (rule sum_strict_mono_ex1)
  show "\<forall>j\<in>{..<length texts}. length (texts ! j) - (if j < length (targets[i := g]) then targets[i := g] ! j else 0)
      \<le> length (texts ! j) - (if j < length targets then targets ! j else 0)"
    using assms(2,4) by (auto simp: nth_list_update)
  show "\<exists>j\<in>{..<length texts}. length (texts ! j) - (if j < length (targets[i := g]) then targets[i := g] ! j else 0)
      < length (texts ! j) - (if j < length targets then targets ! j else 0)"
    using assms by (intro bexI [of _ i]) auto
qed simp

lemma slack_le:
  assumes "i < length targets" "targets ! i \<le> g \<or> length (texts ! i) \<le> g"
  shows "slack texts (targets[i := g]) \<le> slack texts targets"
  unfolding slack_def using assms by (intro sum_mono) (auto simp: nth_list_update)

lemma resolve_lens_Cons:
  "resolve_lens m texts max_tokens (i # pending) targets = Inr (lens, targets') \<longleftrightarrow>
     (\<exists>n t lens'. i < length texts \<and> i < length targets \<and>
        resolve_copy_len m (texts ! i) (targets ! i) max_tokens = Inr (n, t) \<and>
        resolve_lens m texts max_tokens pending (targets[i := t]) = Inr (lens', targets') \<and> lens = n # lens')"
  by (auto simp: bindR_eq_Inr rdR_at)

lemma resolve_lens_slack:
  "resolve_lens m texts max_tokens pending targets = Inr (lens, targets') \<Longrightarrow>
     slack texts targets' \<le> slack texts targets \<and> length targets' = length targets \<and> length lens = length pending"
proof (induction pending arbitrary: targets lens)
  case (Cons i pending)
  then obtain n t lens' where i: "i < length texts" "i < length targets"
    and r: "resolve_copy_len m (texts ! i) (targets ! i) max_tokens = Inr (n, t)"
    and rest: "resolve_lens m texts max_tokens pending (targets[i := t]) = Inr (lens', targets')" "lens = n # lens'"
    unfolding resolve_lens_Cons by (elim exE conjE)
  show ?case using Cons.IH [OF rest(1)] rest(2) slack_le [OF i(2) resolve_copy_len_grows [OF r]] by simp
qed simp

lemma resolve_lens_keeps:
  "resolve_lens m texts max_tokens pending targets = Inr (lens, targets') \<Longrightarrow>
   window m max_tokens (texts ! j) n (targets ! j) \<Longrightarrow> n < length (texts ! j) \<Longrightarrow> targets' ! j = targets ! j"
proof (induction pending arbitrary: targets lens)
  case (Cons i pending)
  from Cons.prems(1) obtain k t lens' where i: "i < length texts" "i < length targets"
    and r: "resolve_copy_len m (texts ! i) (targets ! i) max_tokens = Inr (k, t)"
    and rest: "resolve_lens m texts max_tokens pending (targets[i := t]) = Inr (lens', targets')"
    unfolding resolve_lens_Cons by (elim exE conjE)
  have "targets[i := t] ! j = targets ! j"
    using r window_again [OF Cons.prems(2,3)] i by (cases "j = i") simp_all
  then show ?case using Cons.IH [OF rest] Cons.prems(2,3) by simp
qed simp

text \<open>What the loop over the pending texts establishes.\<close>

lemma resolve_lens_windows:
  "resolve_lens m texts max_tokens pending targets = Inr (lens, targets') \<Longrightarrow> k < length pending \<Longrightarrow>
   pending ! k < length texts \<and> pending ! k < length targets \<and>
   window m max_tokens (texts ! (pending ! k)) (lens ! k) (targets' ! (pending ! k))"
proof (induction pending arbitrary: targets lens k)
  case (Cons i pending)
  from Cons.prems(1) obtain n t lens' where i: "i < length texts" "i < length targets"
    and r: "resolve_copy_len m (texts ! i) (targets ! i) max_tokens = Inr (n, t)"
    and rest: "resolve_lens m texts max_tokens pending (targets[i := t]) = Inr (lens', targets')" "lens = n # lens'"
    unfolding resolve_lens_Cons by (elim exE conjE)
  show ?case
  proof (cases k)
    case 0
    have w: "window m max_tokens (texts ! i) n t" by (rule resolve_copy_len_window [OF r])
    have "window m max_tokens (texts ! i) n (targets' ! i)"
    proof (cases "n < length (texts ! i)")
      case True
      then show ?thesis using resolve_lens_keeps [OF rest(1), of i n] w i by simp
    qed (simp add: window_def)
    then show ?thesis using 0 i rest(2) by simp
  next
    case (Suc k')
    then show ?thesis using Cons.IH [OF rest(1), of k'] Cons.prems(2) rest(2) by simp
  qed
qed simp

lemma still_pending_Cons:
  "still_pending max_tokens texts stats (i # pending) (n # lens) targets = Inr (nexts, targets') \<longleftrightarrow>
     i < length texts \<and> i < length stats \<and> i < length targets \<and>
     (if max_tokens \<noteq> 0 \<and> n < length (texts ! i) \<and> \<not> st_truncated (stats ! i)
      then \<exists>nexts'. nexts = i # nexts' \<and>
        still_pending max_tokens texts stats pending lens (targets[i := grow_target (targets ! i) (length (texts ! i))]) =
          Inr (nexts', targets')
      else still_pending max_tokens texts stats pending lens targets = Inr (nexts, targets'))"
  by (auto simp: bindR_eq_Inr rdR_def)

lemma still_pending_le:
  "still_pending max_tokens texts stats pending lens targets = Inr (nexts, targets') \<Longrightarrow>
   slack texts targets' \<le> slack texts targets \<and> length targets' = length targets"
proof (induction max_tokens texts stats pending lens targets arbitrary: nexts rule: still_pending.induct)
  case (1 max_tokens texts stats i pending n lens targets)
  let ?t = "targets[i := grow_target (targets ! i) (length (texts ! i))]"
  from "1.prems" have i: "i < length texts" "i < length stats" "i < length targets"
    unfolding still_pending_Cons by blast+
  have r: "rdR texts i = Inr (texts ! i)" "rdR stats i = Inr (stats ! i)" "rdR targets i = Inr (targets ! i)"
    using i by (simp_all add: rdR_def)
  have grow: "slack texts ?t \<le> slack texts targets" by (rule slack_le [OF i(3)]) (auto simp: grow_target_def)
  show ?case
  proof (cases "max_tokens \<noteq> 0 \<and> n < length (texts ! i) \<and> \<not> st_truncated (stats ! i)")
    case True
    then obtain nexts' where "still_pending max_tokens texts stats pending lens ?t = Inr (nexts', targets')"
      using "1.prems" unfolding still_pending_Cons by auto
    then show ?thesis using "1.IH"(1) [OF r True] grow by simp
  next
    case False
    then show ?thesis using "1.IH"(2) [OF r False] "1.prems" unfolding still_pending_Cons by simp
  qed
qed simp_all

lemma still_pending_less:
  "still_pending max_tokens texts stats pending lens targets = Inr (nexts, targets') \<Longrightarrow> nexts \<noteq> [] \<Longrightarrow>
   (\<And>k. k < length pending \<Longrightarrow> k < length lens \<Longrightarrow> lens ! k < length (texts ! (pending ! k)) \<Longrightarrow>
      targets ! (pending ! k) < length (texts ! (pending ! k))) \<Longrightarrow>
   slack texts targets' < slack texts targets"
proof (induction max_tokens texts stats pending lens targets arbitrary: nexts rule: still_pending.induct)
  case (1 max_tokens texts stats i pending n lens targets)
  let ?t = "targets[i := grow_target (targets ! i) (length (texts ! i))]"
  from "1.prems"(1) have i: "i < length texts" "i < length stats" "i < length targets"
    unfolding still_pending_Cons by blast+
  have r: "rdR texts i = Inr (texts ! i)" "rdR stats i = Inr (stats ! i)" "rdR targets i = Inr (targets ! i)"
    using i by (simp_all add: rdR_def)
  show ?case
  proof (cases "max_tokens \<noteq> 0 \<and> n < length (texts ! i) \<and> \<not> st_truncated (stats ! i)")
    case True
    then obtain nexts' where "still_pending max_tokens texts stats pending lens ?t = Inr (nexts', targets')"
      using "1.prems"(1) unfolding still_pending_Cons by auto
    then have "slack texts targets' \<le> slack texts ?t" using still_pending_le by blast
    moreover have "targets ! i < length (texts ! i)" using "1.prems"(3) [of 0] True by simp
    then have "slack texts ?t < slack texts targets"
      using i by (intro slack_less) (simp_all add: grow_target_less)
    ultimately show ?thesis by simp
  next
    case False
    then have rest: "still_pending max_tokens texts stats pending lens targets = Inr (nexts, targets')"
      using "1.prems"(1) unfolding still_pending_Cons by simp
    show ?thesis
    proof (rule "1.IH"(2) [OF r False rest "1.prems"(2)])
      fix k assume "k < length pending" "k < length lens" "lens ! k < length (texts ! (pending ! k))"
      then show "targets ! (pending ! k) < length (texts ! (pending ! k))" using "1.prems"(3) [of "Suc k"] by simp
    qed
  qed
qed simp_all

lemma after_job_decreases:
  assumes r: "resolve_lens m texts max_tokens pending targets = Inr (lens, targets1)"
    and a: "after_job max_tokens is_array texts pending lens targets1 job = Inr (pending2, targets2)"
    and p: "pending \<noteq> []"
  shows "slack texts targets2 < slack texts targets \<or> slack texts targets2 \<le> slack texts targets \<and> pending2 = []"
proof -
  note s = resolve_lens_slack [OF r]
  have w: "targets1 ! (pending ! k) < length (texts ! (pending ! k))"
    if "k < length pending" "lens ! k < length (texts ! (pending ! k))" for k
    using resolve_lens_windows [OF r that(1)] that(2) by (auto simp: window_def)
  show ?thesis
  proof (cases "bj_failed job")
    case True
    define k where "k = (if bj_failed_index job < length pending then bj_failed_index job else 0)"
    then have k: "k < length pending" using p by auto
    from a obtain i where i: "i = pending ! k" "i < length texts" "i < length targets1" "lens ! k < length (texts ! i)"
      and t: "targets2 = targets1[i := grow_target (targets1 ! i) (length (texts ! i))]"
      unfolding after_job_def Let_def k_def [symmetric] by (auto simp: True bindE_eq_Inr of_se_def rdR_def split: if_splits)
    have "slack texts targets2 < slack texts targets1"
      unfolding t using w [OF k] i by (intro slack_less) (simp_all add: grow_target_less)
    then show ?thesis using s by simp
  next
    case False
    then have sp: "still_pending max_tokens texts (bj_stats job) pending lens targets1 = Inr (pending2, targets2)"
      using a by (auto simp: after_job_def of_se_def split: sum.splits se_fault.splits)
    show ?thesis
      using still_pending_le [OF sp] still_pending_less [OF sp] w s by fastforce
  qed
qed

subsection \<open>The loop and the call\<close>

lemma bindE_cong [fundef_cong]:
  "r = r' \<Longrightarrow> (\<And>x. r' = Inr x \<Longrightarrow> f x = g x) \<Longrightarrow> bindE r f = bindE r' g"
  by (simp add: bindE_def split: sum.split)

lemma of_se_eq_Inr: "of_se r = Inr x \<longleftrightarrow> r = Inr x"
  by (auto simp: of_se_def split: sum.splits se_fault.splits)

function embed_rounds ::
  "batch_env \<Rightarrow> nat \<Rightarrow> se_model \<Rightarrow> u32 \<Rightarrow> bool \<Rightarrow> u8 list list \<Rightarrow> embed_run \<Rightarrow> nat list \<Rightarrow> embed_run ruby" where
  "embed_rounds E r m max_tokens is_array texts run pending =
     (if pending = [] then Inr run
      else bindE (of_se (resolve_lens m texts max_tokens pending (er_targets run))) (\<lambda>(lens, targets).
           bindE (of_se (build_input_indexed (be_staging E r) texts pending lens)) (\<lambda>staged.
           case staged of
             None \<Rightarrow> Inl (Raise NoMemoryError ''out of memory while staging the input batch'')
           | Some (input, total_bytes) \<Rightarrow>
               bindE (run_job E r m max_tokens input pending (job_start run)) (\<lambda>job.
               bindE (after_job max_tokens is_array texts pending lens targets job) (\<lambda>(pending, targets).
                 embed_rounds E (r + 1) m max_tokens is_array texts
                   \<lparr>er_out = bj_out job, er_stats = bj_stats job, er_targets = targets\<rparr> pending)))))"
  by pat_completeness auto
termination
proof (relation "measures [\<lambda>(E, r, m, max_tokens, is_array, texts, run, pending). slack texts (er_targets run),
    \<lambda>(E, r, m, max_tokens, is_array, texts, run, pending). length pending]")
qed (auto simp: of_se_eq_Inr dest: after_job_decreases)

subsection \<open>The call\<close>

text \<open>The bytes of a Ruby string made from a block of memory; \<open>created\<close> is what \<^verbatim>\<open>rb_enc_str_new\<close> raises, if it does.\<close>

definition binary_string_from_malloc :: "unit ruby \<Rightarrow> u8 list \<Rightarrow> size_t \<Rightarrow> u8 list ruby" where
  "binary_string_from_malloc created mem bytes =
     (if \<not> se_size_fits_long bytes then Inl (Raise ArgumentError ''embedding output is too large'')
      else bindE created (\<lambda>_.
        if unat bytes \<le> length mem then Inr (take (unat bytes) mem) else Inl Undefined))"

definition binary_string_from_floats :: "unit ruby \<Rightarrow> u32 list \<Rightarrow> size_t \<Rightarrow> se_vector_format \<Rightarrow> u8 list ruby" where
  "binary_string_from_floats created floats n format =
     (case se_checked_mul_size n (se_vector_format_element_bytes format) of
        None \<Rightarrow> Inl (Raise ArgumentError ''embedding output is too large'')
      | Some bytes \<Rightarrow>
          if \<not> se_size_fits_long bytes then Inl (Raise ArgumentError ''embedding output is too large'')
          else if format = SE_VECTOR_FORMAT_F32 then binary_string_from_malloc created (le_file floats) bytes
          else bindE (of_se (se_encode_f16_from_floats (le_file floats) 0 0 (unat n))) (\<lambda>mem.
            binary_string_from_malloc created mem bytes))"

datatype embed_run_alloc_status = EMBED_RUN_ALLOC_OK | EMBED_RUN_ALLOC_OVERFLOW | EMBED_RUN_ALLOC_OOM

definition embed_run_alloc :: "batch_env \<Rightarrow> size_t \<Rightarrow> size_t \<Rightarrow> embed_run_alloc_status" where
  "embed_run_alloc E n floats =
     (case (se_alloc_bytes floats 4, se_alloc_bytes n 12, se_alloc_bytes n 8) of
        (Some out_bytes, Some stats_bytes, Some targets_bytes) \<Rightarrow>
          if be_buffers E 0 out_bytes \<and> be_buffers E 1 stats_bytes \<and> be_buffers E 2 targets_bytes \<and>
             be_buffers E 3 targets_bytes \<and> be_buffers E 4 targets_bytes
          then EMBED_RUN_ALLOC_OK else EMBED_RUN_ALLOC_OOM
      | _ \<Rightarrow> EMBED_RUN_ALLOC_OVERFLOW)"

definition run_start :: "nat \<Rightarrow> nat \<Rightarrow> nat \<Rightarrow> embed_run" where
  "run_start n dim initial =
     \<lparr>er_out = replicate n (replicate dim 0),
      er_stats = replicate n \<lparr>st_token_count = 0, st_unk_count = 0, st_truncated = False\<rparr>,
      er_targets = replicate n initial\<rparr>"

text \<open>After the conversion of \<^verbatim>\<open>max_tokens\<close>; the result is the string and the counts of the first text.\<close>

definition embed_texts_run ::
  "batch_env \<Rightarrow> se_model \<Rightarrow> bool \<Rightarrow> nat \<Rightarrow> u32 \<Rightarrow> se_vector_format \<Rightarrow> se_encoding_validation \<Rightarrow>
   ruby_text option list \<Rightarrow> (u8 list \<times> se_token_stats list) ruby" where
  "embed_texts_run E m is_array n max_tokens format validation texts =
     (let too_large = Inl (Raise ArgumentError ''embedding output is too large'') in
      bindE (snapshot_texts (be_scan E) texts is_array n validation) (\<lambda>snapshot.
      case se_checked_mul_size (word_of_nat n) (ucast (mt_dim (md_meta m))) of
        None \<Rightarrow> too_large
      | Some floats \<Rightarrow>
          (case se_checked_mul_size floats (se_vector_format_element_bytes format) of
             None \<Rightarrow> too_large
           | Some out_bytes \<Rightarrow>
               if \<not> se_size_fits_long out_bytes then too_large
               else case embed_run_alloc E (word_of_nat n) floats of
                   EMBED_RUN_ALLOC_OVERFLOW \<Rightarrow> too_large
                 | EMBED_RUN_ALLOC_OOM \<Rightarrow> Inl (Raise NoMemoryError ''out of memory'')
                 | EMBED_RUN_ALLOC_OK \<Rightarrow>
                     bindE (embed_rounds E 0 m max_tokens is_array snapshot
                        (run_start n (unat (mt_dim (md_meta m))) (prefix_initial_target max_tokens)) [0..<n]) (\<lambda>run.
                     bindE (binary_string_from_floats (be_string E) (concat (er_out run)) floats format) (\<lambda>bytes.
                       Inr (bytes, take 1 (er_stats run)))))))"

text \<open>A closed model is \<open>None\<close>.\<close>

definition embed_texts_internal ::
  "batch_env \<Rightarrow> se_model option \<Rightarrow> bool \<Rightarrow> nat \<Rightarrow> ruby_value \<Rightarrow> se_vector_format \<Rightarrow> se_encoding_validation \<Rightarrow>
   (ruby_text option list, u8 list \<times> se_token_stats list) ruby_call" where
  "embed_texts_internal E model is_array n max_tokens_opt format validation =
     (case model of
        None \<Rightarrow> pureC (Inl (Raise Error ''model is closed''))
      | Some m \<Rightarrow>
          bindC (resolve_max_tokens (be_num2ull E) m max_tokens_opt) (\<lambda>max_tokens texts.
            (embed_texts_run E m is_array n max_tokens format validation texts, texts)))"

text \<open>\<^verbatim>\<open>texts\<close> is an array, or it is some other object.\<close>

definition embed_batch_internal ::
  "batch_env \<Rightarrow> se_model option \<Rightarrow> bool \<Rightarrow> ruby_value \<Rightarrow> se_vector_format \<Rightarrow> se_encoding_validation \<Rightarrow>
   (ruby_text option list, u8 list) ruby_call" where
  "embed_batch_internal E model texts_array max_tokens_opt format validation texts =
     (if \<not> texts_array then (Inl (Raise TypeError ''wrong argument type (expected Array)''), texts)
      else bindC (embed_texts_internal E model True (length texts) max_tokens_opt format validation)
             (\<lambda>(bytes, stats). pureC (Inr bytes)) texts)"

definition model_embed_batch ::
  "batch_env \<Rightarrow> (ruby_value \<Rightarrow> (ruby_text option list, int) ruby_call) \<Rightarrow> se_model option \<Rightarrow> bool \<Rightarrow> ruby_value \<Rightarrow>
   (ruby_text option list, u8 list) ruby_call" where
  "model_embed_batch E num2long model texts_array opts =
     bindC (pureC (check_keywords opts [''max_tokens'', ''format'', ''validate_encoding'', ''threads''])) (\<lambda>_.
     bindC (reject_parallel_threads num2long opts) (\<lambda>_.
     bindC (pureC (resolve_vector_format (lookup_option opts ''format''))) (\<lambda>format.
     bindC (pureC (resolve_encoding_validation (lookup_option opts ''validate_encoding''))) (\<lambda>validation.
       embed_batch_internal E model texts_array (lookup_option opts ''max_tokens'') format validation))))"

definition embed_one_via_batch ::
  "batch_env \<Rightarrow> se_model option \<Rightarrow> ruby_value \<Rightarrow> se_vector_format \<Rightarrow> se_encoding_validation \<Rightarrow>
   (ruby_text option list, u8 list \<times> se_token_stats list) ruby_call" where
  "embed_one_via_batch E model max_tokens_opt format validation =
     embed_texts_internal E model False 1 max_tokens_opt format validation"

end
