(* ===== verification/BatchProps.thy ===== *)
theory BatchProps
  imports Batch
begin

text \<open>
  What a batch of texts computes: the ids and the embedding of every whole text, although only its window is tokenized.
  The invariant of the rounds is \<open>run_ok\<close>; the theorem on windows is that of theory \<open>Prefix\<close>.
\<close>

subsection \<open>Specification\<close>

text \<open>The ids of a text, whatever the environment answers.\<close>

definition text_cfg :: "se_model \<Rightarrow> u32 \<Rightarrow> token_cfg" where
  "text_cfg m max_tokens = embed_cfg m example_env max_tokens"

definition text_ids :: "se_model \<Rightarrow> u32 \<Rightarrow> u8 list \<Rightarrow> (u32 list \<times> bool) se_result" where
  "text_ids m max_tokens s = tokenize_spec (text_cfg m max_tokens) s"

definition text_embedded :: "se_model \<Rightarrow> u32 \<Rightarrow> u8 list \<Rightarrow> u32 list \<Rightarrow> se_token_stats \<Rightarrow> bool" where
  "text_embedded m max_tokens s row stats =
     (length row = unat (mt_dim (md_meta m)) \<and>
      (\<exists>ids. text_ids m max_tokens s = Inr (ids, st_truncated stats) \<and>
         unat (st_token_count stats) = length ids \<and>
         unat (st_unk_count stats) = length (filter (\<lambda>t. t = mt_unk_id (md_meta m)) ids) \<and>
         known_ids m ids \<and> embeds m ids (Inr row)))"

text \<open>The faults of the surroundings, and those of a text.\<close>

definition outside_fault :: "se_fault \<Rightarrow> bool" where
  "outside_fault e = (e \<in> {SeError SE_ERR_INTERNAL ''operation cancelled'', SeError SE_ERR_OOM ''out of memory while %s'', scratch_oom})"

definition empty_fault :: "se_model \<Rightarrow> se_fault \<Rightarrow> bool" where
  "empty_fault m e =
     (e = SeError SE_ERR_EMPTY_INPUT ''input produced no usable tokens'' \<and> mt_empty_policy (md_meta m) = SE_EMPTY_RAISE)"

definition text_fault :: "se_model \<Rightarrow> u32 \<Rightarrow> u8 list \<Rightarrow> se_fault \<Rightarrow> bool" where
  "text_fault m max_tokens s e = (text_ids m max_tokens s = Inl e \<or> empty_fault m e)"

lemma limit_env: "over_limit (cfg\<lparr>tc_env := e\<rparr>) = over_limit cfg" "limit_ids (cfg\<lparr>tc_env := e\<rparr>) = limit_ids cfg"
  by (auto simp: fun_eq_iff over_limit_def counted_def limit_ids_def drops_unk_def unk_of_def)

lemma run_actions_env: "run_actions (cfg\<lparr>tc_env := e\<rparr>) ids acts = run_actions cfg ids acts"
  by (induction acts arbitrary: ids) (auto simp: limit_env split: option.split)

lemma text_ids_env: "tokenize_spec (embed_cfg m env max_tokens) s = text_ids m max_tokens s"
proof -
  have "embed_cfg m env max_tokens = (text_cfg m max_tokens)\<lparr>tc_env := env\<rparr>" by (simp add: text_cfg_def embed_cfg_def)
  then show ?thesis by (simp add: text_ids_def tokenize_spec_def meaning_def run_actions_env)
qed

text \<open>No text gives a fault of memory.\<close>

lemma text_ids_fault:
  "text_ids m max_tokens s = Inl e \<Longrightarrow>
     e = SeError SE_ERR_INTERNAL ''invalid WordPiece byte boundary'' \<or> e = SeError SE_ERR_INVALID_UTF8 ''input is not valid UTF-8''"
  by (auto simp: text_ids_def tokenize_spec_def meaning_def conclude_def split: prod.splits outcome.splits if_splits)

lemma text_fault_defined: "text_fault m max_tokens s e \<Longrightarrow> e \<noteq> OutOfBounds"
  by (auto simp: text_fault_def empty_fault_def dest: text_ids_fault)

lemma outside_fault_defined: "outside_fault e \<Longrightarrow> e \<noteq> OutOfBounds \<and> \<not> is_invalid_utf8 e"
  by (auto simp: outside_fault_def is_invalid_utf8_def)

subsection \<open>The window finds what the whole text gives\<close>

text \<open>
  A text that a window may shorten: more than the smallest window, and with a token limit.  Then its separators must be
  kept, see theory \<open>Prefix\<close>; every other text is safe.  No target is below the smallest window.
\<close>

definition cuttable :: "se_model \<Rightarrow> u32 \<Rightarrow> u8 list \<Rightarrow> bool" where
  "cuttable m max_tokens s = (max_tokens = 0 \<or> length s \<le> SE_PREFIX_MIN_BYTES \<or> separators_kept m s)"

definition wide :: "u8 list list \<Rightarrow> nat list \<Rightarrow> bool" where
  "wide texts targets =
     (\<forall>i<length texts. i < length targets \<longrightarrow> SE_PREFIX_MIN_BYTES \<le> targets ! i \<or> length (texts ! i) \<le> targets ! i)"

lemma wide_update:
  assumes "wide texts targets" "targets ! i \<le> g \<or> length (texts ! i) \<le> g"
  shows "wide texts (targets[i := g])"
  unfolding wide_def
proof (intro allI impI)
  fix j
  assume j: "j < length texts" "j < length (targets[i := g])"
  then show "SE_PREFIX_MIN_BYTES \<le> targets[i := g] ! j \<or> length (texts ! j) \<le> targets[i := g] ! j"
    using assms by (cases "j = i") (auto simp: wide_def)
qed

lemma wide_grow: "wide texts targets \<Longrightarrow> wide texts (targets[i := grow_target (targets ! i) (length (texts ! i))])"
  by (rule wide_update) (auto simp: grow_target_def)

lemma resolve_lens_wide:
  "resolve_lens m texts max_tokens pending targets = Inr (lens, targets') \<Longrightarrow> wide texts targets \<Longrightarrow> wide texts targets'"
proof (induction pending arbitrary: targets lens)
  case (Cons i pending)
  from Cons.prems(1) obtain n t lens' where "resolve_copy_len m (texts ! i) (targets ! i) max_tokens = Inr (n, t)"
    "resolve_lens m texts max_tokens pending (targets[i := t]) = Inr (lens', targets')"
    unfolding resolve_lens_Cons by (elim exE conjE)
  then show ?case using Cons.IH wide_update [OF Cons.prems(2)] resolve_copy_len_grows by blast
qed simp

lemma still_pending_wide:
  "still_pending max_tokens texts stats pending lens targets = Inr (nexts, targets') \<Longrightarrow> wide texts targets \<Longrightarrow> wide texts targets'"
proof (induction max_tokens texts stats pending lens targets arbitrary: nexts rule: still_pending.induct)
  case (1 max_tokens texts stats i pending n lens targets)
  from "1.prems"(1) have r: "rdR texts i = Inr (texts ! i)" "rdR stats i = Inr (stats ! i)" "rdR targets i = Inr (targets ! i)"
    unfolding still_pending_Cons by (simp_all add: rdR_def)
  show ?case
  proof (cases "max_tokens \<noteq> 0 \<and> n < length (texts ! i) \<and> \<not> st_truncated (stats ! i)")
    case True
    then show ?thesis using "1.IH"(1) [OF r True _ wide_grow [OF "1.prems"(2)]] "1.prems"(1) unfolding still_pending_Cons by auto
  next
    case False
    then show ?thesis using "1.IH"(2) [OF r False _ "1.prems"(2)] "1.prems"(1) unfolding still_pending_Cons by simp
  qed
qed simp_all

lemma initial_wide: "max_tokens \<noteq> 0 \<Longrightarrow> SE_PREFIX_MIN_BYTES \<le> prefix_initial_target max_tokens"
  by (auto simp: prefix_initial_target_def Let_def SE_PREFIX_MIN_BYTES_def SE_PREFIX_MAX_BYTES_def)

locale embedding_model =
  fixes m :: se_model
  assumes model: "model_ok m" and added: "added_known m" and unk_root: "unk_only_root m"
begin

abbreviation dim :: nat where "dim \<equiv> unat (mt_dim (md_meta m))"

lemma window_ids:
  assumes "window m max_tokens s n t" "cuttable m max_tokens s" "SE_PREFIX_MIN_BYTES \<le> t \<or> length s \<le> t"
  shows "text_ids m max_tokens (take n s) = Inr (ids, True) \<Longrightarrow> text_ids m max_tokens s = Inr (ids, True)"
    and "text_ids m max_tokens (take n s) = Inl e \<Longrightarrow> \<not> is_invalid_utf8 e \<Longrightarrow> text_ids m max_tokens s = Inl e"
proof -
  have tc: "tc_model (text_cfg m max_tokens) = m" by (simp add: text_cfg_def embed_cfg_def)
  consider "n < length s" "0 < n" "se_prefix_boundary_len m s t SE_PREFIX_BACKSCAN_BYTES = Inr n" "separators_kept m s" | "take n s = s"
    using assms by (cases "n < length s") (auto simp: window_def prefix_boundary_len_def cuttable_def)
  note cases = this
  show "text_ids m max_tokens s = Inr (ids, True)" if "text_ids m max_tokens (take n s) = Inr (ids, True)"
    using cases
  proof cases
    case 1
    then show ?thesis using that prefix_spec(1) [of "text_cfg m max_tokens", unfolded tc, OF model_norm [OF model]]
      by (simp add: text_ids_def)
  qed (use that in simp)
  show "text_ids m max_tokens s = Inl e" if "text_ids m max_tokens (take n s) = Inl e" "\<not> is_invalid_utf8 e"
    using cases
  proof cases
    case 1
    have "e \<noteq> SeError SE_ERR_INVALID_UTF8 ''input is not valid UTF-8''" using that(2) by (auto simp: is_invalid_utf8_def)
    then show ?thesis using that(1) 1 prefix_spec(2) [of "text_cfg m max_tokens", unfolded tc, OF model_norm [OF model]]
      by (simp add: text_ids_def)
  qed (use that in simp)
qed

lemma window_embedded:
  assumes "window m max_tokens s n t" "cuttable m max_tokens s" "SE_PREFIX_MIN_BYTES \<le> t \<or> length s \<le> t"
    and "text_embedded m max_tokens (take n s) row stats"
    and "max_tokens \<noteq> 0 \<and> n < length s \<longrightarrow> st_truncated stats"
  shows "text_embedded m max_tokens s row stats"
proof (cases "n < length s")
  case True
  then have "st_truncated stats" using assms(1,5) by (simp add: window_def)
  then show ?thesis using assms(4) window_ids(1) [OF assms(1-3)] by (auto simp: text_embedded_def)
qed (use assms(4) in simp)

lemma window_fault:
  assumes "window m max_tokens s n t" "cuttable m max_tokens s" "SE_PREFIX_MIN_BYTES \<le> t \<or> length s \<le> t"
    and "text_fault m max_tokens (take n s) e" "\<not> (is_invalid_utf8 e \<and> n < length s)"
  shows "text_fault m max_tokens s e"
proof (cases "n < length s")
  case True
  then show ?thesis using assms(4,5) window_ids(2) [OF assms(1-3)] by (auto simp: text_fault_def)
qed (use assms(4) in simp)

lemma prefix_len_total: "\<exists>n. prefix_boundary_len m s t = Inr n \<and> n \<le> length s"
  using boundary_correct [OF model_norm [OF model], of s t SE_PREFIX_BACKSCAN_BYTES]
  by (auto simp: prefix_boundary_len_def word_boundary_def)

lemma copy_len_loop_total: "\<exists>n t'. copy_len_loop m s t = Inr (n, t') \<and> n \<le> length s"
proof (induction "length s - t" arbitrary: t rule: less_induct)
  case less
  obtain k where k: "prefix_boundary_len m s t = Inr k" "k \<le> length s" using prefix_len_total by blast
  show ?case
  proof (cases "k \<noteq> 0 \<or> length s \<le> t")
    case True
    then show ?thesis using k by (subst copy_len_loop.simps) auto
  next
    case False
    then have "\<exists>n t'. copy_len_loop m s (grow_target t (length s)) = Inr (n, t') \<and> n \<le> length s"
      using grow_target_less [of t "length s"] by (intro less.hyps diff_less_mono2) auto
    then show ?thesis using k False by (subst copy_len_loop.simps) simp
  qed
qed

lemma resolve_copy_len_total: "\<exists>n t'. resolve_copy_len m s t max_tokens = Inr (n, t') \<and> n \<le> length s"
  using copy_len_loop_total [of s t] by (auto simp: resolve_copy_len_def)

lemma resolve_lens_total:
  "length targets = length texts \<Longrightarrow> \<forall>i\<in>set pending. i < length texts \<Longrightarrow>
   \<exists>lens targets'. resolve_lens m texts max_tokens pending targets = Inr (lens, targets') \<and>
     list_all2 (\<lambda>i n. n \<le> length (texts ! i)) pending lens"
proof (induction pending arbitrary: targets)
  case (Cons i pending)
  obtain n t where r: "resolve_copy_len m (texts ! i) (targets ! i) max_tokens = Inr (n, t)" "n \<le> length (texts ! i)"
    using resolve_copy_len_total by blast
  obtain lens targets' where "resolve_lens m texts max_tokens pending (targets[i := t]) = Inr (lens, targets')"
    "list_all2 (\<lambda>i n. n \<le> length (texts ! i)) pending lens"
    using Cons.IH [of "targets[i := t]"] Cons.prems by auto
  then show ?case using r Cons.prems by (intro exI [of _ "n # lens"] exI [of _ targets']) (simp add: rdR_def)
qed simp

end

subsection \<open>The staged input\<close>

definition staged :: "batch_input \<Rightarrow> u8 list list \<Rightarrow> bool" where
  "staged input xs =
     (length (bi_offsets input) = length xs \<and> bi_lengths input = map length xs \<and>
      (\<forall>k < length xs. bi_offsets input ! k + length (xs ! k) \<le> length (bi_base input) \<and>
         take (length (xs ! k)) (drop (bi_offsets input ! k) (bi_base input)) = xs ! k))"

lemma batch_text_staged: "staged input xs \<Longrightarrow> k < length xs \<Longrightarrow> batch_text input k = Inr (xs ! k)"
  by (simp add: staged_def batch_text_def rdR_def)

lemma staged_snoc:
  assumes "staged input xs"
  shows "staged (input\<lparr>bi_base := bi_base input @ x, bi_offsets := bi_offsets input @ [length (bi_base input)],
    bi_lengths := bi_lengths input @ [length x]\<rparr>) (xs @ [x])"
  using assms by (auto simp: staged_def nth_append less_Suc_eq)

lemma stage_texts_staged:
  "staged input xs \<Longrightarrow> list_all2 (\<lambda>i n. n \<le> length (texts ! i)) indices lens \<Longrightarrow> \<forall>i\<in>set indices. i < length texts \<Longrightarrow>
   \<exists>input'. stage_texts texts indices lens input = Inr input' \<and>
     staged input' (xs @ map2 (\<lambda>i n. take n (texts ! i)) indices lens)"
proof (induction indices arbitrary: lens input xs)
  case Nil
  then show ?case by auto
next
  case (Cons i indices)
  then obtain n lens' where lens: "lens = n # lens'" "n \<le> length (texts ! i)"
    "list_all2 (\<lambda>i n. n \<le> length (texts ! i)) indices lens'"
    by (auto simp: list_all2_Cons1)
  let ?x = "take n (texts ! i)"
  let ?input = "input\<lparr>bi_base := bi_base input @ ?x, bi_offsets := bi_offsets input @ [length (bi_base input)],
    bi_lengths := bi_lengths input @ [n]\<rparr>"
  have "staged ?input (xs @ [?x])" using staged_snoc [OF Cons.prems(1), of ?x] lens(2) by (simp add: min_absorb2)
  from Cons.IH [OF this lens(3)] Cons.prems(3) lens(1,2) show ?case by (simp add: rdR_def)
qed

lemma build_input_result:
  assumes "list_all2 (\<lambda>i n. n \<le> length (texts ! i)) indices lens" "\<forall>i\<in>set indices. i < length texts"
  shows "build_input_indexed alloc texts indices lens = Inr None \<or>
    (\<exists>input total_bytes. build_input_indexed alloc texts indices lens = Inr (Some (input, total_bytes)) \<and>
       staged input (map2 (\<lambda>i n. take n (texts ! i)) indices lens))"
proof -
  have "staged \<lparr>bi_base = [], bi_offsets = [], bi_lengths = []\<rparr> []" by (simp add: staged_def)
  from stage_texts_staged [OF this assms] show ?thesis
    by (auto simp: build_input_indexed_def split: option.splits)
qed

subsection \<open>The job\<close>

definition job_ok :: "se_model \<Rightarrow> nat \<Rightarrow> batch_job \<Rightarrow> bool" where
  "job_ok m N job =
     (length (bj_out job) = N \<and> length (bj_stats job) = N \<and>
      (\<forall>row\<in>set (bj_out job). length row = unat (mt_dim (md_meta m))))"

text \<open>What a run leaves: rows that are not asked for stay, the others are embedded, or there is a fault.\<close>

definition job_result :: "se_model \<Rightarrow> u32 \<Rightarrow> u8 list list \<Rightarrow> nat list \<Rightarrow> nat \<Rightarrow> batch_job \<Rightarrow> batch_job \<Rightarrow> bool" where
  "job_result m max_tokens xs pending i job job' =
     (job_ok m (length (bj_out job)) job' \<and>
      (\<forall>j. (\<forall>k. i \<le> k \<longrightarrow> k < length pending \<longrightarrow> j \<noteq> pending ! k) \<longrightarrow>
         bj_out job' ! j = bj_out job ! j \<and> bj_stats job' ! j = bj_stats job ! j) \<and>
      (if bj_failed job'
       then outside_fault (bj_error job') \<or>
         bj_failed_index job' < length xs \<and> text_fault m max_tokens (xs ! bj_failed_index job') (bj_error job')
       else \<forall>k. i \<le> k \<longrightarrow> k < length pending \<longrightarrow>
         text_embedded m max_tokens (xs ! k) (bj_out job' ! (pending ! k)) (bj_stats job' ! (pending ! k))))"

context embedding_model
begin

lemma embed_one_text:
  assumes "dim \<le> unat (sc_acc_cap sc)" "length out = dim"
  shows "case se_embed_one sse m env sc calls polls s max_tokens out of
     Inr (v, stats, sc') \<Rightarrow> text_embedded m max_tokens s v stats
   | Inl e \<Rightarrow> outside_fault e \<or> text_fault m max_tokens s e"
  using embed_one_result [OF model added unk_root assms, where sse = sse and env = env and calls = calls and polls = polls and input = s and max_tokens = max_tokens]
  by (auto simp: text_ids_env text_embedded_def outside_fault_def text_fault_def empty_fault_def split: sum.splits)

lemma batch_one_result:
  assumes ok: "job_ok m N job" "\<not> bj_failed job" and tx: "batch_text input i = Inr s" and row: "row < N"
  shows "\<exists>sc' job'. batch_one E r m max_tokens input i row sc job = Inr (sc', job') \<and>
    ((\<exists>v stats. text_embedded m max_tokens s v stats \<and>
        job' = job\<lparr>bj_out := (bj_out job)[row := v], bj_stats := (bj_stats job)[row := stats]\<rparr>) \<or>
     (\<exists>e. (outside_fault e \<or> text_fault m max_tokens s e) \<and> job' = job_fail job e i))"
proof -
  obtain calls sc1 fine where res: "se_scratch_reserve (be_text E r i) 0 sc (mt_dim (md_meta m)) = (calls, sc1, fine)"
    by (metis surj_pair)
  have bounds: "row < length (bj_out job)" "row < length (bj_stats job)" using ok row by (simp_all add: job_ok_def)
  show ?thesis
  proof (cases fine)
    case False
    then show ?thesis using res tx by (auto simp: batch_one_def outside_fault_def)
  next
    case True
    then have res': "se_scratch_reserve (be_text E r i) 0 sc (mt_dim (md_meta m)) = (calls, sc1, True)" using res by simp
    have "unat (ucast (mt_dim (md_meta m)) :: size_t) \<le> unat (sc_acc_cap sc1)"
      using scratch_reserve_ok [OF res'] by (simp add: scratch_reserved_def word_le_nat_alt)
    then have "dim \<le> unat (sc_acc_cap sc1)" by (simp add: unat_ucast_up)
    moreover have "length (bj_out job ! row) = dim" using ok(1) bounds by (simp add: job_ok_def)
    ultimately have one: "case se_embed_one (be_sse E) m (be_text E r i) sc1 calls 0 s max_tokens (bj_out job ! row) of
        Inr (v, stats, sc') \<Rightarrow> text_embedded m max_tokens s v stats
      | Inl e \<Rightarrow> outside_fault e \<or> text_fault m max_tokens s e" by (rule embed_one_text)
    show ?thesis
    proof (cases "se_embed_one (be_sse E) m (be_text E r i) sc1 calls 0 s max_tokens (bj_out job ! row)")
      case (Inl e)
      then have "outside_fault e \<or> text_fault m max_tokens s e" using one by simp
      moreover from this have "e \<noteq> OutOfBounds" using outside_fault_defined text_fault_defined by blast
      ultimately show ?thesis using res True tx bounds Inl
        by (cases e) (auto simp: batch_one_def rdR_def)
    next
      case (Inr p)
      then show ?thesis using one res True tx bounds
        by (cases p) (auto simp: batch_one_def rdR_def wrR_def)
    qed
  qed
qed

lemma batch_worker_result:
  assumes st: "staged input xs" "length pending = length xs" "distinct pending" "\<forall>i\<in>set pending. i < N"
  shows "job_ok m N job \<Longrightarrow> \<not> bj_failed job \<Longrightarrow> i \<le> length xs \<Longrightarrow>
    \<exists>sc' job'. batch_worker_run E r m max_tokens input pending i sc job = Inr (sc', job') \<and>
      job_result m max_tokens xs pending i job job'"
proof (induction "length xs - i" arbitrary: i sc job rule: less_induct)
  case less
  have len: "length (bi_lengths input) = length xs" using st(1) by (simp add: staged_def)
  have N: "N = length (bj_out job)" using less.prems(1) by (simp add: job_ok_def)
  show ?case
  proof (cases "be_cancelled E r i \<or> i = length xs")
    case True
    then show ?thesis using less.prems len st(2)
      by (subst batch_worker_run.simps)
        (auto simp: job_result_def outside_fault_def job_ok_def)
  next
    case False
    then have i: "i < length xs" "\<not> be_cancelled E r i" using less.prems(3) by auto
    have row: "pending ! i < N" using st(2,4) i by simp
    obtain sc1 job1 where one: "batch_one E r m max_tokens input i (pending ! i) sc job = Inr (sc1, job1)"
      and outcome: "(\<exists>v stats. text_embedded m max_tokens (xs ! i) v stats \<and>
          job1 = job\<lparr>bj_out := (bj_out job)[pending ! i := v], bj_stats := (bj_stats job)[pending ! i := stats]\<rparr>) \<or>
        (\<exists>e. (outside_fault e \<or> text_fault m max_tokens (xs ! i) e) \<and> job1 = job_fail job e i)"
      using batch_one_result [OF less.prems(1,2) batch_text_staged [OF st(1) i(1)] row, of E r max_tokens sc] by blast
    have step: "batch_worker_run E r m max_tokens input pending i sc job =
        (if bj_failed job1 then Inr (sc1, job1) else batch_worker_run E r m max_tokens input pending (i + 1) sc1 job1)"
      using i less.prems(2) len one st(2) by (subst batch_worker_run.simps) (simp add: rdR_def)
    from outcome consider (fault) e where "outside_fault e \<or> text_fault m max_tokens (xs ! i) e" "job1 = job_fail job e i"
      | (row) v stats where "text_embedded m max_tokens (xs ! i) v stats"
        "job1 = job\<lparr>bj_out := (bj_out job)[pending ! i := v], bj_stats := (bj_stats job)[pending ! i := stats]\<rparr>" by blast
    then show ?thesis
    proof cases
      case fault
      then show ?thesis using step less.prems i
        by (auto simp: job_fail_def job_result_def job_ok_def)
    next
      case v: row
      have ok1: "job_ok m N job1" "\<not> bj_failed job1"
        using less.prems(1,2) v by (auto simp: job_ok_def text_embedded_def dest!: set_update_subset_insert [THEN subsetD])
      obtain sc' job' where run: "batch_worker_run E r m max_tokens input pending (i + 1) sc1 job1 = Inr (sc', job')"
        and res: "job_result m max_tokens xs pending (i + 1) job1 job'"
        using less.hyps [OF diff_less_mono2 [OF less_add_one i(1)] ok1, of sc1] i(1) by auto
      have later: "pending ! k \<noteq> pending ! i" if "i + 1 \<le> k" "k < length pending" for k
        using st(2,3) that i by (simp add: nth_eq_iff_index_eq)
      have keep: "bj_out job' ! (pending ! i) = v" "bj_stats job' ! (pending ! i) = stats"
      proof -
        have "\<forall>k. i + 1 \<le> k \<longrightarrow> k < length pending \<longrightarrow> pending ! i \<noteq> pending ! k" using later by metis
        then have "bj_out job' ! (pending ! i) = bj_out job1 ! (pending ! i) \<and> bj_stats job' ! (pending ! i) = bj_stats job1 ! (pending ! i)"
          using res unfolding job_result_def by blast
        then show "bj_out job' ! (pending ! i) = v" "bj_stats job' ! (pending ! i) = stats"
          using row less.prems(1) by (simp_all add: v(2) job_ok_def)
      qed
      have "job_result m max_tokens xs pending i job job'"
        unfolding job_result_def
      proof (intro conjI)
        show "job_ok m (length (bj_out job)) job'" using res v(2) by (simp add: job_result_def)
        show "\<forall>j. (\<forall>k. i \<le> k \<longrightarrow> k < length pending \<longrightarrow> j \<noteq> pending ! k) \<longrightarrow>
            bj_out job' ! j = bj_out job ! j \<and> bj_stats job' ! j = bj_stats job ! j"
          using res i st(2) unfolding job_result_def v(2) by auto
        show "if bj_failed job'
          then outside_fault (bj_error job') \<or>
            bj_failed_index job' < length xs \<and> text_fault m max_tokens (xs ! bj_failed_index job') (bj_error job')
          else \<forall>k. i \<le> k \<longrightarrow> k < length pending \<longrightarrow>
            text_embedded m max_tokens (xs ! k) (bj_out job' ! (pending ! k)) (bj_stats job' ! (pending ! k))"
        proof (cases "bj_failed job'")
          case True
          then show ?thesis using res by (simp add: job_result_def)
        next
          case False
          have "text_embedded m max_tokens (xs ! k) (bj_out job' ! (pending ! k)) (bj_stats job' ! (pending ! k))"
            if "i \<le> k" "k < length pending" for k
          proof (cases "k = i")
            case True
            then show ?thesis using keep v(1) by simp
          next
            case False
            then show ?thesis using res \<open>\<not> bj_failed job'\<close> that by (simp add: job_result_def)
          qed
          then show ?thesis using False by simp
        qed
      qed
      then show ?thesis using step run ok1(2) by simp
    qed
  qed
qed

end

subsection \<open>The rounds\<close>

lemma release_put:
  assumes "scratch_at th p = Some sc"
  shows "\<exists>th'. se_scratch_release env (scratch_put th p sc') (Some p) = Inr th'"
proof (cases p)
  case TlsScratch
  then show ?thesis using assms
    by (auto simp: scratch_at_def scratch_put_def se_scratch_release_def split: prod.splits)
next
  case (HeapScratch a)
  then show ?thesis by (simp add: scratch_put_def se_scratch_release_def)
qed

lemma acquired_at:
  "se_scratch_acquire env th dim = (th', Some p) \<Longrightarrow> \<exists>sc. scratch_at th' p = Some sc"
  using acquire_Some [of env th dim th' p] by (auto simp: scratch_at_def)

text \<open>What holds between the rounds: the rows of the texts that are not pending are done.\<close>

definition run_ok :: "se_model \<Rightarrow> u32 \<Rightarrow> u8 list list \<Rightarrow> embed_run \<Rightarrow> nat list \<Rightarrow> bool" where
  "run_ok m max_tokens texts run pending =
     (length (er_out run) = length texts \<and> length (er_stats run) = length texts \<and> length (er_targets run) = length texts \<and>
      (\<forall>row\<in>set (er_out run). length row = unat (mt_dim (md_meta m))) \<and>
      distinct pending \<and> (\<forall>i\<in>set pending. i < length texts) \<and> (max_tokens \<noteq> 0 \<longrightarrow> wide texts (er_targets run)) \<and>
      (\<forall>i<length texts. i \<notin> set pending \<longrightarrow> text_embedded m max_tokens (texts ! i) (er_out run ! i) (er_stats run ! i)))"

text \<open>What may be raised.\<close>

definition batch_blame :: "batch_env \<Rightarrow> se_model \<Rightarrow> u32 \<Rightarrow> bool \<Rightarrow> u8 list list \<Rightarrow> ruby_fault \<Rightarrow> bool" where
  "batch_blame E m max_tokens is_array texts e =
     (e = Raise NoMemoryError ''out of memory while staging the input batch'' \<or>
      (\<exists>r. be_check_ints E r = Inl e) \<or>
      (\<exists>err. outside_fault err \<and> e = fault_error is_array err) \<or>
      (\<exists>s\<in>set texts. \<exists>err. text_fault m max_tokens s err \<and> e = fault_error is_array err))"

lemma still_pending_ok:
  "\<forall>i\<in>set pending. i < length texts \<and> i < length stats \<and> i < length targets \<Longrightarrow> length lens = length pending \<Longrightarrow>
   distinct pending \<Longrightarrow>
   \<exists>nexts targets'. still_pending max_tokens texts stats pending lens targets = Inr (nexts, targets') \<and>
     length targets' = length targets \<and> distinct nexts \<and> set nexts \<subseteq> set pending \<and>
     (\<forall>k<length pending. pending ! k \<notin> set nexts \<longrightarrow>
        \<not> (max_tokens \<noteq> 0 \<and> lens ! k < length (texts ! (pending ! k)) \<and> \<not> st_truncated (stats ! (pending ! k))))"
proof (induction max_tokens texts stats pending lens targets rule: still_pending.induct)
  case (1 max_tokens texts stats i pending n lens targets)
  have i: "i < length texts" "i < length stats" "i < length targets" using "1.prems"(1) by simp_all
  have r: "rdR texts i = Inr (texts ! i)" "rdR stats i = Inr (stats ! i)" "rdR targets i = Inr (targets ! i)"
    using i by (simp_all add: rdR_def)
  let ?grow = "max_tokens \<noteq> 0 \<and> n < length (texts ! i) \<and> \<not> st_truncated (stats ! i)"
  show ?case
  proof (cases ?grow)
    case True
    then obtain nexts targets' where IH: "still_pending max_tokens texts stats pending lens
        (targets[i := grow_target (targets ! i) (length (texts ! i))]) = Inr (nexts, targets')"
      "length targets' = length targets" "distinct nexts" "set nexts \<subseteq> set pending"
      "\<forall>k<length pending. pending ! k \<notin> set nexts \<longrightarrow>
        \<not> (max_tokens \<noteq> 0 \<and> lens ! k < length (texts ! (pending ! k)) \<and> \<not> st_truncated (stats ! (pending ! k)))"
      using "1.IH"(1) [OF r True] "1.prems" by auto
    have "still_pending max_tokens texts stats (i # pending) (n # lens) targets = Inr (i # nexts, targets')"
      using i True IH(1) unfolding still_pending_Cons by simp
    moreover have "distinct (i # nexts)" using IH(3,4) "1.prems"(3) by auto
    ultimately show ?thesis using IH(2,4,5)
      by (intro exI [of _ "i # nexts"] exI [of _ targets']) (auto simp: nth_Cons split: nat.split)
  next
    case False
    then obtain nexts targets' where IH: "still_pending max_tokens texts stats pending lens targets = Inr (nexts, targets')"
      "length targets' = length targets" "distinct nexts" "set nexts \<subseteq> set pending"
      "\<forall>k<length pending. pending ! k \<notin> set nexts \<longrightarrow>
        \<not> (max_tokens \<noteq> 0 \<and> lens ! k < length (texts ! (pending ! k)) \<and> \<not> st_truncated (stats ! (pending ! k)))"
      using "1.IH"(2) [OF r False] "1.prems" by auto
    have "still_pending max_tokens texts stats (i # pending) (n # lens) targets = Inr (nexts, targets')"
      using i False IH(1) unfolding still_pending_Cons by auto
    then show ?thesis using IH(2-5) False
      by (intro exI [of _ nexts] exI [of _ targets']) (auto simp: nth_Cons split: nat.split)
  qed
qed simp_all

context embedding_model
begin

lemma batch_execute_result:
  assumes st: "staged input xs" "length pending = length xs" "distinct pending" "\<forall>i\<in>set pending. i < N"
    and job: "job_ok m N job" "\<not> bj_failed job" "bj_failed_index job = 0"
  shows "\<exists>job'. batch_execute E r m max_tokens input pending job = Inr job' \<and> job_result m max_tokens xs pending 0 job job'"
proof -
  obtain th p where acq: "se_scratch_acquire (be_acquire E r) (be_thread E r) (mt_dim (md_meta m)) = (th, p)"
    by (metis surj_pair)
  show ?thesis
  proof (cases p)
    case None
    then show ?thesis using acq job st
      by (auto simp: batch_execute_def job_result_def outside_fault_def job_ok_def)
  next
    case (Some p)
    then obtain sc where at: "scratch_at th p = Some sc" using acquired_at acq by blast
    obtain sc' job' where run: "batch_worker_run E r m max_tokens input pending 0 sc job = Inr (sc', job')"
      "job_result m max_tokens xs pending 0 job job'"
      using batch_worker_result [OF st job(1,2)] by blast
    obtain th' where "se_scratch_release (be_acquire E r) (scratch_put th p sc') (Some p) = Inr th'"
      using release_put [OF at] by blast
    then show ?thesis using acq Some at run by (auto simp: batch_execute_def)
  qed
qed

lemma round_ok:
  assumes run: "run_ok m max_tokens texts run pending" and p: "pending \<noteq> []" and cut: "\<forall>s\<in>set texts. cuttable m max_tokens s"
    and r: "resolve_lens m texts max_tokens pending (er_targets run) = Inr (lens, targets)"
    and xs: "xs = map2 (\<lambda>i n. take n (texts ! i)) pending lens" and len: "length lens = length pending"
    and job: "job_result m max_tokens xs pending 0 (job_start run) job"
  shows "case after_job max_tokens is_array texts pending lens targets job of
      Inl e \<Rightarrow> batch_blame E m max_tokens is_array texts e \<and> e \<noteq> Undefined
    | Inr (pending', targets') \<Rightarrow>
        run_ok m max_tokens texts \<lparr>er_out = bj_out job, er_stats = bj_stats job, er_targets = targets'\<rparr> pending'"
proof -
  note s = resolve_lens_slack [OF r]
  have xs_len: "length xs = length pending" using xs len by simp
  have nth: "xs ! k = take (lens ! k) (texts ! (pending ! k))" if "k < length pending" for k using that len xs by simp
  have w: "window m max_tokens (texts ! (pending ! k)) (lens ! k) (targets ! (pending ! k))" if "k < length pending" for k
    using resolve_lens_windows [OF r that] by blast
  have N: "length (bj_out (job_start run)) = length texts" "length (er_targets run) = length texts"
    and pend: "distinct pending" "\<forall>i\<in>set pending. i < length texts"
    using run by (simp_all add: run_ok_def job_start_def)
  have wide: "max_tokens \<noteq> 0 \<longrightarrow> wide texts targets" using run resolve_lens_wide [OF r] by (simp add: run_ok_def)
  have c: "cuttable m max_tokens (texts ! (pending ! k))" if "k < length pending" for k using cut pend(2) that by simp
  have t: "SE_PREFIX_MIN_BYTES \<le> targets ! (pending ! k) \<or> length (texts ! (pending ! k)) \<le> targets ! (pending ! k)"
    if "k < length pending" "max_tokens \<noteq> 0" for k
    using wide pend(2) that s N(2) by (simp add: wide_def)
  have ok: "length (bj_out job) = length texts" "length (bj_stats job) = length texts"
    "\<forall>row\<in>set (bj_out job). length row = dim" using job N by (simp_all add: job_result_def job_ok_def)
  have tl: "length targets = length texts" using s N by simp
  have others: "bj_out job ! i = er_out run ! i \<and> bj_stats job ! i = er_stats run ! i" if "i \<notin> set pending" for i
  proof -
    have "\<forall>k. 0 \<le> k \<longrightarrow> k < length pending \<longrightarrow> i \<noteq> pending ! k" using that by (auto simp: in_set_conv_nth)
    then have "bj_out job ! i = bj_out (job_start run) ! i \<and> bj_stats job ! i = bj_stats (job_start run) ! i"
      using job unfolding job_result_def by blast
    then show ?thesis by (simp add: job_start_def)
  qed
  have done_others: "text_embedded m max_tokens (texts ! i) (bj_out job ! i) (bj_stats job ! i)"
    if "i < length texts" "i \<notin> set pending" for i
    using run that others [OF that(2)] by (simp add: run_ok_def)
  show ?thesis
  proof (cases "bj_failed job")
    case False
    obtain nexts targets' where sp: "still_pending max_tokens texts (bj_stats job) pending lens targets = Inr (nexts, targets')"
      "length targets' = length targets" "distinct nexts" "set nexts \<subseteq> set pending"
      "\<forall>k<length pending. pending ! k \<notin> set nexts \<longrightarrow>
        \<not> (max_tokens \<noteq> 0 \<and> lens ! k < length (texts ! (pending ! k)) \<and> \<not> st_truncated (bj_stats job ! (pending ! k)))"
      using still_pending_ok [of pending texts "bj_stats job" targets lens max_tokens] pend len ok tl by auto
    have "text_embedded m max_tokens (texts ! i) (bj_out job ! i) (bj_stats job ! i)"
      if i: "i < length texts" "i \<notin> set nexts" for i
    proof (cases "i \<in> set pending")
      case True
      then obtain k where k: "k < length pending" "pending ! k = i" by (auto simp: in_set_conv_nth)
      have "text_embedded m max_tokens (xs ! k) (bj_out job ! i) (bj_stats job ! i)"
        using job False k unfolding job_result_def by auto
      then show ?thesis using window_embedded [OF w [OF k(1)] c [OF k(1)]] t [OF k(1)] w [OF k(1)] nth [OF k(1)] k sp(5) i(2)
        by (cases "max_tokens = 0") (auto simp: window_def)
    qed (rule done_others [OF i(1)])
    then show ?thesis using False sp ok pend tl wide still_pending_wide [OF sp(1)]
      by (auto simp: after_job_def run_ok_def)
  next
    case failed: True
    define k where "k = (if bj_failed_index job < length pending then bj_failed_index job else 0)"
    have k: "k < length pending" using p by (simp add: k_def)
    let ?i = "pending ! k" and ?e = "bj_error job"
    have i: "?i < length texts" using pend(2) k by simp
    have after: "after_job max_tokens is_array texts pending lens targets job =
        (if is_invalid_utf8 ?e \<and> lens ! k < length (texts ! ?i)
         then Inr (pending, targets[?i := grow_target (targets ! ?i) (length (texts ! ?i))])
         else Inl (fault_error is_array ?e))"
      using failed k i len tl by (simp add: after_job_def k_def [symmetric] rdR_def Let_def)
    have why: "outside_fault ?e \<or> bj_failed_index job < length xs \<and> text_fault m max_tokens (xs ! bj_failed_index job) ?e"
      using job failed by (simp add: job_result_def)
    show ?thesis
    proof (cases "is_invalid_utf8 ?e \<and> lens ! k < length (texts ! ?i)")
      case True
      have "run_ok m max_tokens texts \<lparr>er_out = bj_out job, er_stats = bj_stats job,
          er_targets = targets[?i := grow_target (targets ! ?i) (length (texts ! ?i))]\<rparr> pending"
        using ok pend tl done_others wide wide_grow by (simp add: run_ok_def)
      then show ?thesis using after True by simp
    next
      case stop: False
      have "outside_fault ?e \<or> (\<exists>s\<in>set texts. text_fault m max_tokens s ?e)"
        using why
      proof
        assume f: "bj_failed_index job < length xs \<and> text_fault m max_tokens (xs ! bj_failed_index job) ?e"
        then have "k = bj_failed_index job" using xs_len by (simp add: k_def)
        then have "text_fault m max_tokens (take (lens ! k) (texts ! ?i)) ?e" using f nth [OF k] by simp
        then have "text_fault m max_tokens (texts ! ?i) ?e"
          using window_fault [OF w [OF k] c [OF k]] t [OF k] w [OF k] stop by (cases "max_tokens = 0") (auto simp: window_def)
        then show ?thesis using i nth_mem by blast
      qed simp
      moreover from this have "?e \<noteq> OutOfBounds" using outside_fault_defined text_fault_defined by blast
      then have "fault_error is_array ?e \<noteq> Undefined" by (cases ?e) (simp_all add: fault_error_def raise_se_def)
      ultimately show ?thesis using after stop unfolding batch_blame_def by auto
    qed
  qed
qed

lemma embed_rounds_result:
  assumes ints: "\<And>r. be_check_ints E r \<noteq> Inl Undefined" and cut: "\<forall>s\<in>set texts. cuttable m max_tokens s"
  shows "run_ok m max_tokens texts run pending \<Longrightarrow>
    (case embed_rounds E r m max_tokens is_array texts run pending of
       Inl e \<Rightarrow> batch_blame E m max_tokens is_array texts e \<and> e \<noteq> Undefined
     | Inr run' \<Rightarrow> run_ok m max_tokens texts run' [])"
proof (induction "slack texts (er_targets run)" arbitrary: r run pending rule: less_induct)
  case less
  show ?case
  proof (cases "pending = []")
    case True
    then show ?thesis using less.prems by (subst embed_rounds.simps) simp
  next
    case p: False
    have pend: "\<forall>i\<in>set pending. i < length texts" "distinct pending" "length (er_targets run) = length texts"
      using less.prems by (simp_all add: run_ok_def)
    obtain lens targets where r: "resolve_lens m texts max_tokens pending (er_targets run) = Inr (lens, targets)"
      and lens: "list_all2 (\<lambda>i n. n \<le> length (texts ! i)) pending lens"
      using resolve_lens_total [OF pend(3,1), of max_tokens] by blast
    define xs where "xs = map2 (\<lambda>i n. take n (texts ! i)) pending lens"
    have len: "length lens = length pending" using lens by (simp add: list_all2_lengthD)
    show ?thesis
    proof (cases "build_input_indexed (be_staging E r) texts pending lens = Inr None")
      case True
      then show ?thesis using r p by (subst embed_rounds.simps) (simp add: batch_blame_def)
    next
      case False
      then obtain input total_bytes where b: "build_input_indexed (be_staging E r) texts pending lens = Inr (Some (input, total_bytes))"
        "staged input xs"
        using build_input_result [OF lens pend(1), of "be_staging E r"] xs_def by auto
      have js: "job_ok m (length texts) (job_start run)" "\<not> bj_failed (job_start run)" "bj_failed_index (job_start run) = 0"
        using less.prems by (simp_all add: run_ok_def job_ok_def job_start_def)
      have "length pending = length xs" by (simp add: xs_def len)
      from batch_execute_result [OF b(2) this pend(2,1) js] obtain job where
        job: "batch_execute E r m max_tokens input pending (job_start run) = Inr job"
        "job_result m max_tokens xs pending 0 (job_start run) job" by blast
      show ?thesis
      proof (cases "be_check_ints E r")
        case (Inl e)
        have "batch_blame E m max_tokens is_array texts e \<and> e \<noteq> Undefined"
          using Inl ints [of r] by (auto simp: batch_blame_def)
        then show ?thesis using r b p job Inl by (subst embed_rounds.simps) (simp add: run_job_def)
      next
        case (Inr u)
        note round = round_ok [OF less.prems p cut r xs_def len job(2), where is_array = is_array and E = E]
        show ?thesis
        proof (cases "after_job max_tokens is_array texts pending lens targets job")
          case (Inl e)
          then show ?thesis using round r b p job \<open>be_check_ints E r = Inr u\<close>
            by (subst embed_rounds.simps) (simp add: run_job_def)
        next
          case after: (Inr q)
          obtain pending' targets' where q: "q = (pending', targets')" by (cases q)
          let ?run = "\<lparr>er_out = bj_out job, er_stats = bj_stats job, er_targets = targets'\<rparr>"
          have ok: "run_ok m max_tokens texts ?run pending'" using round after q by simp
          have step: "embed_rounds E r m max_tokens is_array texts run pending =
              embed_rounds E (r + 1) m max_tokens is_array texts ?run pending'"
            using r b p job \<open>be_check_ints E r = Inr u\<close> after q by (subst embed_rounds.simps) (simp add: run_job_def)
          from after_job_decreases [OF r after [unfolded q] p]
          consider "slack texts targets' < slack texts (er_targets run)" | "pending' = []" by blast
          then show ?thesis
          proof cases
            case 1
            then show ?thesis unfolding step using less.hyps [OF _ ok] by simp
          next
            case 2
            then show ?thesis unfolding step using ok by (subst embed_rounds.simps) simp
          qed
        qed
      qed
    qed
  qed
qed

end

subsection \<open>The string\<close>

text \<open>The floats that a string holds in its format.\<close>

definition holds_floats :: "se_vector_format \<Rightarrow> u32 list \<Rightarrow> u8 list \<Rightarrow> bool" where
  "holds_floats format floats bytes =
     (length bytes = length floats * unat (se_vector_format_element_bytes format) \<and>
      (\<forall>i < length floats.
         if format = SE_VECTOR_FORMAT_F32 then read_u32 bytes (i * 4) = Inr (floats ! i)
         else read_u16le bytes (i * 2) = Inr (se_float_to_f16_bits (floats ! i))))"

abbreviation output_too_large :: ruby_fault where
  "output_too_large \<equiv> Raise ArgumentError ''embedding output is too large''"

lemma read_u16le_take: "i + 2 \<le> k \<Longrightarrow> k \<le> length mem \<Longrightarrow> read_u16le (take k mem) i = read_u16le mem i"
  by (simp add: read_u16le_def rdR_def)

lemma binary_string_result:
  assumes n: "unat n = length floats" and c: "created \<noteq> Inl Undefined"
  shows "case binary_string_from_floats created floats n format of
      Inl e \<Rightarrow> e = output_too_large \<or> created = Inl e
    | Inr bytes \<Rightarrow> holds_floats format floats bytes"
proof (cases "se_checked_mul_size n (se_vector_format_element_bytes format)")
  case None
  then show ?thesis by (simp add: binary_string_from_floats_def)
next
  case (Some bytes)
  then have b: "unat bytes = length floats * unat (se_vector_format_element_bytes format)"
    by (simp add: checked_mul_size_Some n)
  show ?thesis
  proof (cases "se_size_fits_long bytes")
    case False
    then show ?thesis using Some by (simp add: binary_string_from_floats_def)
  next
    case fits: True
    show ?thesis
    proof (cases "format = SE_VECTOR_FORMAT_F32")
      case True
      have "read_u32 (le_file floats) (i * 4) = Inr (floats ! i)" if "i < length floats" for i
        using le_file_read [OF that] by (simp add: mult.commute)
      then show ?thesis using Some fits True b
        by (cases created)
          (simp_all add: binary_string_from_floats_def binary_string_from_malloc_def holds_floats_def le_file_length
            se_vector_format_element_bytes_def)
    next
      case False
      have two: "se_vector_format_element_bytes format = 2" using False
        by (cases format) (simp_all add: se_vector_format_element_bytes_def)
      obtain mem where mem: "se_encode_f16_from_floats (le_file floats) 0 0 (length floats) = Inr mem"
        "length mem = 4 * length floats"
        "\<forall>i < length floats. \<exists>x. read_u32 (le_file floats) (0 + i * 4) = Inr x \<and>
           read_u16le mem (0 + i * 2) = Inr (se_float_to_f16_bits x)"
        using encode_run [of 0 0 "length floats" "le_file floats"] by (auto simp: le_file_length)
      have "read_u16le (take (length floats * 2) mem) (i * 2) = Inr (se_float_to_f16_bits (floats ! i))"
        if i: "i < length floats" for i
      proof -
        have "read_u32 (le_file floats) (i * 4) = Inr (floats ! i)"
          using le_file_read [OF i] by (simp add: mult.commute)
        then have "read_u16le mem (i * 2) = Inr (se_float_to_f16_bits (floats ! i))" using mem(3) i by auto
        then show ?thesis using i mem(2) by (subst read_u16le_take) simp_all
      qed
      then show ?thesis using Some fits False b mem two
        by (cases created)
          (simp_all add: binary_string_from_floats_def binary_string_from_malloc_def holds_floats_def n)
    qed
  qed
qed

subsection \<open>The snapshot\<close>

lemma snapshot_from_Inr:
  "snapshot_from scan texts is_array mode is = Inr snapshot \<Longrightarrow>
     list_all2 (\<lambda>i s. \<exists>t. text_entry texts i = Some t \<and> s = rt_bytes t) is snapshot"
  by (induction scan texts is_array mode "is" arbitrary: snapshot rule: snapshot_from.induct)
    (auto simp: bindE_eq_Inr split: option.splits)

lemma snapshot_texts_Inr:
  assumes "snapshot_texts scan texts is_array n mode = Inr snapshot"
  shows "length snapshot = n" and "i < n \<Longrightarrow> \<exists>t. text_entry texts i = Some t \<and> snapshot ! i = rt_bytes t"
proof -
  have a: "list_all2 (\<lambda>i s. \<exists>t. text_entry texts i = Some t \<and> s = rt_bytes t) [0..<n] snapshot"
    using assms unfolding snapshot_texts_def by (rule snapshot_from_Inr)
  then show "length snapshot = n" by (simp add: list_all2_lengthD [symmetric])
  show "\<exists>t. text_entry texts i = Some t \<and> snapshot ! i = rt_bytes t" if "i < n"
    using list_all2_nthD [OF a, of i] that by simp
qed

lemma snapshot_from_defined: "snapshot_from scan texts is_array mode is \<noteq> Inl Undefined"
  by (induction scan texts is_array mode "is" rule: snapshot_from.induct)
    (auto simp: bindE_def check_text_encoding_mode_def Let_def split: option.splits sum.splits)

context embedding_model
begin

lemma embed_texts_result:
  assumes n: "n < 2 ^ 63" and ints: "\<And>r. be_check_ints E r \<noteq> Inl Undefined" and str: "be_string E \<noteq> Inl Undefined"
    and cut: "\<forall>i<n. \<forall>t. text_entry texts i = Some t \<longrightarrow> cuttable m max_tokens (rt_bytes t)"
  shows "case embed_texts_run E m is_array n max_tokens format validation texts of
      Inr (bytes, stats) \<Rightarrow>
        \<exists>rows sts. length rows = n \<and> length sts = n \<and> stats = take 1 sts \<and> holds_floats format (concat rows) bytes \<and>
          (\<forall>i<n. \<exists>t. text_entry texts i = Some t \<and> text_embedded m max_tokens (rt_bytes t) (rows ! i) (sts ! i))
    | Inl e \<Rightarrow> e \<noteq> Undefined \<and>
        (snapshot_texts (be_scan E) texts is_array n validation = Inl e \<or>
         e \<in> {output_too_large, Raise NoMemoryError ''out of memory''} \<or> be_string E = Inl e \<or>
         (\<exists>snapshot. snapshot_texts (be_scan E) texts is_array n validation = Inr snapshot \<and>
            batch_blame E m max_tokens is_array snapshot e))"
proof (cases "snapshot_texts (be_scan E) texts is_array n validation")
  case (Inl e)
  then show ?thesis using snapshot_from_defined [of "be_scan E" texts is_array validation "[0..<n]"]
    by (auto simp: embed_texts_run_def Let_def snapshot_texts_def)
next
  case (Inr snapshot)
  note snap = snapshot_texts_Inr [OF Inr]
  show ?thesis
  proof (cases "\<exists>floats out_bytes. se_checked_mul_size (word_of_nat n) (ucast (mt_dim (md_meta m))) = Some floats \<and>
      se_checked_mul_size floats (se_vector_format_element_bytes format) = Some out_bytes \<and>
      se_size_fits_long out_bytes \<and> embed_run_alloc E (word_of_nat n) floats = EMBED_RUN_ALLOC_OK")
    case False
    then show ?thesis using Inr
      by (auto simp: embed_texts_run_def Let_def split: option.splits embed_run_alloc_status.splits)
  next
    case True
    then obtain floats out_bytes where f: "se_checked_mul_size (word_of_nat n) (ucast (mt_dim (md_meta m))) = Some floats"
      "se_checked_mul_size floats (se_vector_format_element_bytes format) = Some out_bytes"
      "se_size_fits_long out_bytes" "embed_run_alloc E (word_of_nat n) floats = EMBED_RUN_ALLOC_OK" by blast
    have "unat floats = n * dim"
      using f(1) n by (simp add: checked_mul_size_Some unat_ucast_up unat_of_nat take_bit_nat_eq_self)
    let ?start = "run_start n dim (prefix_initial_target max_tokens)"
    have start: "run_ok m max_tokens snapshot ?start [0..<n]"
      using snap(1) initial_wide [of max_tokens] by (auto simp: run_ok_def run_start_def wide_def)
    have cuts: "\<forall>s\<in>set snapshot. cuttable m max_tokens s"
      using snap(2) cut unfolding all_set_conv_all_nth snap(1) by metis
    note r = embed_rounds_result [OF ints cuts start, where r = 0 and is_array = is_array]
    show ?thesis
    proof (cases "embed_rounds E 0 m max_tokens is_array snapshot ?start [0..<n]")
      case (Inl e)
      then show ?thesis using r f Inr by (auto simp: embed_texts_run_def Let_def)
    next
      case run: (Inr run)
      then have ok: "run_ok m max_tokens snapshot run []" using r by simp
      have "length (concat (er_out run)) = n * dim"
      proof -
        have rows: "map length (er_out run) = map (\<lambda>_. dim) (er_out run)" using ok by (simp add: run_ok_def)
        show ?thesis unfolding length_concat rows using ok snap(1) by (simp add: run_ok_def sum_list_triv)
      qed
      then have "unat floats = length (concat (er_out run))" using \<open>unat floats = n * dim\<close> by simp
      note b = binary_string_result [OF this str, of format]
      show ?thesis
      proof (cases "binary_string_from_floats (be_string E) (concat (er_out run)) floats format")
        case (Inl e)
        then show ?thesis using b str run f \<open>snapshot_texts _ _ _ _ _ = Inr snapshot\<close>
          by (auto simp: embed_texts_run_def Let_def)
      next
        case bytes: (Inr bytes)
        have "\<exists>t. text_entry texts i = Some t \<and> text_embedded m max_tokens (rt_bytes t) (er_out run ! i) (er_stats run ! i)"
          if "i < n" for i
        proof -
          obtain t where "text_entry texts i = Some t" "snapshot ! i = rt_bytes t" using snap(2) \<open>i < n\<close> by blast
          moreover have "text_embedded m max_tokens (snapshot ! i) (er_out run ! i) (er_stats run ! i)"
            using that ok snap(1) by (simp add: run_ok_def)
          ultimately show ?thesis by auto
        qed
        then show ?thesis using b bytes run f Inr ok snap(1)
          by (auto simp: embed_texts_run_def Let_def run_ok_def intro!: exI [of _ "er_out run"] exI [of _ "er_stats run"])
      qed
    qed
  qed
qed

end

text \<open>Every accepted file provides the interface, given what its writer keeps.\<close>

locale written_model =
  fixes little_endian :: bool and calloc_ok :: bool and base :: "u8 list" and m :: se_model
  assumes loads: "validate little_endian calloc_ok base = Inr m" and size: "length base < 2 ^ 64" and written: "unk_only_root m"

sublocale written_model \<subseteq> embedding_model m
  by (rule embedding_model.intro [OF validate_Inr(1) [OF loads size] validate_added_known [OF loads size] written])

context written_model
begin

lemmas embeds = embed_texts_result

end

interpretation example_written: written_model True True example_file example_model
  by unfold_locales (simp_all add: example_validate example_unk_root example_length)

subsection \<open>Properties\<close>


definition example_batch_env :: batch_env where
  "example_batch_env =
     \<lparr>be_sse = True, be_scan = (\<lambda>_. CR_7BIT), be_num2ull = (\<lambda>_ s. (Inr 1, s)), be_buffers = (\<lambda>_ _. True),
       be_staging = (\<lambda>_ _. True), be_thread = (\<lambda>_. thread_start), be_acquire = (\<lambda>_. example_env),
       be_text = (\<lambda>_ _. example_env), be_cancelled = (\<lambda>_ _. False), be_check_ints = (\<lambda>_. Inr ()), be_string = Inr ()\<rparr>"


end
