(* ===== verification/AllocStats.thy ===== *)
theory AllocStats
  imports SizeArith
begin

text \<open>
  Allocation statistics, of \<^verbatim>\<open>se_alloc_stats.c\<close>, as a build with \<^verbatim>\<open>SE_ENABLE_ALLOC_STATS\<close> has them: the counters of each
  category, the header in front of every block, the four allocation functions, reset and snapshot.  The
  allocation functions run without the global lock, so the counters change by atomic accesses of several threads:
  a recording function is the list of its accesses, and a step of the system is one call that starts, one access of
  one thread, or a reset.  The address that \<^verbatim>\<open>malloc\<close> or \<^verbatim>\<open>realloc\<close> returns is a parameter of each call; a call that
  returns \<^verbatim>\<open>NULL\<close> changes nothing.  A reset while calls are in progress is not modelled.
\<close>

subsection \<open>Counters\<close>

record se_alloc_stats =
  al_current_bytes :: size_t
  al_peak_bytes :: size_t
  al_total_allocated_bytes :: size_t
  al_total_freed_bytes :: size_t
  al_alloc_count :: size_t
  al_realloc_count :: size_t
  al_free_count :: size_t

definition SE_ALLOC_CATEGORY_COUNT :: nat where
  "SE_ALLOC_CATEGORY_COUNT = 12"

abbreviation (input) SE_ALLOC_UNKNOWN :: nat where "SE_ALLOC_UNKNOWN \<equiv> 0"

definition se_alloc_category_names :: "string list" where
  "se_alloc_category_names =
     [''unknown'', ''scratch'', ''batch_input'', ''batch_output'', ''batch_stats'', ''batch_index'',
      ''token_ids'', ''topk_query'', ''topk_best'', ''topk_matrix_copy'', ''format_validate'', ''model_file'']"

definition normalize_category :: "u32 \<Rightarrow> nat" where
  "normalize_category category =
     (if unat category \<ge> SE_ALLOC_CATEGORY_COUNT then SE_ALLOC_UNKNOWN else unat category)"

definition se_alloc_category_name :: "u32 \<Rightarrow> string" where
  "se_alloc_category_name category =
     (if unat category \<ge> SE_ALLOC_CATEGORY_COUNT then se_alloc_category_names ! SE_ALLOC_UNKNOWN
      else se_alloc_category_names ! unat category)"

subsection \<open>Atomic steps\<close>

text \<open>
  The atomic accesses to the counters, in the order the recording functions make them.  The argument is the
  category.  \<open>AddCurrent\<close> keeps the sum in the thread's variable \<^verbatim>\<open>current\<close>; \<open>LoadPeak\<close> and \<open>CasPeak\<close> are the two
  accesses of the loop of \<^verbatim>\<open>record_peak\<close>; \<open>Release\<close> is the call of \<^verbatim>\<open>free\<close> that ends a deallocation.
\<close>

datatype access =
    AddCurrent nat size_t | SubCurrent nat size_t | AddTotal nat size_t | AddFreed nat size_t
  | IncAlloc nat | IncRealloc nat | IncFree nat
  | LoadPeak nat | CasPeak nat size_t | Release nat

definition record_peak :: "nat \<Rightarrow> access list" where
  "record_peak category = [LoadPeak category]"

definition record_alloc :: "nat \<Rightarrow> size_t \<Rightarrow> access list" where
  "record_alloc category bytes =
     [AddCurrent category bytes, AddTotal category bytes, IncAlloc category] @ record_peak category"

definition record_realloc :: "nat \<Rightarrow> size_t \<Rightarrow> nat \<Rightarrow> size_t \<Rightarrow> access list" where
  "record_realloc old_category old_bytes new_category new_bytes =
     [SubCurrent old_category old_bytes, AddFreed old_category old_bytes, IncFree old_category,
      AddCurrent new_category new_bytes, AddTotal new_category new_bytes, IncAlloc new_category, IncRealloc new_category] @
     record_peak new_category"

definition record_free :: "nat \<Rightarrow> size_t \<Rightarrow> access list" where
  "record_free category bytes = [SubCurrent category bytes, AddFreed category bytes, IncFree category]"

definition bump :: "nat \<Rightarrow> (se_alloc_stats \<Rightarrow> se_alloc_stats) \<Rightarrow> se_alloc_stats list \<Rightarrow> se_alloc_stats list" where
  "bump category f stats = stats[category := f (stats ! category)]"

text \<open>One access: the counters, the variable \<^verbatim>\<open>current\<close>, and what the thread does next.\<close>

fun access_step :: "se_alloc_stats list \<Rightarrow> size_t \<Rightarrow> access \<Rightarrow> se_alloc_stats list \<times> size_t \<times> access list" where
  "access_step stats cur (AddCurrent c n) =
     (let now = al_current_bytes (stats ! c) + n in (bump c (al_current_bytes_update (\<lambda>_. now)) stats, now, []))"
| "access_step stats cur (SubCurrent c n) = (bump c (al_current_bytes_update (\<lambda>x. x - n)) stats, cur, [])"
| "access_step stats cur (AddTotal c n) = (bump c (al_total_allocated_bytes_update (\<lambda>x. x + n)) stats, cur, [])"
| "access_step stats cur (AddFreed c n) = (bump c (al_total_freed_bytes_update (\<lambda>x. x + n)) stats, cur, [])"
| "access_step stats cur (IncAlloc c) = (bump c (al_alloc_count_update (\<lambda>x. x + 1)) stats, cur, [])"
| "access_step stats cur (IncRealloc c) = (bump c (al_realloc_count_update (\<lambda>x. x + 1)) stats, cur, [])"
| "access_step stats cur (IncFree c) = (bump c (al_free_count_update (\<lambda>x. x + 1)) stats, cur, [])"
| "access_step stats cur (LoadPeak c) =
     (let peak = al_peak_bytes (stats ! c) in (stats, cur, if cur > peak then [CasPeak c peak] else []))"
| "access_step stats cur (CasPeak c peak) =
     (if al_peak_bytes (stats ! c) = peak then (bump c (al_peak_bytes_update (\<lambda>_. cur)) stats, cur, [])
      else (stats, cur, [LoadPeak c]))"
| "access_step stats cur (Release a) = (stats, cur, [])"

subsection \<open>Allocation\<close>

definition SE_ALLOC_STATS_MAGIC :: u32 where
  "SE_ALLOC_STATS_MAGIC = 0x5EA110C5"

record se_alloc_header =
  ah_magic :: u32
  ah_category :: u32
  ah_size :: size_t

text \<open>A block is its address with its header; the payload is not modelled.  \<^verbatim>\<open>abort\<close> is a result.\<close>

type_synonym block = "nat \<times> se_alloc_header"

datatype 'a alloc_result = NullPtr | Aborted | Done 'a

definition new_header :: "u32 \<Rightarrow> size_t \<Rightarrow> se_alloc_header" where
  "new_header category bytes =
     \<lparr>ah_magic = SE_ALLOC_STATS_MAGIC, ah_category = word_of_nat (normalize_category category), ah_size = bytes\<rparr>"

text \<open>The argument \<open>obtained\<close> says which address \<^verbatim>\<open>malloc\<close> or \<^verbatim>\<open>realloc\<close> returns for a number of bytes.\<close>

definition se_alloc_stats_malloc ::
  "(size_t \<Rightarrow> nat option) \<Rightarrow> u32 \<Rightarrow> size_t \<Rightarrow> (block \<times> access list) alloc_result" where
  "se_alloc_stats_malloc obtained category bytes =
     (case se_checked_add_size 16 bytes of
        None \<Rightarrow> NullPtr
      | Some all_bytes \<Rightarrow>
          (case obtained all_bytes of
             None \<Rightarrow> NullPtr
           | Some a \<Rightarrow> Done ((a, new_header category bytes), record_alloc (normalize_category category) bytes)))"

definition se_alloc_stats_calloc ::
  "(size_t \<Rightarrow> nat option) \<Rightarrow> u32 \<Rightarrow> size_t \<Rightarrow> size_t \<Rightarrow> (block \<times> access list) alloc_result" where
  "se_alloc_stats_calloc obtained category n elem_size =
     (case se_checked_mul_size n elem_size of
        None \<Rightarrow> NullPtr
      | Some bytes \<Rightarrow> se_alloc_stats_malloc obtained category bytes)"

definition se_alloc_stats_realloc ::
  "(size_t \<Rightarrow> nat option) \<Rightarrow> u32 \<Rightarrow> block option \<Rightarrow> size_t \<Rightarrow> (block \<times> access list) alloc_result" where
  "se_alloc_stats_realloc obtained category ptr bytes =
     (case ptr of
        None \<Rightarrow> se_alloc_stats_malloc obtained category bytes
      | Some (old, header) \<Rightarrow>
          (case se_checked_add_size 16 bytes of
             None \<Rightarrow> NullPtr
           | Some all_bytes \<Rightarrow>
               if ah_magic header \<noteq> SE_ALLOC_STATS_MAGIC then Aborted
               else case obtained all_bytes of
                   None \<Rightarrow> NullPtr
                 | Some a \<Rightarrow>
                     Done ((a, new_header category bytes),
                       record_realloc (normalize_category (ah_category header)) (ah_size header)
                         (normalize_category category) bytes)))"

definition se_alloc_stats_free :: "block option \<Rightarrow> access list alloc_result" where
  "se_alloc_stats_free ptr =
     (case ptr of
        None \<Rightarrow> Done []
      | Some (a, header) \<Rightarrow>
          if ah_magic header \<noteq> SE_ALLOC_STATS_MAGIC then Aborted
          else Done (record_free (normalize_category (ah_category header)) (ah_size header) @ [Release a]))"

definition reset_stats :: "se_alloc_stats \<Rightarrow> se_alloc_stats" where
  "reset_stats s =
     s\<lparr>al_peak_bytes := al_current_bytes s, al_total_allocated_bytes := 0, al_total_freed_bytes := 0,
       al_alloc_count := 0, al_realloc_count := 0, al_free_count := 0\<rparr>"

definition se_alloc_stats_reset :: "se_alloc_stats list \<Rightarrow> se_alloc_stats list" where
  "se_alloc_stats_reset stats = map reset_stats stats"

definition se_alloc_stats_snapshot :: "se_alloc_stats list \<Rightarrow> se_alloc_stats list" where
  "se_alloc_stats_snapshot stats = map (\<lambda>i. stats ! i) [0..<SE_ALLOC_CATEGORY_COUNT]"

text \<open>The hash that Ruby gets, in the order of its entries.\<close>

definition se_alloc_stats_hash :: "se_alloc_stats list \<Rightarrow> (string \<times> (string \<times> size_t) list) list" where
  "se_alloc_stats_hash stats =
     map (\<lambda>(i, s). (se_alloc_category_name (word_of_nat i),
         [(''current_bytes'', al_current_bytes s), (''peak_bytes'', al_peak_bytes s),
          (''total_allocated_bytes'', al_total_allocated_bytes s), (''total_freed_bytes'', al_total_freed_bytes s),
          (''alloc_count'', al_alloc_count s), (''realloc_count'', al_realloc_count s), (''free_count'', al_free_count s)]))
       (zip [0..<SE_ALLOC_CATEGORY_COUNT] (se_alloc_stats_snapshot stats))"

subsection \<open>Concurrent calls\<close>

text \<open>
  A thread is inside at most one call: the accesses it has still to make, its variable \<^verbatim>\<open>current\<close>, and the block
  that the call will return.  \<open>as_blocks\<close> holds the blocks whose bytes have been added to \<^verbatim>\<open>current_bytes\<close> and that
  nobody has passed to \<^verbatim>\<open>free\<close> or \<^verbatim>\<open>realloc\<close>; a block gets there with its \<open>AddCurrent\<close>, which is before the call
  returns it.  \<open>as_base\<close> is \<^verbatim>\<open>current_bytes\<close> at the last reset.
\<close>

record alloc_thread =
  at_code :: "access list"
  at_current :: size_t
  at_new :: "block option"

record alloc_state =
  as_stats :: "se_alloc_stats list"
  as_blocks :: "block list"
  as_threads :: "alloc_thread list"
  as_base :: "size_t list"

definition block_category :: "block \<Rightarrow> nat" where
  "block_category b = normalize_category (ah_category (snd b))"

definition block_bytes :: "nat \<Rightarrow> block \<Rightarrow> nat" where
  "block_bytes c b = (if block_category b = c then unat (ah_size (snd b)) else 0)"

definition live_bytes :: "nat \<Rightarrow> block list \<Rightarrow> nat" where
  "live_bytes c bs = sum_list (map (block_bytes c) bs)"

fun adding :: "nat \<Rightarrow> access \<Rightarrow> nat" where
  "adding c (AddCurrent d n) = (if d = c then unat n else 0)"
| "adding c _ = 0"

fun removing :: "nat \<Rightarrow> access \<Rightarrow> nat" where
  "removing c (SubCurrent d n) = (if d = c then unat n else 0)"
| "removing c _ = 0"

definition owed :: "(access \<Rightarrow> 'a::comm_monoid_add) \<Rightarrow> alloc_thread list \<Rightarrow> 'a" where
  "owed f ts = sum_list (map (\<lambda>t. sum_list (map f (at_code t))) ts)"

definition committed :: "nat \<Rightarrow> alloc_state \<Rightarrow> nat" where
  "committed c s = live_bytes c (as_blocks s) + owed (removing c) (as_threads s) + owed (adding c) (as_threads s)"

definition idle :: "alloc_thread \<Rightarrow> bool" where
  "idle t = (at_code t = [])"

definition start_call :: "nat \<Rightarrow> access list \<Rightarrow> block option \<Rightarrow> alloc_state \<Rightarrow> alloc_state" where
  "start_call i code b s =
     s\<lparr>as_threads := (as_threads s)[i := (as_threads s ! i)\<lparr>at_code := code, at_new := b\<rparr>]\<rparr>"

definition new_blocks :: "access \<Rightarrow> alloc_thread \<Rightarrow> block list" where
  "new_blocks a t = (case a of AddCurrent _ _ \<Rightarrow> (case at_new t of Some b \<Rightarrow> [b] | None \<Rightarrow> []) | _ \<Rightarrow> [])"

definition make_access :: "nat \<Rightarrow> access \<Rightarrow> access list \<Rightarrow> alloc_state \<Rightarrow> alloc_state" where
  "make_access i a rest s =
     (let t = as_threads s ! i; (stats, cur, next_accesses) = access_step (as_stats s) (at_current t) a in
      s\<lparr>as_stats := stats, as_blocks := new_blocks a t @ as_blocks s,
        as_threads := (as_threads s)[i := t\<lparr>at_code := next_accesses @ rest, at_current := cur\<rparr>]\<rparr>)"

definition initial_stats :: se_alloc_stats where
  "initial_stats = \<lparr>al_current_bytes = 0, al_peak_bytes = 0, al_total_allocated_bytes = 0, al_total_freed_bytes = 0,
     al_alloc_count = 0, al_realloc_count = 0, al_free_count = 0\<rparr>"

definition initial_alloc :: "nat \<Rightarrow> alloc_state" where
  "initial_alloc n = \<lparr>as_stats = replicate SE_ALLOC_CATEGORY_COUNT initial_stats, as_blocks = [],
     as_threads = replicate n \<lparr>at_code = [], at_current = 0, at_new = None\<rparr>,
     as_base = replicate SE_ALLOC_CATEGORY_COUNT 0\<rparr>"

text \<open>
  The premise \<open>committed c s + unat n < 2 ^ 64\<close> says that the bytes of a category which are not yet taken off its
  counter fit the address space.
\<close>

inductive alloc_step :: "alloc_state \<Rightarrow> alloc_state \<Rightarrow> bool" where
  malloc: "\<lbrakk>i < length (as_threads s); idle (as_threads s ! i);
      se_alloc_stats_malloc obtained category n = Done (b, code);
      committed (normalize_category category) s + unat n < 2 ^ 64\<rbrakk>
    \<Longrightarrow> alloc_step s (start_call i code (Some b) s)"
| calloc: "\<lbrakk>i < length (as_threads s); idle (as_threads s ! i);
      se_alloc_stats_calloc obtained category k n = Done (b, code);
      committed (normalize_category category) s + unat k * unat n < 2 ^ 64\<rbrakk>
    \<Longrightarrow> alloc_step s (start_call i code (Some b) s)"
| realloc: "\<lbrakk>i < length (as_threads s); idle (as_threads s ! i); old \<in> set (as_blocks s);
      se_alloc_stats_realloc obtained category (Some old) n = Done (b, code);
      committed (normalize_category category) s + unat n < 2 ^ 64\<rbrakk>
    \<Longrightarrow> alloc_step s (start_call i code (Some b) (s\<lparr>as_blocks := remove1 old (as_blocks s)\<rparr>))"
| free: "\<lbrakk>i < length (as_threads s); idle (as_threads s ! i); b \<in> set (as_blocks s);
      se_alloc_stats_free (Some b) = Done code\<rbrakk>
    \<Longrightarrow> alloc_step s (start_call i code None (s\<lparr>as_blocks := remove1 b (as_blocks s)\<rparr>))"
| work: "\<lbrakk>i < length (as_threads s); at_code (as_threads s ! i) = a # rest\<rbrakk>
    \<Longrightarrow> alloc_step s (make_access i a rest s)"
| reset: "\<lbrakk>\<forall>t \<in> set (as_threads s). idle t\<rbrakk>
    \<Longrightarrow> alloc_step s (s\<lparr>as_stats := se_alloc_stats_reset (as_stats s),
          as_base := map al_current_bytes (as_stats s)\<rparr>)"

inductive alloc_reachable :: "nat \<Rightarrow> alloc_state \<Rightarrow> bool" for n where
  start: "alloc_reachable n (initial_alloc n)"
| step: "alloc_reachable n s \<Longrightarrow> alloc_step s s' \<Longrightarrow> alloc_reachable n s'"

subsection \<open>Invariant\<close>

fun peak_of :: "access \<Rightarrow> nat list" where
  "peak_of (LoadPeak c) = [c]"
| "peak_of (CasPeak c p) = [c]"
| "peak_of _ = []"

definition peaks :: "access list \<Rightarrow> nat list" where
  "peaks code = concat (map peak_of code)"

text \<open>What a call has still to do: the peak of a category is its last access, and it follows the addition.\<close>

fun code_ok :: "size_t \<Rightarrow> block option \<Rightarrow> access list \<Rightarrow> bool" where
  "code_ok cur b [] = True"
| "code_ok cur b (AddCurrent c n # r) =
     (c < 12 \<and> peaks r = [c] \<and> (\<forall>d p. CasPeak d p \<notin> set r) \<and> (\<exists>a h. b = Some (a, h) \<and> normalize_category (ah_category h) = c \<and> ah_size h = n \<and>
        ah_magic h = SE_ALLOC_STATS_MAGIC) \<and> code_ok cur b r)"
| "code_ok cur b (SubCurrent c n # r) = (c < 12 \<and> code_ok cur b r)"
| "code_ok cur b (AddTotal c n # r) = (c < 12 \<and> code_ok cur b r)"
| "code_ok cur b (AddFreed c n # r) = (c < 12 \<and> code_ok cur b r)"
| "code_ok cur b (IncAlloc c # r) = (c < 12 \<and> code_ok cur b r)"
| "code_ok cur b (IncRealloc c # r) = (c < 12 \<and> code_ok cur b r)"
| "code_ok cur b (IncFree c # r) = (c < 12 \<and> code_ok cur b r)"
| "code_ok cur b (LoadPeak c # r) = (c < 12 \<and> r = [])"
| "code_ok cur b (CasPeak c p # r) = (c < 12 \<and> r = [] \<and> p < cur)"
| "code_ok cur b (Release a # r) = (r = [])"

definition peak_ok :: "nat \<Rightarrow> alloc_state \<Rightarrow> bool" where
  "peak_ok c s = (al_current_bytes (as_stats s ! c) \<le> al_peak_bytes (as_stats s ! c) \<or>
     (\<exists>t \<in> set (as_threads s). c \<in> set (peaks (at_code t)) \<and> al_current_bytes (as_stats s ! c) \<le> at_current t))"

text \<open>The effect of an access on \<^verbatim>\<open>current_bytes + total_freed_bytes - total_allocated_bytes\<close>.\<close>

fun drift :: "nat \<Rightarrow> access \<Rightarrow> size_t" where
  "drift c (AddCurrent d n) = (if d = c then n else 0)"
| "drift c (SubCurrent d n) = (if d = c then - n else 0)"
| "drift c (AddTotal d n) = (if d = c then - n else 0)"
| "drift c (AddFreed d n) = (if d = c then n else 0)"
| "drift c _ = 0"

definition alloc_inv :: "alloc_state \<Rightarrow> bool" where
  "alloc_inv s \<longleftrightarrow> length (as_stats s) = 12 \<and> length (as_base s) = 12 \<and>
     (\<forall>b \<in> set (as_blocks s). ah_magic (snd b) = SE_ALLOC_STATS_MAGIC) \<and>
     (\<forall>t \<in> set (as_threads s). code_ok (at_current t) (at_new t) (at_code t)) \<and>
     (\<forall>c < 12. committed c s < 2 ^ 64 \<and>
        unat (al_current_bytes (as_stats s ! c)) = live_bytes c (as_blocks s) + owed (removing c) (as_threads s) \<and>
        al_current_bytes (as_stats s ! c) + al_total_freed_bytes (as_stats s ! c) -
          al_total_allocated_bytes (as_stats s ! c) + owed (drift c) (as_threads s) = as_base s ! c \<and>
        peak_ok c s)"

subsection \<open>Lemmas\<close>

lemma sum_list_upd:
  "k < length xs \<Longrightarrow> sum_list (map f (xs[k := x])) + f (xs ! k) = sum_list (map f xs) + (f x :: 'a::comm_monoid_add)"
  by (induction xs arbitrary: k) (auto simp: ac_simps nth_Cons' split: nat.split simp: less_Suc_eq_0_disj)

lemma owed_upd:
  "i < length ts \<Longrightarrow> owed f (ts[i := t]) + sum_list (map f (at_code (ts ! i))) =
     owed f ts + (sum_list (map f (at_code t)) :: 'a::comm_monoid_add)"
  using sum_list_upd [of i ts "\<lambda>t. sum_list (map f (at_code t))" t] by (simp add: owed_def)

lemma owed_all: "i < length ts \<Longrightarrow> \<exists>k. owed f ts = sum_list (map f (at_code (ts ! i))) + (k :: 'a::comm_monoid_add)"
  unfolding owed_def
  by (induction ts arbitrary: i) (auto simp: less_Suc_eq_0_disj, metis add.left_commute)

lemma normalize_less [simp]: "normalize_category w < 12"
  by (simp add: normalize_category_def SE_ALLOC_CATEGORY_COUNT_def)

lemma normalize_stored [simp]: "normalize_category (word_of_nat (normalize_category w)) = normalize_category w"
  by (auto simp: normalize_category_def SE_ALLOC_CATEGORY_COUNT_def unat_of_nat)

lemma new_header_sels [simp]:
  "ah_magic (new_header w n) = SE_ALLOC_STATS_MAGIC" "ah_size (new_header w n) = n"
  "normalize_category (ah_category (new_header w n)) = normalize_category w"
  by (simp_all add: new_header_def)

lemma peaks_simps [simp]: "peaks [] = []" "peaks (a # r) = peak_of a @ peaks r" "peaks (xs @ ys) = peaks xs @ peaks ys"
  by (simp_all add: peaks_def)

lemma bump_nth: "c < length st \<Longrightarrow> bump d f st ! c = (if d = c then f (st ! c) else st ! c)"
  by (simp add: bump_def nth_list_update)

lemma length_bump [simp]: "length (bump d f st) = length st"
  by (simp add: bump_def)

lemma live_bytes_simps [simp]:
  "live_bytes c [] = 0" "live_bytes c (b # bs) = block_bytes c b + live_bytes c bs"
  by (simp_all add: live_bytes_def)

lemma live_bytes_remove1:
  "b \<in> set bs \<Longrightarrow> live_bytes c bs = block_bytes c b + live_bytes c (remove1 b bs)"
  unfolding live_bytes_def by (simp add: sum_list_map_remove1)

lemma owed_start:
  "i < length (as_threads s) \<Longrightarrow> idle (as_threads s ! i) \<Longrightarrow>
   owed f (as_threads (start_call i code b s)) = owed f (as_threads s) + (sum_list (map f code) :: 'a::comm_monoid_add)"
  using owed_upd [of i "as_threads s" f "(as_threads s ! i)\<lparr>at_code := code, at_new := b\<rparr>"]
  by (simp add: start_call_def idle_def)

lemma start_call_sels [simp]:
  "as_stats (start_call i code b s) = as_stats s" "as_blocks (start_call i code b s) = as_blocks s"
  "as_base (start_call i code b s) = as_base s"
  by (simp_all add: start_call_def)

lemma peak_ok_start:
  assumes i: "i < length (as_threads s)" "idle (as_threads s ! i)" and p: "peak_ok c s"
  shows "peak_ok c (start_call i code b s)"
proof (cases "al_current_bytes (as_stats s ! c) \<le> al_peak_bytes (as_stats s ! c)")
  case False
  then obtain j where j: "j < length (as_threads s)" "c \<in> set (peaks (at_code (as_threads s ! j)))"
      "al_current_bytes (as_stats s ! c) \<le> at_current (as_threads s ! j)"
    using p unfolding peak_ok_def by (metis in_set_conv_nth)
  have ji: "j \<noteq> i" using i j by (auto simp: idle_def)
  have "as_threads s ! j \<in> set (as_threads (start_call i code b s))"
    using j ji by (auto simp: start_call_def in_set_conv_nth intro!: exI [of _ j])
  then show ?thesis using j by (auto simp: peak_ok_def)
qed (simp add: peak_ok_def)

lemma alloc_inv_start:
  assumes i: "i < length (as_threads s)" "idle (as_threads s ! i)" and inv: "alloc_inv s"
    and code: "code_ok (at_current (as_threads s ! i)) b code"
    and blocks: "set bs \<subseteq> set (as_blocks s)"
    and live: "\<And>c. live_bytes c (as_blocks s) = live_bytes c bs + sum_list (map (removing c) code)"
    and room: "\<And>c. c < 12 \<Longrightarrow> committed c s + sum_list (map (adding c) code) < 2 ^ 64"
    and drift: "\<And>c. sum_list (map (drift c) code) = 0"
  shows "alloc_inv (start_call i code b (s\<lparr>as_blocks := bs\<rparr>))"
proof -
  let ?s = "start_call i code b (s\<lparr>as_blocks := bs\<rparr>)"
  have o: "owed f (as_threads ?s) = owed f (as_threads s) + (sum_list (map f code) :: 'b::comm_monoid_add)" for f
    using owed_start [of i "s\<lparr>as_blocks := bs\<rparr>" f code b] i by simp
  have th: "\<forall>t \<in> set (as_threads ?s). code_ok (at_current t) (at_new t) (at_code t)"
    using inv code by (auto simp: alloc_inv_def start_call_def dest: subsetD [OF set_update_subset_insert])
  have pk: "c < 12 \<Longrightarrow> peak_ok c ?s" for c
    using inv i by (intro peak_ok_start) (auto simp: alloc_inv_def peak_ok_def)
  have cm: "c < 12 \<Longrightarrow> committed c ?s < 2 ^ 64" for c
    using room [of c] live [of c] o [of "removing c"] o [of "adding c"] by (simp add: committed_def)
  have cu: "c < 12 \<Longrightarrow> unat (al_current_bytes (as_stats ?s ! c)) = live_bytes c (as_blocks ?s) + owed (removing c) (as_threads ?s)" for c
    using inv live [of c] o [of "removing c"] by (simp add: alloc_inv_def)
  have dr: "owed (drift c) (as_threads ?s) = owed (drift c) (as_threads s)" for c
    using o [of "drift c"] drift [of c] by simp
  show ?thesis unfolding alloc_inv_def
    using inv th pk cm cu blocks by (auto simp: alloc_inv_def dr)
qed

lemma record_alloc_sums:
  "sum_list (map (removing c) (record_alloc d n)) = 0"
  "sum_list (map (adding c) (record_alloc d n)) = (if d = c then unat n else 0)"
  "sum_list (map (drift c) (record_alloc d n)) = 0"
  by (simp_all add: record_alloc_def record_peak_def)

lemma record_realloc_sums:
  "sum_list (map (removing c) (record_realloc e k d n)) = (if e = c then unat k else 0)"
  "sum_list (map (adding c) (record_realloc e k d n)) = (if d = c then unat n else 0)"
  "sum_list (map (drift c) (record_realloc e k d n)) = 0"
  by (simp_all add: record_realloc_def record_peak_def)

lemma record_free_sums:
  "sum_list (map (removing c) (record_free e k)) = (if e = c then unat k else 0)"
  "sum_list (map (adding c) (record_free e k)) = 0"
  "sum_list (map (drift c) (record_free e k)) = 0"
  by (simp_all add: record_free_def)

lemma malloc_Done:
  assumes "se_alloc_stats_malloc obtained category n = Done (b, code)"
  shows "\<exists>a. b = (a, new_header category n) \<and> code = record_alloc (normalize_category category) n"
  using assms by (auto simp: se_alloc_stats_malloc_def split: option.splits)

lemma calloc_Done:
  assumes "se_alloc_stats_calloc obtained category k n = Done (b, code)"
  shows "\<exists>m. unat m = unat k * unat n \<and> se_alloc_stats_malloc obtained category m = Done (b, code)"
  using assms by (auto simp: se_alloc_stats_calloc_def checked_mul_size_Some split: option.splits)

lemma realloc_Done:
  assumes "se_alloc_stats_realloc obtained category (Some old) n = Done (b, code)"
  shows "\<exists>a. b = (a, new_header category n) \<and>
    code = record_realloc (block_category old) (ah_size (snd old)) (normalize_category category) n"
  using assms by (auto simp: se_alloc_stats_realloc_def block_category_def split: option.splits prod.splits if_splits)

lemma free_Done:
  assumes "se_alloc_stats_free (Some b) = Done code"
  shows "code = record_free (block_category b) (ah_size (snd b)) @ [Release (fst b)]"
  using assms by (auto simp: se_alloc_stats_free_def block_category_def split: prod.splits if_splits)

lemma block_category_less [simp]: "block_category b < 12"
  by (simp add: block_category_def)

lemma code_ok_record:
  "code_ok cur (Some (a, new_header category n)) (record_alloc (normalize_category category) n)"
  "e < 12 \<Longrightarrow> code_ok cur (Some (a, new_header category n)) (record_realloc e k (normalize_category category) n)"
  "e < 12 \<Longrightarrow> code_ok cur b (record_free e k @ [Release a])"
  by (simp_all add: record_alloc_def record_realloc_def record_free_def record_peak_def)

lemma alloc_inv_malloc:
  assumes "alloc_inv s" "i < length (as_threads s)" "idle (as_threads s ! i)"
    and m: "se_alloc_stats_malloc obtained category n = Done (b, code)"
    and room: "committed (normalize_category category) s + unat n < 2 ^ 64"
  shows "alloc_inv (start_call i code (Some b) s)"
proof -
  obtain a where b: "b = (a, new_header category n)" and code: "code = record_alloc (normalize_category category) n"
    using malloc_Done [OF m] by blast
  have "alloc_inv (start_call i code (Some b) (s\<lparr>as_blocks := as_blocks s\<rparr>))"
    using assms(1-3) room unfolding b code
    by (intro alloc_inv_start) (auto simp: record_alloc_sums code_ok_record alloc_inv_def)
  then show ?thesis by simp
qed

lemma in_set_remove1D: "x \<in> set (remove1 y xs) \<Longrightarrow> x \<in> set xs"
  by (rule subsetD [OF set_remove1_subset])

lemma live_old: "b \<in> set bs \<Longrightarrow>
   live_bytes c bs = live_bytes c (remove1 b bs) + (if block_category b = c then unat (ah_size (snd b)) else 0)"
  using live_bytes_remove1 [of b bs c] by (simp add: block_bytes_def add.commute)

lemma alloc_inv_realloc:
  assumes "alloc_inv s" "i < length (as_threads s)" "idle (as_threads s ! i)" and old: "old \<in> set (as_blocks s)"
    and m: "se_alloc_stats_realloc obtained category (Some old) n = Done (b, code)"
    and room: "committed (normalize_category category) s + unat n < 2 ^ 64"
  shows "alloc_inv (start_call i code (Some b) (s\<lparr>as_blocks := remove1 old (as_blocks s)\<rparr>))"
proof -
  obtain a where b: "b = (a, new_header category n)" and
    code: "code = record_realloc (block_category old) (ah_size (snd old)) (normalize_category category) n"
    using realloc_Done [OF m] by blast
  show ?thesis
    using assms(1-3) room unfolding b code
    by (intro alloc_inv_start)
       (auto simp: live_old [OF old] record_realloc_sums code_ok_record alloc_inv_def dest: in_set_remove1D)
qed

lemma alloc_inv_free:
  assumes "alloc_inv s" "i < length (as_threads s)" "idle (as_threads s ! i)" and old: "b \<in> set (as_blocks s)"
    and m: "se_alloc_stats_free (Some b) = Done code"
  shows "alloc_inv (start_call i code None (s\<lparr>as_blocks := remove1 b (as_blocks s)\<rparr>))"
  using assms(1-3) unfolding free_Done [OF m]
  by (intro alloc_inv_start)
     (auto simp: live_old [OF old] record_free_sums code_ok_record alloc_inv_def dest: in_set_remove1D)

lemma access_step_props:
  assumes "access_step st cur a = (st', cur', nx)" "length st = 12" "c < 12"
  shows "length st' = 12"
    and "al_current_bytes (st' ! c) + al_total_freed_bytes (st' ! c) - al_total_allocated_bytes (st' ! c) =
      al_current_bytes (st ! c) + al_total_freed_bytes (st ! c) - al_total_allocated_bytes (st ! c) + drift c a"
    and "al_current_bytes (st' ! c) = al_current_bytes (st ! c) + word_of_nat (adding c a) - word_of_nat (removing c a)"
    and "sum_list (map (drift c) nx) = 0" and "sum_list (map (adding c) nx) = 0" and "sum_list (map (removing c) nx) = 0"
  using assms by (cases a; force simp: bump_nth Let_def split: if_splits)+

lemma unat_shift:
  assumes "unat (x :: size_t) + a < 2 ^ 64" "b \<le> unat x"
  shows "unat (x + word_of_nat a - word_of_nat b) + b = unat x + a"
proof -
  have "x + word_of_nat a - word_of_nat b = word_of_nat (unat x + a - b)"
    using assms by (simp add: of_nat_diff)
  moreover have "unat (word_of_nat m :: size_t) = m" if "m < 2 ^ 64" for m
    using that by (simp add: unat_of_nat)
  moreover have "unat x + a - b < 2 ^ 64" using assms(1) by simp
  ultimately have "unat (x + word_of_nat a - word_of_nat b) = unat x + a - b" by presburger
  then show ?thesis using assms(2) by simp
qed

lemma code_ok_tail: "code_ok cur b (a # r) \<Longrightarrow> code_ok cur b r"
  by (cases a) auto

lemma code_ok_cur: "code_ok cur b r \<Longrightarrow> (\<And>c p. CasPeak c p \<notin> set r) \<Longrightarrow> code_ok cur' b r"
  by (induction cur b r rule: code_ok.induct) auto

lemma code_ok_step:
  assumes "code_ok cur b (a # r)" "access_step st cur a = (st', cur', nx)"
  shows "code_ok cur' b (nx @ r)"
  using assms by (cases a) (auto simp: Let_def not_le intro: code_ok_cur split: if_splits)

lemma new_blocks_bytes:
  "code_ok (at_current t) (at_new t) (a # r) \<Longrightarrow> live_bytes c (new_blocks a t) = adding c a"
  "code_ok (at_current t) (at_new t) (a # r) \<Longrightarrow> b \<in> set (new_blocks a t) \<Longrightarrow> ah_magic (snd b) = SE_ALLOC_STATS_MAGIC"
  by (cases a; auto simp: new_blocks_def block_bytes_def block_category_def)+

lemma live_bytes_append [simp]: "live_bytes c (xs @ ys) = live_bytes c xs + live_bytes c ys"
  by (simp add: live_bytes_def)


lemma owed_work:
  assumes "i < length ts" "at_code (ts ! i) = a # r" "sum_list (map f nx) = 0"
  shows "owed f (ts[i := (ts ! i)\<lparr>at_code := nx @ r, at_current := cur\<rparr>]) + f a = (owed f ts :: 'a::cancel_comm_monoid_add)"
  using owed_upd [of i ts f "(ts ! i)\<lparr>at_code := nx @ r, at_current := cur\<rparr>"] assms
  by (simp add: ac_simps) (metis add.assoc add.commute add_right_imp_eq)

lemma owed_ge:
  assumes "i < length ts" "at_code (ts ! i) = a # r"
  shows "f a \<le> (owed f ts :: nat)"
proof -
  obtain k where "owed f ts = sum_list (map f (at_code (ts ! i))) + k" using owed_all [OF assms(1), of f] by blast
  then show ?thesis using assms(2) by simp
qed

lemma make_access_eq:
  assumes "access_step (as_stats s) (at_current (as_threads s ! i)) a = (st', cur', nx)"
  shows "make_access i a r s = s\<lparr>as_stats := st', as_blocks := new_blocks a (as_threads s ! i) @ as_blocks s,
    as_threads := (as_threads s)[i := (as_threads s ! i)\<lparr>at_code := nx @ r, at_current := cur'\<rparr>]\<rparr>"
  using assms by (simp add: make_access_def Let_def)

lemma peak_ok_work:
  assumes len: "length (as_stats s) = 12" and c: "c < 12" and i: "i < length (as_threads s)" "at_code (as_threads s ! i) = a # r"
    and ok: "code_ok (at_current (as_threads s ! i)) (at_new (as_threads s ! i)) (a # r)"
    and no_borrow: "removing c a \<le> unat (al_current_bytes (as_stats s ! c))"
    and p: "peak_ok c s"
  shows "peak_ok c (make_access i a r s)"
proof -
  let ?t = "as_threads s ! i"
  obtain st' cur' nx where x: "access_step (as_stats s) (at_current ?t) a = (st', cur', nx)" by (metis prod_cases3)
  let ?t' = "?t\<lparr>at_code := nx @ r, at_current := cur'\<rparr>"
  have t': "?t' \<in> set ((as_threads s)[i := ?t'])" using i by (metis set_update_memI)
  have other: "\<exists>t \<in> set ((as_threads s)[i := ?t']). c \<in> set (peaks (at_code t)) \<and> v \<le> at_current t"
    if "j < length (as_threads s)" "j \<noteq> i" "c \<in> set (peaks (at_code (as_threads s ! j)))" "v \<le> at_current (as_threads s ! j)" for j v
    using that by (intro bexI [of _ "as_threads s ! j"]) (auto simp: in_set_conv_nth intro!: exI [of _ j])
  define W where "W v \<longleftrightarrow> (\<exists>j < length (as_threads s). j \<noteq> i \<and> c \<in> set (peaks (at_code (as_threads s ! j))) \<and>
      v \<le> at_current (as_threads s ! j))" for v
  let ?cur = "al_current_bytes (as_stats s ! c)" and ?pk = "al_peak_bytes (as_stats s ! c)"
  have now: "?cur \<le> ?pk \<or> W ?cur \<or> (c \<in> set (peaks (a # r)) \<and> ?cur \<le> at_current ?t)"
  proof (cases "?cur \<le> ?pk")
    case False
    then obtain j where "j < length (as_threads s)" "c \<in> set (peaks (at_code (as_threads s ! j)))"
        "?cur \<le> at_current (as_threads s ! j)"
      using p unfolding peak_ok_def by (metis in_set_conv_nth)
    then show ?thesis unfolding W_def using i(2) by (cases "j = i") auto
  qed simp
  have W_mono: "W v \<Longrightarrow> u \<le> v \<Longrightarrow> W u" for u v unfolding W_def by (meson order_trans)
  have sub: "?cur - n \<le> ?cur" if "unat n \<le> unat ?cur" for n
    using that by (simp add: word_le_nat_alt unat_sub)
  have key: "al_current_bytes (st' ! c) \<le> al_peak_bytes (st' ! c) \<or> W (al_current_bytes (st' ! c)) \<or>
      (c \<in> set (peaks (nx @ r)) \<and> al_current_bytes (st' ! c) \<le> cur')"
  proof (cases a)
    case (SubCurrent d n)
    show ?thesis
    proof (cases "d = c")
      case True
      then have le: "al_current_bytes (st' ! c) \<le> ?cur" and rest: "al_peak_bytes (st' ! c) = ?pk" "cur' = at_current ?t" "nx = []"
        using x SubCurrent sub [of n] no_borrow len c by (auto simp: bump_nth)
      then show ?thesis using now W_mono [OF _ le] SubCurrent by (auto intro: order_trans [OF le])
    qed (use x SubCurrent now len c in \<open>auto simp: bump_nth\<close>)
  next
    case (CasPeak d q)
    then have "q < at_current ?t" "r = []" using ok by auto
    then show ?thesis using x CasPeak now len c by (auto simp: bump_nth split: if_splits)
  next
    case (LoadPeak d)
    then show ?thesis using x now len c ok by (auto simp: Let_def split: if_splits)
  qed (use x now len c ok in \<open>auto simp: Let_def bump_nth split: if_splits\<close>)
  show ?thesis
    unfolding make_access_eq [OF x] peak_ok_def using key other t' unfolding W_def by (fastforce simp del: peaks_simps)
qed

lemma balance_shift:
  assumes "e' = e + d" "e + p = b" "p' + d = (p :: size_t)"
  shows "e' + p' = b"
  using assms by (auto simp: ac_simps)

lemma alloc_inv_work:
  assumes inv: "alloc_inv s" and i: "i < length (as_threads s)" "at_code (as_threads s ! i) = a # r"
  shows "alloc_inv (make_access i a r s)"
proof -
  let ?t = "as_threads s ! i" and ?s = "make_access i a r s"
  obtain st' cur' nx where x: "access_step (as_stats s) (at_current ?t) a = (st', cur', nx)" by (metis prod_cases3)
  note s' = make_access_eq [OF x, of r]
  have len: "length (as_stats s) = 12" and ok: "code_ok (at_current ?t) (at_new ?t) (a # r)"
    using inv i nth_mem [OF i(1)] unfolding alloc_inv_def by (simp, metis)
  note props = access_step_props [OF x len]
  have th: "\<forall>t \<in> set (as_threads ?s). code_ok (at_current t) (at_new t) (at_code t)"
    using inv code_ok_step [OF ok x] unfolding s' alloc_inv_def
    by (auto dest: subsetD [OF set_update_subset_insert])
  have each: "committed c ?s < 2 ^ 64 \<and>
        unat (al_current_bytes (as_stats ?s ! c)) = live_bytes c (as_blocks ?s) + owed (removing c) (as_threads ?s) \<and>
        al_current_bytes (as_stats ?s ! c) + al_total_freed_bytes (as_stats ?s ! c) -
          al_total_allocated_bytes (as_stats ?s ! c) + owed (drift c) (as_threads ?s) = as_base ?s ! c \<and>
        peak_ok c ?s" if c: "c < 12" for c
  proof -
    have old: "committed c s < 2 ^ 64" "peak_ok c s"
        "unat (al_current_bytes (as_stats s ! c)) = live_bytes c (as_blocks s) + owed (removing c) (as_threads s)"
        "al_current_bytes (as_stats s ! c) + al_total_freed_bytes (as_stats s ! c) -
          al_total_allocated_bytes (as_stats s ! c) + owed (drift c) (as_threads s) = as_base s ! c"
      using inv c by (auto simp: alloc_inv_def)
    have o: "owed (removing c) (as_threads ?s) + removing c a = owed (removing c) (as_threads s)"
        "owed (adding c) (as_threads ?s) + adding c a = owed (adding c) (as_threads s)"
        "owed (drift c) (as_threads ?s) + drift c a = owed (drift c) (as_threads s)"
      unfolding s' using props(4-6) [OF c] by (simp_all add: owed_work [OF i])
    have live: "live_bytes c (as_blocks ?s) = adding c a + live_bytes c (as_blocks s)"
      unfolding s' using new_blocks_bytes(1) [OF ok] by simp
    have cm: "committed c ?s = committed c s - removing c a"
      unfolding committed_def live using o by simp
    have le: "removing c a \<le> unat (al_current_bytes (as_stats s ! c))"
      using owed_ge [OF i, of "removing c"] old(3) by simp
    have "unat (al_current_bytes (as_stats s ! c)) + adding c a \<le> committed c s"
      unfolding committed_def old(3) using owed_ge [OF i, of "adding c"] by simp
    then have "unat (al_current_bytes (as_stats s ! c)) + adding c a < 2 ^ 64" using old(1) by simp
    from unat_shift [OF this le]
    have cu: "unat (al_current_bytes (as_stats ?s ! c)) + removing c a = unat (al_current_bytes (as_stats s ! c)) + adding c a"
      unfolding s' using props(3) [OF c] by simp
    have dr: "al_current_bytes (as_stats ?s ! c) + al_total_freed_bytes (as_stats ?s ! c) -
          al_total_allocated_bytes (as_stats ?s ! c) + owed (drift c) (as_threads ?s) = as_base s ! c"
      by (rule balance_shift [OF _ old(4) o(3)]) (use props(2) [OF c] in \<open>simp add: s'\<close>)
    have "peak_ok c ?s" by (rule peak_ok_work [OF len c i ok le old(2)])
    moreover have "as_base ?s = as_base s" unfolding s' by simp
    ultimately show ?thesis using old(1) cm cu dr live o(1) old(3) by simp
  qed
  have "\<forall>b \<in> set (as_blocks ?s). ah_magic (snd b) = SE_ALLOC_STATS_MAGIC" "length (as_stats ?s) = 12" "length (as_base ?s) = 12"
    unfolding s' using inv new_blocks_bytes(2) [OF ok] props(1) [of 0] by (auto simp: alloc_inv_def)
  then show ?thesis unfolding alloc_inv_def using th each by blast
qed

lemma owed_idle: "\<forall>t \<in> set ts. idle t \<Longrightarrow> owed f ts = 0"
  unfolding owed_def by (induction ts) (auto simp: idle_def)

lemma alloc_inv_reset:
  assumes inv: "alloc_inv s" and q: "\<forall>t \<in> set (as_threads s). idle t"
  shows "alloc_inv (s\<lparr>as_stats := se_alloc_stats_reset (as_stats s), as_base := map al_current_bytes (as_stats s)\<rparr>)"
  using inv unfolding alloc_inv_def committed_def
  by (simp add: owed_idle [OF q] se_alloc_stats_reset_def reset_stats_def peak_ok_def)

lemma initial_alloc_inv: "alloc_inv (initial_alloc n)"
proof -
  have q: "\<forall>t \<in> set (as_threads (initial_alloc n)). idle t" by (simp add: initial_alloc_def idle_def)
  show ?thesis unfolding alloc_inv_def committed_def owed_idle [OF q]
    by (auto simp: initial_alloc_def SE_ALLOC_CATEGORY_COUNT_def initial_stats_def peak_ok_def)
qed

lemma alloc_step_inv: "alloc_step s s' \<Longrightarrow> alloc_inv s \<Longrightarrow> alloc_inv s'"
proof (induction rule: alloc_step.induct)
  case (calloc i s obtained category k n b code)
  then obtain m where "unat m = unat k * unat n" "se_alloc_stats_malloc obtained category m = Done (b, code)"
    using calloc_Done by blast
  then show ?case using calloc alloc_inv_malloc by metis
qed (auto intro: alloc_inv_malloc alloc_inv_realloc alloc_inv_free alloc_inv_work alloc_inv_reset)

lemma alloc_reachable_inv: "alloc_reachable n s \<Longrightarrow> alloc_inv s"
  by (induction rule: alloc_reachable.induct) (auto intro: initial_alloc_inv alloc_step_inv)

section \<open>Properties\<close>

text \<open>
  Property C33: whatever the interleaving of the accesses of concurrent calls, when no call is in progress
  \<^verbatim>\<open>current_bytes\<close> of each category is the number of bytes of its live blocks, it is at most \<^verbatim>\<open>peak_bytes\<close>, and it
  differs from its value at the last reset by what was allocated minus what was freed since (modulo the word size).
  A live block can always be freed or reallocated without reaching \<^verbatim>\<open>abort\<close>.
\<close>

theorem alloc_stats_balanced:
  assumes "alloc_reachable n s" and "\<forall>t \<in> set (as_threads s). idle t" and "c < SE_ALLOC_CATEGORY_COUNT"
  shows "unat (al_current_bytes (as_stats s ! c)) = live_bytes c (as_blocks s) \<and>
    al_current_bytes (as_stats s ! c) \<le> al_peak_bytes (as_stats s ! c) \<and>
    al_current_bytes (as_stats s ! c) =
      as_base s ! c + al_total_allocated_bytes (as_stats s ! c) - al_total_freed_bytes (as_stats s ! c) \<and>
    (\<forall>b \<in> set (as_blocks s). se_alloc_stats_free (Some b) \<noteq> Aborted \<and>
       se_alloc_stats_realloc obtained category (Some b) bytes \<noteq> Aborted)"
proof -
  have inv: "alloc_inv s" by (rule alloc_reachable_inv [OF assms(1)])
  have "peak_ok c s" "unat (al_current_bytes (as_stats s ! c)) = live_bytes c (as_blocks s)"
      "al_current_bytes (as_stats s ! c) + al_total_freed_bytes (as_stats s ! c) - al_total_allocated_bytes (as_stats s ! c) =
       as_base s ! c"
    using inv assms(3) by (simp_all add: alloc_inv_def owed_idle [OF assms(2)] SE_ALLOC_CATEGORY_COUNT_def)
  moreover have "al_current_bytes (as_stats s ! c) \<le> al_peak_bytes (as_stats s ! c)"
    using \<open>peak_ok c s\<close> assms(2) by (auto simp: peak_ok_def idle_def)
  moreover have "se_alloc_stats_free (Some b) \<noteq> Aborted \<and> se_alloc_stats_realloc obtained category (Some b) bytes \<noteq> Aborted"
    if "b \<in> set (as_blocks s)" for b
    using inv that by (cases b) (auto simp: alloc_inv_def se_alloc_stats_free_def se_alloc_stats_realloc_def split: option.splits)
  ultimately show ?thesis by (auto simp: algebra_simps)
qed


text \<open>Two threads: the first allocates five scratch bytes, the second allocates three while the first is recording.\<close>

definition example_obtained :: "nat \<Rightarrow> size_t \<Rightarrow> nat option" where
  "example_obtained a n = (if n < 100 then Some a else None)"

definition example_code :: "size_t \<Rightarrow> access list" where
  "example_code n = record_alloc 1 n"

definition example_block :: "nat \<Rightarrow> size_t \<Rightarrow> block" where
  "example_block a n = (a, new_header 1 n)"

fun run_accesses :: "nat list \<Rightarrow> alloc_state \<Rightarrow> alloc_state option" where
  "run_accesses [] s = Some s"
| "run_accesses (i # is) s =
     (if i < length (as_threads s) then
        (case at_code (as_threads s ! i) of [] \<Rightarrow> None | a # r \<Rightarrow> run_accesses is (make_access i a r s))
      else None)"

lemma run_accesses_reachable: "alloc_reachable n s \<Longrightarrow> run_accesses is s = Some s' \<Longrightarrow> alloc_reachable n s'"
  by (induction "is" arbitrary: s) (auto split: if_splits list.splits intro: alloc_reachable.step alloc_step.work)

definition example_started :: alloc_state where
  "example_started = start_call 1 (example_code 3) (Some (example_block 200 3))
     (start_call 0 (example_code 5) (Some (example_block 100 5)) (initial_alloc 2))"

lemma example_malloc:
  "se_alloc_stats_malloc (example_obtained 100) 1 5 = Done (example_block 100 5, example_code 5)"
  "se_alloc_stats_malloc (example_obtained 200) 1 3 = Done (example_block 200 3, example_code 3)"
  by (simp_all add: se_alloc_stats_malloc_def se_checked_add_size_def SE_SIZE_MAX_def example_obtained_def
      example_block_def example_code_def normalize_category_def SE_ALLOC_CATEGORY_COUNT_def)

lemma replicate_two: "replicate 2 x = [x, x]"
  by (simp add: numeral_2_eq_2)

lemma example_room:
  "committed (normalize_category 1) (initial_alloc 2) + unat (5 :: size_t) < 2 ^ 64"
  "committed (normalize_category 1) (start_call 0 (example_code 5) (Some (example_block 100 5)) (initial_alloc 2)) +
     unat (3 :: size_t) < 2 ^ 64"
  by (simp_all add: committed_def initial_alloc_def owed_def start_call_def example_code_def record_alloc_def
      record_peak_def normalize_category_def SE_ALLOC_CATEGORY_COUNT_def replicate_two)

lemma example_started_reachable: "alloc_reachable 2 example_started"
  unfolding example_started_def
proof (rule alloc_reachable.step [OF alloc_reachable.step [OF alloc_reachable.start]])
  show "alloc_step (initial_alloc 2) (start_call 0 (example_code 5) (Some (example_block 100 5)) (initial_alloc 2))"
    by (rule alloc_step.malloc [OF _ _ example_malloc(1) example_room(1)]) (simp_all add: initial_alloc_def idle_def)
  show "alloc_step (start_call 0 (example_code 5) (Some (example_block 100 5)) (initial_alloc 2))
      (start_call 1 (example_code 3) (Some (example_block 200 3))
        (start_call 0 (example_code 5) (Some (example_block 100 5)) (initial_alloc 2)))"
    by (rule alloc_step.malloc [OF _ _ example_malloc(2) example_room(2)])
      (simp_all add: initial_alloc_def idle_def start_call_def nth_list_update)
qed

definition example_settled :: alloc_state where
  "example_settled = \<lparr>as_stats = (replicate 12 initial_stats)[1 := \<lparr>al_current_bytes = 8, al_peak_bytes = 8,
       al_total_allocated_bytes = 8, al_total_freed_bytes = 0, al_alloc_count = 2, al_realloc_count = 0, al_free_count = 0\<rparr>],
     as_blocks = [example_block 200 3, example_block 100 5],
     as_threads = [\<lparr>at_code = [], at_current = 5, at_new = Some (example_block 100 5)\<rparr>,
       \<lparr>at_code = [], at_current = 8, at_new = Some (example_block 200 3)\<rparr>],
     as_base = replicate 12 0\<rparr>"

lemma example_alloc_run: "run_accesses [0, 0, 1, 1, 1, 1, 1, 0, 0] example_started = Some example_settled"
  by code_simp

lemma example_settled_idle: "\<forall>t \<in> set (as_threads example_settled). idle t"
  by (simp add: example_settled_def idle_def)

theorem alloc_stats_balanced_witness:
  "unat (al_current_bytes (as_stats example_settled ! 1)) = live_bytes 1 (as_blocks example_settled) \<and>
   live_bytes 1 (as_blocks example_settled) = 8"
proof
  show "unat (al_current_bytes (as_stats example_settled ! 1)) = live_bytes 1 (as_blocks example_settled)"
    by (rule conjunct1 [OF alloc_stats_balanced [OF run_accesses_reachable [OF example_started_reachable example_alloc_run]
          example_settled_idle]])
      (simp add: SE_ALLOC_CATEGORY_COUNT_def)
  show "live_bytes 1 (as_blocks example_settled) = 8"
    by code_simp
qed

end
