(* ===== verification/Lifecycle.thy ===== *)
theory Lifecycle
  imports Batch
begin

text \<open>
  The life of a model: \<^verbatim>\<open>se_model_open\<close> and \<^verbatim>\<open>se_model_close\<close> of \<^verbatim>\<open>se_format.c\<close> on POSIX systems and on Windows, and the Ruby object
  of \<^verbatim>\<open>static_embeddings.c\<close> with its \<^verbatim>\<open>open\<close> flag, its count \<^verbatim>\<open>active_ops\<close> and its readers.  A step relation
  interleaves the start and the end of operations on the object with \<^verbatim>\<open>close\<close>; the global lock makes each of these
  steps atomic.  The system calls are parameters.
\<close>

subsection \<open>The operating system\<close>

text \<open>
  The open descriptors (on Windows, the handles of files and of mapping objects) of the process, its mapped files and the buffers that hold a file.  What
  the system calls return is a parameter: the descriptor of a path (negative when it cannot be opened), the size of the
  file (\<open>None\<close> when it is not to be had), the address of the mapping, on Windows the handle of a mapping object, the address of a buffer and the number of
  bytes that one \<^verbatim>\<open>ReadFile\<close> at an offset delivers (\<open>None\<close> when it fails); further the bytes that the mapping or the filled
  buffer shows, the byte order of the host, and whether \<^verbatim>\<open>calloc\<close> has memory for the check of the vocabulary.
\<close>

record os_env =
  oe_windows :: bool
  oe_open :: "string \<Rightarrow> int"
  oe_size :: "int \<Rightarrow> int option"
  oe_mapping :: "int \<Rightarrow> int option"
  oe_map :: "int \<Rightarrow> size_t \<Rightarrow> nat option"
  oe_malloc :: "size_t \<Rightarrow> nat option"
  oe_read :: "int \<Rightarrow> nat \<Rightarrow> nat \<Rightarrow> nat option"
  oe_bytes :: "int \<Rightarrow> u8 list"
  oe_little_endian :: bool
  oe_calloc :: bool

record os_state =
  os_fds :: "int list"
  os_maps :: "(nat \<times> size_t) list"
  os_buffers :: "(nat \<times> size_t) list"

definition open_fd :: "int \<Rightarrow> os_state \<Rightarrow> os_state" where
  "open_fd fd os = os\<lparr>os_fds := fd # os_fds os\<rparr>"

definition close_fd :: "int \<Rightarrow> os_state \<Rightarrow> os_state" where
  "close_fd fd os = os\<lparr>os_fds := remove1 fd (os_fds os)\<rparr>"

definition map_file :: "nat \<Rightarrow> size_t \<Rightarrow> os_state \<Rightarrow> os_state" where
  "map_file addr n os = os\<lparr>os_maps := (addr, n) # os_maps os\<rparr>"

definition unmap_file :: "nat \<Rightarrow> size_t \<Rightarrow> os_state \<Rightarrow> os_state" where
  "unmap_file addr n os = os\<lparr>os_maps := remove1 (addr, n) (os_maps os)\<rparr>"

definition take_buffer :: "nat \<Rightarrow> size_t \<Rightarrow> os_state \<Rightarrow> os_state" where
  "take_buffer addr n os = os\<lparr>os_buffers := (addr, n) # os_buffers os\<rparr>"

definition free_buffer :: "nat \<Rightarrow> size_t \<Rightarrow> os_state \<Rightarrow> os_state" where
  "free_buffer addr n os = os\<lparr>os_buffers := remove1 (addr, n) (os_buffers os)\<rparr>"

lemmas os_calls = open_fd_def close_fd_def map_file_def unmap_file_def take_buffer_def free_buffer_def

subsection \<open>Opening and closing a model\<close>

text \<open>
  The struct \<^verbatim>\<open>se_model_t\<close> with the fields of the mapping; address 0 is the null pointer.  \<open>zero_model\<close> is the struct
  after \<^verbatim>\<open>memset\<close>.
\<close>

record model_file =
  mf_base :: nat
  mf_size :: size_t
  mf_mapped :: bool
  mf_model :: se_model

definition zero_meta :: se_meta where
  "zero_meta = \<lparr>mt_dim = 0, mt_vocab_size = 0, mt_tokenizer_type = 0, mt_embedding_dtype = 0, mt_pooling_type = 0,
     mt_normalization_type = 0, mt_max_tokens_default = 0, mt_truncation_policy = 0, mt_add_special_tokens = 0,
     mt_unk_policy = 0, mt_empty_policy = 0, mt_do_lower_case = 0, mt_strip_accents = 0, mt_handle_chinese_chars = 0,
     mt_clean_text = 0, mt_max_input_chars_per_word = 0, mt_max_token_chars = 0, mt_max_probe = 0,
     mt_added_token_mask = 0, mt_pad_id = 0, mt_unk_id = 0, mt_cls_id = 0, mt_sep_id = 0, mt_mask_id = 0,
     mt_hash_table_size = 0, mt_hash_seed = 0, mt_subword_prefix_len = 0, mt_subword_prefix = replicate 8 0\<rparr>"

definition zero_model :: se_model where
  "zero_model = \<lparr>md_meta = zero_meta, md_norm = empty_norm, md_vocab_strings = [], md_vocab_hash = [],
     md_root_trie = empty_trie, md_cont_trie = empty_trie, md_embeddings = [], md_provenance = []\<rparr>"

definition zero_file :: model_file where
  "zero_file = \<lparr>mf_base = 0, mf_size = 0, mf_mapped = False, mf_model = zero_model\<rparr>"

definition se_model_close :: "model_file \<Rightarrow> os_state \<Rightarrow> model_file \<times> os_state" where
  "se_model_close model os =
     (if mf_base model = 0 then (model, os)
      else (zero_file,
        if mf_mapped model then unmap_file (mf_base model) (mf_size model) os
        else free_buffer (mf_base model) (mf_size model) os))"

definition file_mapped :: "nat \<Rightarrow> size_t \<Rightarrow> model_file" where
  "file_mapped addr n = zero_file\<lparr>mf_base := addr, mf_size := n, mf_mapped := True\<rparr>"

definition io_error :: "string \<Rightarrow> os_state \<Rightarrow> model_file se_result \<times> os_state" where
  "io_error message os = (Inl (SeError SE_ERR_IO message), os)"

text \<open>The mapping of the file, before its contents are looked at.\<close>

definition posix_map :: "os_env \<Rightarrow> string \<Rightarrow> os_state \<Rightarrow> model_file se_result \<times> os_state" where
  "posix_map env path os =
     (let fd = oe_open env path in
      if fd < 0 then io_error (''cannot open '' @ path) os
      else let os = open_fd fd os in
        (case oe_size env fd of
           None \<Rightarrow> io_error (''cannot stat '' @ path) (close_fd fd os)
         | Some st_size \<Rightarrow>
             if st_size \<le> 0 then io_error (''cannot stat '' @ path) (close_fd fd os)
             else if st_size > 2 ^ 64 - 1 then io_error ''file is too large to map safely'' (close_fd fd os)
             else let n = word_of_int st_size in
               (case oe_map env fd n of
                  None \<Rightarrow> io_error (''mmap failed for '' @ path) (close_fd fd os)
                | Some addr \<Rightarrow> (Inr (file_mapped addr n), close_fd fd (map_file addr n os)))))"

text \<open>The loop that reads a file that Windows does not map; the result says whether the buffer has been filled.\<close>

function read_chunks :: "os_env \<Rightarrow> int \<Rightarrow> nat \<Rightarrow> nat \<Rightarrow> bool" where
  "read_chunks env file n got =
     (if got < n then
        let chunk = (if n - got > 0x10000000 then 0x10000000 else n - got) in
        case oe_read env file got chunk of
          None \<Rightarrow> False
        | Some k \<Rightarrow> if k = 0 then False else read_chunks env file n (got + k)
      else True)"
  by pat_completeness auto
termination by (relation "measure (\<lambda>(env, file, n, got). n - got)") auto

declare read_chunks.simps [simp del]

text \<open>The view of the file, if there is one; the handle of the mapping object is closed in any case.\<close>

definition windows_view :: "os_env \<Rightarrow> int \<Rightarrow> size_t \<Rightarrow> os_state \<Rightarrow> nat option \<times> os_state" where
  "windows_view env file n os =
     (case oe_mapping env file of
        None \<Rightarrow> (None, os)
      | Some mapping \<Rightarrow>
          let os = open_fd mapping os in
          (case oe_map env file n of
             None \<Rightarrow> (None, close_fd mapping os)
           | Some view \<Rightarrow> (Some view, close_fd mapping (map_file view n os))))"

definition windows_map :: "os_env \<Rightarrow> string \<Rightarrow> os_state \<Rightarrow> model_file se_result \<times> os_state" where
  "windows_map env path os =
     (let file = oe_open env path in
      if file < 0 then io_error (''cannot open '' @ path) os
      else let os = open_fd file os in
        (case oe_size env file of
           None \<Rightarrow> io_error (''cannot stat '' @ path) (close_fd file os)
         | Some file_size \<Rightarrow>
             if file_size \<le> 0 then io_error (''cannot stat '' @ path) (close_fd file os)
             else if file_size > 2 ^ 64 - 1 then io_error ''file is too large to map safely'' (close_fd file os)
             else let n = word_of_int file_size in
               (case windows_view env file n os of
                  (Some view, os) \<Rightarrow> (Inr (file_mapped view n), close_fd file os)
                | (None, os) \<Rightarrow>
                    (case oe_malloc env n of
                       None \<Rightarrow> (Inl (SeError SE_ERR_OOM ''out of memory''), close_fd file os)
                     | Some buf \<Rightarrow>
                         let os = take_buffer buf n os in
                         if \<not> read_chunks env file (unat n) 0
                         then io_error (''short read on '' @ path) (close_fd file (free_buffer buf n os))
                         else (Inr ((file_mapped buf n)\<lparr>mf_mapped := False\<rparr>), close_fd file os)))))"

definition se_model_open :: "os_env \<Rightarrow> string \<Rightarrow> os_state \<Rightarrow> unit se_result \<times> model_file \<times> os_state" where
  "se_model_open env path os =
     (case (if oe_windows env then windows_map else posix_map) env path os of
        (Inl e, os) \<Rightarrow> (Inl e, zero_file, os)
      | (Inr model, os) \<Rightarrow>
          (case validate (oe_little_endian env) (oe_calloc env) (oe_bytes env (oe_open env path)) of
             Inl e \<Rightarrow> (Inl e, se_model_close model os)
           | Inr m \<Rightarrow> (Inr (), model\<lparr>mf_model := m\<rparr>, os)))"

text \<open>The size of the struct is a parameter.\<close>

definition se_model_memsize :: "nat \<Rightarrow> model_file option \<Rightarrow> nat" where
  "se_model_memsize struct_size model =
     (case model of
        None \<Rightarrow> 0
      | Some m \<Rightarrow> if mf_mapped m then struct_size else struct_size + unat (mf_size m))"

subsection \<open>The Ruby object\<close>

record model_wrapper =
  mw_model :: model_file
  mw_open :: bool
  mw_active_ops :: u32
  mw_path :: "string option"

definition model_alloc :: model_wrapper where
  "model_alloc = \<lparr>mw_model = zero_file, mw_open = False, mw_active_ops = 0, mw_path = None\<rparr>"

definition model_initialize ::
  "os_env \<Rightarrow> ruby_value \<Rightarrow> model_wrapper \<Rightarrow> os_state \<Rightarrow> unit ruby \<times> model_wrapper \<times> os_state" where
  "model_initialize env path w os =
     (case path of
        QString name \<Rightarrow>
          if CHR 0x00 \<in> set name then (Inl (Raise ArgumentError ''path contains a null byte''), w, os)
          else (case se_model_open env name os of
             (Inl (SeError status message), model, os) \<Rightarrow> (Inl (raise_se status message), w\<lparr>mw_model := model\<rparr>, os)
           | (Inl OutOfBounds, model, os) \<Rightarrow> (Inl Undefined, w\<lparr>mw_model := model\<rparr>, os)
           | (Inr _, model, os) \<Rightarrow> (Inr (), w\<lparr>mw_model := model, mw_open := True, mw_path := Some name\<rparr>, os))
      | _ \<Rightarrow> (Inl (Raise TypeError ''wrong argument type (expected String)''), w, os))"

definition model_close :: "model_wrapper \<Rightarrow> os_state \<Rightarrow> unit ruby \<times> model_wrapper \<times> os_state" where
  "model_close w os =
     (if mw_open w then
        if mw_active_ops w \<noteq> 0 then (Inl (Raise Error ''model is busy with an active operation''), w, os)
        else let (model, os) = se_model_close (mw_model w) os
             in (Inr (), w\<lparr>mw_model := model, mw_open := False\<rparr>, os)
      else (Inr (), w, os))"

text \<open>What the garbage collector calls for an object that nothing refers to.\<close>

definition model_free :: "model_wrapper \<Rightarrow> os_state \<Rightarrow> os_state" where
  "model_free w os = (if mw_open w then snd (se_model_close (mw_model w) os) else os)"

definition model_memsize :: "nat \<Rightarrow> nat \<Rightarrow> model_wrapper option \<Rightarrow> nat" where
  "model_memsize wrapper_size struct_size w =
     (case w of None \<Rightarrow> 0 | Some w \<Rightarrow> wrapper_size + se_model_memsize struct_size (Some (mw_model w)))"

definition get_model :: "model_wrapper \<Rightarrow> model_file ruby" where
  "get_model w = (if \<not> mw_open w then Inl (Raise Error ''model is closed'') else Inr (mw_model w))"

definition model_closed_p :: "model_wrapper \<Rightarrow> bool" where
  "model_closed_p w = (\<not> mw_open w)"

definition model_number :: "(se_meta \<Rightarrow> u32) \<Rightarrow> model_wrapper \<Rightarrow> nat ruby" where
  "model_number f w = bindE (get_model w) (\<lambda>m. Inr (unat (f (md_meta (mf_model m)))))"

definition model_dim :: "model_wrapper \<Rightarrow> nat ruby" where "model_dim = model_number mt_dim"
definition model_vocab_size :: "model_wrapper \<Rightarrow> nat ruby" where "model_vocab_size = model_number mt_vocab_size"
definition model_max_tokens :: "model_wrapper \<Rightarrow> nat ruby" where "model_max_tokens = model_number mt_max_tokens_default"
definition model_unk_id :: "model_wrapper \<Rightarrow> nat ruby" where "model_unk_id = model_number mt_unk_id"

definition model_truncation :: "model_wrapper \<Rightarrow> ruby_value ruby" where
  "model_truncation w = bindE (get_model w) (\<lambda>m. Inr
     (if se_embed_limit_mode (mf_model m) = SE_TOKEN_LIMIT_RAW then QSymbol ''raw_ids'' else QSymbol ''usable_ids''))"

definition model_normalized_p :: "model_wrapper \<Rightarrow> bool ruby" where
  "model_normalized_p w = bindE (get_model w) (\<lambda>m. Inr (mt_normalization_type (md_meta (mf_model m)) = SE_NORMALIZATION_L2))"

definition model_lowercase_p :: "model_wrapper \<Rightarrow> bool ruby" where
  "model_lowercase_p w = bindE (get_model w) (\<lambda>m. Inr (mt_do_lower_case (md_meta (mf_model m)) \<noteq> 0))"

text \<open>An absent section is an empty one.\<close>

definition model_provenance_json :: "model_wrapper \<Rightarrow> u8 list option ruby" where
  "model_provenance_json w = bindE (get_model w) (\<lambda>m. Inr
     (if md_provenance (mf_model m) = [] then None else Some (md_provenance (mf_model m))))"

definition model_mapped_bytes :: "model_wrapper \<Rightarrow> nat ruby" where
  "model_mapped_bytes w = bindE (get_model w) (\<lambda>m. Inr (unat (mf_size m)))"

subsection \<open>Operations that run without the global lock\<close>

definition protected_run_job :: "model_wrapper \<Rightarrow> model_wrapper" where
  "protected_run_job w = w\<lparr>mw_active_ops := mw_active_ops w + 1\<rparr>"

definition run_job_ensure :: "model_wrapper \<Rightarrow> model_wrapper" where
  "run_job_ensure w = w\<lparr>mw_active_ops := mw_active_ops w - 1\<rparr>"

text \<open>
  The warm-up, with the wrapper as the other threads see it while it runs: \<open>others\<close> is what they do meanwhile.  The
  result is the number of pages.
\<close>

definition model_warmup ::
  "int option \<Rightarrow> (model_wrapper \<Rightarrow> model_wrapper) \<Rightarrow> model_wrapper \<Rightarrow> nat ruby \<times> model_wrapper" where
  "model_warmup sys_page others w =
     (case get_model w of
        Inl e \<Rightarrow> (Inl e, w)
      | Inr m \<Rightarrow>
          let pages = se_model_warmup (unat (mf_size m)) sys_page
          in (Inr pages, run_job_ensure (others (protected_run_job w))))"

subsection \<open>Interleavings\<close>

text \<open>
  One Ruby object with the operations that threads run on it.  An operation holds a pointer to the struct of the
  wrapper from the moment it has counted itself in \<^verbatim>\<open>active_ops\<close>; \<open>lf_running\<close> has the contents of the struct at that
  moment.  An operation can only start on an object whose \<^verbatim>\<open>get_model\<close> has once succeeded, but conversions of its
  arguments may have closed the model since.  \<^verbatim>\<open>Model.new\<close> calls \<^verbatim>\<open>initialize\<close> on a new object; calling it again after
  the model has been opened is left out here.

  \<open>os_ok\<close> is what the system promises: no mapping and no buffer is at address 0, and a mapping or a filled buffer shows
  as many bytes as the size of the file.
\<close>

record life_state =
  lf_wrapper :: model_wrapper
  lf_os :: os_state
  lf_opened :: bool
  lf_running :: "model_file list"

definition os_ok :: "os_env \<Rightarrow> bool" where
  "os_ok env \<longleftrightarrow> (\<forall>fd n. oe_map env fd n \<noteq> Some 0 \<and> oe_malloc env n \<noteq> Some 0) \<and>
     (\<forall>fd n. oe_size env fd = Some n \<longrightarrow> 0 < n \<longrightarrow> length (oe_bytes env fd) = nat n)"

inductive life_step :: "life_state \<Rightarrow> life_state \<Rightarrow> bool" where
  initialize: "\<lbrakk>\<not> lf_opened s; os_ok env; model_initialize env path (lf_wrapper s) (lf_os s) = (r, w, os)\<rbrakk>
    \<Longrightarrow> life_step s (s\<lparr>lf_wrapper := w, lf_os := os, lf_opened := mw_open w\<rparr>)"
| enter: "\<lbrakk>lf_opened s; length (lf_running s) + 1 < 2 ^ 32\<rbrakk>
    \<Longrightarrow> life_step s (s\<lparr>lf_wrapper := protected_run_job (lf_wrapper s),
          lf_running := mw_model (lf_wrapper s) # lf_running s\<rparr>)"
| leave: "\<lbrakk>i < length (lf_running s)\<rbrakk>
    \<Longrightarrow> life_step s (s\<lparr>lf_wrapper := run_job_ensure (lf_wrapper s),
          lf_running := take i (lf_running s) @ drop (Suc i) (lf_running s)\<rparr>)"
| close: "\<lbrakk>model_close (lf_wrapper s) (lf_os s) = (r, w, os)\<rbrakk>
    \<Longrightarrow> life_step s (s\<lparr>lf_wrapper := w, lf_os := os\<rparr>)"

definition life_start :: life_state where
  "life_start = \<lparr>lf_wrapper = model_alloc, lf_os = \<lparr>os_fds = [], os_maps = [], os_buffers = []\<rparr>, lf_opened = False, lf_running = []\<rparr>"

inductive life_reachable :: "life_state \<Rightarrow> bool" where
  start: "life_reachable life_start"
| step: "life_reachable s \<Longrightarrow> life_step s s' \<Longrightarrow> life_reachable s'"

definition open_file :: "bool \<Rightarrow> model_wrapper \<Rightarrow> (nat \<times> size_t) list" where
  "open_file mapped w =
     (if mw_open w \<and> mf_mapped (mw_model w) = mapped then [(mf_base (mw_model w), mf_size (mw_model w))] else [])"

definition os_holds :: "model_wrapper \<Rightarrow> os_state \<Rightarrow> bool" where
  "os_holds w os \<longleftrightarrow> os_fds os = [] \<and> os_maps os = open_file True w \<and> os_buffers os = open_file False w"

definition wrapper_ok :: "model_wrapper \<Rightarrow> bool" where
  "wrapper_ok w = (if mw_open w then mf_base (mw_model w) \<noteq> 0 \<and> model_ok (mf_model (mw_model w))
     else mw_model w = zero_file)"

definition life_inv :: "life_state \<Rightarrow> bool" where
  "life_inv s \<longleftrightarrow> wrapper_ok (lf_wrapper s) \<and> os_holds (lf_wrapper s) (lf_os s) \<and>
     unat (mw_active_ops (lf_wrapper s)) = length (lf_running s) \<and> length (lf_running s) < 2 ^ 32 \<and>
     (\<forall>m \<in> set (lf_running s). m = mw_model (lf_wrapper s)) \<and> (mw_open (lf_wrapper s) \<longrightarrow> lf_opened s) \<and>
     (lf_running s \<noteq> [] \<longrightarrow> lf_opened s)"

lemma zero_file_base [simp]: "mf_base zero_file = 0"
  by (simp add: zero_file_def)

lemma map_cases:
  assumes m: "(if oe_windows env then windows_map else posix_map) env path os = (r, os')" and ok: "os_ok env"
  shows "os_fds os' = os_fds os"
    and "r = Inl e \<Longrightarrow> os' = os \<and> e \<noteq> OutOfBounds"
    and "r = Inr model \<Longrightarrow> mf_base model \<noteq> 0 \<and> length (oe_bytes env (oe_open env path)) < 2 ^ 64 \<and>
      os' = (if mf_mapped model then os\<lparr>os_maps := (mf_base model, mf_size model) # os_maps os\<rparr>
             else os\<lparr>os_buffers := (mf_base model, mf_size model) # os_buffers os\<rparr>)"
proof -
  let ?fd = "oe_open env path"
  have len: "oe_size env ?fd = Some n \<Longrightarrow> 0 < n \<Longrightarrow> n \<le> 2 ^ 64 - 1 \<Longrightarrow> length (oe_bytes env ?fd) < 2 ^ 64" for n
    using ok by (auto simp: os_ok_def nat_less_iff)
  have addr: "oe_map env ?fd k \<noteq> Some 0" "oe_map env ?fd k = Some a \<Longrightarrow> a \<noteq> 0" "oe_malloc env k \<noteq> Some 0"
      "oe_malloc env k = Some a \<Longrightarrow> a \<noteq> 0" for k a
    using ok unfolding os_ok_def by (metis neq0_conv)+
  show "os_fds os' = os_fds os" "r = Inl e \<Longrightarrow> os' = os \<and> e \<noteq> OutOfBounds"
    "r = Inr model \<Longrightarrow> mf_base model \<noteq> 0 \<and> length (oe_bytes env (oe_open env path)) < 2 ^ 64 \<and>
      os' = (if mf_mapped model then os\<lparr>os_maps := (mf_base model, mf_size model) # os_maps os\<rparr>
             else os\<lparr>os_buffers := (mf_base model, mf_size model) # os_buffers os\<rparr>)"
    using m len addr
    by (auto simp: windows_map_def windows_view_def posix_map_def io_error_def Let_def os_calls file_mapped_def not_less not_le
        split: if_splits option.splits)
qed

lemma se_model_open_cases:
  assumes "se_model_open env path os = (r, model, os')" and ok: "os_ok env"
  shows "os_fds os' = os_fds os"
    and "r = Inr () \<Longrightarrow> mf_base model \<noteq> 0 \<and> model_ok (mf_model model) \<and>
      os' = (if mf_mapped model then os\<lparr>os_maps := (mf_base model, mf_size model) # os_maps os\<rparr>
             else os\<lparr>os_buffers := (mf_base model, mf_size model) # os_buffers os\<rparr>)"
    and "r \<noteq> Inr () \<Longrightarrow> model = zero_file \<and> os' = os"
    and "r \<noteq> Inl OutOfBounds"
proof -
  obtain q os2 where q: "(if oe_windows env then windows_map else posix_map) env path os = (q, os2)" by (metis surj_pair)
  note c = map_cases [OF q ok]
  have "os_fds os' = os_fds os \<and> (r = Inr () \<longrightarrow> mf_base model \<noteq> 0 \<and> model_ok (mf_model model) \<and>
      os' = (if mf_mapped model then os\<lparr>os_maps := (mf_base model, mf_size model) # os_maps os\<rparr>
             else os\<lparr>os_buffers := (mf_base model, mf_size model) # os_buffers os\<rparr>)) \<and>
      (r \<noteq> Inr () \<longrightarrow> model = zero_file \<and> os' = os) \<and> r \<noteq> Inl OutOfBounds"
  proof (cases q)
    case (Inl e)
    then show ?thesis using assms(1) c(2) q by (auto simp: se_model_open_def)
  next
    case (Inr mf)
    then show ?thesis using assms(1) c(3) [OF Inr] q validate_Inr(1) validate_safe_lemma
      by (auto simp: se_model_open_def se_model_close_def os_calls split: sum.splits if_splits)
  qed
  then show "os_fds os' = os_fds os"
    "r = Inr () \<Longrightarrow> mf_base model \<noteq> 0 \<and> model_ok (mf_model model) \<and>
      os' = (if mf_mapped model then os\<lparr>os_maps := (mf_base model, mf_size model) # os_maps os\<rparr>
             else os\<lparr>os_buffers := (mf_base model, mf_size model) # os_buffers os\<rparr>)"
    "r \<noteq> Inr () \<Longrightarrow> model = zero_file \<and> os' = os" "r \<noteq> Inl OutOfBounds" by simp_all
qed

lemma initialize_wrapper:
  assumes "model_initialize env path w os = (r, w', os')" and "os_ok env" and "\<not> mw_open w" "mw_model w = zero_file"
    and "os_holds w os"
  shows "wrapper_ok w' \<and> os_holds w' os' \<and> mw_active_ops w' = mw_active_ops w \<and>
    r \<noteq> Inl Undefined \<and> (r = Inr () \<longleftrightarrow> mw_open w')"
proof (cases path)
  case (QString name)
  obtain q model os2 where o: "se_model_open env name os = (q, model, os2)" by (metis prod_cases3)
  note c = se_model_open_cases [OF o assms(2)]
  show ?thesis
  proof (cases "CHR 0x00 \<in> set name")
    case True
    then show ?thesis using assms QString by (auto simp: model_initialize_def wrapper_ok_def os_holds_def open_file_def)
  next
    case False
    then have init: "model_initialize env path w os = (case q of
         Inl (SeError status message) \<Rightarrow> (Inl (raise_se status message), w\<lparr>mw_model := model\<rparr>, os2)
       | Inl OutOfBounds \<Rightarrow> (Inl Undefined, w\<lparr>mw_model := model\<rparr>, os2)
       | Inr _ \<Rightarrow> (Inr (), w\<lparr>mw_model := model, mw_open := True, mw_path := Some name\<rparr>, os2))"
      using QString o by (auto simp: model_initialize_def split: sum.split se_fault.split)
    show ?thesis
    proof (cases q)
      case (Inl e)
      then obtain status message where e: "e = SeError status message" using c(4) by (cases e) auto
      have "r = Inl (raise_se status message)" "w' = w\<lparr>mw_model := model\<rparr>" "os' = os2"
        using assms(1) unfolding init Inl e by simp_all
      moreover have "model = zero_file" "os2 = os" using c(3) Inl by simp_all
      ultimately show ?thesis using assms(3,5) c(1) by (simp add: wrapper_ok_def os_holds_def open_file_def raise_se_def)
    next
      case (Inr u)
      then have q: "q = Inr ()" by simp
      have "r = Inr ()" "w' = w\<lparr>mw_model := model, mw_open := True, mw_path := Some name\<rparr>" "os' = os2"
        using assms(1) unfolding init q by simp_all
      then show ?thesis using assms(3,5) c(1) c(2) [OF q] by (simp add: wrapper_ok_def os_holds_def open_file_def)
    qed
  qed
qed (use assms in \<open>auto simp: model_initialize_def wrapper_ok_def os_holds_def open_file_def\<close>)

lemma close_wrapper:
  assumes "model_close w os = (r, w', os')" and "wrapper_ok w" and "os_holds w os"
  shows "wrapper_ok w' \<and> os_holds w' os' \<and> mw_active_ops w' = mw_active_ops w \<and>
    (mw_open w' \<longrightarrow> mw_open w) \<and> (mw_active_ops w \<noteq> 0 \<longrightarrow> w' = w) \<and>
    r = (if mw_open w \<and> mw_active_ops w \<noteq> 0 then Inl (Raise Error ''model is busy with an active operation'') else Inr ())"
  using assms by (auto simp: model_close_def se_model_close_def os_calls wrapper_ok_def os_holds_def open_file_def split: if_splits prod.splits)

lemma ops_shift:
  "unat (x :: u32) = n \<Longrightarrow> n + 1 < 2 ^ 32 \<Longrightarrow> unat (x + 1) = n + 1"
  "unat (x :: u32) = Suc n \<Longrightarrow> unat (x - 1) = n"
proof -
  show "unat (x :: u32) = n \<Longrightarrow> n + 1 < 2 ^ 32 \<Longrightarrow> unat (x + 1) = n + 1"
    by (simp add: unat_word_ariths)
  show "unat (x :: u32) = Suc n \<Longrightarrow> unat (x - 1) = n"
    by (simp add: unat_sub word_le_nat_alt)
qed

lemma life_step_inv: "life_step s s' \<Longrightarrow> life_inv s \<Longrightarrow> life_inv s'"
proof (induction rule: life_step.induct)
  case (initialize s env path r w os)
  then have "\<not> mw_open (lf_wrapper s)" "lf_running s = []" "mw_model (lf_wrapper s) = zero_file" "os_holds (lf_wrapper s) (lf_os s)"
    by (auto simp: life_inv_def wrapper_ok_def os_holds_def open_file_def)
  with initialize initialize_wrapper [OF initialize(3,2)] show ?case by (simp add: life_inv_def)
next
  case (enter s)
  then show ?case
    by (auto simp: life_inv_def protected_run_job_def wrapper_ok_def os_holds_def open_file_def ops_shift)
next
  case (leave i s)
  obtain l where l: "take i (lf_running s) @ drop (Suc i) (lf_running s) = l" by simp
  have n: "length (lf_running s) = Suc (length l)" and sub: "set l \<subseteq> set (lf_running s)"
    using leave(1) unfolding l [symmetric] by (auto dest: in_set_takeD in_set_dropD)
  have "unat (mw_active_ops (lf_wrapper s)) = Suc (length l)" "lf_running s \<noteq> []"
    using leave(2) n unfolding life_inv_def by auto
  with leave(2) n sub show ?case
    unfolding l by (simp add: life_inv_def run_job_ensure_def wrapper_ok_def os_holds_def open_file_def ops_shift(2) subset_eq)
next
  case (close s r w os)
  then have a: "lf_running s \<noteq> [] \<Longrightarrow> mw_active_ops (lf_wrapper s) \<noteq> 0" by (auto simp: life_inv_def)
  then show ?case using close close_wrapper [OF close(1)] by (cases "lf_running s = []") (auto simp: life_inv_def)
qed

lemma life_reachable_inv: "life_reachable s \<Longrightarrow> life_inv s"
proof (induction rule: life_reachable.induct)
  case start
  show ?case by (simp add: life_inv_def life_start_def model_alloc_def wrapper_ok_def os_holds_def open_file_def)
qed (rule life_step_inv)

section \<open>Properties\<close>

text \<open>
  Property C34: the life of a model.  Whatever operations start and end, and whenever the model is closed: a running
  operation finds the struct as it was when it counted itself, and the file it reads is still mapped; no descriptor
  stays open, and the one mapping or buffer is that of the open model, which is a valid one; \<^verbatim>\<open>close\<close> raises exactly while an
  operation runs on an open model; nothing is left when the object is collected; and opening a file is memory
  safe.
\<close>

theorem lifecycle_safe:
  assumes "life_reachable s" and "os_ok env"
  shows "(\<forall>m \<in> set (lf_running s). m = mw_model (lf_wrapper s) \<and>
       (mf_base m = 0 \<or> (mf_base m, mf_size m) \<in>
          set (if mf_mapped m then os_maps (lf_os s) else os_buffers (lf_os s)))) \<and>
    os_fds (lf_os s) = [] \<and> os_maps (lf_os s) = open_file True (lf_wrapper s) \<and>
    os_buffers (lf_os s) = open_file False (lf_wrapper s) \<and>
    (mw_open (lf_wrapper s) \<longrightarrow> model_ok (mf_model (mw_model (lf_wrapper s)))) \<and>
    fst (model_close (lf_wrapper s) (lf_os s)) =
      (if mw_open (lf_wrapper s) \<and> lf_running s \<noteq> [] then Inl (Raise Error ''model is busy with an active operation'')
       else Inr ()) \<and>
    model_free (lf_wrapper s) (lf_os s) = \<lparr>os_fds = [], os_maps = [], os_buffers = []\<rparr> \<and>
    (\<not> lf_opened s \<longrightarrow> fst (model_initialize env path (lf_wrapper s) (lf_os s)) \<noteq> Inl Undefined)"
proof -
  let ?w = "lf_wrapper s" and ?os = "lf_os s"
  have inv: "life_inv s" by (rule life_reachable_inv [OF assms(1)])
  then have i: "wrapper_ok ?w" "os_holds ?w ?os" "unat (mw_active_ops ?w) = length (lf_running s)"
      "\<forall>m \<in> set (lf_running s). m = mw_model ?w" "mw_open ?w \<longrightarrow> lf_opened s"
    by (auto simp: life_inv_def)
  obtain r w os where c: "model_close ?w ?os = (r, w, os)" by (metis prod_cases3)
  have "mw_active_ops ?w \<noteq> 0 \<longleftrightarrow> lf_running s \<noteq> []" using i(3) by (auto simp: unat_eq_0)
  then have "fst (model_close ?w ?os) = (if mw_open ?w \<and> lf_running s \<noteq> []
      then Inl (Raise Error ''model is busy with an active operation'') else Inr ())"
    using close_wrapper [OF c i(1,2)] c by simp
  moreover have "model_free ?w ?os = \<lparr>os_fds = [], os_maps = [], os_buffers = []\<rparr>"
    using i(1,2) by (cases ?os) (auto simp: model_free_def se_model_close_def os_calls wrapper_ok_def os_holds_def open_file_def)
  moreover have "\<not> lf_opened s \<longrightarrow> fst (model_initialize env path ?w ?os) \<noteq> Inl Undefined"
  proof
    obtain q v os2 where q: "model_initialize env path ?w ?os = (q, v, os2)" by (metis prod_cases3)
    assume "\<not> lf_opened s"
    then have "\<not> mw_open ?w" "mw_model ?w = zero_file" "os_holds ?w ?os" using i by (auto simp: wrapper_ok_def)
    from initialize_wrapper [OF q assms(2) this] q show "fst (model_initialize env path ?w ?os) \<noteq> Inl Undefined" by simp
  qed
  moreover have "\<forall>m \<in> set (lf_running s). m = mw_model ?w \<and> (mf_base m = 0 \<or>
      (mf_base m, mf_size m) \<in> set (if mf_mapped m then os_maps ?os else os_buffers ?os))"
    using i(1,2,4) by (auto simp: wrapper_ok_def os_holds_def open_file_def)
  moreover have "mw_open ?w \<longrightarrow> model_ok (mf_model (mw_model ?w))" using i(1) by (simp add: wrapper_ok_def)
  moreover have "os_fds ?os = []" "os_maps ?os = open_file True ?w" "os_buffers ?os = open_file False ?w"
    using i(2) by (simp_all add: os_holds_def)
  ultimately show ?thesis by blast
qed

text \<open>A process that opens the example file, starts an operation and cannot close the model.\<close>

definition example_os_env :: os_env where
  "example_os_env = \<lparr>oe_windows = False, oe_open = (\<lambda>path. if path = ''a.semb'' then 3 else - 1), oe_size = (\<lambda>fd. Some 824),
     oe_mapping = (\<lambda>fd. None), oe_map = (\<lambda>fd n. Some 4096), oe_malloc = (\<lambda>n. None), oe_read = (\<lambda>fd got chunk. None),
     oe_bytes = (\<lambda>fd. example_file), oe_little_endian = True, oe_calloc = True\<rparr>"

lemma example_os_env_ok: "os_ok example_os_env"
  by (simp add: os_ok_def example_os_env_def example_length)

definition example_opened :: model_wrapper where
  "example_opened = \<lparr>mw_model = \<lparr>mf_base = 4096, mf_size = 824, mf_mapped = True, mf_model = example_model\<rparr>,
     mw_open = True, mw_active_ops = 0, mw_path = Some ''a.semb''\<rparr>"

definition example_os :: os_state where
  "example_os = \<lparr>os_fds = [], os_maps = [(4096, 824)], os_buffers = []\<rparr>"

lemma example_initialize:
  "model_initialize example_os_env (QString ''a.semb'') (lf_wrapper life_start) (lf_os life_start) =
     (Inr (), example_opened, example_os)"
  by (simp add: model_initialize_def se_model_open_def posix_map_def io_error_def os_calls file_mapped_def example_os_env_def life_start_def model_alloc_def
      zero_file_def example_validate example_opened_def example_os_def)

definition example_busy :: life_state where
  "example_busy = \<lparr>lf_wrapper = protected_run_job example_opened, lf_os = example_os, lf_opened = True,
     lf_running = [mw_model example_opened]\<rparr>"

lemma example_busy_reachable: "life_reachable example_busy"
proof -
  let ?s = "life_start\<lparr>lf_wrapper := example_opened, lf_os := example_os, lf_opened := mw_open example_opened\<rparr>"
  have "life_reachable ?s"
    by (rule life_reachable.step [OF life_reachable.start life_step.initialize [OF _ example_os_env_ok example_initialize]])
      (simp add: life_start_def)
  moreover have "life_step ?s example_busy"
    using life_step.enter [of ?s] by (simp add: example_busy_def life_start_def example_opened_def)
  ultimately show ?thesis by (rule life_reachable.step)
qed

theorem lifecycle_safe_witness:
  "fst (model_close (lf_wrapper example_busy) (lf_os example_busy)) =
     Inl (Raise Error ''model is busy with an active operation'') \<and>
   os_maps (lf_os example_busy) = [(4096, 824)]"
  using lifecycle_safe [OF example_busy_reachable example_os_env_ok, of QNil]
  by (simp add: example_busy_def example_opened_def example_os_def protected_run_job_def os_holds_def open_file_def)

text \<open>
  Property C35: calling \<^verbatim>\<open>initialize\<close> again on an open model.  Whatever comes of it, the file that was open before stays mapped, or in
  its buffer, for ever: even collecting the object does not give it back.  When the second file cannot be opened, the exception leaves the
  object open with a zeroed struct, and the operations that run have lost the struct they started with.
\<close>

theorem reinitialize_forgets_mapping:
  assumes "life_reachable s" and "mw_open (lf_wrapper s)" and "os_ok env" and "CHR 0x00 \<notin> set name"
    and "model_initialize env (QString name) (lf_wrapper s) (lf_os s) = (r, w, os)"
  shows "(mf_base (mw_model (lf_wrapper s)), mf_size (mw_model (lf_wrapper s))) \<in>
      set (if mf_mapped (mw_model (lf_wrapper s)) then os_maps (model_free w os) else os_buffers (model_free w os)) \<and>
    mw_open w \<and>
    (r \<noteq> Inr () \<longrightarrow> r \<noteq> Inl Undefined \<and> mw_model w = zero_file \<and> model_dim w = Inr 0 \<and>
       (\<forall>m \<in> set (lf_running s). mf_base m \<noteq> 0))"
proof -
  let ?old = "mw_model (lf_wrapper s)"
  have inv: "wrapper_ok (lf_wrapper s)" "os_holds (lf_wrapper s) (lf_os s)" "\<forall>m \<in> set (lf_running s). m = ?old"
    using life_reachable_inv [OF assms(1)] by (simp_all add: life_inv_def)
  have old: "mf_base ?old \<noteq> 0" "os_maps (lf_os s) = (if mf_mapped ?old then [(mf_base ?old, mf_size ?old)] else [])"
    "os_buffers (lf_os s) = (if mf_mapped ?old then [] else [(mf_base ?old, mf_size ?old)])"
    using inv(1,2) assms(2) by (simp_all add: wrapper_ok_def os_holds_def open_file_def)
  obtain q model os2 where o: "se_model_open env name (lf_os s) = (q, model, os2)" by (metis prod_cases3)
  note c = se_model_open_cases [OF o assms(3)]
  show ?thesis
  proof (cases q)
    case (Inl e)
    then obtain status message where e: "e = SeError status message" using c(4) by (cases e) auto
    have "r = Inl (raise_se status message)" "w = (lf_wrapper s)\<lparr>mw_model := zero_file\<rparr>" "os = lf_os s"
      using assms(4,5) o Inl e c(3) by (simp_all add: model_initialize_def)
    then show ?thesis using assms(2) old inv(3)
      by (auto simp: model_free_def se_model_close_def raise_se_def model_dim_def model_number_def get_model_def
          zero_file_def zero_model_def zero_meta_def)
  next
    case (Inr u)
    then have q: "q = Inr ()" by simp
    have "w = (lf_wrapper s)\<lparr>mw_model := model, mw_open := True, mw_path := Some name\<rparr>" "os = os2" "r = Inr ()"
      using assms(4,5) o q by (simp_all add: model_initialize_def)
    then show ?thesis using c(2) [OF q] old
      by (auto simp: model_free_def se_model_close_def os_calls)
  qed
qed

theorem reinitialize_forgets_mapping_witness:
  "case model_initialize example_os_env (QString ''b.semb'') (lf_wrapper example_busy) (lf_os example_busy) of
     (r, w, os) \<Rightarrow> (4096, 824) \<in> set (os_maps (model_free w os))"
proof -
  obtain r w os where i: "model_initialize example_os_env (QString ''b.semb'') (lf_wrapper example_busy) (lf_os example_busy) = (r, w, os)"
    by (metis prod_cases3)
  have "mw_open (lf_wrapper example_busy)" by (simp add: example_busy_def example_opened_def protected_run_job_def)
  from reinitialize_forgets_mapping [OF example_busy_reachable this example_os_env_ok _ i] i show ?thesis
    by (simp add: example_busy_def example_opened_def protected_run_job_def)
qed

end
