(* ===== verification/Calls.thy ===== *)
theory Calls
  imports BatchProps Lifecycle
begin

text \<open>
  The methods of \<^verbatim>\<open>static_embeddings.c\<close> for one text and for token ids: \<^verbatim>\<open>embed\<close> and \<^verbatim>\<open>embed_with_stats\<close>, \<^verbatim>\<open>tokenize\<close>,
  \<^verbatim>\<open>embed_token_ids\<close> with and without counts, and the conversions of half-precision strings.  The conversions of the
  interpreter are parameters that may change the array or the text; they do not close the model, which is the subject of
  theory \<open>Lifecycle\<close>.  The order in which C evaluates the arguments of one call is taken from left to right.
\<close>

subsection \<open>A scratch for one call\<close>

text \<open>
  Acquire, run and release, as the pairs of body and \<^verbatim>\<open>ensure\<close> functions do.  The result is \<open>None\<close> when there is no
  scratch; a status of the body is a fault.
\<close>

definition with_scratch ::
  "se_env \<Rightarrow> thread_state \<Rightarrow> u32 \<Rightarrow> (se_scratch \<Rightarrow> ('a \<times> se_scratch) se_result) \<Rightarrow> 'a option se_result" where
  "with_scratch env th dim body =
     (case se_scratch_acquire env th dim of
        (th, None) \<Rightarrow> Inr None
      | (th, Some p) \<Rightarrow>
          (case scratch_at th p of
             None \<Rightarrow> Inl OutOfBounds
           | Some sc \<Rightarrow>
               (case body sc of
                  Inl OutOfBounds \<Rightarrow> Inl OutOfBounds
                | Inl e \<Rightarrow> bindR (se_scratch_release env (scratch_put th p sc) (Some p)) (\<lambda>_. Inl e)
                | Inr (x, sc) \<Rightarrow> bindR (se_scratch_release env (scratch_put th p sc) (Some p)) (\<lambda>_. Inr (Some x)))))"

lemma acquired_cap:
  "se_scratch_acquire env th dim = (th', Some p) \<Longrightarrow>
     \<exists>sc. scratch_at th' p = Some sc \<and> unat dim \<le> unat (sc_acc_cap sc)"
  using acquire_Some [of env th dim th' p] by (auto simp: scratch_at_def scratch_reserved_def word_le_nat_alt unat_ucast_up)

lemma with_scratch_result:
  "with_scratch env th dim body = Inr None \<or>
   (\<exists>sc. unat dim \<le> unat (sc_acc_cap sc) \<and>
      with_scratch env th dim body = (case body sc of Inl e \<Rightarrow> Inl e | Inr (x, _) \<Rightarrow> Inr (Some x)))"
proof (cases "se_scratch_acquire env th dim")
  case (Pair th' p)
  show ?thesis
  proof (cases p)
    case None
    then show ?thesis using Pair by (simp add: with_scratch_def)
  next
    case (Some q)
    then obtain sc where sc: "scratch_at th' q = Some sc" "unat dim \<le> unat (sc_acc_cap sc)"
      using acquired_cap Pair by blast
    have "\<exists>th2. se_scratch_release env (scratch_put th' q sc') (Some q) = Inr th2" for sc'
      by (rule release_put [OF sc(1)])
    then have "with_scratch env th dim body = (case body sc of Inl e \<Rightarrow> Inl e | Inr (x, _) \<Rightarrow> Inr (Some x))"
      using Pair Some sc(1) by (auto simp: with_scratch_def split: sum.split se_fault.split) (metis bindR_Inr)+
    then show ?thesis using sc(2) by blast
  qed
qed

subsection \<open>Token ids\<close>

text \<open>
  The surroundings of a call that embeds ids: the conversion of an element, which may change the array, the
  allocations, the thread and its scratch, the reads of the cancel flag while the ids are pooled and the flag
  afterwards, and what the interrupt check and the creation of the string raise.
\<close>

record ids_env =
  ie_sse :: bool
  ie_num2ull :: "ruby_value \<Rightarrow> (ruby_value list, nat) ruby_call"
  ie_num2long :: "ruby_value \<Rightarrow> (ruby_value list, int) ruby_call"
  ie_malloc :: "size_t \<Rightarrow> bool"
  ie_calloc :: "size_t \<Rightarrow> bool"
  ie_thread :: thread_state
  ie_acquire :: se_env
  ie_cancelled :: "nat \<Rightarrow> bool"
  ie_requested :: bool
  ie_check_ints :: "unit ruby"
  ie_string :: "unit ruby"

definition SE_IDS_GVL_UNLOCK_THRESHOLD :: nat where "SE_IDS_GVL_UNLOCK_THRESHOLD = 256"

definition rb_ary_entry :: "ruby_value list \<Rightarrow> nat \<Rightarrow> ruby_value" where
  "rb_ary_entry arr i = (if i < length arr then arr ! i else QNil)"

definition num2ull_at_value :: "ids_env \<Rightarrow> nat \<Rightarrow> (ruby_value list, nat) ruby_call" where
  "num2ull_at_value E i arr = ie_num2ull E (rb_ary_entry arr i) arr"

abbreviation id_out_of_range :: ruby_fault where
  "id_out_of_range \<equiv> Raise ArgumentError ''token id at index %zu is out of range''"

text \<open>The scan for the cutoff; the result is \<open>None\<close> when it reaches the end of the array.\<close>

fun usable_cut ::
  "ids_env \<Rightarrow> se_model \<Rightarrow> nat \<Rightarrow> nat list \<Rightarrow> nat \<Rightarrow> nat \<Rightarrow> (ruby_value list, nat option) ruby_call" where
  "usable_cut E m max_tokens [] usable cutoff = pureC (Inr None)"
| "usable_cut E m max_tokens (i # is) usable cutoff =
     bindC (num2ull_at_value E i) (\<lambda>value.
       if value \<ge> unat (mt_vocab_size (md_meta m)) then pureC (Inl id_out_of_range)
       else if word_of_nat value = mt_unk_id (md_meta m) then usable_cut E m max_tokens is usable cutoff
       else if usable + 1 = max_tokens then usable_cut E m max_tokens is (usable + 1) (i + 1)
       else if usable + 1 > max_tokens then pureC (Inr (Some cutoff))
       else usable_cut E m max_tokens is (usable + 1) cutoff)"

text \<open>The number of ids to embed, and whether that is fewer than there are.\<close>

definition cut_token_ids :: "ids_env \<Rightarrow> se_model \<Rightarrow> u32 \<Rightarrow> nat \<Rightarrow> (ruby_value list, nat \<times> bool) ruby_call" where
  "cut_token_ids E m max_tokens n =
     (if max_tokens \<noteq> 0 \<and> mt_unk_policy (md_meta m) = SE_UNK_DROP \<and> se_embed_limit_mode m = SE_TOKEN_LIMIT_USABLE
      then bindC (usable_cut E m (unat max_tokens) [0..<n] 0 n) (\<lambda>cut.
             pureC (Inr (case cut of None \<Rightarrow> (n, False) | Some k \<Rightarrow> (k, True))))
      else if max_tokens \<noteq> 0 \<and> n > unat max_tokens then pureC (Inr (unat max_tokens, True))
      else pureC (Inr (n, False)))"

fun convert_ids :: "ids_env \<Rightarrow> se_model \<Rightarrow> nat list \<Rightarrow> (ruby_value list, u32 list) ruby_call" where
  "convert_ids E m [] = pureC (Inr [])"
| "convert_ids E m (i # is) =
     bindC (num2ull_at_value E i) (\<lambda>value.
       if value \<ge> unat (mt_vocab_size (md_meta m)) then pureC (Inl id_out_of_range)
       else bindC (convert_ids E m is) (\<lambda>ids. pureC (Inr (word_of_nat value # ids))))"

definition ids_execute :: "ids_env \<Rightarrow> se_model \<Rightarrow> u32 list \<Rightarrow> u32 list \<Rightarrow> (u32 list \<times> se_token_stats) se_result" where
  "ids_execute E m ids out =
     bindR (with_scratch (ie_acquire E) (ie_thread E) (mt_dim (md_meta m))
              (\<lambda>sc. bindR (se_embed_ids (ie_sse E) m sc (ie_cancelled E) ids out) (\<lambda>r. Inr (r, sc)))) (\<lambda>r.
       case r of None \<Rightarrow> Inl scratch_oom | Some r \<Rightarrow> Inr r)"

definition ids_job :: "ids_env \<Rightarrow> se_model \<Rightarrow> u32 list \<Rightarrow> u32 list \<Rightarrow> (u32 list \<times> se_token_stats) ruby" where
  "ids_job E m ids out =
     (case ids_execute E m ids out of
        Inl OutOfBounds \<Rightarrow> Inl Undefined
      | r \<Rightarrow> bindE (ie_check_ints E) (\<lambda>_.
          if length ids \<ge> SE_IDS_GVL_UNLOCK_THRESHOLD \<and> ie_requested E then Inl (Raise Interrupt ''operation cancelled'')
          else of_se r))"

definition embed_token_ids_body ::
  "ids_env \<Rightarrow> se_model \<Rightarrow> nat \<Rightarrow> bool \<Rightarrow> se_vector_format \<Rightarrow> (ruby_value list, u8 list \<times> se_token_stats) ruby_call" where
  "embed_token_ids_body E m n truncated format =
     bindC (convert_ids E m [0..<n]) (\<lambda>ids. pureC
       (let dim = ucast (mt_dim (md_meta m)) :: size_t in
        case se_alloc_bytes dim 4 of
          None \<Rightarrow> Inl output_too_large
        | Some out_bytes \<Rightarrow>
            if \<not> ie_calloc E out_bytes then Inl (Raise NoMemoryError ''out of memory'')
            else bindE (ids_job E m ids (replicate (unat (mt_dim (md_meta m))) 0)) (\<lambda>(out, stats).
                 bindE (binary_string_from_floats (ie_string E) out dim format) (\<lambda>bytes.
                   Inr (bytes, if truncated then stats\<lparr>st_truncated := True\<rparr> else stats)))))"

definition embed_token_ids_value ::
  "ids_env \<Rightarrow> se_model option \<Rightarrow> bool \<Rightarrow> ruby_value \<Rightarrow> se_vector_format \<Rightarrow>
   (ruby_value list, u8 list \<times> se_token_stats) ruby_call" where
  "embed_token_ids_value E model is_array max_tokens_opt format =
     (case model of
        None \<Rightarrow> pureC (Inl (Raise Error ''model is closed''))
      | Some m \<Rightarrow>
          if \<not> is_array then pureC (Inl (Raise TypeError ''wrong argument type (expected Array)''))
          else bindC (resolve_max_tokens (ie_num2ull E) m max_tokens_opt) (\<lambda>max_tokens arr.
               bindC (cut_token_ids E m max_tokens (length arr)) (\<lambda>(n, truncated).
                 case se_alloc_bytes (word_of_nat n) 4 of
                   None \<Rightarrow> pureC (Inl (Raise ArgumentError ''token id array is too large''))
                 | Some ids_bytes \<Rightarrow>
                     (case se_checked_mul_size (ucast (mt_dim (md_meta m))) (se_vector_format_element_bytes format) of
                        None \<Rightarrow> pureC (Inl output_too_large)
                      | Some out_bytes \<Rightarrow>
                          if \<not> se_size_fits_long out_bytes then pureC (Inl output_too_large)
                          else if \<not> ie_malloc E ids_bytes then pureC (Inl (Raise NoMemoryError ''out of memory''))
                          else embed_token_ids_body E m n truncated format)) arr))"

definition model_embed_token_ids ::
  "ids_env \<Rightarrow> se_model option \<Rightarrow> bool \<Rightarrow> ruby_value \<Rightarrow> (ruby_value list, u8 list) ruby_call" where
  "model_embed_token_ids E model is_array opts =
     bindC (pureC (check_keywords opts [''max_tokens'', ''format'', ''threads''])) (\<lambda>_.
     bindC (reject_parallel_threads (ie_num2long E) opts) (\<lambda>_.
     bindC (pureC (resolve_vector_format (lookup_option opts ''format''))) (\<lambda>format.
     bindC (embed_token_ids_value E model is_array (lookup_option opts ''max_tokens'') format) (\<lambda>(bytes, stats).
       pureC (Inr bytes)))))"

text \<open>The hash of the calls that return counts.\<close>

record embedding_hash =
  eh_vector :: "u8 list"
  eh_token_count :: u32
  eh_unk_count :: u32
  eh_pooled_count :: u32
  eh_truncated :: bool

definition stats_hash :: "se_model \<Rightarrow> u8 list \<Rightarrow> se_token_stats \<Rightarrow> embedding_hash" where
  "stats_hash m bytes stats =
     \<lparr>eh_vector = bytes, eh_token_count = st_token_count stats, eh_unk_count = st_unk_count stats,
       eh_pooled_count = (if mt_unk_policy (md_meta m) = SE_UNK_DROP then st_token_count stats - st_unk_count stats
                          else st_token_count stats),
       eh_truncated = st_truncated stats\<rparr>"

definition model_embed_token_ids_with_stats ::
  "ids_env \<Rightarrow> se_model option \<Rightarrow> bool \<Rightarrow> ruby_value \<Rightarrow> (ruby_value list, embedding_hash) ruby_call" where
  "model_embed_token_ids_with_stats E model is_array opts =
     bindC (pureC (check_keywords opts [''max_tokens'', ''format'', ''threads''])) (\<lambda>_.
     bindC (reject_parallel_threads (ie_num2long E) opts) (\<lambda>_.
     bindC (pureC (resolve_vector_format (lookup_option opts ''format''))) (\<lambda>format.
     bindC (embed_token_ids_value E model is_array (lookup_option opts ''max_tokens'') format) (\<lambda>(bytes, stats).
       case model of
         None \<Rightarrow> pureC (Inl (Raise Error ''model is closed''))
       | Some m \<Rightarrow> pureC (Inr (stats_hash m bytes stats))))))"

subsection \<open>The ids that are embedded\<close>

text \<open>The ids that the token limit leaves, as for a text.\<close>

definition limited :: "se_model \<Rightarrow> u32 \<Rightarrow> u32 list \<Rightarrow> u32 list" where
  "limited m max_tokens ids =
     (if over_limit (text_cfg m max_tokens) ids then limit_ids (text_cfg m max_tokens) ids else ids)"

lemma text_cfg_sels:
  "drops_unk (text_cfg m k) = (se_embed_limit_mode m = SE_TOKEN_LIMIT_USABLE \<and> mt_unk_policy (md_meta m) = SE_UNK_DROP)"
  "unk_of (text_cfg m k) = mt_unk_id (md_meta m)" "tc_max_tokens (text_cfg m k) = k"
  by (simp_all add: text_cfg_def embed_cfg_def drops_unk_def unk_of_def)

lemma take_usable_at:
  "length (filter (\<lambda>t. t \<noteq> unk) xs) + 1 = k \<Longrightarrow> t \<noteq> unk \<Longrightarrow> take_usable unk k (xs @ t # ys) = xs @ [t]"
proof (induction xs arbitrary: k)
  case Nil
  then show ?case by (cases ys) auto
next
  case (Cons x xs)
  then show ?case by (cases k) (auto split: if_splits)
qed

text \<open>An array of numbers: its conversions give \<open>vals\<close> and leave it alone.\<close>

definition holds_numbers :: "ids_env \<Rightarrow> ruby_value list \<Rightarrow> nat list \<Rightarrow> bool" where
  "holds_numbers E arr vals \<longleftrightarrow>
     length vals = length arr \<and> (\<forall>i < length arr. ie_num2ull E (arr ! i) arr = (Inr (vals ! i), arr))"

lemma holds_numbersD:
  "holds_numbers E arr vals \<Longrightarrow> i < length vals \<Longrightarrow> num2ull_at_value E i arr = (Inr (vals ! i), arr)"
  by (simp add: holds_numbers_def num2ull_at_value_def rb_ary_entry_def)

lemma convert_ids_result:
  assumes "holds_numbers E arr vals" and "\<forall>i \<in> set is. i < length vals"
  shows "convert_ids E m is arr =
    (if \<forall>i \<in> set is. vals ! i < unat (mt_vocab_size (md_meta m)) then Inr (map (\<lambda>i. word_of_nat (vals ! i)) is)
     else Inl id_out_of_range, arr)"
  using assms(2) by (induction "is") (auto simp: bindC_def pureC_def holds_numbersD [OF assms(1)] split: if_splits)

abbreviation usable_in :: "se_model \<Rightarrow> u32 list \<Rightarrow> nat" where
  "usable_in m ids \<equiv> length (filter (\<lambda>t. t \<noteq> mt_unk_id (md_meta m)) ids)"

lemma usable_in_le: "usable_in m (take i ids) \<le> usable_in m ids"
  using append_take_drop_id [of i ids] by (metis filter_append le_add1 length_append)

lemma usable_cut_result:
  assumes arr: "holds_numbers E arr vals" and k: "0 < k"
    and ids: "ids = map word_of_nat vals"
    and i: "i \<le> length vals" "usable_in m (take i ids) = u" "u \<le> k" "\<forall>j < i. vals ! j < unat (mt_vocab_size (md_meta m))"
    and cut: "u = k \<Longrightarrow> cutoff \<le> length vals \<and> take cutoff ids = take_usable (mt_unk_id (md_meta m)) k ids"
  shows "\<exists>r. usable_cut E m k [i..<length vals] u cutoff arr = (r, arr) \<and>
    (case r of
       Inl e \<Rightarrow> e = id_out_of_range \<and> (\<exists>x \<in> set vals. unat (mt_vocab_size (md_meta m)) \<le> x)
     | Inr None \<Rightarrow> usable_in m ids \<le> k
     | Inr (Some n) \<Rightarrow> k < usable_in m ids \<and> n \<le> length vals \<and> take n ids = take_usable (mt_unk_id (md_meta m)) k ids)"
  using i cut
proof (induction "length vals - i" arbitrary: i u cutoff)
  case 0
  then have tk: "take i ids = ids" and list: "[i..<length vals] = []" using ids by simp_all
  show ?case using "0.prems"(2,3) unfolding tk list by (simp add: pureC_def)
next
  case (Suc d)
  let ?V = "unat (mt_vocab_size (md_meta m))" and ?unk = "mt_unk_id (md_meta m)"
  let ?t = "word_of_nat (vals ! i) :: u32"
  have i: "i < length vals" using Suc.hyps(2) by simp
  then have list: "[i..<length vals] = i # [Suc i..<length vals]" by (simp add: upt_conv_Cons)
  have conv: "num2ull_at_value E i arr = (Inr (vals ! i), arr)" by (rule holds_numbersD [OF arr i])
  have tk: "take (Suc i) ids = take i ids @ [?t]" using i ids by (simp add: take_Suc_conv_app_nth)
  have d: "d = length vals - Suc i" using Suc.hyps(2) by simp
  show ?case
  proof (cases "?V \<le> vals ! i")
    case True
    then show ?thesis using conv i unfolding list by (auto simp: bindC_def pureC_def)
  next
    case valid: False
    then have all: "\<forall>j < Suc i. vals ! j < ?V" using Suc.prems(4) by (auto simp: less_Suc_eq)
    show ?thesis
    proof (cases "?t = ?unk")
      case True
      have "usable_in m (take (Suc i) ids) = u" using tk True Suc.prems(2) by simp
      from Suc.hyps(1) [OF d _ this Suc.prems(3) all Suc.prems(5)] show ?thesis
        using conv valid True i unfolding list by (simp add: bindC_def)
    next
      case t: False
      have u: "usable_in m (take (Suc i) ids) = u + 1" using tk t Suc.prems(2) by simp
      show ?thesis
      proof (cases "u = k")
        case True
        have "k < usable_in m ids" using u usable_in_le [of m "Suc i" ids] True by simp
        then show ?thesis using conv valid t True k Suc.prems(5) unfolding list by (simp add: bindC_def pureC_def)
      next
        case False
        then have le: "u + 1 \<le> k" using Suc.prems(3) by simp
        have "take (Suc i) ids = take_usable ?unk k ids" if "u + 1 = k"
        proof -
          have "ids = take i ids @ ?t # drop (Suc i) ids" using i ids id_take_nth_drop [of i ids] by simp
          then show ?thesis using take_usable_at [of ?unk "take i ids" k ?t "drop (Suc i) ids"] Suc.prems(2) that t tk by simp
        qed
        then have cut: "u + 1 = k \<Longrightarrow> Suc i \<le> length vals \<and> take (Suc i) ids = take_usable ?unk k ids" using i by simp
        show ?thesis
        proof (cases "u + 1 = k")
          case True
          from Suc.hyps(1) [OF d _ u le all cut] show ?thesis
            using conv valid t True i unfolding list by (simp add: bindC_def)
        next
          case n: False
          from Suc.hyps(1) [OF d _ u le all, of cutoff] show ?thesis
            using conv valid t n i le unfolding list by (simp add: bindC_def)
        qed
      qed
    qed
  qed
qed

lemma cut_token_ids_result:
  assumes arr: "holds_numbers E arr vals" and ids: "ids = map word_of_nat vals"
  shows "\<exists>r. cut_token_ids E m k (length arr) arr = (r, arr) \<and>
    (case r of
       Inl e \<Rightarrow> e = id_out_of_range \<and> (\<exists>x \<in> set vals. unat (mt_vocab_size (md_meta m)) \<le> x)
     | Inr (n, truncated) \<Rightarrow> n \<le> length vals \<and> take n ids = limited m k ids \<and> truncated = over_limit (text_cfg m k) ids)"
proof -
  have len: "length arr = length vals" using arr by (simp add: holds_numbers_def)
  let ?drops = "mt_unk_policy (md_meta m) = SE_UNK_DROP \<and> se_embed_limit_mode m = SE_TOKEN_LIMIT_USABLE"
  show ?thesis
  proof (cases "k \<noteq> 0 \<and> ?drops")
    case True
    then have pos: "0 < unat k" by (simp add: unat_gt_0)
    obtain r where r: "usable_cut E m (unat k) [0..<length vals] 0 (length vals) arr = (r, arr)"
      and c: "case r of
       Inl e \<Rightarrow> e = id_out_of_range \<and> (\<exists>x \<in> set vals. unat (mt_vocab_size (md_meta m)) \<le> x)
     | Inr None \<Rightarrow> usable_in m ids \<le> unat k
     | Inr (Some n) \<Rightarrow> unat k < usable_in m ids \<and> n \<le> length vals \<and> take n ids = take_usable (mt_unk_id (md_meta m)) (unat k) ids"
      using usable_cut_result [OF arr pos ids, where i = 0 and u = 0 and cutoff = "length vals" and m = m] pos by auto
    have "limited m k ids = (if unat k < usable_in m ids then take_usable (mt_unk_id (md_meta m)) (unat k) ids else ids)"
      "over_limit (text_cfg m k) ids = (unat k < usable_in m ids)"
      using True by (simp_all add: limited_def over_limit_def counted_def limit_ids_def text_cfg_sels)
    then show ?thesis using True r c ids
      by (auto simp: cut_token_ids_def len bindC_def pureC_def split: sum.splits option.splits)
  next
    case False
    have "limited m k ids = (if k \<noteq> 0 \<and> unat k < length ids then take (unat k) ids else ids)"
      "over_limit (text_cfg m k) ids = (k \<noteq> 0 \<and> unat k < length ids)"
      using False by (auto simp: limited_def over_limit_def counted_def limit_ids_def text_cfg_sels)
    then show ?thesis using False ids len by (auto simp: cut_token_ids_def pureC_def)
  qed
qed

definition ids_fault :: "ids_env \<Rightarrow> se_model \<Rightarrow> u32 list \<Rightarrow> se_fault \<Rightarrow> bool" where
  "ids_fault E m ids e \<longleftrightarrow> e = scratch_oom \<or>
     e = SeError SE_ERR_OOM ''too many token ids'' \<and> 2 ^ 32 \<le> length ids \<or>
     e = SeError SE_ERR_INTERNAL ''operation cancelled'' \<and> (\<exists>k. ie_cancelled E k) \<or>
     empty_fault m e \<and> kept m ids = []"

definition ids_embedded :: "se_model \<Rightarrow> u32 list \<Rightarrow> u32 list \<Rightarrow> se_token_stats \<Rightarrow> bool" where
  "ids_embedded m ids v stats \<longleftrightarrow> length v = unat (mt_dim (md_meta m)) \<and> known_ids m ids \<and> embeds m ids (Inr v) \<and>
     unat (st_token_count stats) = length ids \<and>
     unat (st_unk_count stats) = length (filter (\<lambda>t. t = mt_unk_id (md_meta m)) ids)"

lemma embed_ids_result:
  assumes "model_ok m" and "unat (mt_dim (md_meta m)) \<le> unat (sc_acc_cap sc)" and "length out = unat (mt_dim (md_meta m))"
    and known: "known_ids m ids"
  shows "case se_embed_ids sse m sc (ie_cancelled E) ids out of
     Inl e \<Rightarrow> ids_fault E m ids e
   | Inr (v, stats) \<Rightarrow> ids_embedded m ids v stats \<and> \<not> st_truncated stats"
proof (cases "length ids > 0xFFFFFFFF")
  case True
  then show ?thesis by (simp add: se_embed_ids_def ids_fault_def)
next
  case False
  then have n: "length ids < 2 ^ 32" by simp
  note c = core_result [OF assms(1-3), where sse = sse and cancelled = "ie_cancelled E" and polls = 0 and ts = ids]
  show ?thesis
    using c embeds_known [OF _ known, of "embed_ids_core sse m sc (ie_cancelled E) 0 ids out"] n
    by (cases "embed_ids_core sse m sc (ie_cancelled E) 0 ids out")
      (auto simp: se_embed_ids_def ids_fault_def ids_embedded_def empty_fault_def count_unk_eq unat_of_nat take_bit_nat_eq_self known)
qed

lemma ids_execute_result:
  assumes "model_ok m" and "length out = unat (mt_dim (md_meta m))" and "known_ids m ids"
  shows "case ids_execute E m ids out of
     Inl e \<Rightarrow> ids_fault E m ids e
   | Inr (v, stats) \<Rightarrow> ids_embedded m ids v stats \<and> \<not> st_truncated stats"
proof -
  let ?body = "\<lambda>sc. bindR (se_embed_ids (ie_sse E) m sc (ie_cancelled E) ids out) (\<lambda>r. Inr (r, sc))"
  consider "with_scratch (ie_acquire E) (ie_thread E) (mt_dim (md_meta m)) ?body = Inr None"
    | sc where "unat (mt_dim (md_meta m)) \<le> unat (sc_acc_cap sc)"
      "with_scratch (ie_acquire E) (ie_thread E) (mt_dim (md_meta m)) ?body = (case ?body sc of Inl e \<Rightarrow> Inl e | Inr (x, _) \<Rightarrow> Inr (Some x))"
    using with_scratch_result by blast
  then show ?thesis
  proof cases
    case 1
    then show ?thesis by (simp add: ids_execute_def ids_fault_def)
  next
    case 2
    then show ?thesis using embed_ids_result [OF assms(1) 2(1) assms(2,3), where sse = "ie_sse E" and E = E]
      by (cases "se_embed_ids (ie_sse E) m sc (ie_cancelled E) ids out") (simp_all add: ids_execute_def)
  qed
qed

lemma ids_fault_defined: "ids_fault E m ids e \<Longrightarrow> e \<noteq> OutOfBounds"
  by (auto simp: ids_fault_def empty_fault_def)

text \<open>What may be raised when all elements are ids of the vocabulary.\<close>

definition ids_blame :: "ids_env \<Rightarrow> se_model \<Rightarrow> u32 list \<Rightarrow> ruby_fault \<Rightarrow> bool" where
  "ids_blame E m ids e \<longleftrightarrow>
     e \<in> {Raise ArgumentError ''token id array is too large'', output_too_large, Raise NoMemoryError ''out of memory''} \<or>
     ie_check_ints E = Inl e \<or> ie_string E = Inl e \<or> e = Raise Interrupt ''operation cancelled'' \<and> ie_requested E \<or>
     (\<exists>err. ids_fault E m ids err \<and> Inl e = of_se (Inl err :: unit se_result))"

lemma ids_job_result:
  assumes "model_ok m" and "length out = unat (mt_dim (md_meta m))" and "known_ids m ids" and "ie_check_ints E \<noteq> Inl Undefined"
  shows "case ids_job E m ids out of
     Inl e \<Rightarrow> e \<noteq> Undefined \<and> ids_blame E m ids e
   | Inr (v, stats) \<Rightarrow> ids_embedded m ids v stats \<and> \<not> st_truncated stats"
proof (cases "ids_execute E m ids out")
  case (Inl e)
  then have f: "ids_fault E m ids e" using ids_execute_result [OF assms(1-3), where E = E] by simp
  then obtain status message where e: "e = SeError status message" using ids_fault_defined by (cases e) auto
  have blame: "ids_blame E m ids (raise_se status message)" using f e by (auto simp: ids_blame_def of_se_def)
  show ?thesis
  proof (cases "ie_check_ints E")
    case (Inl e')
    then show ?thesis using assms(4) \<open>ids_execute E m ids out = Inl e\<close> e by (auto simp: ids_job_def ids_blame_def)
  next
    case (Inr u)
    then show ?thesis using blame \<open>ids_execute E m ids out = Inl e\<close> e
      by (simp add: ids_job_def of_se_def raise_se_def) (auto simp: ids_blame_def)
  qed
next
  case (Inr p)
  then show ?thesis using ids_execute_result [OF assms(1-3), where E = E] assms(4)
    by (cases p; cases "ie_check_ints E") (auto simp: ids_job_def ids_blame_def)
qed

lemma embed_token_ids_body_result:
  assumes ok: "model_ok m" and arr: "holds_numbers E arr vals" and n: "n \<le> length vals"
    and ids: "ids = map word_of_nat (take n vals)"
    and u: "ie_check_ints E \<noteq> Inl Undefined" "ie_string E \<noteq> Inl Undefined"
  shows "\<exists>r. embed_token_ids_body E m n truncated format arr = (r, arr) \<and>
    (case r of
       Inl e \<Rightarrow> e \<noteq> Undefined \<and>
         (e = id_out_of_range \<and> (\<exists>x \<in> set vals. unat (mt_vocab_size (md_meta m)) \<le> x) \<or> ids_blame E m ids e)
     | Inr (bytes, stats) \<Rightarrow> \<exists>v. ids_embedded m ids v stats \<and> holds_floats format v bytes \<and> st_truncated stats = truncated)"
proof -
  let ?V = "unat (mt_vocab_size (md_meta m))" and ?d = "unat (mt_dim (md_meta m))"
  have conv: "convert_ids E m [0..<n] arr =
      (if \<forall>i < n. vals ! i < ?V then Inr ids else Inl id_out_of_range, arr)"
  proof -
    have "map (\<lambda>i. word_of_nat (vals ! i)) [0..<n] = ids" using n ids by (auto intro!: nth_equalityI)
    then show ?thesis using convert_ids_result [OF arr, of "[0..<n]" m] n by auto
  qed
  show ?thesis
  proof (cases "\<forall>i < n. vals ! i < ?V")
    case False
    then have "\<exists>x \<in> set vals. ?V \<le> x" using n by (metis le_trans linorder_not_less nth_mem not_le)
    then show ?thesis using conv False by (simp add: embed_token_ids_body_def bindC_def)
  next
    case True
    have known: "known_ids m ids"
      using True n unfolding ids known_ids_def list_all_length
      by (auto simp: word_less_nat_alt unat_of_nat intro: le_less_trans [OF mod_less_eq_dividend])
    have job: "case ids_job E m ids (replicate ?d 0) of
       Inl e \<Rightarrow> e \<noteq> Undefined \<and> ids_blame E m ids e
     | Inr (v, stats) \<Rightarrow> ids_embedded m ids v stats \<and> \<not> st_truncated stats"
      using ids_job_result [OF ok _ known u(1)] by simp
    note str = binary_string_result [where created = "ie_string E" and format = format and n = "ucast (mt_dim (md_meta m))"]
    show ?thesis
    proof (cases "se_alloc_bytes (ucast (mt_dim (md_meta m))) 4")
      case None
      then show ?thesis using conv True by (simp add: embed_token_ids_body_def bindC_def pureC_def ids_blame_def)
    next
      case (Some b)
      show ?thesis
      proof (cases "ids_job E m ids (replicate ?d 0)")
        case (Inl e)
        then show ?thesis using conv True Some job
          by (simp add: embed_token_ids_body_def bindC_def pureC_def) (simp add: ids_blame_def)
      next
        case (Inr p)
        obtain v stats where p: "p = (v, stats)" by (cases p)
        have v: "ids_embedded m ids v stats" "\<not> st_truncated stats" using job Inr p by simp_all
        have "case binary_string_from_floats (ie_string E) v (ucast (mt_dim (md_meta m))) format of
            Inl e \<Rightarrow> e = output_too_large \<or> ie_string E = Inl e
          | Inr bytes \<Rightarrow> holds_floats format v bytes"
          by (rule str [OF _ u(2)]) (use v(1) in \<open>simp add: ids_embedded_def unat_ucast_up\<close>)
        then show ?thesis using conv True Some Inr p v u(2)
          by (cases "binary_string_from_floats (ie_string E) v (ucast (mt_dim (md_meta m))) format")
            (auto simp: embed_token_ids_body_def bindC_def pureC_def ids_blame_def ids_embedded_def)
      qed
    qed
  qed
qed

lemma embed_token_ids_result:
  assumes ok: "model_ok m" and arr: "holds_numbers E arr vals" and ids: "ids = map word_of_nat vals"
    and u: "ie_check_ints E \<noteq> Inl Undefined" "ie_string E \<noteq> Inl Undefined"
    and k: "resolve_max_tokens (ie_num2ull E) m max_tokens_opt arr0 = (Inr k, arr)"
  shows "\<exists>r. embed_token_ids_value E (Some m) True max_tokens_opt format arr0 = (r, arr) \<and>
    (case r of
       Inl e \<Rightarrow> e \<noteq> Undefined \<and>
         (e = id_out_of_range \<and> (\<exists>x \<in> set vals. unat (mt_vocab_size (md_meta m)) \<le> x) \<or> ids_blame E m (limited m k ids) e)
     | Inr (bytes, stats) \<Rightarrow> \<exists>v. ids_embedded m (limited m k ids) v stats \<and> holds_floats format v bytes \<and>
         st_truncated stats = over_limit (text_cfg m k) ids)"
proof -
  obtain c where c: "cut_token_ids E m k (length arr) arr = (c, arr)"
    "case c of
       Inl e \<Rightarrow> e = id_out_of_range \<and> (\<exists>x \<in> set vals. unat (mt_vocab_size (md_meta m)) \<le> x)
     | Inr (n, truncated) \<Rightarrow> n \<le> length vals \<and> take n ids = limited m k ids \<and> truncated = over_limit (text_cfg m k) ids"
    using cut_token_ids_result [OF arr ids, of m k] by blast
  show ?thesis
  proof (cases c)
    case (Inl e)
    then show ?thesis using c k by (simp add: embed_token_ids_value_def bindC_def)
  next
    case (Inr p)
    obtain n t where p: "p = (n, t)" by (cases p)
    have n: "n \<le> length vals" "map word_of_nat (take n vals) = limited m k ids" "t = over_limit (text_cfg m k) ids"
      using c(2) Inr p ids by (simp_all add: take_map)
    show ?thesis
      using embed_token_ids_body_result [OF ok arr n(1) n(2) [symmetric] u, of t format] c(1) k Inr p n(3)
      by (auto simp: embed_token_ids_value_def bindC_def pureC_def ids_blame_def split: option.splits)
  qed
qed

text \<open>Embedding the ids of the whole text is embedding the text.\<close>

lemma text_ids_limited:
  assumes "text_ids m 0 s = Inr (ids, t)"
  shows "text_ids m k s = Inr (limited m k ids, over_limit (text_cfg m k) ids)"
proof -
  have cfg: "(text_cfg m k)\<lparr>tc_max_tokens := 0\<rparr> = text_cfg m 0" by (simp add: text_cfg_def embed_cfg_def)
  show ?thesis
    using spec_limit(1) [of "text_cfg m k" s ids t] assms by (simp add: text_ids_def cfg limited_def)
qed

lemma ids_embedded_text:
  assumes "text_ids m 0 s = Inr (ids, t)" and "ids_embedded m (limited m k ids) v stats"
    and "st_truncated stats = over_limit (text_cfg m k) ids"
  shows "text_embedded m k s v stats"
  using assms text_ids_limited [OF assms(1), of k] by (simp add: text_embedded_def ids_embedded_def)

subsection \<open>One text\<close>

text \<open>
  A short text is embedded in place, without a window and without giving up the lock.  Its bytes are those that its
  pointer and length had before \<^verbatim>\<open>max_tokens\<close> was converted; when the conversion changes the text the pointer may be
  stale, which counts as undefined behaviour.  \<open>fresh\<close> is what the memory of a new string holds.
\<close>

definition never_cancelled :: "se_env \<Rightarrow> se_env" where
  "never_cancelled env = env\<lparr>env_cancelled := (\<lambda>_. False)\<rparr>"

definition embed_one_scratch ::
  "batch_env \<Rightarrow> se_model \<Rightarrow> u8 list \<Rightarrow> u32 \<Rightarrow> u32 list \<Rightarrow> (u32 list \<times> se_token_stats) ruby" where
  "embed_one_scratch E m input max_tokens out =
     bindE (of_se (with_scratch (be_acquire E 0) (be_thread E 0) (mt_dim (md_meta m))
       (\<lambda>sc. bindR (se_embed_one (be_sse E) m (never_cancelled (be_text E 0 0)) sc 0 0 input max_tokens out)
               (\<lambda>(v, stats, sc). Inr ((v, stats), sc))))) (\<lambda>r.
     case r of None \<Rightarrow> Inl (Raise NoMemoryError ''out of memory'') | Some r \<Rightarrow> Inr r)"

definition text_unchanged :: "ruby_text \<Rightarrow> ruby_text option list \<Rightarrow> bool" where
  "text_unchanged t texts = (map_option rt_bytes (text_entry texts 0) = Some (rt_bytes t))"

definition embed_one_value ::
  "batch_env \<Rightarrow> (nat \<Rightarrow> u32 list) \<Rightarrow> se_model option \<Rightarrow> ruby_value \<Rightarrow> se_vector_format \<Rightarrow> se_encoding_validation \<Rightarrow>
   (ruby_text option list, u8 list \<times> se_token_stats list) ruby_call" where
  "embed_one_value E fresh model max_tokens_opt format validation texts =
     (case model of
        None \<Rightarrow> (Inl (Raise Error ''model is closed''), texts)
      | Some m \<Rightarrow>
          (case text_entry texts 0 of
             None \<Rightarrow> (Inl (Raise TypeError ''wrong argument type (expected String)''), texts)
           | Some t \<Rightarrow>
               bindC (pureC (check_text_encoding_mode (be_scan E) t False validation)) (\<lambda>_.
                 if format \<noteq> SE_VECTOR_FORMAT_F32 \<or> length (rt_bytes t) \<ge> SE_GVL_UNLOCK_THRESHOLD
                 then embed_one_via_batch E model max_tokens_opt format validation
                 else (case se_checked_mul_size (ucast (mt_dim (md_meta m))) 4 of
                     None \<Rightarrow> pureC (Inl output_too_large)
                   | Some out_bytes \<Rightarrow>
                       if \<not> se_size_fits_long out_bytes then pureC (Inl output_too_large)
                       else bindC (pureC (be_string E)) (\<lambda>_.
                            bindC (resolve_max_tokens (be_num2ull E) m max_tokens_opt) (\<lambda>max_tokens texts.
                              (if \<not> text_unchanged t texts then Inl Undefined
                               else bindE (embed_one_scratch E m (rt_bytes t) max_tokens (fresh (unat (mt_dim (md_meta m)))))
                                      (\<lambda>(v, stats). Inr (le_file v, [stats])), texts))))) texts))"

definition embed_options ::
  "(ruby_value \<Rightarrow> (ruby_text option list, int) ruby_call) \<Rightarrow> ruby_value \<Rightarrow>
   (se_vector_format \<Rightarrow> se_encoding_validation \<Rightarrow> (ruby_text option list, 'a) ruby_call) \<Rightarrow> (ruby_text option list, 'a) ruby_call" where
  "embed_options num2long opts body =
     bindC (pureC (check_keywords opts [''max_tokens'', ''format'', ''validate_encoding'', ''threads''])) (\<lambda>_.
     bindC (reject_parallel_threads num2long opts) (\<lambda>_.
     bindC (pureC (resolve_vector_format (lookup_option opts ''format''))) (\<lambda>format.
     bindC (pureC (resolve_encoding_validation (lookup_option opts ''validate_encoding''))) (\<lambda>validation.
       body format validation))))"

definition model_embed ::
  "batch_env \<Rightarrow> (nat \<Rightarrow> u32 list) \<Rightarrow> (ruby_value \<Rightarrow> (ruby_text option list, int) ruby_call) \<Rightarrow> se_model option \<Rightarrow> ruby_value \<Rightarrow>
   (ruby_text option list, u8 list) ruby_call" where
  "model_embed E fresh num2long model opts =
     embed_options num2long opts (\<lambda>format validation.
       bindC (embed_one_value E fresh model (lookup_option opts ''max_tokens'') format validation) (\<lambda>(bytes, stats).
         pureC (Inr bytes)))"

definition model_embed_with_stats ::
  "batch_env \<Rightarrow> (nat \<Rightarrow> u32 list) \<Rightarrow> (ruby_value \<Rightarrow> (ruby_text option list, int) ruby_call) \<Rightarrow> se_model option \<Rightarrow> ruby_value \<Rightarrow>
   (ruby_text option list, embedding_hash) ruby_call" where
  "model_embed_with_stats E fresh num2long model opts =
     embed_options num2long opts (\<lambda>format validation.
       bindC (embed_one_value E fresh model (lookup_option opts ''max_tokens'') format validation) (\<lambda>(bytes, stats).
         case (model, stats) of
           (Some m, s # _) \<Rightarrow> pureC (Inr (stats_hash m bytes s))
         | (None, _) \<Rightarrow> pureC (Inl (Raise Error ''model is closed''))
         | _ \<Rightarrow> pureC (Inl Undefined)))"

subsection \<open>The tokens of a text\<close>

definition tokenize_cfg :: "batch_env \<Rightarrow> se_model \<Rightarrow> u32 \<Rightarrow> token_cfg" where
  "tokenize_cfg E m max_tokens =
     \<lparr>tc_model = m, tc_max_tokens = max_tokens, tc_limit_mode = SE_TOKEN_LIMIT_RAW, tc_env = never_cancelled (be_text E 0 0)\<rparr>"

definition tokenize_scratch :: "batch_env \<Rightarrow> se_model \<Rightarrow> u8 list \<Rightarrow> u32 \<Rightarrow> u32 list ruby" where
  "tokenize_scratch E m input max_tokens =
     bindE (of_se (with_scratch (be_acquire E 0) (be_thread E 0) (mt_dim (md_meta m))
       (\<lambda>sc. bindR (se_tokenize (tokenize_cfg E m max_tokens) sc 0 0 input)
               (\<lambda>(st, stats). Inr (take (unat (st_token_count stats)) (ts_ids st), ts_scratch st))))) (\<lambda>r.
     case r of None \<Rightarrow> Inl (Raise NoMemoryError ''out of memory'') | Some ids \<Rightarrow> Inr ids)"

definition model_tokenize :: "batch_env \<Rightarrow> se_model option \<Rightarrow> ruby_value \<Rightarrow> (ruby_text option list, u32 list) ruby_call" where
  "model_tokenize E model opts texts =
     bindC (pureC (check_keywords opts [''max_tokens'', ''validate_encoding''])) (\<lambda>_.
       case model of
         None \<Rightarrow> pureC (Inl (Raise Error ''model is closed''))
       | Some m \<Rightarrow>
           (case text_entry texts 0 of
              None \<Rightarrow> pureC (Inl (Raise TypeError ''wrong argument type (expected String)''))
            | Some t \<Rightarrow>
                bindC (pureC (resolve_encoding_validation (lookup_option opts ''validate_encoding''))) (\<lambda>validation.
                bindC (pureC (check_text_encoding_mode (be_scan E) t False validation)) (\<lambda>_.
                bindC (resolve_max_tokens (be_num2ull E) m (lookup_option opts ''max_tokens'')) (\<lambda>max_tokens texts.
                  (if \<not> text_unchanged t texts then Inl Undefined
                   else tokenize_scratch E m (rt_bytes t) max_tokens, texts)))))) texts"

subsection \<open>Half-precision strings\<close>

text \<open>\<open>num2dbl\<close> is \<^verbatim>\<open>NUM2DBL\<close>, which may change the array; the doubles are bit patterns.\<close>

fun encode_each ::
  "(ruby_value \<Rightarrow> (ruby_value list, u64) ruby_call) \<Rightarrow> nat list \<Rightarrow> u8 list \<Rightarrow> (ruby_value list, u8 list) ruby_call" where
  "encode_each num2dbl [] out = pureC (Inr out)"
| "encode_each num2dbl (i # is) out =
     bindC (\<lambda>arr. num2dbl (rb_ary_entry arr i) arr) (\<lambda>v.
     bindC (pureC (of_se (se_write_f16le out (i * 2) (f32_of_f64 v)))) (\<lambda>out.
       encode_each num2dbl is out))"

definition se_encode_f16 ::
  "(ruby_value \<Rightarrow> (ruby_value list, u64) ruby_call) \<Rightarrow> (nat \<Rightarrow> u8 list ruby) \<Rightarrow> bool \<Rightarrow> (ruby_value list, u8 list) ruby_call" where
  "se_encode_f16 num2dbl new_string is_array arr =
     (if \<not> is_array then (Inl (Raise TypeError ''wrong argument type (expected Array)''), arr)
      else case se_checked_mul_size (word_of_nat (length arr)) 2 of
        None \<Rightarrow> (Inl (Raise ArgumentError ''vector is too large''), arr)
      | Some bytes \<Rightarrow>
          if \<not> se_size_fits_long bytes then (Inl (Raise ArgumentError ''vector is too large''), arr)
          else bindC (pureC (new_string (unat bytes))) (encode_each num2dbl [0..<length arr]) arr)"

definition se_decode_f16 :: "u8 list option \<Rightarrow> u64 list ruby" where
  "se_decode_f16 blob =
     (case blob of
        None \<Rightarrow> Inl (Raise TypeError ''wrong argument type (expected String)'')
      | Some bytes \<Rightarrow>
          if length bytes mod 2 \<noteq> 0 then Inl (Raise ArgumentError ''f16 blob byte size must be a multiple of 2'')
          else of_se (mapR (\<lambda>i. bindR (se_read_f16le bytes (i * 2)) (\<lambda>x. Inr (f64_of_f32 x))) [0..<length bytes div 2]))"

definition se_simd_backend :: "f16_state \<Rightarrow> string" where
  "se_simd_backend st =
     (case se_current_f16_backend st of SE_F16_BACKEND_F16C \<Rightarrow> ''f16c'' | SE_F16_BACKEND_LUT \<Rightarrow> ''lut'' | _ \<Rightarrow> ''neon-fp16'')"

lemma le_file_holds: "holds_floats SE_VECTOR_FORMAT_F32 v (le_file v)"
  using le_file_read [of _ v]
  by (simp add: holds_floats_def le_file_length se_vector_format_element_bytes_def mult.commute)

text \<open>What may be raised for one text.\<close>

definition text_blame :: "batch_env \<Rightarrow> se_model \<Rightarrow> u32 \<Rightarrow> ruby_text \<Rightarrow> se_encoding_validation \<Rightarrow> ruby_fault \<Rightarrow> bool" where
  "text_blame E m k t validation e \<longleftrightarrow>
     check_text_encoding_mode (be_scan E) t False validation = Inl e \<or>
     e \<in> {output_too_large, Raise NoMemoryError ''out of memory''} \<or> be_string E = Inl e \<or>
     batch_blame E m k False [rt_bytes t] e"

lemma check_text_defined: "check_text_encoding_mode scan t indexed mode \<noteq> Inl Undefined"
  by (auto simp: check_text_encoding_mode_def Let_def)

lemma fault_error_defined: "err \<noteq> OutOfBounds \<Longrightarrow> fault_error is_array err \<noteq> Undefined"
  by (cases err) (auto simp: fault_error_def raise_se_def)

lemma snapshot_single:
  "text_entry texts 0 = Some t \<Longrightarrow>
   snapshot_texts scan texts False (Suc 0) validation = bindE (check_text_encoding_mode scan t False validation) (\<lambda>_. Inr [rt_bytes t])"
  by (simp add: snapshot_texts_def bindE_def)

context embedding_model
begin

lemma embed_one_scratch_result:
  assumes "length out = dim"
  shows "case embed_one_scratch E m s k out of
     Inr (v, stats) \<Rightarrow> text_embedded m k s v stats
   | Inl e \<Rightarrow> e = Raise NoMemoryError ''out of memory'' \<or> (\<exists>err. (outside_fault err \<or> text_fault m k s err) \<and> e = fault_error False err)"
proof -
  let ?body = "\<lambda>sc. bindR (se_embed_one (be_sse E) m (never_cancelled (be_text E 0 0)) sc 0 0 s k out) (\<lambda>(v, stats, sc). Inr ((v, stats), sc))"
  consider "with_scratch (be_acquire E 0) (be_thread E 0) (mt_dim (md_meta m)) ?body = Inr None"
    | sc where "dim \<le> unat (sc_acc_cap sc)"
      "with_scratch (be_acquire E 0) (be_thread E 0) (mt_dim (md_meta m)) ?body = (case ?body sc of Inl e \<Rightarrow> Inl e | Inr (x, _) \<Rightarrow> Inr (Some x))"
    using with_scratch_result by blast
  then show ?thesis
  proof cases
    case 1
    then show ?thesis by (simp add: embed_one_scratch_def)
  next
    case 2
    note r = embed_one_text [OF 2(1) assms, where sse = "be_sse E" and env = "never_cancelled (be_text E 0 0)" and calls = 0 and polls = 0
        and s = s and max_tokens = k]
    show ?thesis
    proof (cases "se_embed_one (be_sse E) m (never_cancelled (be_text E 0 0)) sc 0 0 s k out")
      case (Inl e)
      then have f: "outside_fault e \<or> text_fault m k s e" using r by simp
      then obtain status message where e: "e = SeError status message"
        using outside_fault_defined [of e] text_fault_defined [of m k s e] by (cases e) auto
      then show ?thesis using 2(2) Inl f
        by (auto simp: embed_one_scratch_def of_se_def fault_error_def indexed_message_def)
    next
      case (Inr p)
      then show ?thesis using 2(2) r by (cases p) (simp add: embed_one_scratch_def)
    qed
  qed
qed

lemma embed_one_value_result:
  assumes t: "text_entry texts 0 = Some t" and k: "resolve_max_tokens (be_num2ull E) m opt texts = (Inr k, texts)"
    and fresh: "length (fresh dim) = dim" and cut: "cuttable m k (rt_bytes t)"
    and ints: "\<And>r. be_check_ints E r \<noteq> Inl Undefined" and str: "be_string E \<noteq> Inl Undefined"
  shows "\<exists>r. embed_one_value E fresh (Some m) opt format validation texts = (r, texts) \<and>
    (case r of
       Inr (bytes, stats) \<Rightarrow> \<exists>v st. stats = [st] \<and> holds_floats format v bytes \<and> text_embedded m k (rt_bytes t) v st
     | Inl e \<Rightarrow> e \<noteq> Undefined \<and> text_blame E m k t validation e)"
proof (cases "check_text_encoding_mode (be_scan E) t False validation")
  case (Inl e)
  then show ?thesis using t check_text_defined [of "be_scan E" t False validation]
    by (simp add: embed_one_value_def bindC_def pureC_def text_blame_def)
next
  case checked: (Inr u)
  show ?thesis
  proof (cases "format \<noteq> SE_VECTOR_FORMAT_F32 \<or> length (rt_bytes t) \<ge> SE_GVL_UNLOCK_THRESHOLD")
    case True
    have call: "embed_one_value E fresh (Some m) opt format validation texts =
        (embed_texts_run E m False 1 k format validation texts, texts)"
      using True t checked k
      by (simp add: embed_one_value_def embed_one_via_batch_def embed_texts_internal_def bindC_def pureC_def)
    have snap: "snapshot_texts (be_scan E) texts False 1 validation = Inr [rt_bytes t]"
      using snapshot_single [OF t, of "be_scan E" validation] checked by simp
    have cuts: "\<forall>i<1. \<forall>t. text_entry texts i = Some t \<longrightarrow> cuttable m k (rt_bytes t)" using t cut by simp
    note r = embed_texts_result [OF _ ints str cuts, where is_array = False and format = format and
        validation = validation, unfolded snap]
    show ?thesis
    proof (cases "embed_texts_run E m False 1 k format validation texts")
      case (Inl e)
      then show ?thesis using r call by (auto simp: text_blame_def)
    next
      case (Inr p)
      obtain bytes stats where p: "p = (bytes, stats)" by (cases p)
      obtain rows sts where rows: "length rows = 1" "length sts = 1" "stats = take 1 sts" "holds_floats format (concat rows) bytes"
          "text_embedded m k (rt_bytes t) (rows ! 0) (sts ! 0)"
        using r Inr p t by auto
      then obtain v st where "rows = [v]" "sts = [st]" by (auto simp: length_Suc_conv)
      then show ?thesis using call Inr p rows by auto
    qed
  next
    case False
    show ?thesis
    proof (cases "\<exists>b. se_checked_mul_size (ucast (mt_dim (md_meta m))) 4 = Some b \<and> se_size_fits_long b \<and> be_string E = Inr ()")
      case ok: True
      have call: "embed_one_value E fresh (Some m) opt format validation texts =
          (bindE (embed_one_scratch E m (rt_bytes t) k (fresh dim)) (\<lambda>(v, stats). Inr (le_file v, [stats])), texts)"
        using False t checked k ok by (auto simp: embed_one_value_def bindC_def pureC_def text_unchanged_def)
      have f: "format = SE_VECTOR_FORMAT_F32" using False by simp
      note r = embed_one_scratch_result [OF fresh, where E = E and s = "rt_bytes t" and k = k]
      show ?thesis
      proof (cases "embed_one_scratch E m (rt_bytes t) k (fresh dim)")
        case (Inl e)
        then have e: "e = Raise NoMemoryError ''out of memory'' \<or>
            (\<exists>err. (outside_fault err \<or> text_fault m k (rt_bytes t) err) \<and> e = fault_error False err)" using r by simp
        then have "text_blame E m k t validation e" by (auto simp: text_blame_def batch_blame_def)
        moreover have "e \<noteq> Undefined" using e by (metis fault_error_defined outside_fault_defined text_fault_defined ruby_fault.distinct(1))
        ultimately show ?thesis using call Inl by simp
      next
        case (Inr p)
        then show ?thesis using r call le_file_holds f by (cases p) auto
      qed
    next
      case bad: False
      then show ?thesis using False t checked str
        by (cases "be_string E") (auto simp: embed_one_value_def bindC_def pureC_def text_blame_def split: option.split)
    qed
  qed
qed

end

subsection \<open>The tokens of a text, cut or not\<close>

definition raw_cfg :: "se_model \<Rightarrow> u32 \<Rightarrow> token_cfg" where
  "raw_cfg m k = \<lparr>tc_model = m, tc_max_tokens = k, tc_limit_mode = SE_TOKEN_LIMIT_RAW, tc_env = example_env\<rparr>"

lemma run_actions_unlimited:
  "tc_max_tokens cfg = 0 \<Longrightarrow> tc_max_tokens cfg' = 0 \<Longrightarrow> tc_model cfg = tc_model cfg' \<Longrightarrow>
   run_actions cfg ids acts = run_actions cfg' ids acts"
  by (induction acts arbitrary: ids) (auto simp: over_limit_def split: option.split)

lemma raw_spec_env: "tokenize_spec (tokenize_cfg E m k) s = tokenize_spec (raw_cfg m k) s"
proof -
  have "tokenize_cfg E m k = (raw_cfg m k)\<lparr>tc_env := never_cancelled (be_text E 0 0)\<rparr>" by (simp add: tokenize_cfg_def raw_cfg_def)
  then show ?thesis by (simp add: tokenize_spec_def meaning_def run_actions_env)
qed

lemma raw_spec_limit:
  assumes "text_ids m 0 s = Inr (ids, tr)"
  shows "tokenize_spec (raw_cfg m k) s = Inr (if k \<noteq> 0 \<and> unat k < length ids then (take (unat k) ids, True) else (ids, False))"
proof -
  have "run_actions ((raw_cfg m k)\<lparr>tc_max_tokens := 0\<rparr>) = run_actions (text_cfg m 0)"
    by (intro ext run_actions_unlimited) (simp_all add: raw_cfg_def text_cfg_def embed_cfg_def)
  then have "tokenize_spec ((raw_cfg m k)\<lparr>tc_max_tokens := 0\<rparr>) s = Inr (ids, tr)"
    using assms by (simp add: text_ids_def tokenize_spec_def meaning_def raw_cfg_def text_cfg_def embed_cfg_def)
  from spec_limit(1) [OF this] show ?thesis
    by (auto simp: over_limit_def counted_def limit_ids_def drops_unk_def raw_cfg_def)
qed

lemma tokenize_scratch_result:
  assumes "model_ok m" "unk_only_root m"
  shows "case tokenize_scratch E m s k of
     Inr ids \<Rightarrow> \<exists>tr. tokenize_spec (raw_cfg m k) s = Inr (ids, tr)
   | Inl e \<Rightarrow> e = Raise NoMemoryError ''out of memory'' \<or> e = Raise Error ''out of memory while %s'' \<or>
       (\<exists>status message. tokenize_spec (raw_cfg m k) s = Inl (SeError status message) \<and> e = raise_se status message)"
proof -
  let ?cfg = "tokenize_cfg E m k"
  let ?body = "\<lambda>sc. bindR (se_tokenize ?cfg sc 0 0 s) (\<lambda>(st, stats). Inr (take (unat (st_token_count stats)) (ts_ids st), ts_scratch st))"
  have c: "tc_model ?cfg = m" "tc_env ?cfg = never_cancelled (be_text E 0 0)" by (simp_all add: tokenize_cfg_def)
  consider "with_scratch (be_acquire E 0) (be_thread E 0) (mt_dim (md_meta m)) ?body = Inr None"
    | sc where "with_scratch (be_acquire E 0) (be_thread E 0) (mt_dim (md_meta m)) ?body =
        (case ?body sc of Inl e \<Rightarrow> Inl e | Inr (x, _) \<Rightarrow> Inr (Some x))"
    using with_scratch_result by blast
  then show ?thesis
  proof cases
    case 1
    then show ?thesis by (simp add: tokenize_scratch_def)
  next
    case 2
    note r = refines_at [of ?cfg, unfolded c, OF assms, where sc = sc and calls = 0 and polls = 0 and input = s]
    show ?thesis
    proof (cases "se_tokenize ?cfg sc 0 0 s")
      case (Inl e)
      then have "tokenize_spec ?cfg s = Inl e \<or> e = SeError SE_ERR_OOM ''out of memory while %s''"
        using r by (auto simp: fails_with_def load_def may_fail_def tokenize_spec_def c never_cancelled_def)
      then have "tokenize_spec (raw_cfg m k) s = Inl e \<or> e = SeError SE_ERR_OOM ''out of memory while %s''"
        by (simp only: raw_spec_env)
      moreover have "e \<noteq> OutOfBounds"
        using accepted_model.se_tokenize_safe [OF accepted_model.intro, of ?cfg sc 0 0 s] assms(1) Inl c by auto
      ultimately show ?thesis using 2 Inl
        by (cases e) (auto simp: tokenize_scratch_def of_se_def raise_se_def error_class_for_def)
    next
      case (Inr p)
      then show ?thesis using 2 r
        by (cases p) (auto simp: tokenize_scratch_def raw_spec_env)
    qed
  qed
qed

lemma each_keyword_defined: "check_each_keyword allowed kvs \<noteq> Inl Undefined"
  by (induction allowed kvs rule: check_each_keyword.induct)
    (auto simp: bindE_def reject_unknown_keyword_i_def split: sum.splits ruby_value.splits)

lemma keywords_defined: "check_keywords opts allowed \<noteq> Inl Undefined"
  using each_keyword_defined by (auto simp: check_keywords_def split: ruby_value.split)

lemma model_tokenize_result:
  assumes ok: "model_ok m" "unk_only_root m" and t: "text_entry texts 0 = Some t"
    and k: "resolve_max_tokens (be_num2ull E) m (lookup_option opts ''max_tokens'') texts = (Inr k, texts)"
  shows "\<exists>r. model_tokenize E (Some m) opts texts = (r, texts) \<and>
    (case r of
       Inr ids \<Rightarrow> (\<exists>tr. tokenize_spec (raw_cfg m k) (rt_bytes t) = Inr (ids, tr)) \<and>
         (\<forall>all tr. text_ids m 0 (rt_bytes t) = Inr (all, tr) \<longrightarrow> ids = (if k = 0 then all else take (unat k) all))
     | Inl e \<Rightarrow> e \<noteq> Undefined \<and>
         (check_keywords opts [''max_tokens'', ''validate_encoding''] = Inl e \<or>
          resolve_encoding_validation (lookup_option opts ''validate_encoding'') = Inl e \<or>
          (\<exists>validation. check_text_encoding_mode (be_scan E) t False validation = Inl e) \<or>
          e = Raise NoMemoryError ''out of memory'' \<or> e = Raise Error ''out of memory while %s'' \<or>
          (\<exists>status message. tokenize_spec (raw_cfg m k) (rt_bytes t) = Inl (SeError status message) \<and> e = raise_se status message)))"
proof -
  let ?kw = "check_keywords opts [''max_tokens'', ''validate_encoding'']"
  let ?enc = "resolve_encoding_validation (lookup_option opts ''validate_encoding'')"
  show ?thesis
  proof (cases ?kw)
    case (Inl e)
    then have "e \<noteq> Undefined" using keywords_defined by auto
    moreover have "model_tokenize E (Some m) opts texts = (Inl e, texts)" using Inl by (simp add: model_tokenize_def bindC_def pureC_def)
    ultimately show ?thesis using Inl by simp
  next
    case kw: (Inr u)
    show ?thesis
    proof (cases ?enc)
      case (Inl e)
      then have "e \<noteq> Undefined" by (auto simp: resolve_encoding_validation_def split: if_splits)
      moreover have "model_tokenize E (Some m) opts texts = (Inl e, texts)"
        using kw Inl t by (simp add: model_tokenize_def bindC_def pureC_def)
      ultimately show ?thesis using Inl by simp
    next
      case enc: (Inr validation)
      show ?thesis
      proof (cases "check_text_encoding_mode (be_scan E) t False validation")
        case (Inl e)
        then have "e \<noteq> Undefined" using check_text_defined by auto
        moreover have "model_tokenize E (Some m) opts texts = (Inl e, texts)"
          using kw enc Inl t by (simp add: model_tokenize_def bindC_def pureC_def)
        ultimately show ?thesis using Inl by auto
      next
        case (Inr v)
        then have call: "model_tokenize E (Some m) opts texts = (tokenize_scratch E m (rt_bytes t) k, texts)"
          using kw enc t k by (simp add: model_tokenize_def bindC_def pureC_def text_unchanged_def)
        note r = tokenize_scratch_result [OF ok, where E = E and s = "rt_bytes t" and k = k]
        show ?thesis
        proof (cases "tokenize_scratch E m (rt_bytes t) k")
          case (Inl e)
          then show ?thesis using r call by (auto simp: raise_se_def)
        next
          case (Inr ids)
          then obtain tr where spec: "tokenize_spec (raw_cfg m k) (rt_bytes t) = Inr (ids, tr)" using r by auto
          have "ids = (if k = 0 then ys else take (unat k) ys)" if "text_ids m 0 (rt_bytes t) = Inr (ys, tr')" for ys tr'
            using raw_spec_limit [OF that, of k] spec by (auto simp: not_less split: if_splits)
          then show ?thesis using call Inr spec by auto
        qed
      qed
    qed
  qed
qed

context written_model
begin

lemmas embeds_one = embed_one_value_result

end

section \<open>Properties\<close>

text \<open>
  Property C38: embedding token ids.  For an array of numbers the call embeds the ids that the token limit leaves, the same
  ids that it would leave of a text; the string holds that embedding, and the counts and the flag are exact.  So the ids of a
  text give the embedding of the text.  When the call raises, a number is no id of the vocabulary, memory was short, the
  output too large, the call was interrupted, or no usable id was there and the model asks for that error.  Nothing is
  read or written out of bounds.
\<close>

theorem embed_token_ids_exact:
  assumes "validate little_endian calloc_ok base = Inr m" and "length base < 2 ^ 64"
    and "resolve_max_tokens (ie_num2ull E) m max_tokens_opt arr0 = (Inr k, arr)"
    and "holds_numbers E arr vals" and "ie_check_ints E \<noteq> Inl Undefined" and "ie_string E \<noteq> Inl Undefined"
    and "embed_token_ids_value E (Some m) True max_tokens_opt format arr0 = (r, arr')"
  shows "arr' = arr \<and>
    (case r of
       Inr (bytes, stats) \<Rightarrow> \<exists>v. holds_floats format v bytes \<and>
         ids_embedded m (limited m k (map word_of_nat vals)) v stats \<and>
         st_truncated stats = over_limit (text_cfg m k) (map word_of_nat vals) \<and>
         (\<forall>s t. text_ids m 0 s = Inr (map word_of_nat vals, t) \<longrightarrow> text_embedded m k s v stats)
     | Inl e \<Rightarrow> e \<noteq> Undefined \<and>
         (e = id_out_of_range \<and> (\<exists>x \<in> set vals. unat (mt_vocab_size (md_meta m)) \<le> x) \<or>
          ids_blame E m (limited m k (map word_of_nat vals)) e))"
proof -
  obtain r' where r': "embed_token_ids_value E (Some m) True max_tokens_opt format arr0 = (r', arr)"
    "case r' of
       Inl e \<Rightarrow> e \<noteq> Undefined \<and>
         (e = id_out_of_range \<and> (\<exists>x \<in> set vals. unat (mt_vocab_size (md_meta m)) \<le> x) \<or>
          ids_blame E m (limited m k (map word_of_nat vals)) e)
     | Inr (bytes, stats) \<Rightarrow> \<exists>v. ids_embedded m (limited m k (map word_of_nat vals)) v stats \<and> holds_floats format v bytes \<and>
         st_truncated stats = over_limit (text_cfg m k) (map word_of_nat vals)"
    using embed_token_ids_result [OF validate_Inr(1) [OF assms(1,2)] assms(4) refl assms(5,6,3), of format] by blast
  moreover have "r' = r" "arr' = arr" using r'(1) assms(7) by simp_all
  ultimately show ?thesis using ids_embedded_text by (auto split: sum.splits)
qed

definition example_number :: "ruby_value \<Rightarrow> (ruby_value list, nat) ruby_call" where
  "example_number v arr = ((case v of QObject n \<Rightarrow> Inr n | _ \<Rightarrow> Inl (Raise TypeError ''no implicit conversion'')), arr)"

definition example_ids_env :: ids_env where
  "example_ids_env = \<lparr>ie_sse = True, ie_num2ull = example_number, ie_num2long = (\<lambda>_ arr. (Inr 1, arr)),
     ie_malloc = (\<lambda>_. True), ie_calloc = (\<lambda>_. True), ie_thread = thread_start, ie_acquire = example_env,
     ie_cancelled = (\<lambda>_. False), ie_requested = False, ie_check_ints = Inr (), ie_string = Inr ()\<rparr>"

theorem embed_token_ids_exact_witness:
  "fst (embed_token_ids_value example_ids_env (Some example_model) True (QObject 2) SE_VECTOR_FORMAT_F32
      [QObject 2, QObject 1, QObject 3, QObject 2]) \<noteq> Inl Undefined"
proof -
  let ?arr = "[QObject 2, QObject 1, QObject 3, QObject 2]"
  obtain r arr' where r: "embed_token_ids_value example_ids_env (Some example_model) True (QObject 2) SE_VECTOR_FORMAT_F32 ?arr = (r, arr')"
    by (metis surj_pair)
  have k: "resolve_max_tokens (ie_num2ull example_ids_env) example_model (QObject 2) ?arr = (Inr 2, ?arr)"
    by (simp add: resolve_max_tokens_def example_ids_env_def example_number_def bindC_def pureC_def)
  have "\<forall>i < length ?arr. ie_num2ull example_ids_env (?arr ! i) ?arr = (Inr ([2, 1, 3, 2] ! i), ?arr)"
    by (auto simp: example_ids_env_def example_number_def less_Suc_eq)
  then have n: "holds_numbers example_ids_env ?arr [2, 1, 3, 2]" by (simp add: holds_numbers_def)
  have "r \<noteq> Inl Undefined"
    using embed_token_ids_exact [OF example_valid _ k n _ _ r] by (auto simp: example_length example_ids_env_def)
  then show ?thesis using r by simp
qed


definition example_texts :: "ruby_text option list" where
  "example_texts = [Some \<lparr>rt_encoding = EncUtf8, rt_coderange = CR_UNKNOWN, rt_bytes = [0x41, 0x62]\<rparr>]"


text \<open>
  Property C40: the tokens of a text.  The call returns the ids of the tokenizer's specification for a limit on all ids, which
  are the first \<^verbatim>\<open>max_tokens\<close> ids of the whole text when all of it is valid, and every id otherwise; or it raises for
  a stated reason.
\<close>

theorem tokenize_call_exact:
  assumes "validate little_endian calloc_ok base = Inr m" and "length base < 2 ^ 64" and "unk_only_root m"
    and "text_entry texts 0 = Some t"
    and "resolve_max_tokens (be_num2ull E) m (lookup_option opts ''max_tokens'') texts = (Inr k, texts)"
    and "model_tokenize E (Some m) opts texts = (r, texts')"
  shows "texts' = texts \<and>
    (case r of
       Inr ids \<Rightarrow> (\<exists>tr. tokenize_spec (raw_cfg m k) (rt_bytes t) = Inr (ids, tr)) \<and>
         (\<forall>all tr. text_ids m 0 (rt_bytes t) = Inr (all, tr) \<longrightarrow> ids = (if k = 0 then all else take (unat k) all))
     | Inl e \<Rightarrow> e \<noteq> Undefined \<and>
         (check_keywords opts [''max_tokens'', ''validate_encoding''] = Inl e \<or>
          resolve_encoding_validation (lookup_option opts ''validate_encoding'') = Inl e \<or>
          (\<exists>validation. check_text_encoding_mode (be_scan E) t False validation = Inl e) \<or>
          e = Raise NoMemoryError ''out of memory'' \<or> e = Raise Error ''out of memory while %s'' \<or>
          (\<exists>status message. tokenize_spec (raw_cfg m k) (rt_bytes t) = Inl (SeError status message) \<and> e = raise_se status message)))"
  using model_tokenize_result [OF validate_Inr(1) [OF assms(1,2)] assms(3,4,5)] assms(6) by auto

theorem tokenize_call_exact_witness:
  "fst (model_tokenize example_batch_env (Some example_model) (QHash [(QSymbol ''max_tokens'', QObject 0)]) example_texts)
     \<noteq> Inl Undefined"
proof -
  let ?opts = "QHash [(QSymbol ''max_tokens'', QObject 0)]"
  obtain r texts' where r: "model_tokenize example_batch_env (Some example_model) ?opts example_texts = (r, texts')" by (metis surj_pair)
  have t: "text_entry example_texts 0 = Some \<lparr>rt_encoding = EncUtf8, rt_coderange = CR_UNKNOWN, rt_bytes = [0x41, 0x62]\<rparr>"
    by (simp add: text_entry_def example_texts_def)
  have k: "resolve_max_tokens (be_num2ull example_batch_env) example_model (lookup_option ?opts ''max_tokens'') example_texts =
      (Inr 1, example_texts)"
    by (simp add: example_batch_env_def resolve_max_tokens_def lookup_option_def bindC_def pureC_def)
  have "r \<noteq> Inl Undefined"
    using tokenize_call_exact [OF example_valid _ example_unk_root t k r] by (auto simp: example_length)
  then show ?thesis using r by simp
qed

end
