(* ===== verification/JobThreads.thy ===== *)
theory JobThreads
  imports BatchProps Lifecycle
begin

text \<open>
  The threads of a job of \<^verbatim>\<open>static_embeddings.c\<close>: \<^verbatim>\<open>protected_run_job\<close>, \<^verbatim>\<open>run_job\<close> and the fiber worker, with the interrupts
  of the interpreter, as a step relation.  Theory \<open>Batch\<close> lets \<^verbatim>\<open>run_job\<close> run \<^verbatim>\<open>batch_execute\<close> once and then check for interrupts; here
  \<^verbatim>\<open>batch_execute\<close> is cut into steps of a worker that run between the steps of the caller, and the properties say
  that both views agree, and when they do not.  The marking and freeing of the wrapper object is left to the interpreter.
\<close>

subsection \<open>Where a job runs\<close>

text \<open>
  What the interpreter answers about fibers: whether it was built with schedulers, the scheduler of the thread, whether
  there is a class \<^verbatim>\<open>Fiber\<close> that responds to \<^verbatim>\<open>blocking?\<close>, and what that returns.
\<close>

record fiber_env =
  fe_schedulers :: bool
  fe_current :: ruby_value
  fe_responds :: bool
  fe_blocking :: bool

definition current_fiber_scheduler :: "fiber_env \<Rightarrow> ruby_value" where
  "current_fiber_scheduler F =
     (if fe_schedulers F then if fe_current F = QNil \<or> fe_current F = QFalse then QNil else fe_current F else QNil)"

definition current_fiber_is_blocking :: "fiber_env \<Rightarrow> bool" where
  "current_fiber_is_blocking F = (if fe_schedulers F then if \<not> fe_responds F then True else fe_blocking F else True)"

definition run_job_body :: "batch_input \<Rightarrow> size_t" where
  "run_job_body input = foldl (+) 0 (map word_of_nat (bi_lengths input))"

text \<open>What the steps of a job never change.\<close>

record job_args =
  ja_fiber :: fiber_env
  ja_env :: batch_env
  ja_round :: nat
  ja_model :: se_model
  ja_max_tokens :: u32
  ja_input :: batch_input
  ja_index :: "nat list"

definition job_mode :: "job_args \<Rightarrow> run_mode" where
  "job_mode A = run_mode_of (current_fiber_scheduler (ja_fiber A) \<noteq> QNil) (current_fiber_is_blocking (ja_fiber A))
     (run_job_body (ja_input A))"

subsection \<open>The job and its two threads\<close>

text \<open>
  The caller is the thread of the Ruby method.  The worker runs \<^verbatim>\<open>batch_execute\<close>: it is a thread of its own in the mode
  \<open>FiberWorker\<close>, and the caller itself inside \<^verbatim>\<open>rb_thread_call_without_gvl\<close> or a plain call in the other two; then the
  caller stays at \<open>InRun\<close>.  \<open>Leaving b\<close> is the way through \<^verbatim>\<open>run_job_ensure\<close>, with \<open>b\<close> when an exception unwinds the
  stack.
\<close>

datatype caller_at =
    AtChoice | InRun | AtCheck | AtCreate | AtJoin | AtEnsure bool | AtKill | AtEnsureJoin | Leaving bool | Returned | Raised

datatype worker_at =
    NotStarted | Entering | Acquiring | AtHead | AtNext | AtText nat | Releasing | Exiting | Ended

text \<open>
  A pending interrupt of the worker's thread is answered by \<^verbatim>\<open>unblock_cancel\<close> while \<^verbatim>\<open>batch_execute\<close> runs, and by the
  checks before and after it.  A \<open>Fatal\<close> one (\<^verbatim>\<open>Thread#kill\<close>, \<^verbatim>\<open>Thread#raise\<close>) unwinds the thread there; a
  \<open>Harmless\<close> one (a signal with a handler that returns) does not.
\<close>

datatype interrupt = Harmless | Fatal

text \<open>
  \<open>jr_next\<close> and \<open>jr_cancelled\<close> are the fields \<^verbatim>\<open>next_index\<close> and \<^verbatim>\<open>cancelled\<close> of the job, \<open>jr_thread\<close> says that
  \<^verbatim>\<open>w->thread\<close> is set.  \<open>jr_struck\<close> and \<open>jr_abandoned\<close> record for the proofs that a fatal interrupt has come from outside
  the call, and that an interrupt of the caller has cut \<^verbatim>\<open>fiber_worker_ensure\<close> short.
\<close>

record job_run =
  jr_job :: batch_job
  jr_next :: nat
  jr_cancelled :: bool
  jr_owner :: model_wrapper
  jr_thread :: bool
  jr_caller :: caller_at
  jr_worker :: worker_at
  jr_pending :: "interrupt option"
  jr_held :: "thread_state \<times> scratch_ptr"
  jr_scratch :: se_scratch
  jr_struck :: bool
  jr_abandoned :: bool

abbreviation after_execute :: "job_args \<Rightarrow> worker_at" where
  "after_execute A \<equiv> (if job_mode A = UnderGvl then Ended else Exiting)"

abbreviation "operation_cancelled_error \<equiv> SeError SE_ERR_INTERNAL ''operation cancelled''"

text \<open>
  \<^verbatim>\<open>batch_execute\<close> and \<^verbatim>\<open>batch_worker_run\<close> in steps.  The environment of theory \<open>Batch\<close> foretells what the reads of the
  cancel flag see; a step is possible only where the flag agrees: it is \<open>be_cancelled\<close> at the head of the loop, and while a text is
  embedded a read can only see a flag that has been set by the end of the text.
\<close>

inductive execute_step :: "job_args \<Rightarrow> job_run \<Rightarrow> job_run \<Rightarrow> bool" for A where
  acquire: "\<lbrakk>jr_worker s = Acquiring;
     se_scratch_acquire (be_acquire (ja_env A) (ja_round A)) (be_thread (ja_env A) (ja_round A)) (mt_dim (md_meta (ja_model A)))
       = (th, Some p); scratch_at th p = Some sc\<rbrakk>
    \<Longrightarrow> execute_step A s (s\<lparr>jr_worker := AtHead, jr_held := (th, p), jr_scratch := sc\<rparr>)"
| no_scratch: "\<lbrakk>jr_worker s = Acquiring;
     se_scratch_acquire (be_acquire (ja_env A) (ja_round A)) (be_thread (ja_env A) (ja_round A)) (mt_dim (md_meta (ja_model A)))
       = (th, None)\<rbrakk>
    \<Longrightarrow> execute_step A s (s\<lparr>jr_worker := after_execute A,
          jr_job := (jr_job s)\<lparr>bj_error := scratch_oom, bj_failed := True\<rparr>\<rparr>)"
| sees_cancel: "\<lbrakk>jr_worker s = AtHead; jr_cancelled s; be_cancelled (ja_env A) (ja_round A) (jr_next s)\<rbrakk>
    \<Longrightarrow> execute_step A s (s\<lparr>jr_worker := Releasing,
          jr_job := (jr_job s)\<lparr>bj_error := operation_cancelled_error, bj_failed := True\<rparr>\<rparr>)"
| goes_on: "\<lbrakk>jr_worker s = AtHead; \<not> jr_cancelled s; \<not> be_cancelled (ja_env A) (ja_round A) (jr_next s)\<rbrakk>
    \<Longrightarrow> execute_step A s (s\<lparr>jr_worker := AtNext\<rparr>)"
| no_more: "\<lbrakk>jr_worker s = AtNext; jr_next s \<ge> length (bi_lengths (ja_input A)) \<or> bj_failed (jr_job s)\<rbrakk>
    \<Longrightarrow> execute_step A s (s\<lparr>jr_worker := Releasing, jr_next := jr_next s + 1\<rparr>)"
| next_text: "\<lbrakk>jr_worker s = AtNext; jr_next s < length (bi_lengths (ja_input A)); \<not> bj_failed (jr_job s)\<rbrakk>
    \<Longrightarrow> execute_step A s (s\<lparr>jr_worker := AtText (jr_next s), jr_next := jr_next s + 1\<rparr>)"
| one_text: "\<lbrakk>jr_worker s = AtText i; rdR (ja_index A) i = Inr row;
     batch_one (ja_env A) (ja_round A) (ja_model A) (ja_max_tokens A) (ja_input A) i row (jr_scratch s) (jr_job s) = Inr (sc, job);
     \<forall>k. env_cancelled (be_text (ja_env A) (ja_round A) i) k \<longrightarrow> jr_cancelled s\<rbrakk>
    \<Longrightarrow> execute_step A s (s\<lparr>jr_worker := if bj_failed job then Releasing else AtHead, jr_scratch := sc, jr_job := job\<rparr>)"
| release: "\<lbrakk>jr_worker s = Releasing; jr_held s = (th, p);
     se_scratch_release (be_acquire (ja_env A) (ja_round A)) (scratch_put th p (jr_scratch s)) (Some p) = Inr th'\<rbrakk>
    \<Longrightarrow> execute_step A s (s\<lparr>jr_worker := after_execute A\<rparr>)"

text \<open>
  \<^verbatim>\<open>rb_thread_call_without_gvl\<close> checks for interrupts before and after the function it runs.  When the worker is the
  caller, a fatal interrupt unwinds the caller there.
\<close>

definition unwound :: "job_args \<Rightarrow> job_run \<Rightarrow> job_run" where
  "unwound A s = s\<lparr>jr_worker := Ended, jr_caller := if job_mode A = WithoutGvl then Leaving True else jr_caller s\<rparr>"

inductive without_gvl_step :: "job_args \<Rightarrow> job_run \<Rightarrow> job_run \<Rightarrow> bool" for A where
  enter: "\<lbrakk>jr_worker s = Entering; jr_pending s = None\<rbrakk> \<Longrightarrow> without_gvl_step A s (s\<lparr>jr_worker := Acquiring\<rparr>)"
| exit: "\<lbrakk>jr_worker s = Exiting; jr_pending s = None\<rbrakk> \<Longrightarrow> without_gvl_step A s (s\<lparr>jr_worker := Ended\<rparr>)"
| harmless: "\<lbrakk>jr_worker s \<in> {Entering, Exiting}; jr_pending s = Some Harmless\<rbrakk>
    \<Longrightarrow> without_gvl_step A s (s\<lparr>jr_pending := None\<rparr>)"
| fatal: "\<lbrakk>jr_worker s \<in> {Entering, Exiting}; jr_pending s = Some Fatal\<rbrakk> \<Longrightarrow> without_gvl_step A s (unwound A s)"

text \<open>An interrupt of the worker's thread, and the answer to it: \<^verbatim>\<open>unblock_cancel\<close> sets the flag.\<close>

definition executing :: "worker_at \<Rightarrow> bool" where
  "executing w = (w \<notin> {NotStarted, Entering, Exiting, Ended})"

definition unblock_cancel :: "job_run \<Rightarrow> job_run" where
  "unblock_cancel s = s\<lparr>jr_cancelled := True\<rparr>"

inductive interrupt_step :: "job_args \<Rightarrow> job_run \<Rightarrow> job_run \<Rightarrow> bool" for A where
  strike: "\<lbrakk>job_mode A \<noteq> UnderGvl; jr_worker s \<notin> {NotStarted, Ended}\<rbrakk>
    \<Longrightarrow> interrupt_step A s (s\<lparr>jr_pending := Some Fatal, jr_struck := True\<rparr>)"
| signal: "\<lbrakk>job_mode A \<noteq> UnderGvl; jr_worker s \<notin> {NotStarted, Ended}; jr_pending s = None\<rbrakk>
    \<Longrightarrow> interrupt_step A s (s\<lparr>jr_pending := Some Harmless\<rparr>)"
| unblock: "\<lbrakk>job_mode A \<noteq> UnderGvl; executing (jr_worker s); jr_pending s \<noteq> None\<rbrakk>
    \<Longrightarrow> interrupt_step A s (unblock_cancel s)"

text \<open>
  \<^verbatim>\<open>run_job\<close> with \<^verbatim>\<open>fiber_worker_wait\<close> and \<^verbatim>\<open>fiber_worker_ensure\<close>, and \<^verbatim>\<open>run_job_ensure\<close>.  An interrupt of the caller may
  raise wherever it calls the interpreter (\<open>choice_raises\<close>, \<open>create_fails\<close>, \<open>join_raises\<close>, \<open>ensure_cut\<close>); \<^verbatim>\<open>Thread#join\<close> returns when
  the thread has ended, and raises what a thread ended by an exception has raised.
\<close>

inductive caller_step :: "job_args \<Rightarrow> job_run \<Rightarrow> job_run \<Rightarrow> bool" for A where
  in_place: "\<lbrakk>jr_caller s = AtChoice; job_mode A = UnderGvl\<rbrakk>
    \<Longrightarrow> caller_step A s (s\<lparr>jr_caller := InRun, jr_worker := Acquiring\<rparr>)"
| without_gvl: "\<lbrakk>jr_caller s = AtChoice; job_mode A = WithoutGvl\<rbrakk>
    \<Longrightarrow> caller_step A s (s\<lparr>jr_caller := InRun, jr_worker := Entering\<rparr>)"
| fiber: "\<lbrakk>jr_caller s = AtChoice; job_mode A = FiberWorker\<rbrakk> \<Longrightarrow> caller_step A s (s\<lparr>jr_caller := AtCreate\<rparr>)"
| choice_raises: "jr_caller s = AtChoice \<Longrightarrow> caller_step A s (s\<lparr>jr_caller := Leaving True\<rparr>)"
| run_done: "\<lbrakk>jr_caller s = InRun; jr_worker s = Ended\<rbrakk> \<Longrightarrow> caller_step A s (s\<lparr>jr_caller := AtCheck\<rparr>)"
| check_ints: "jr_caller s = AtCheck \<Longrightarrow> caller_step A s (s\<lparr>jr_caller := Leaving raises\<rparr>)"
| create: "jr_caller s = AtCreate
    \<Longrightarrow> caller_step A s (s\<lparr>jr_caller := AtJoin, jr_thread := True, jr_worker := Entering\<rparr>)"
| create_fails: "jr_caller s = AtCreate \<Longrightarrow> caller_step A s (s\<lparr>jr_caller := AtEnsure True\<rparr>)"
| join: "\<lbrakk>jr_caller s = AtJoin; jr_worker s = Ended\<rbrakk>
    \<Longrightarrow> caller_step A s (s\<lparr>jr_caller := AtEnsure False, jr_thread := False\<rparr>)"
| join_raises: "jr_caller s = AtJoin \<Longrightarrow> caller_step A s (s\<lparr>jr_caller := AtEnsure True\<rparr>)"
| ensure_nothing: "\<lbrakk>jr_caller s = AtEnsure b; \<not> jr_thread s\<rbrakk> \<Longrightarrow> caller_step A s (s\<lparr>jr_caller := Leaving b\<rparr>)"
| ensure_cancel: "\<lbrakk>jr_caller s = AtEnsure b; jr_thread s\<rbrakk>
    \<Longrightarrow> caller_step A s (s\<lparr>jr_caller := AtKill, jr_cancelled := True\<rparr>)"
| ensure_kill: "jr_caller s = AtKill
    \<Longrightarrow> caller_step A s (s\<lparr>jr_caller := AtEnsureJoin, jr_pending := Some Fatal\<rparr>)"
| ensure_join: "\<lbrakk>jr_caller s = AtEnsureJoin; jr_worker s = Ended\<rbrakk> \<Longrightarrow> caller_step A s (s\<lparr>jr_caller := Leaving True\<rparr>)"
| ensure_cut: "jr_caller s \<in> {AtKill, AtEnsureJoin}
    \<Longrightarrow> caller_step A s (s\<lparr>jr_caller := Leaving True, jr_abandoned := True\<rparr>)"
| leave: "jr_caller s = Leaving b
    \<Longrightarrow> caller_step A s (s\<lparr>jr_caller := if b then Raised else Returned, jr_owner := run_job_ensure (jr_owner s)\<rparr>)"

inductive job_step :: "job_args \<Rightarrow> job_run \<Rightarrow> job_run \<Rightarrow> bool" for A where
  caller: "caller_step A s s' \<Longrightarrow> job_step A s s'"
| worker: "execute_step A s s' \<Longrightarrow> job_step A s s'"
| checks: "without_gvl_step A s s' \<Longrightarrow> job_step A s s'"
| interrupted: "interrupt_step A s s' \<Longrightarrow> job_step A s s'"

text \<open>\<^verbatim>\<open>protected_run_job\<close> has counted the operation before \<^verbatim>\<open>run_job\<close> begins.\<close>

definition job_begin :: "model_wrapper \<Rightarrow> batch_job \<Rightarrow> job_run" where
  "job_begin w job =
     \<lparr>jr_job = job, jr_next = 0, jr_cancelled = False, jr_owner = protected_run_job w, jr_thread = False,
       jr_caller = AtChoice, jr_worker = NotStarted, jr_pending = None, jr_held = (thread_start, TlsScratch),
       jr_scratch = se_scratch_init, jr_struck = False, jr_abandoned = False\<rparr>"

inductive job_reachable :: "job_args \<Rightarrow> model_wrapper \<Rightarrow> batch_job \<Rightarrow> job_run \<Rightarrow> bool" for A w job where
  start: "job_reachable A w job (job_begin w job)"
| step: "job_reachable A w job s \<Longrightarrow> job_step A s s' \<Longrightarrow> job_reachable A w job s'"

subsection \<open>Where the two threads can be\<close>

definition threads_ok :: "job_args \<Rightarrow> job_run \<Rightarrow> bool" where
  "threads_ok A s =
     (case jr_caller s of
        AtChoice \<Rightarrow> jr_worker s = NotStarted \<and> \<not> jr_thread s
      | AtCreate \<Rightarrow> jr_worker s = NotStarted \<and> \<not> jr_thread s \<and> job_mode A = FiberWorker
      | InRun \<Rightarrow> jr_worker s \<noteq> NotStarted \<and> job_mode A \<noteq> FiberWorker \<and>
          (jr_worker s \<in> {Entering, Exiting} \<longrightarrow> job_mode A = WithoutGvl)
      | AtCheck \<Rightarrow> jr_worker s = Ended \<and> job_mode A \<noteq> FiberWorker
      | AtEnsure b \<Rightarrow> job_mode A = FiberWorker \<and>
          (if jr_thread s then b \<and> jr_worker s \<noteq> NotStarted else jr_worker s = (if b then NotStarted else Ended))
      | Leaving b \<Rightarrow> jr_worker s = Ended \<or> b \<and> (jr_worker s = NotStarted \<or> job_mode A = FiberWorker \<and> jr_abandoned s)
      | Returned \<Rightarrow> jr_worker s = Ended
      | Raised \<Rightarrow> jr_worker s \<in> {NotStarted, Ended} \<or> job_mode A = FiberWorker \<and> jr_abandoned s
      | _ \<Rightarrow> jr_thread s \<and> jr_worker s \<noteq> NotStarted \<and> job_mode A = FiberWorker)"

definition left :: "job_run \<Rightarrow> bool" where
  "left s \<longleftrightarrow> jr_caller s \<in> {Returned, Raised}"

definition owner_ok :: "model_wrapper \<Rightarrow> job_run \<Rightarrow> bool" where
  "owner_ok w s \<longleftrightarrow> jr_owner s = (if left s then run_job_ensure (protected_run_job w) else protected_run_job w)"

lemma after_execute_simps [simp]: "after_execute A \<noteq> NotStarted"
  by simp

lemma execute_step_fixes:
  "execute_step A s s' \<Longrightarrow> jr_caller s' = jr_caller s \<and> jr_owner s' = jr_owner s \<and> jr_thread s' = jr_thread s \<and>
     jr_abandoned s' = jr_abandoned s \<and> jr_struck s' = jr_struck s \<and> jr_pending s' = jr_pending s \<and>
     jr_cancelled s' = jr_cancelled s \<and> executing (jr_worker s) \<and> jr_worker s' \<notin> {NotStarted, Entering} \<and>
     (jr_worker s' = Exiting \<longrightarrow> job_mode A \<noteq> UnderGvl)"
  by (induction rule: execute_step.induct) (auto simp: executing_def)

lemma caller_step_fixes:
  "caller_step A s s' \<Longrightarrow> jr_job s' = jr_job s \<and> jr_next s' = jr_next s \<and> jr_held s' = jr_held s \<and>
     jr_scratch s' = jr_scratch s \<and> jr_struck s' = jr_struck s"
  by (induction rule: caller_step.induct) auto

lemma without_gvl_step_fixes:
  "without_gvl_step A s s' \<Longrightarrow> jr_job s' = jr_job s \<and> jr_next s' = jr_next s \<and> jr_held s' = jr_held s \<and>
     jr_scratch s' = jr_scratch s \<and> jr_owner s' = jr_owner s \<and> jr_struck s' = jr_struck s"
  by (induction rule: without_gvl_step.induct) (auto simp: unwound_def)

lemma interrupt_step_fixes:
  "interrupt_step A s s' \<Longrightarrow> jr_job s' = jr_job s \<and> jr_next s' = jr_next s \<and> jr_held s' = jr_held s \<and>
     jr_scratch s' = jr_scratch s \<and> jr_owner s' = jr_owner s \<and> jr_worker s' = jr_worker s \<and>
     jr_caller s' = jr_caller s \<and> jr_thread s' = jr_thread s \<and> jr_abandoned s' = jr_abandoned s"
  by (induction rule: interrupt_step.induct) (auto simp: unblock_cancel_def)

lemma threads_ok_execute: "execute_step A s s' \<Longrightarrow> threads_ok A s \<Longrightarrow> threads_ok A s'"
  by (drule execute_step_fixes, cases "job_mode A")
    (auto simp: threads_ok_def executing_def split: caller_at.splits if_splits)

lemma threads_ok_caller: "caller_step A s s' \<Longrightarrow> threads_ok A s \<Longrightarrow> threads_ok A s'"
  by (induction rule: caller_step.induct) (auto simp: threads_ok_def split: if_splits)

lemma threads_ok_without_gvl: "without_gvl_step A s s' \<Longrightarrow> threads_ok A s \<Longrightarrow> threads_ok A s'"
  by (induction rule: without_gvl_step.induct)
    (auto simp: threads_ok_def unwound_def split: caller_at.splits if_splits)

lemma threads_ok_interrupt: "interrupt_step A s s' \<Longrightarrow> threads_ok A s \<Longrightarrow> threads_ok A s'"
  by (drule interrupt_step_fixes) (auto simp: threads_ok_def split: caller_at.splits if_splits)

lemma threads_ok_reachable: "job_reachable A w job s \<Longrightarrow> threads_ok A s"
proof (induction rule: job_reachable.induct)
  case start
  then show ?case by (simp add: threads_ok_def job_begin_def)
next
  case (step s s')
  from step.hyps(2) show ?case
    by (cases rule: job_step.cases)
      (use step.IH in \<open>blast intro: threads_ok_execute threads_ok_caller threads_ok_without_gvl threads_ok_interrupt\<close>)+
qed

lemma owner_ok_caller: "caller_step A s s' \<Longrightarrow> owner_ok w s \<Longrightarrow> owner_ok w s'"
  by (induction rule: caller_step.induct) (auto simp: owner_ok_def left_def)

lemma owner_ok_without_gvl: "without_gvl_step A s s' \<Longrightarrow> threads_ok A s \<Longrightarrow> owner_ok w s \<Longrightarrow> owner_ok w s'"
  by (induction rule: without_gvl_step.induct)
    (auto simp: owner_ok_def left_def unwound_def threads_ok_def split: caller_at.splits)

lemma owner_ok_reachable: "job_reachable A w job s \<Longrightarrow> owner_ok w s"
proof (induction rule: job_reachable.induct)
  case start
  then show ?case by (simp add: owner_ok_def left_def job_begin_def)
next
  case (step s s')
  from step.hyps(2) show ?case
  proof (cases rule: job_step.cases)
    case caller
    then show ?thesis using owner_ok_caller step.IH by blast
  next
    case worker
    then show ?thesis using execute_step_fixes step.IH by (fastforce simp: owner_ok_def left_def)
  next
    case checks
    then show ?thesis using owner_ok_without_gvl threads_ok_reachable [OF step.hyps(1)] step.IH by blast
  next
    case interrupted
    then show ?thesis using interrupt_step_fixes step.IH by (fastforce simp: owner_ok_def left_def)
  qed
qed

lemma ops_restored: "mw_active_ops (run_job_ensure (protected_run_job w)) = mw_active_ops w"
  by (simp add: run_job_ensure_def protected_run_job_def)

subsection \<open>What the job holds\<close>

definition finish :: "job_args \<Rightarrow> job_run \<Rightarrow> se_scratch \<Rightarrow> batch_job \<Rightarrow> batch_job se_result" where
  "finish A s sc job =
     bindR (se_scratch_release (be_acquire (ja_env A) (ja_round A)) (scratch_put (fst (jr_held s)) (snd (jr_held s)) sc)
       (Some (snd (jr_held s)))) (\<lambda>_. Inr job)"

definition resume :: "job_args \<Rightarrow> job_run \<Rightarrow> nat \<Rightarrow> batch_job se_result" where
  "resume A s i =
     bindR (batch_worker_run (ja_env A) (ja_round A) (ja_model A) (ja_max_tokens A) (ja_input A) (ja_index A) i
       (jr_scratch s) (jr_job s)) (\<lambda>(sc, job). finish A s sc job)"

abbreviation whole :: "job_args \<Rightarrow> batch_job \<Rightarrow> batch_job se_result" where
  "whole A \<equiv> batch_execute (ja_env A) (ja_round A) (ja_model A) (ja_max_tokens A) (ja_input A) (ja_index A)"

text \<open>The rest of the work gives what the whole of it gives.\<close>

definition follows_batch :: "job_args \<Rightarrow> batch_job \<Rightarrow> job_run \<Rightarrow> bool" where
  "follows_batch A job s =
     (case jr_worker s of
        AtHead \<Rightarrow> whole A job = resume A s (jr_next s)
      | AtNext \<Rightarrow> whole A job = resume A s (jr_next s) \<and> \<not> be_cancelled (ja_env A) (ja_round A) (jr_next s)
      | AtText i \<Rightarrow> whole A job = resume A s i \<and> \<not> be_cancelled (ja_env A) (ja_round A) i \<and> jr_next s = i + 1 \<and>
          i < length (bi_lengths (ja_input A)) \<and> \<not> bj_failed (jr_job s)
      | Releasing \<Rightarrow> whole A job = finish A s (jr_scratch s) (jr_job s)
      | Exiting \<Rightarrow> whole A job = Inr (jr_job s)
      | Ended \<Rightarrow> whole A job = Inr (jr_job s) \<or> jr_job s = job \<and>
          (jr_struck s \<and> job_mode A = FiberWorker \<or> jr_caller s \<in> {AtEnsureJoin, Leaving True, Raised})
      | _ \<Rightarrow> jr_job s = job \<and> jr_next s = 0)"

definition pending_ok :: "job_run \<Rightarrow> bool" where
  "pending_ok s \<longleftrightarrow> (jr_pending s = Some Fatal \<longrightarrow> jr_struck s \<or> jr_caller s \<in> {AtEnsureJoin, Leaving True, Raised})"

lemma resume_finished:
  "be_cancelled (ja_env A) (ja_round A) i \<Longrightarrow> resume A s i = finish A s (jr_scratch s)
     ((jr_job s)\<lparr>bj_error := operation_cancelled_error, bj_failed := True\<rparr>)"
  "\<not> be_cancelled (ja_env A) (ja_round A) i \<Longrightarrow> i \<ge> length (bi_lengths (ja_input A)) \<or> bj_failed (jr_job s) \<Longrightarrow>
     resume A s i = finish A s (jr_scratch s) (jr_job s)"
  by (simp_all add: resume_def batch_worker_run.simps)

lemma finish_frame [simp]:
  "finish A (s\<lparr>jr_worker := x\<rparr>) = finish A s" "finish A (s\<lparr>jr_next := n\<rparr>) = finish A s"
  "finish A (s\<lparr>jr_job := j\<rparr>) = finish A s" "finish A (s\<lparr>jr_scratch := sc\<rparr>) = finish A s"
  by (rule ext, rule ext, simp add: finish_def)+

lemma resume_text:
  assumes "\<not> be_cancelled (ja_env A) (ja_round A) i" "i < length (bi_lengths (ja_input A))" "\<not> bj_failed (jr_job s)"
    and "rdR (ja_index A) i = Inr row"
    and "batch_one (ja_env A) (ja_round A) (ja_model A) (ja_max_tokens A) (ja_input A) i row (jr_scratch s) (jr_job s) = Inr (sc, job)"
  shows "resume A s i = (if bj_failed job then finish A s sc job
    else resume A (s\<lparr>jr_worker := x, jr_scratch := sc, jr_job := job\<rparr>) (i + 1))"
  unfolding resume_def using assms by (subst batch_worker_run.simps) (simp add: finish_def)

lemma resume_frame [simp]: "resume A (s\<lparr>jr_worker := x\<rparr>) = resume A s" "resume A (s\<lparr>jr_next := n\<rparr>) = resume A s"
  by (rule ext, simp add: resume_def)+

lemma follows_batch_execute: "execute_step A s s' \<Longrightarrow> follows_batch A job s \<Longrightarrow> follows_batch A job s'"
proof (induction rule: execute_step.induct)
  case (acquire s th p sc)
  then show ?case by (simp add: follows_batch_def batch_execute_def resume_def finish_def split: prod.split)
next
  case (no_scratch s th)
  then show ?case by (simp add: follows_batch_def batch_execute_def)
next
  case (sees_cancel s)
  then show ?case by (simp add: follows_batch_def resume_finished(1))
next
  case (goes_on s)
  then show ?case by (simp add: follows_batch_def)
next
  case (no_more s)
  then show ?case by (simp add: follows_batch_def resume_finished(2))
next
  case (next_text s)
  then show ?case by (simp add: follows_batch_def)
next
  case (one_text s i row sc job)
  then show ?case using resume_text [of A i s row sc job]
    by (auto simp: follows_batch_def)
next
  case (release s th p th')
  then show ?case by (simp add: follows_batch_def finish_def)
qed


lemma follows_batch_caller:
  "caller_step A s s' \<Longrightarrow> threads_ok A s \<Longrightarrow> follows_batch A job s \<Longrightarrow> follows_batch A job s'"
  by (induction rule: caller_step.induct)
    (auto simp: follows_batch_def threads_ok_def resume_def finish_def split: worker_at.splits if_splits)

lemma follows_batch_without_gvl:
  "without_gvl_step A s s' \<Longrightarrow> threads_ok A s \<Longrightarrow> pending_ok s \<Longrightarrow> follows_batch A job s \<Longrightarrow> follows_batch A job s'"
  by (induction rule: without_gvl_step.induct)
    (auto simp: follows_batch_def pending_ok_def threads_ok_def unwound_def split: caller_at.splits)

lemma follows_batch_interrupt: "interrupt_step A s s' \<Longrightarrow> follows_batch A job s \<Longrightarrow> follows_batch A job s'"
  by (induction rule: interrupt_step.induct)
    (auto simp: follows_batch_def unblock_cancel_def resume_def finish_def split: worker_at.splits)

lemma pending_ok_step: "job_step A s s' \<Longrightarrow> threads_ok A s \<Longrightarrow> pending_ok s \<Longrightarrow> pending_ok s'"
proof (induction rule: job_step.induct)
  case (caller s s')
  then show ?case by (cases rule: caller_step.cases) (auto simp: pending_ok_def threads_ok_def)
next
  case (worker s s')
  then show ?case using execute_step_fixes by (fastforce simp: pending_ok_def)
next
  case (checks s s')
  then show ?case by (cases rule: without_gvl_step.cases) (auto simp: pending_ok_def threads_ok_def unwound_def)
next
  case (interrupted s s')
  then show ?case by (cases rule: interrupt_step.cases) (auto simp: pending_ok_def unblock_cancel_def)
qed


lemma job_inv_reachable: "job_reachable A w job s \<Longrightarrow> pending_ok s \<and> follows_batch A job s"
proof (induction rule: job_reachable.induct)
  case start
  then show ?case by (simp add: pending_ok_def follows_batch_def job_begin_def)
next
  case (step s s')
  note inv = step.IH threads_ok_reachable [OF step.hyps(1)]
  from step.hyps(2) have "follows_batch A job s'"
    by (cases rule: job_step.cases)
      (use inv in \<open>blast intro: follows_batch_execute follows_batch_caller follows_batch_without_gvl follows_batch_interrupt\<close>)+
  then show ?case using pending_ok_step [OF step.hyps(2)] inv by blast
qed

subsection \<open>Own steps and interrupts\<close>

text \<open>How many steps the two threads can still make without another interrupt.\<close>

fun worker_rank :: "nat \<Rightarrow> worker_at \<Rightarrow> nat \<Rightarrow> nat" where
  "worker_rank n NotStarted k = 3 * n + 10"
| "worker_rank n Entering k = 3 * n + 9"
| "worker_rank n Acquiring k = 3 * n + 8"
| "worker_rank n AtHead k = 3 * (n - k) + 7"
| "worker_rank n AtNext k = 3 * (n - k) + 6"
| "worker_rank n (AtText i) k = 3 * (n - k) + 8"
| "worker_rank n Releasing k = 3"
| "worker_rank n Exiting k = 2"
| "worker_rank n Ended k = 0"

fun caller_rank :: "caller_at \<Rightarrow> nat" where
  "caller_rank AtChoice = 9"
| "caller_rank AtCreate = 8"
| "caller_rank AtJoin = 7"
| "caller_rank (AtEnsure b) = 6"
| "caller_rank AtKill = 5"
| "caller_rank AtEnsureJoin = 4"
| "caller_rank InRun = 3"
| "caller_rank AtCheck = 2"
| "caller_rank (Leaving b) = 1"
| "caller_rank Returned = 0"
| "caller_rank Raised = 0"

definition job_rank :: "job_args \<Rightarrow> job_run \<Rightarrow> nat" where
  "job_rank A s = worker_rank (length (bi_lengths (ja_input A))) (jr_worker s) (jr_next s) + caller_rank (jr_caller s) +
     (if jr_pending s = Some Harmless then 1 else 0)"

text \<open>A run of a job with the number of the steps of its threads and the number of interrupts.\<close>

inductive job_trace :: "job_args \<Rightarrow> model_wrapper \<Rightarrow> batch_job \<Rightarrow> nat \<Rightarrow> nat \<Rightarrow> job_run \<Rightarrow> bool" for A w job where
  start: "job_trace A w job 0 0 (job_begin w job)"
| own: "job_trace A w job n k s \<Longrightarrow> caller_step A s s' \<or> execute_step A s s' \<or> without_gvl_step A s s' \<Longrightarrow>
    job_trace A w job (n + 1) k s'"
| interrupt: "job_trace A w job n k s \<Longrightarrow> interrupt_step A s s' \<Longrightarrow> job_trace A w job n (k + 1) s'"

lemma job_trace_reachable: "job_trace A w job n k s \<Longrightarrow> job_reachable A w job s"
  by (induction rule: job_trace.induct) (blast intro: job_reachable.intros job_step.intros)+

lemma rank_execute: "execute_step A s s' \<Longrightarrow> follows_batch A job s \<Longrightarrow> job_rank A s' < job_rank A s"
  by (induction rule: execute_step.induct) (auto simp: job_rank_def follows_batch_def)

lemma rank_caller: "caller_step A s s' \<Longrightarrow> threads_ok A s \<Longrightarrow> job_rank A s' < job_rank A s"
  by (induction rule: caller_step.induct) (auto simp: job_rank_def threads_ok_def)

lemma rank_without_gvl: "without_gvl_step A s s' \<Longrightarrow> threads_ok A s \<Longrightarrow> job_rank A s' < job_rank A s"
  by (induction rule: without_gvl_step.induct) (auto simp: job_rank_def unwound_def threads_ok_def split: caller_at.splits)

lemma rank_interrupt: "interrupt_step A s s' \<Longrightarrow> job_rank A s' \<le> job_rank A s + 1"
  by (induction rule: interrupt_step.induct) (auto simp: job_rank_def unblock_cancel_def)

lemma trace_rank: "job_trace A w job n k s \<Longrightarrow> n + job_rank A s \<le> 3 * length (bi_lengths (ja_input A)) + 19 + k"
proof (induction rule: job_trace.induct)
  case start
  then show ?case by (simp add: job_rank_def job_begin_def)
next
  case (own n k s s')
  note inv = threads_ok_reachable job_inv_reachable [THEN conjunct2]
  have "job_rank A s' < job_rank A s"
    using own.hyps(2) rank_execute rank_caller rank_without_gvl
      inv [OF job_trace_reachable [OF own.hyps(1)]] by blast
  then show ?case using own.IH by simp
next
  case (interrupt n k s s')
  then show ?case using rank_interrupt by fastforce
qed

text \<open>Once the flag is set at most one more text is begun.\<close>

definition texts_to_begin :: "job_run \<Rightarrow> nat" where
  "texts_to_begin s = (if jr_worker s = AtNext then 1 else 0)"

lemma cancel_step:
  assumes "job_step A s s'" "jr_cancelled s"
  shows "jr_cancelled s' \<and> jr_next s' + texts_to_begin s' \<le> jr_next s + texts_to_begin s"
  using assms
proof (induction rule: job_step.induct)
  case (caller s s')
  then show ?case by (cases rule: caller_step.cases) (auto simp: texts_to_begin_def)
next
  case (worker s s')
  then show ?case by (cases rule: execute_step.cases) (auto simp: texts_to_begin_def)
next
  case (checks s s')
  then show ?case by (cases rule: without_gvl_step.cases) (auto simp: texts_to_begin_def unwound_def)
next
  case (interrupted s s')
  then show ?case by (cases rule: interrupt_step.cases) (auto simp: texts_to_begin_def unblock_cancel_def)
qed

lemma cancel_steps:
  assumes "(job_step A)\<^sup>*\<^sup>* s s'" "jr_cancelled s"
  shows "jr_cancelled s' \<and> jr_next s' + texts_to_begin s' \<le> jr_next s + texts_to_begin s"
  using assms
proof (induction rule: rtranclp_induct)
  case (step s1 s2)
  then show ?case using cancel_step [OF step.hyps(2)] by fastforce
qed simp

subsection \<open>Undisturbed runs\<close>

lemma reach_caller: "job_reachable A w job s \<Longrightarrow> caller_step A s s' \<Longrightarrow> job_reachable A w job s'"
  by (blast intro: job_reachable.step job_step.caller)

lemma reach_execute: "job_reachable A w job s \<Longrightarrow> execute_step A s s' \<Longrightarrow> job_reachable A w job s'"
  by (blast intro: job_reachable.step job_step.worker)

lemma reach_without_gvl: "job_reachable A w job s \<Longrightarrow> without_gvl_step A s s' \<Longrightarrow> job_reachable A w job s'"
  by (blast intro: job_reachable.step job_step.checks)

lemma reach_interrupt: "job_reachable A w job s \<Longrightarrow> interrupt_step A s s' \<Longrightarrow> job_reachable A w job s'"
  by (blast intro: job_reachable.step job_step.interrupted)

definition undisturbed :: "job_args \<Rightarrow> bool" where
  "undisturbed A \<longleftrightarrow> (\<forall>i. \<not> be_cancelled (ja_env A) (ja_round A) i \<and>
     (\<forall>k. \<not> env_cancelled (be_text (ja_env A) (ja_round A) i) k))"

definition same_call :: "job_run \<Rightarrow> job_run \<Rightarrow> bool" where
  "same_call s s' \<longleftrightarrow> jr_caller s' = jr_caller s \<and> jr_thread s' = jr_thread s \<and> jr_pending s' = jr_pending s \<and>
     jr_struck s' = jr_struck s"

lemma loop_runs:
  assumes "undisturbed A"
  shows "job_reachable A w job0 s \<Longrightarrow> jr_worker s = AtHead \<Longrightarrow> \<not> jr_cancelled s \<Longrightarrow>
    batch_worker_run (ja_env A) (ja_round A) (ja_model A) (ja_max_tokens A) (ja_input A) (ja_index A) (jr_next s)
      (jr_scratch s) (jr_job s) = Inr (sc', job') \<Longrightarrow>
    \<exists>s'. job_reachable A w job0 s' \<and> same_call s s' \<and> jr_worker s' = Releasing \<and> jr_held s' = jr_held s \<and>
      jr_scratch s' = sc' \<and> jr_job s' = job'"
proof (induction "length (bi_lengths (ja_input A)) - jr_next s" arbitrary: s rule: less_induct)
  case less
  let ?i = "jr_next s"
  have calm: "\<not> be_cancelled (ja_env A) (ja_round A) ?i"
    "\<forall>k. \<not> env_cancelled (be_text (ja_env A) (ja_round A) ?i) k" using assms by (auto simp: undisturbed_def)
  have at_next: "job_reachable A w job0 (s\<lparr>jr_worker := AtNext\<rparr>)"
    by (rule reach_execute [OF less.prems(1) execute_step.goes_on]) (use less.prems calm in auto)
  show ?case
  proof (cases "?i \<ge> length (bi_lengths (ja_input A)) \<or> bj_failed (jr_job s)")
    case True
    then have "sc' = jr_scratch s" "job' = jr_job s" using less.prems(4) calm by (auto simp: batch_worker_run.simps)
    then show ?thesis using reach_execute [OF at_next execute_step.no_more] True
      by (intro exI [of _ "s\<lparr>jr_worker := Releasing, jr_next := ?i + 1\<rparr>"]) (auto simp: same_call_def)
  next
    case False
    from less.prems(4) False calm obtain row sc1 job1 where r: "rdR (ja_index A) ?i = Inr row"
      and one: "batch_one (ja_env A) (ja_round A) (ja_model A) (ja_max_tokens A) (ja_input A) ?i row (jr_scratch s) (jr_job s)
        = Inr (sc1, job1)"
      and rest: "(if bj_failed job1 then Inr (sc1, job1) else
        batch_worker_run (ja_env A) (ja_round A) (ja_model A) (ja_max_tokens A) (ja_input A) (ja_index A) (?i + 1) sc1 job1)
        = Inr (sc', job')"
      by (auto simp: batch_worker_run.simps [of _ _ _ _ _ _ ?i] bindR_eq_Inr split: if_splits)
    have at_text: "job_reachable A w job0 (s\<lparr>jr_worker := AtText ?i, jr_next := ?i + 1\<rparr>)"
      using reach_execute [OF at_next execute_step.next_text] False by simp
    then obtain s1 where after: "job_reachable A w job0 s1" and s1: "same_call s s1" "jr_held s1 = jr_held s"
      "jr_worker s1 = (if bj_failed job1 then Releasing else AtHead)" "jr_next s1 = ?i + 1" "jr_scratch s1 = sc1"
      "jr_job s1 = job1" "jr_cancelled s1 = jr_cancelled s"
      using reach_execute [OF at_text execute_step.one_text [where i = ?i and row = row and sc = sc1 and job = job1]] r one calm
      by (fastforce simp: same_call_def)
    show ?thesis
    proof (cases "bj_failed job1")
      case True
      then show ?thesis using after s1 rest by (intro exI [of _ s1]) auto
    next
      case go: False
      have shorter: "length (bi_lengths (ja_input A)) - jr_next s1 < length (bi_lengths (ja_input A)) - ?i"
        using s1(4) False by linarith
      obtain s' where "job_reachable A w job0 s'" "same_call s1 s'" "jr_worker s' = Releasing" "jr_held s' = jr_held s1"
        "jr_scratch s' = sc'" "jr_job s' = job'"
        using less.hyps [OF shorter after] rest less.prems(3) s1 go by auto
      then show ?thesis using s1 by (intro exI [of _ s']) (auto simp: same_call_def)
    qed
  qed
qed

lemma worker_runs:
  assumes "undisturbed A" "whole A job = Inr job'"
    and "job_reachable A w job0 s" "jr_worker s = Acquiring" "\<not> jr_cancelled s" "jr_job s = job" "jr_next s = 0"
  shows "\<exists>s'. job_reachable A w job0 s' \<and> same_call s s' \<and> jr_worker s' = after_execute A \<and> jr_job s' = job'"
proof -
  obtain th q where acq: "se_scratch_acquire (be_acquire (ja_env A) (ja_round A)) (be_thread (ja_env A) (ja_round A))
      (mt_dim (md_meta (ja_model A))) = (th, q)" by (metis surj_pair)
  show ?thesis
  proof (cases q)
    case None
    then have "job' = job\<lparr>bj_error := scratch_oom, bj_failed := True\<rparr>" using assms(2) acq by (simp add: batch_execute_def)
    then show ?thesis using reach_execute [OF assms(3) execute_step.no_scratch [OF assms(4)]] acq None assms(6)
      by (intro exI [of _ "s\<lparr>jr_worker := after_execute A, jr_job := job'\<rparr>"]) (auto simp: same_call_def)
  next
    case (Some p)
    then obtain sc where at: "scratch_at th p = Some sc" using acquired_at acq by blast
    from assms(2) acq Some at obtain sc' th' where
      run: "batch_worker_run (ja_env A) (ja_round A) (ja_model A) (ja_max_tokens A) (ja_input A) (ja_index A) 0 sc job = Inr (sc', job')"
      and rel: "se_scratch_release (be_acquire (ja_env A) (ja_round A)) (scratch_put th p sc') (Some p) = Inr th'"
      by (auto simp: batch_execute_def bindR_eq_Inr)
    have "job_reachable A w job0 (s\<lparr>jr_worker := AtHead, jr_held := (th, p), jr_scratch := sc\<rparr>)"
      by (rule reach_execute [OF assms(3) execute_step.acquire]) (use assms(4) acq Some at in auto)
    from loop_runs [OF assms(1) this, of sc' job'] run assms(5-7) obtain s1 where
      s1: "job_reachable A w job0 s1" "same_call s s1" "jr_worker s1 = Releasing" "jr_held s1 = (th, p)" "jr_scratch s1 = sc'"
        "jr_job s1 = job'"
      by (auto simp: same_call_def)
    from reach_execute [OF s1(1) execute_step.release [OF s1(3,4)]] rel s1 show ?thesis
      by (intro exI [of _ "s1\<lparr>jr_worker := after_execute A\<rparr>"]) (auto simp: same_call_def)
  qed
qed

text \<open>Without interrupts the call returns what \<^verbatim>\<open>batch_execute\<close> leaves in the job.\<close>

lemma job_runs:
  assumes "undisturbed A" "whole A job = Inr job'"
  shows "\<exists>s. job_reachable A w job s \<and> jr_caller s = Returned \<and> jr_job s = job' \<and> \<not> jr_struck s"
proof -
  let ?s0 = "job_begin w job"
  note start = job_reachable.start [of A w job]
  have b: "jr_caller ?s0 = AtChoice" "jr_pending ?s0 = None" "\<not> jr_cancelled ?s0" "jr_next ?s0 = 0" "jr_job ?s0 = job"
    "\<not> jr_thread ?s0" "\<not> jr_struck ?s0" by (simp_all add: job_begin_def)
  obtain s1 where s1: "job_reachable A w job s1" "jr_caller s1 = (if job_mode A = FiberWorker then AtJoin else InRun)"
    "jr_worker s1 = Acquiring" "\<not> jr_cancelled s1" "jr_job s1 = job" "jr_next s1 = 0" "jr_pending s1 = None" "\<not> jr_struck s1"
  proof (cases "job_mode A")
    case FiberWorker
    have "job_reachable A w job (?s0\<lparr>jr_caller := AtCreate\<rparr>)"
      by (rule reach_caller [OF start caller_step.fiber [OF b(1) FiberWorker]])
    from reach_without_gvl [OF reach_caller [OF this caller_step.create] without_gvl_step.enter] show ?thesis
      using b FiberWorker that by simp
  next
    case WithoutGvl
    from reach_without_gvl [OF reach_caller [OF start caller_step.without_gvl [OF b(1) WithoutGvl]] without_gvl_step.enter]
    show ?thesis using b WithoutGvl that by simp
  next
    case UnderGvl
    then show ?thesis using reach_caller [OF start caller_step.in_place [OF b(1) UnderGvl]] b that by simp
  qed
  from worker_runs [OF assms s1(1,3-6)] obtain s2 where
    s2: "job_reachable A w job s2" "same_call s1 s2" "jr_worker s2 = after_execute A" "jr_job s2 = job'" by blast
  obtain s3 where s3: "job_reachable A w job s3" "same_call s1 s3" "jr_worker s3 = Ended" "jr_job s3 = job'"
  proof (cases "job_mode A = UnderGvl")
    case True
    then show ?thesis using s2 that by simp
  next
    case False
    then show ?thesis using reach_without_gvl [OF s2(1) without_gvl_step.exit] s2 s1 that by (auto simp: same_call_def)
  qed
  obtain s4 where s4: "job_reachable A w job s4" "jr_caller s4 = Leaving False" "jr_job s4 = job'" "\<not> jr_struck s4"
  proof (cases "job_mode A = FiberWorker")
    case True
    then have "job_reachable A w job (s3\<lparr>jr_caller := AtEnsure False, jr_thread := False\<rparr>)"
      by (intro reach_caller [OF s3(1) caller_step.join]) (use s1 s3 in \<open>auto simp: same_call_def\<close>)
    from reach_caller [OF this caller_step.ensure_nothing [of _ False]] show ?thesis using that s1 s3 by (simp add: same_call_def)
  next
    case False
    then have "job_reachable A w job (s3\<lparr>jr_caller := AtCheck\<rparr>)"
      by (intro reach_caller [OF s3(1) caller_step.run_done]) (use s1 s3 in \<open>auto simp: same_call_def\<close>)
    from reach_caller [OF this caller_step.check_ints [where raises = False]] show ?thesis
      using that s1 s3 by (simp add: same_call_def)
  qed
  from reach_caller [OF s4(1) caller_step.leave [OF s4(2)]] s4 show ?thesis
    by (intro exI [of _ "s4\<lparr>jr_caller := Returned, jr_owner := run_job_ensure (jr_owner s4)\<rparr>"]) auto
qed

subsection \<open>Interrupts that the call does not survive\<close>

text \<open>
  A second interrupt during \<^verbatim>\<open>fiber_worker_ensure\<close>: the call is left and the operation is no longer counted, but the
  worker has just acquired its scratch and goes on with a job and an input that are freed.
\<close>

lemma second_interrupt_abandons:
  assumes "job_mode A = FiberWorker"
    and "se_scratch_acquire (be_acquire (ja_env A) (ja_round A)) (be_thread (ja_env A) (ja_round A)) (mt_dim (md_meta (ja_model A)))
      = (th, Some p)"
  shows "\<exists>s. job_reachable A w job s \<and> jr_caller s = Raised \<and> jr_worker s = AtHead \<and>
    mw_active_ops (jr_owner s) = mw_active_ops w"
proof -
  let ?s0 = "job_begin w job"
  obtain sc where sc: "scratch_at th p = Some sc" using acquired_at assms(2) by blast
  let ?s1 = "?s0\<lparr>jr_caller := AtJoin, jr_thread := True, jr_worker := AtHead, jr_held := (th, p), jr_scratch := sc\<rparr>"
  have "job_reachable A w job (?s0\<lparr>jr_caller := AtCreate\<rparr>)"
    by (rule reach_caller [OF job_reachable.start caller_step.fiber]) (use assms(1) in \<open>simp_all add: job_begin_def\<close>)
  from reach_caller [OF this caller_step.create]
  have "job_reachable A w job (?s0\<lparr>jr_caller := AtJoin, jr_thread := True, jr_worker := Entering\<rparr>)" by simp
  from reach_without_gvl [OF this without_gvl_step.enter]
  have "job_reachable A w job (?s0\<lparr>jr_caller := AtJoin, jr_thread := True, jr_worker := Acquiring\<rparr>)"
    by (simp add: job_begin_def)
  from reach_execute [OF this execute_step.acquire [OF _ assms(2) sc]] have "job_reachable A w job ?s1" by simp
  from reach_caller [OF this caller_step.join_raises]
  have "job_reachable A w job (?s1\<lparr>jr_caller := AtEnsure True\<rparr>)" by simp
  from reach_caller [OF this caller_step.ensure_cancel [of _ True]]
  have "job_reachable A w job (?s1\<lparr>jr_caller := AtKill, jr_cancelled := True\<rparr>)" by simp
  from reach_caller [OF this caller_step.ensure_kill]
  have "job_reachable A w job (?s1\<lparr>jr_cancelled := True, jr_caller := AtEnsureJoin, jr_pending := Some Fatal\<rparr>)" by simp
  from reach_caller [OF this caller_step.ensure_cut]
  have left: "job_reachable A w job
      (?s1\<lparr>jr_cancelled := True, jr_pending := Some Fatal, jr_caller := Leaving True, jr_abandoned := True\<rparr>)"
    (is "job_reachable A w job ?s2") by simp
  show ?thesis using reach_caller [OF left caller_step.leave [of _ True]]
    by (intro exI [of _ "?s2\<lparr>jr_caller := Raised, jr_owner := run_job_ensure (jr_owner ?s2)\<rparr>"])
      (simp add: job_begin_def ops_restored)
qed

text \<open>
  A worker that is killed from outside before it begins: \<^verbatim>\<open>Thread#join\<close> returns, and the job that the caller reads is the
  one it has started with, without a failure.
\<close>

lemma killed_worker_returns:
  assumes "job_mode A = FiberWorker"
  shows "\<exists>s. job_reachable A w job s \<and> jr_caller s = Returned \<and> jr_job s = job \<and> \<not> jr_abandoned s"
proof -
  let ?s0 = "job_begin w job"
  let ?s1 = "?s0\<lparr>jr_caller := AtJoin, jr_thread := True, jr_worker := Entering\<rparr>"
  have "job_reachable A w job (?s0\<lparr>jr_caller := AtCreate\<rparr>)"
    by (rule reach_caller [OF job_reachable.start caller_step.fiber]) (use assms(1) in \<open>simp_all add: job_begin_def\<close>)
  from reach_caller [OF this caller_step.create] have "job_reachable A w job ?s1" by simp
  from reach_interrupt [OF this interrupt_step.strike]
  have "job_reachable A w job (?s1\<lparr>jr_pending := Some Fatal, jr_struck := True\<rparr>)" using assms by simp
  from reach_without_gvl [OF this without_gvl_step.fatal]
  have "job_reachable A w job (?s1\<lparr>jr_pending := Some Fatal, jr_struck := True, jr_worker := Ended\<rparr>)"
    using assms by (auto simp: unwound_def job_begin_def)
  from reach_caller [OF this caller_step.join]
  have "job_reachable A w job (?s1\<lparr>jr_pending := Some Fatal, jr_struck := True, jr_worker := Ended,
      jr_caller := AtEnsure False, jr_thread := False\<rparr>)" by simp
  from reach_caller [OF this caller_step.ensure_nothing [of _ False]]
  have left: "job_reachable A w job (?s1\<lparr>jr_pending := Some Fatal, jr_struck := True, jr_worker := Ended,
      jr_thread := False, jr_caller := Leaving False\<rparr>)" (is "job_reachable A w job ?s2") by simp
  show ?thesis using reach_caller [OF left caller_step.leave [of _ False]]
    by (intro exI [of _ "?s2\<lparr>jr_caller := Returned, jr_owner := run_job_ensure (jr_owner ?s2)\<rparr>"])
      (simp add: job_begin_def)
qed

text \<open>
  A signal whose handler returns: \<^verbatim>\<open>unblock_cancel\<close> answers every interrupt, and the job fails although nothing has
  asked to stop it.
\<close>

lemma signal_fails_job:
  assumes "job_mode A = WithoutGvl" and flag: "be_cancelled (ja_env A) (ja_round A) 0"
    and acq: "se_scratch_acquire (be_acquire (ja_env A) (ja_round A)) (be_thread (ja_env A) (ja_round A))
      (mt_dim (md_meta (ja_model A))) = (th, Some p)"
  shows "\<exists>s. job_reachable A w job s \<and> jr_caller s = Returned \<and> \<not> jr_struck s \<and>
    jr_job s = job\<lparr>bj_error := operation_cancelled_error, bj_failed := True\<rparr>"
proof -
  let ?s0 = "job_begin w job" and ?job = "job\<lparr>bj_error := operation_cancelled_error, bj_failed := True\<rparr>"
  obtain sc where sc: "scratch_at th p = Some sc" using acquired_at acq by blast
  obtain th' where rel: "se_scratch_release (be_acquire (ja_env A) (ja_round A)) (scratch_put th p sc) (Some p) = Inr th'"
    using release_put [OF sc] by blast
  have "job_reachable A w job (?s0\<lparr>jr_caller := InRun, jr_worker := Entering\<rparr>)"
    by (rule reach_caller [OF job_reachable.start caller_step.without_gvl]) (use assms(1) in \<open>simp_all add: job_begin_def\<close>)
  from reach_without_gvl [OF this without_gvl_step.enter]
  have "job_reachable A w job (?s0\<lparr>jr_caller := InRun, jr_worker := Acquiring\<rparr>)" by (simp add: job_begin_def)
  from reach_execute [OF this execute_step.acquire [OF _ acq sc]]
  have "job_reachable A w job (?s0\<lparr>jr_caller := InRun, jr_worker := AtHead, jr_held := (th, p), jr_scratch := sc\<rparr>)"
    (is "job_reachable A w job ?s1") by simp
  from reach_interrupt [OF this interrupt_step.signal]
  have "job_reachable A w job (?s1\<lparr>jr_pending := Some Harmless\<rparr>)" using assms(1) by (simp add: job_begin_def)
  from reach_interrupt [OF this interrupt_step.unblock]
  have "job_reachable A w job (?s1\<lparr>jr_pending := Some Harmless, jr_cancelled := True\<rparr>)"
    using assms(1) by (simp add: unblock_cancel_def executing_def)
  from reach_execute [OF this execute_step.sees_cancel]
  have "job_reachable A w job (?s1\<lparr>jr_pending := Some Harmless, jr_cancelled := True, jr_worker := Releasing, jr_job := ?job\<rparr>)"
    (is "job_reachable A w job ?s2") using flag by (simp add: job_begin_def)
  from reach_execute [OF this execute_step.release [of _ th p]] rel assms(1)
  have "job_reachable A w job (?s2\<lparr>jr_worker := Exiting\<rparr>)" by simp
  from reach_without_gvl [OF this without_gvl_step.harmless]
  have "job_reachable A w job (?s2\<lparr>jr_worker := Exiting, jr_pending := None\<rparr>)" by simp
  from reach_without_gvl [OF this without_gvl_step.exit]
  have "job_reachable A w job (?s2\<lparr>jr_pending := None, jr_worker := Ended\<rparr>)" by simp
  from reach_caller [OF this caller_step.run_done]
  have "job_reachable A w job (?s2\<lparr>jr_pending := None, jr_worker := Ended, jr_caller := AtCheck\<rparr>)" by simp
  from reach_caller [OF this caller_step.check_ints [of _ _ False]]
  have left: "job_reachable A w job (?s2\<lparr>jr_pending := None, jr_worker := Ended, jr_caller := Leaving False\<rparr>)"
    (is "job_reachable A w job ?s3") by simp
  show ?thesis using reach_caller [OF left caller_step.leave [of _ False]]
    by (intro exI [of _ "?s3\<lparr>jr_caller := Returned, jr_owner := run_job_ensure (jr_owner ?s3)\<rparr>"])
      (simp add: job_begin_def)
qed

lemma still_when_left:
  assumes "left s" "jr_worker s \<in> {NotStarted, Ended}"
  shows "\<not> job_step A s s'"
  using assms
  by (auto simp: left_def executing_def elim!: job_step.cases execute_step.cases caller_step.cases without_gvl_step.cases interrupt_step.cases)

subsection \<open>Properties\<close>

text \<open>
  Property C36: an operation is counted in \<^verbatim>\<open>active_ops\<close> exactly as long as its call has not been left, and after that no
  thread touches the job: the worker has ended or never began, and no step of any thread or interrupt follows.  This holds
  for every interleaving of the two threads and every interrupt, up to one case: a fiber worker whose
  \<^verbatim>\<open>fiber_worker_ensure\<close> was itself cut by an interrupt.
\<close>

theorem job_threads_safe:
  assumes "job_reachable A w job s" and "\<not> jr_abandoned s \<or> job_mode A \<noteq> FiberWorker"
  shows "if jr_caller s \<in> {Returned, Raised}
    then jr_worker s \<in> {NotStarted, Ended} \<and> mw_active_ops (jr_owner s) = mw_active_ops w \<and> (\<nexists>s'. job_step A s s')
    else mw_active_ops (jr_owner s) = mw_active_ops w + 1"
proof -
  note inv = threads_ok_reachable [OF assms(1)] owner_ok_reachable [OF assms(1)]
  have "jr_worker s \<in> {NotStarted, Ended}" if "left s"
    using that inv(1) assms(2) by (auto simp: left_def threads_ok_def)
  moreover have "\<not> job_step A s s'" if "left s" "jr_worker s \<in> {NotStarted, Ended}" for s'
    using that still_when_left by blast
  ultimately show ?thesis using inv(2) ops_restored [of w]
    by (auto simp: owner_ok_def left_def protected_run_job_def)
qed

text \<open>A job of one text of 2048 bytes in a fiber of a scheduler.\<close>

definition example_args :: job_args where
  "example_args =
     \<lparr>ja_fiber = \<lparr>fe_schedulers = True, fe_current = QObject 0, fe_responds = True, fe_blocking = False\<rparr>,
       ja_env = example_batch_env, ja_round = 0, ja_model = example_model, ja_max_tokens = 1,
       ja_input = \<lparr>bi_base = replicate 2048 0x61, bi_offsets = [0], bi_lengths = [2048]\<rparr>, ja_index = [0]\<rparr>"

definition example_job :: batch_job where
  "example_job = job_start (run_start 1 (unat (mt_dim (md_meta example_model))) 0)"

lemma example_mode: "job_mode example_args = FiberWorker"
  by (simp add: job_mode_def example_args_def current_fiber_scheduler_def current_fiber_is_blocking_def run_job_body_def
      run_mode_of_def SE_FIBER_THRESHOLD_def)

lemma example_undisturbed: "undisturbed example_args"
  by (simp add: undisturbed_def example_args_def example_batch_env_def example_env_def)

lemma example_job_done: "\<exists>job'. whole example_args example_job = Inr job'"
proof -
  have "\<exists>job'. batch_execute example_batch_env 0 example_model 1 (ja_input example_args) [0] example_job = Inr job' \<and>
      job_result example_model 1 [replicate 2048 0x61] [0] 0 example_job job'"
    by (rule example_written.batch_execute_result [where N = 1])
      (simp_all add: staged_def batch_text_def example_args_def example_job_def job_start_def run_start_def job_ok_def)
  then show ?thesis by (auto simp: example_args_def)
qed

lemma reachable_trace: "job_reachable A w job s \<Longrightarrow> \<exists>n k. job_trace A w job n k s"
proof (induction rule: job_reachable.induct)
  case start
  then show ?case using job_trace.start by blast
next
  case (step s s')
  then obtain n k where "job_trace A w job n k s" by blast
  with step.hyps(2) show ?case
    by (cases rule: job_step.cases) (blast intro: job_trace.own job_trace.interrupt)+
qed

theorem job_threads_safe_witness:
  "\<exists>s. jr_caller s = Returned \<and> jr_job s = example_job \<and> (\<nexists>s'. job_step example_args s s')"
proof -
  obtain s where "job_reachable example_args model_alloc example_job s" "jr_caller s = Returned" "jr_job s = example_job"
    "\<not> jr_abandoned s" using killed_worker_returns [OF example_mode] by blast
  then show ?thesis using job_threads_safe by fastforce
qed

text \<open>
  Property C37: when \<^verbatim>\<open>run_job\<close> returns, the job holds what \<^verbatim>\<open>batch_execute\<close> computes from its start to its end, in whichever
  thread it has run and however the threads were scheduled; the one exception is a fiber worker that something outside of
  the call has killed before it began, which leaves the job as it was.  The threads make at most three steps for each text and nineteen
  more, and one for each interrupt.  Without cancellation some run does return, with this result.
\<close>

theorem job_return_exact:
  assumes "job_trace A w job n k s"
  shows "n \<le> 3 * length (bi_lengths (ja_input A)) + 19 + k \<and>
    (jr_caller s = Returned \<longrightarrow>
       batch_execute (ja_env A) (ja_round A) (ja_model A) (ja_max_tokens A) (ja_input A) (ja_index A) job = Inr (jr_job s) \<or>
       job_mode A = FiberWorker \<and> jr_struck s \<and> jr_job s = job) \<and>
    (\<forall>job'. undisturbed A \<and>
       batch_execute (ja_env A) (ja_round A) (ja_model A) (ja_max_tokens A) (ja_input A) (ja_index A) job = Inr job' \<longrightarrow>
       (\<exists>s'. job_reachable A w job s' \<and> jr_caller s' = Returned \<and> jr_job s' = job' \<and> \<not> jr_struck s'))"
proof -
  note reach = job_trace_reachable [OF assms]
  have "threads_ok A s" "follows_batch A job s" using threads_ok_reachable [OF reach] job_inv_reachable [OF reach] by auto
  then have "whole A job = Inr (jr_job s) \<or> job_mode A = FiberWorker \<and> jr_struck s \<and> jr_job s = job" if "jr_caller s = Returned"
    using that by (auto simp: threads_ok_def follows_batch_def)
  then show ?thesis using trace_rank [OF assms] job_runs by auto
qed

theorem job_return_exact_witness:
  "\<exists>s job'. batch_execute example_batch_env 0 example_model 1 (ja_input example_args) [0] example_job = Inr job' \<and>
     job_reachable example_args model_alloc example_job s \<and> jr_caller s = Returned \<and> jr_job s = job'"
  using job_return_exact [OF job_trace.start, of example_args model_alloc example_job] example_undisturbed example_job_done
  by (auto simp: example_args_def)

end
