(* ===== verification/Spec2Isabelle.thy ===== *)
theory Spec2Isabelle
  imports SeBase SizeArith Unicode Tables Bytes Trie VocabHash Format Example Scratch Wordpiece Tokenizer
    TokenizeSpec TokenizeRun TokenizeProps Prefix Floats F16 Dot TopK Ruby Options
    TopKCall Embed Batch BatchProps AllocStats Lifecycle Calls JobThreads
begin

text \<open>
  \<^bold>\<open>What this development is about.\<close>  The C extension under \<^verbatim>\<open>src/ext/static_embeddings\<close> turns text
  into vectors.  A model file is mapped and checked by \<^verbatim>\<open>validate\<close> (\<^verbatim>\<open>se_format.c\<close>); the tokenizer
  (\<^verbatim>\<open>se_tokenizer.c\<close>, with the character tables and UTF-8 routines of \<^verbatim>\<open>se_unicode.c\<close>) cuts a text
  into WordPiece token ids; the embedder averages one row of the matrix per token; rows are stored
  as single or half precision numbers (\<^verbatim>\<open>se_f16.c\<close>); and a top-k search ranks rows by their dot
  product with a query.  \<^verbatim>\<open>se_internal.h\<close> declares the shared data types and the checked size
  arithmetic, and \<^verbatim>\<open>static_embeddings.c\<close> binds it all to Ruby.

  \<^bold>\<open>Theories and the code they model.\<close>
  \<^item> \<open>SeBase\<close>: machine integers, the status codes and the result type \<open>'a se_result\<close>, checked array
    reads and writes, lemmas on words.  \<open>Inl OutOfBounds\<close> stands for an access outside an array.
  \<^item> \<open>SizeArith\<close>: \<^verbatim>\<open>se_checked_add_size\<close>, \<^verbatim>\<open>se_checked_mul_size\<close>, \<^verbatim>\<open>se_next_capacity\<close> and the other
    inline functions of \<^verbatim>\<open>se_internal.h\<close> that compute with \<^verbatim>\<open>size_t\<close>.
  \<^item> \<open>Unicode\<close>: \<^verbatim>\<open>se_utf8_encode\<close>, \<^verbatim>\<open>se_utf8_decode\<close>, \<^verbatim>\<open>decode_one\<close>, the fixed character classes.
  \<^item> \<open>Model\<close>: the structs of a loaded model (\<^verbatim>\<open>se_internal.h\<close>) as records and its invariant.
  \<^item> \<open>Tables\<close>: the normalization tables, their validation, the 256-entry fast tables of
    \<^verbatim>\<open>prepare_norm_fast_tables\<close>, the binary searches and the character predicates of the tokenizer.
  \<^item> \<open>Bytes\<close>, \<open>Trie\<close>, \<open>VocabHash\<close>, \<open>Format\<close>: little-endian reads, \<^verbatim>\<open>parse_trie\<close> and
    \<^verbatim>\<open>se_trie_longest_match\<close>, the open-addressing vocabulary table, and \<^verbatim>\<open>validate\<close> with the header,
    the sections and the normalization section.
  \<^item> \<open>Example\<close>: a complete small file, on which the properties are applied.
  \<^item> \<open>Scratch\<close>: the growable buffers \<^verbatim>\<open>se_scratch_t\<close> and the slot each thread keeps for one of them.
    Only the capacities decide what the code does, so a buffer is its capacity.
  \<^item> \<open>Wordpiece\<close>: \<^verbatim>\<open>wordpiece\<close>, the ids of one word.
  \<^item> \<open>Tokenizer\<close>: \<^verbatim>\<open>se_tokenize\<close> and the functions it calls, \<open>TokenizeSpec\<close>: what it is to compute,
    \<open>TokenizeRun\<close>: the refinement proof, \<open>TokenizeProps\<close>: bounds, memory safety and the properties.
  \<^item> \<open>Prefix\<close>: \<^verbatim>\<open>se_prefix_boundary_len\<close>, where a long text may be cut before it is tokenized.
  \<^item> \<open>Floats\<close>: the arithmetic of IEEE 754 on bit patterns.  \<open>F16\<close>: the conversions of \<^verbatim>\<open>se_f16.c\<close>, its table and the
    choice of its kernels.  \<open>Dot\<close>: the dot products of \<^verbatim>\<open>se_topk.c\<close> and \<^verbatim>\<open>se_f16.c\<close>.  \<open>TopK\<close>: \<^verbatim>\<open>se_topk_execute\<close>.
  \<^item> \<open>Embed\<close>: pooling, \<^verbatim>\<open>se_embed_one\<close>, \<^verbatim>\<open>se_embed_ids\<close> and \<^verbatim>\<open>se_model_warmup\<close> of \<^verbatim>\<open>se_embed.c\<close>.
  \<^item> \<open>AllocStats\<close>: the counters and the block headers of \<^verbatim>\<open>se_alloc_stats.c\<close>, as threads that make atomic accesses.
  \<^item> \<open>Ruby\<close>, \<open>Options\<close>: exceptions, keyword arguments and option values of \<^verbatim>\<open>static_embeddings.c\<close>.  \<open>TopKCall\<close>:
    \<^verbatim>\<open>cosine_top_k\<close> and \<^verbatim>\<open>dot_top_k\<close>.  \<open>Batch\<close>, \<open>BatchProps\<close>: \<^verbatim>\<open>embed_texts_internal\<close> with its windows, rounds and jobs, and
    their proof.  \<open>Calls\<close>: the methods for one text and for token ids.  \<open>Lifecycle\<close>: opening, closing and collecting a
    model, with \<^verbatim>\<open>se_model_open\<close> and \<^verbatim>\<open>se_model_close\<close> of \<^verbatim>\<open>se_format.c\<close>.  \<open>JobThreads\<close>: \<^verbatim>\<open>run_job\<close> and the fiber worker,
    as steps of two threads with interrupts.

  \<^bold>\<open>How state and control are rendered.\<close>  A struct is a record with the fields of the source, an
  integer has its width, a pointer into an array is an index.  A function that changes a struct
  through a pointer returns the changed record.  A loop is a recursive function on what is left, or
  takes a number of rounds that bounds it.  Whether an allocation succeeds is an argument
  (\<open>alloc_ok\<close>, a function from sizes to answers), and so is whether the cancel flag is set when
  it is read; the theorems hold for all of them.  Character codes are bytes and code points; strings
  of the source appear as byte lists.

  \<^bold>\<open>What the lemmas show.\<close>  Loading: no read outside the file whatever its bytes are, and every
  accepted file satisfies \<open>model_ok\<close>.  Tables, tries and hash: each routine equals a plain reference
  (a linear search, a finite map, a slot that stores the string).  Tokenizing: on an accepted model
  every access stays in its buffer, and the ids are those of the specification \<open>tokenize_spec\<close> on
  code points; the ASCII fast path, the segment buffer, the eager flushing and the token limit are
  refinements of it.  Floating point: encoding to half
  precision gives a nearest number and decoding is exact; the kernels of a dot product add the same products in
  different orders, and agree on integers.  Pooling: the result of \<^verbatim>\<open>se_embed_one\<close> is the scaled sum of the rows in token
  order (\<open>embeds\<close>).  Batches and calls: the strings that the methods return hold the embeddings of the whole texts although
  long texts are tokenized through windows, the rounds of windows end, and every exception is accounted for.  Top-k: the
  best lists are the first rows of the ranking, and the calls return the ranking for their own arguments.  Counters, life
  cycle and the threads of a job: invariants of step relations, by rule induction over all interleavings of their steps; when a job
  returns, it holds what \<^verbatim>\<open>batch_execute\<close> computes, unless the fiber worker was killed from outside before it began.

  \<^bold>\<open>Interfaces.\<close>  The locales \<open>loaded_model\<close> and \<open>accepted_model\<close> state what the tokenizer relies on, and
  \<open>embedding_model\<close> what the batches rely on; \<open>validate_Inr\<close> and \<open>validate_added_known\<close> discharge their laws
  for every model that \<^verbatim>\<open>validate\<close> accepts, and the locale \<open>written_model\<close> (an accepted file whose writer keeps
  \<open>unk_only_root\<close>) is a sublocale of \<open>embedding_model\<close>.

  \<^bold>\<open>Bounds and hypotheses.\<close>  Files and inputs are shorter than \<open>2 ^ 64\<close> bytes.  \<open>tokenize_returns\<close>
  asks for inputs below \<open>2 ^ 25\<close> bytes, for which no capacity computation can overflow.  The
  hypothesis \<open>unk_only_root\<close> of the tokenizer's properties says that no entry of the two tries ends
  in the id of the unknown token; the writer of the files (\<^verbatim>\<open>lib/static_embeddings/format\<close>) keeps
  it, and \<^verbatim>\<open>validate\<close> does not check it.  A text has \<open>separators_kept\<close> when none
  of its code points is whitespace or punctuation and also one that cleaning deletes.  The tables of
  \<^verbatim>\<open>lib/static_embeddings/unicode_tables.rb\<close> have one such code point, U+0085: for them the condition says that it does not
  occur in the text (\<open>separators_kept_without_nel\<close>), and \<open>prefix_cuts_word_at_nel\<close> shows why the condition is there.  It is asked of the
  input in \<open>prefix_tokens_exact\<close>, and in the theorems on batches and on \<^verbatim>\<open>embed\<close> of the texts of more than 4096 bytes when there is a
  token limit (\<open>cuttable\<close>); shorter texts are never cut.
  The arithmetic is that of a build without fused operations and without wider intermediate results, on a little-endian host,
  and all NaN results are one NaN.  There is no fuel: every loop is a function with a termination proof.

  \<^bold>\<open>What is a parameter.\<close>  The interpreter (conversions, which may run Ruby code and change the objects of a call,
  the creation of strings, interrupt checks), the operating system (files, mappings, the processor's features) and
  the allocator.  A message is the format string of the source where the inserted text does not matter, before it is
  cut at 255 bytes.

  \<^bold>\<open>Not modelled.\<close>  The NEON loops, because the source does not fix their roundings; freeing on the ways out of a call, the
  marking and freeing functions of the garbage collector, and the registration of the methods, which only call
  the interpreter; the test program
  \<^verbatim>\<open>tools/memory_smoke.c\<close>; and the Ruby code under \<^verbatim>\<open>lib\<close>, which writes the files.  That a conversion closes the model in
  the middle of a call is covered for the struct and the mapping (theory \<open>Lifecycle\<close>), not for the result of the call.
\<close>

subsection \<open>Loading a model\<close>

text \<open>
  Property C1: opening a file never reads outside it.  Whatever the bytes are, and whatever the
  allocator answers, \<^verbatim>\<open>validate\<close> and everything it calls (the header, the sections, the hash
  table with its lookups, both tries, the normalization tables) read only inside the mapped file
  and inside the arrays they have sized.
\<close>

theorem load_memory_safe:
  assumes "length base < 2 ^ 64"
  shows "validate little_endian calloc_ok base \<noteq> Inl OutOfBounds"
  by (rule validate_safe_lemma [OF assms])

theorem load_memory_safe_witness:
  "length example_file < 2 ^ 64 \<and> validate True True example_file \<noteq> Inl OutOfBounds"
  using load_memory_safe [of example_file True True] by (simp add: example_length)

text \<open>
  Property C2: a file that is accepted gives a model with \<open>model_ok\<close>: the header values are within their documented ranges, the hash table has a power-of-two
  size and slots that point inside the string blob, both tries have all edges and tokens in range
  and strictly sorted, the normalization tables are sorted and disjoint with their fast tables
  filled, and the embedding matrix has one row for every token id.  What only the writer of the files keeps
  is not part of it: that no trie entry is the unknown token (\<open>unk_only_root\<close>), and that no separator
  is removed by cleaning (\<open>separators_kept\<close>, which is a condition on each text).
\<close>

theorem load_model_ok:
  assumes "validate little_endian calloc_ok base = Inr m" and "length base < 2 ^ 64"
  shows "model_ok m"
  by (rule validate_Inr(1) [OF assms])

theorem load_model_ok_witness:
  "validate True True example_file = Inr example_model \<and> model_ok example_model"
  using load_model_ok [OF example_validate] by (simp add: example_validate example_length)

text \<open>
  Property C24: in an accepted file the seven sections lie inside the file, start at aligned offsets
  behind the header, and no two of them share a byte.
\<close>

theorem load_sections_disjoint:
  assumes "validate little_endian calloc_ok base = Inr m" and "length base < 2 ^ 64"
  shows "\<exists>secs. read_sections base = Inr secs \<and> length secs = 7 \<and>
    (\<forall>s\<in>set secs. unat (sec_off s) + unat (sec_size s) \<le> length base \<and>
       (section_present s \<longrightarrow> 320 \<le> unat (sec_off s) \<and> unat (sec_off s) mod 64 = 0)) \<and>
    sorted_wrt sections_apart secs"
proof -
  obtain secs where secs: "read_sections base = Inr secs" using validate_Inr(5) [OF assms] by blast
  note s = read_sections_Inr [OF secs assms(2)]
  have "320 \<le> unat (sec_off x) \<and> unat (sec_off x) mod 64 = 0"
    if x: "x \<in> set secs" "section_present x" for x
  proof -
    obtain elem where "section_ok x (word_of_nat (length base)) elem"
      using s(4) x(1) by (auto simp: list_all2_conv_all_nth in_set_conv_nth)
    from section_ok_bounds(2,3) [OF this assms(2) x(2)] show ?thesis by (rule conjI)
  qed
  with secs s(1,2,3) show ?thesis by blast
qed

theorem load_sections_disjoint_witness:
  "\<exists>secs. read_sections example_file = Inr secs \<and> length secs = 7 \<and> sorted_wrt sections_apart secs"
  using load_sections_disjoint [OF example_validate] by (auto simp: example_length)

text \<open>
  Property C23: in an accepted file the hash table is a bijection between its used slots and the
  token ids: the ids of the used slots are pairwise different and are exactly
  \<open>0, \<dots>, vocab_size - 1\<close>, every used slot is reached from its stored hash within the recorded
  number of probes, and \<^verbatim>\<open>[UNK]\<close> is found at the recorded id.
\<close>

theorem load_vocab_bijection:
  assumes "validate little_endian calloc_ok base = Inr m" and "length base < 2 ^ 64"
  shows "distinct (used_ids (md_vocab_hash m)) \<and>
    set (used_ids (md_vocab_hash m)) = {..<unat (mt_vocab_size (md_meta m))} \<and>
    (\<forall>i<length (md_vocab_hash m). slot_used (md_vocab_hash m ! i) \<longrightarrow>
      (\<exists>d<unat (mt_max_probe (md_meta m)).
        (unat (sl_hash (md_vocab_hash m ! i)) + d) mod length (md_vocab_hash m) = i)) \<and>
    se_vocab_lookup m unk_text = Inr (Some (mt_unk_id (md_meta m)))"
proof -
  note v = validate_Inr [OF assms]
  let ?s = "mt_hash_table_size (md_meta m)" and ?p = "mt_max_probe (md_meta m)"
  have hash: "hash_table_ok m" and p: "?p \<noteq> 0" using v(1) by (simp_all add: model_ok_def meta_ok_def)
  then have s: "?s \<noteq> 0" "?s AND (?s - 1) = 0" "length (md_vocab_hash m) = unat ?s"
    by (simp_all add: hash_table_ok_def Let_def)
  have "limits_from (?s - 1) ?p 0 (md_vocab_hash m) = Inr ()"
    using v(6) p by (simp add: validate_hash_probe_limits_def Let_def)
  then have reach: "\<exists>d. (d = 0 \<or> 1 + d \<le> unat ?p) \<and>
      (unat (sl_hash (md_vocab_hash m ! i)) + d) mod unat ?s = i"
    if "i < length (md_vocab_hash m)" "slot_used (md_vocab_hash m ! i)" for i
    using that limits_from_iff [OF s(1,2), of 0 "md_vocab_hash m" ?p] s(3) by simp
  have "0 < unat ?p" using p by (simp add: unat_gt_0)
  then have "\<exists>d<unat ?p. (unat (sl_hash (md_vocab_hash m ! i)) + d) mod length (md_vocab_hash m) = i"
    if "i < length (md_vocab_hash m)" "slot_used (md_vocab_hash m ! i)" for i
  proof -
    from reach [OF that] obtain d where d: "d = 0 \<or> 1 + d \<le> unat ?p"
      "(unat (sl_hash (md_vocab_hash m ! i)) + d) mod unat ?s = i" by blast
    then have "d < unat ?p" using \<open>0 < unat ?p\<close> by linarith
    with d(2) s(3) show ?thesis by auto
  qed
  moreover have "se_vocab_lookup m unk_text = Inr (Some (mt_unk_id (md_meta m)))"
    using vocab_lookup_eq [OF hash, of unk_text] v(4) by (simp add: unk_text_def)
  ultimately show ?thesis using v(2,3) by blast
qed

theorem load_vocab_bijection_witness:
  "set (used_ids (md_vocab_hash example_model)) = {..<4}"
  using load_vocab_bijection [OF example_validate]
  by (simp add: example_length example_model_def example_base_def example_meta_def)

text \<open>
  Property C25: the vocabulary lookup on a loaded model is total and sound: it never reads outside
  the table or the string blob, and an id it returns belongs to a used slot that stores exactly
  the string asked for, split between prefix and bytes in any way.
\<close>

theorem vocab_lookup_sound:
  assumes "model_ok m"
  shows "\<exists>r. se_vocab_lookup_piece m prefix bytes = Inr r \<and>
    (case r of None \<Rightarrow> True
     | Some tok \<Rightarrow> tok < mt_vocab_size (md_meta m) \<and>
         (\<exists>slot\<in>set (md_vocab_hash m). slot_used slot \<and> sl_token_id slot = tok \<and>
            slot_string m slot = prefix @ bytes))"
proof -
  have ok: "hash_table_ok m" using assms by (simp add: model_ok_def)
  have "case vocab_find m (prefix @ bytes) of None \<Rightarrow> True
     | Some tok \<Rightarrow> tok < mt_vocab_size (md_meta m) \<and>
         (\<exists>slot\<in>set (md_vocab_hash m). slot_used slot \<and> sl_token_id slot = tok \<and>
            slot_string m slot = prefix @ bytes)"
  proof (cases "vocab_find m (prefix @ bytes)")
    case (Some tok)
    from vocab_find_sound [OF ok Some] obtain slot where slot: "slot \<in> set (md_vocab_hash m)"
      "slot_used slot" "sl_token_id slot = tok" "slot_string m slot = prefix @ bytes" by blast
    moreover have "tok < mt_vocab_size (md_meta m)"
      using ok slot by (auto simp: hash_table_ok_def Let_def list_all_iff slot_ok_def)
    ultimately show ?thesis using Some by auto
  qed simp
  then show ?thesis using vocab_lookup_piece_eq [OF ok] by auto
qed

theorem vocab_lookup_sound_witness:
  "\<exists>r. se_vocab_lookup_piece example_model [0x23, 0x23] [0x62] = Inr r"
  using vocab_lookup_sound [OF example_model_ok, of "[0x23, 0x23]" "[0x62]"] by blast

text \<open>
  Property C21: the trie of a loaded model implements the finite map \<open>trie_word\<close>.  The longest
  match returns the longest non-empty prefix of the bytes that the map holds, with its token, and
  nothing when there is none, whichever of the five edge searches each node uses.
\<close>

theorem trie_longest_match_exact:
  assumes "trie_ok vocab_size t"
  shows "(se_trie_longest_match t bytes = Inr (Some (tok, l)) \<longleftrightarrow>
      0 < l \<and> l \<le> length bytes \<and> trie_word t (take l bytes) = Some tok \<and>
      (\<forall>l'. l < l' \<longrightarrow> l' \<le> length bytes \<longrightarrow> trie_word t (take l' bytes) = None)) \<and>
    (se_trie_longest_match t bytes = Inr None \<longleftrightarrow>
      (\<forall>l'. 0 < l' \<longrightarrow> l' \<le> length bytes \<longrightarrow> trie_word t (take l' bytes) = None))"
  unfolding longest_match_eq [OF assms] sum.inject longest_word_iff longest_word_None_iff by blast

theorem trie_longest_match_exact_witness:
  "se_trie_longest_match (md_root_trie example_model) [0x61, 0x62] = Inr (Some (2, 1))"
proof -
  have ok: "trie_ok 4 (md_root_trie example_model)"
    using example_model_ok by (simp add: model_ok_def example_model_def example_base_def example_meta_def)
  have "trie_word (md_root_trie example_model) [0x61] = Some 2"
    "trie_word (md_root_trie example_model) [0x61, 0x62] = None"
    by (simp_all add: example_model_def example_trie_def trie_word_def trie_step_def node_edges_def
        token_at_def Let_def)
  then show ?thesis
    using trie_longest_match_exact [OF ok, of "[0x61, 0x62]" 2 1]
    by (auto simp: less_Suc_eq_le le_Suc_eq)
qed

text \<open>
  Property C22: the six code point classes of the tokenizer are those of the model's tables.  The
  ASCII rules, the 256-entry fast tables and the binary searches agree with a linear search of the
  sorted tables for every code point, and none of them reads outside its table.
\<close>

theorem codepoint_classes_exact:
  assumes "norm_tables_ok (md_norm m)"
  shows "is_whitespace m cp = Inr (if cp < 0x80 then se_is_ascii_whitespace cp
           else range_mem (nt_whitespace (md_norm m)) cp) \<and>
    is_control m cp = Inr (if cp < 0x80 then ascii_control cp
           else range_mem (nt_control (md_norm m)) cp) \<and>
    is_punct m cp = Inr (if cp < 0x80 then se_is_ascii_punct cp
           else range_mem (nt_punct (md_norm m)) cp) \<and>
    is_mn m cp = Inr (range_mem (nt_mn (md_norm m)) cp) \<and>
    lower_entry m cp = Inr (map_find (nt_lower (md_norm m)) cp) \<and>
    nfd_entry m cp = Inr (map_find (nt_nfd (md_norm m)) cp)"
  using class_eqs [OF assms, of cp]
  by (simp add: whitespace_cp_def control_cp_def punct_cp_def mn_cp_def lower_cp_def nfd_cp_def)

theorem codepoint_classes_exact_witness:
  "is_mn example_model 0x301 = Inr True \<and> is_punct example_model 0x2014 = Inr True"
proof -
  have "norm_tables_ok (md_norm example_model)" using example_model_ok by (simp add: model_ok_def)
  from codepoint_classes_exact [OF this, of "0x301"] codepoint_classes_exact [OF this, of "0x2014"]
  show ?thesis
    by (simp add: example_model_def example_norm_def norm_fast_tables_def range_mem_def
        word_le_nat_alt)
qed

end
